(* ===== verification/Telo_Prelude.thy ===== *)
theory Telo_Prelude
  imports Main "HOL-Library.List_Lexorder" "HOL-Library.Monad_Syntax"
begin

text \<open>
  Shared ground of the development: the representation of the host language's strings, the
  collections of simplification rules the component theories feed, and the generic facts on
  lists and options that more than one component uses.

  A TypeScript string is a sequence of UTF-16 code units; it is modelled as a list of natural
  numbers, one per code unit, and \<open>js\<close> reads an ASCII literal as such a list. The order the
  host gives strings (\<open><\<close> and the default of \<open>sort()\<close>) is the lexicographic order
  of code units, which is the order of lists of the library theory List\_Lexorder.
\<close>

named_theorems cel_simps \<open>equations the proofs about the expression engine unfold together\<close>

type_synonym code_unit = nat

type_synonym jstring = "code_unit list"

definition js :: "string \<Rightarrow> jstring" where
  "js s = map of_char s"

lemma js_Nil [simp]: "js [] = []"
  by (simp add: js_def)

lemma js_Cons [simp]: "js (c # s) = of_char c # js s"
  by (simp add: js_def)

lemma js_append [simp]: "js (s @ t) = js s @ js t"
  by (simp add: js_def)

lemma js_inject [simp]: "js s = js t \<longleftrightarrow> s = t"
  by (simp add: js_def inj_map_eq_map [OF inj_of_char])

text \<open>Half-open ranges of code units, as every node and diagnostic carries them.\<close>

type_synonym source_range = "nat \<times> nat"

text \<open>\<open>slice(from, to)\<close> of the host language, for in-order bounds.\<close>

definition slice :: "'a list \<Rightarrow> nat \<Rightarrow> nat \<Rightarrow> 'a list" where
  "slice xs i j = take (j - i) (drop i xs)"

lemma length_slice [simp]: "length (slice xs i j) = min (j - i) (length xs - i)"
  by (simp add: slice_def)

text \<open>The element at an index, absent past the end: what an index read answers.\<close>

definition at_index :: "'a list \<Rightarrow> nat \<Rightarrow> 'a option" where
  "at_index xs i = (if i < length xs then Some (xs ! i) else None)"

lemma at_index_Nil [simp]: "at_index [] i = None"
  by (simp add: at_index_def)

lemma at_index_append: "at_index (xs @ ys) (length xs + i) = at_index ys i"
  by (simp add: at_index_def)

lemma at_index_append_left: "i < length xs \<Longrightarrow> at_index (xs @ ys) i = at_index xs i"
  by (simp add: at_index_def nth_append)

lemma at_index_drop: "at_index xs (n + i) = at_index (drop n xs) i"
  by (auto simp: at_index_def)

text \<open>The white space of the host's \<open>trim()\<close> and \<open>\s\<close>.\<close>

definition js_space :: "code_unit \<Rightarrow> bool" where
  "js_space c \<longleftrightarrow> (9 \<le> c \<and> c \<le> 13) \<or> c = 32 \<or> c = 160 \<or> c = 5760 \<or> (8192 \<le> c \<and> c \<le> 8202) \<or>
     c = 8232 \<or> c = 8233 \<or> c = 8239 \<or> c = 8287 \<or> c = 12288 \<or> c = 65279"

definition js_trim :: "jstring \<Rightarrow> jstring" where
  "js_trim t = rev (dropWhile js_space (rev (dropWhile js_space t)))"

text \<open>\<open>split\<close> on one code unit: always at least one piece, pieces may be empty.\<close>

fun split_on :: "(code_unit \<Rightarrow> bool) \<Rightarrow> jstring \<Rightarrow> jstring list" where
  "split_on p [] = [[]]"
| "split_on p (c # t) =
     (if p c then [] # split_on p t
      else case split_on p t of piece # pieces \<Rightarrow> (c # piece) # pieces | [] \<Rightarrow> [[c]])"

lemma split_on_nonempty [simp]: "split_on p t \<noteq> []"
  by (induction t) (auto split: list.splits)

definition join_with :: "code_unit \<Rightarrow> jstring list \<Rightarrow> jstring" where
  "join_with sep pieces = (case pieces of [] \<Rightarrow> [] | p # ps \<Rightarrow> p @ concat (map (\<lambda>q. sep # q) ps))"

lemma join_split_on: "join_with sep (split_on (\<lambda>c. c = sep) t) = t"
  by (induction t) (auto simp: join_with_def split: list.splits)

definition starts_with :: "jstring \<Rightarrow> jstring \<Rightarrow> bool" where
  "starts_with t p \<longleftrightarrow> take (length p) t = p"

text \<open>An element weighs no more than its list: what the recursions over nested lists rest on.\<close>

lemma size_list_mem: "x \<in> set xs \<Longrightarrow> f x \<le> size_list f xs"
  by (induction xs) auto

text \<open>
  A text written from pieces each of which may be refused: the first refusal, in order, or
  the pieces one after the other. \<open>separated\<close> puts a separator between them.
\<close>

fun pieces :: "('e + 'a list) list \<Rightarrow> 'e + 'a list" where
  "pieces [] = Inr []"
| "pieces (Inl e # rs) = Inl e"
| "pieces (Inr s # rs) = map_sum id (append s) (pieces rs)"

fun separated :: "'a \<Rightarrow> 'a list \<Rightarrow> 'a list" where
  "separated sep (x # y # ys) = x # sep # separated sep (y # ys)"
| "separated sep xs = xs"

lemma map_sum_id_Inr [simp]: "map_sum id f r = Inr s \<longleftrightarrow> (\<exists>t. r = Inr t \<and> s = f t)"
  by (cases r) auto

lemma pieces_Cons_Inr [simp]:
  "pieces (r # rs) = Inr s \<longleftrightarrow> (\<exists>t u. r = Inr t \<and> pieces rs = Inr u \<and> s = t @ u)"
  by (cases r; cases "pieces rs") auto

lemma pieces_append_Inr:
  "pieces (rs @ qs) = Inr s \<longleftrightarrow> (\<exists>t u. pieces rs = Inr t \<and> pieces qs = Inr u \<and> s = t @ u)"
  by (induction rs arbitrary: s) auto

text \<open>Truncating division of the host's \<open>BigInt\<close>: the quotient goes toward zero and
  the remainder takes the dividend's sign.\<close>

definition trunc_div :: "int \<Rightarrow> int \<Rightarrow> int" where
  "trunc_div a b = sgn a * sgn b * (\<bar>a\<bar> div \<bar>b\<bar>)"

definition trunc_mod :: "int \<Rightarrow> int \<Rightarrow> int" where
  "trunc_mod a b = sgn a * (\<bar>a\<bar> mod \<bar>b\<bar>)"

lemma trunc_div_mod: "trunc_div a b * b + trunc_mod a b = a"
proof -
  have *: "(\<bar>a\<bar> div \<bar>b\<bar>) * \<bar>b\<bar> + \<bar>a\<bar> mod \<bar>b\<bar> = \<bar>a\<bar>" by simp
  have "trunc_div a b * b + trunc_mod a b = sgn a * ((\<bar>a\<bar> div \<bar>b\<bar>) * (sgn b * b) + \<bar>a\<bar> mod \<bar>b\<bar>)"
    by (simp add: trunc_div_def trunc_mod_def algebra_simps)
  also have "sgn b * b = \<bar>b\<bar>" by (simp add: sgn_if)
  also have "sgn a * ((\<bar>a\<bar> div \<bar>b\<bar>) * \<bar>b\<bar> + \<bar>a\<bar> mod \<bar>b\<bar>) = a"
    by (simp only: *) (simp add: sgn_if)
  finally show ?thesis .
qed

lemma trunc_mod_bound: "b \<noteq> 0 \<Longrightarrow> \<bar>trunc_mod a b\<bar> < \<bar>b\<bar>"
  by (auto simp: trunc_mod_def abs_mult sgn_if)

lemma trunc_mod_sign: "trunc_mod a b = 0 \<or> sgn (trunc_mod a b) = sgn a"
proof -
  have "0 \<le> \<bar>a\<bar> mod \<bar>b\<bar>"
    by (cases "b = 0") auto
  then show ?thesis by (auto simp: trunc_mod_def sgn_mult sgn_1_pos le_less)
qed

lemma trunc_div_abs: "\<bar>trunc_div a b\<bar> = (if b = 0 then 0 else \<bar>a\<bar> div \<bar>b\<bar>)"
proof (cases "b = 0 \<or> a = 0")
  case True
  then show ?thesis by (auto simp: trunc_div_def)
next
  case False
  then have "0 \<le> \<bar>a\<bar> div \<bar>b\<bar>" by (simp add: pos_imp_zdiv_nonneg_iff)
  with False show ?thesis by (simp add: trunc_div_def abs_mult abs_sgn_eq)
qed

end
