(* ===== verification/Js_Number.thy ===== *)
theory Js_Number
  imports Telo_Prelude Complex_Main
begin

text \<open>
  The host language's \<open>number\<close>: an IEEE 754 double. A finite double is a sign, a mantissa
  and a binary exponent, with value \<open>(-1)^s * m * 2^e\<close>; every double has one canonical form
  (\<open>double_wf\<close>), so equality of the model is the host's \<open>Object.is\<close>: \<open>-0.0\<close> and \<open>0.0\<close>
  differ and \<open>NaN\<close> is itself.

  \<open>round_double\<close> is the rounding of an exact ratio to the nearest double, ties to even; reading a
  decimal text (\<open>Number(text)\<close>) rounds the value it writes, and writing a double
  (\<open>String(value)\<close>) searches the shortest digits that read back.
\<close>

section \<open>Doubles\<close>

datatype double = NaN | Infinity bool | Finite bool nat int

definition double_canonical :: "nat \<Rightarrow> int \<Rightarrow> bool" where
  "double_canonical m e \<longleftrightarrow>
     (e = -1074 \<and> m < 2 ^ 53) \<or> (2 ^ 52 \<le> m \<and> m < 2 ^ 53 \<and> -1074 < e \<and> e \<le> 971)"

fun double_wf :: "double \<Rightarrow> bool" where
  "double_wf (Finite s m e) = double_canonical m e"
| "double_wf _ = True"

text \<open>Unary minus, and \<open>value < 0 || Object.is(value, -0)\<close>.\<close>

fun double_neg :: "double \<Rightarrow> double" where
  "double_neg NaN = NaN"
| "double_neg (Infinity s) = Infinity (\<not> s)"
| "double_neg (Finite s m e) = Finite (\<not> s) m e"

fun double_negative :: "double \<Rightarrow> bool" where
  "double_negative NaN = False"
| "double_negative (Infinity s) = s"
| "double_negative (Finite s m e) = s"

definition double_abs :: "double \<Rightarrow> double" where
  "double_abs d = (if double_negative d then double_neg d else d)"

lemma double_neg_neg [simp]: "double_neg (double_neg d) = d"
  by (cases d) auto

lemma double_wf_neg [simp]: "double_wf (double_neg d) = double_wf d"
  by (cases d) auto

lemma double_wf_abs [simp]: "double_wf (double_abs d) = double_wf d"
  by (simp add: double_abs_def)

text \<open>Exact comparison of finite doubles: both mantissas at the smaller exponent.\<close>

fun signed_mantissa :: "bool \<Rightarrow> nat \<Rightarrow> int" where
  "signed_mantissa s m = (if s then - int m else int m)"

fun double_less :: "double \<Rightarrow> double \<Rightarrow> bool" where
  "double_less NaN _ = False"
| "double_less _ NaN = False"
| "double_less (Infinity s) (Infinity t) = (s \<and> \<not> t)"
| "double_less (Infinity s) (Finite _ _ _) = s"
| "double_less (Finite _ _ _) (Infinity t) = (\<not> t)"
| "double_less (Finite s m e) (Finite t k f) =
     (let b = min e f
      in signed_mantissa s m * 2 ^ nat (e - b) < signed_mantissa t k * 2 ^ nat (f - b))"

text \<open>The host's \<open>===\<close>: the two zeros are one, \<open>NaN\<close> is never equal.\<close>

fun double_eq :: "double \<Rightarrow> double \<Rightarrow> bool" where
  "double_eq NaN _ = False"
| "double_eq _ NaN = False"
| "double_eq (Infinity s) (Infinity t) = (s = t)"
| "double_eq (Infinity s) (Finite _ _ _) = False"
| "double_eq (Finite _ _ _) (Infinity t) = False"
| "double_eq (Finite s m e) (Finite t k f) =
     (let b = min e f
      in signed_mantissa s m * 2 ^ nat (e - b) = signed_mantissa t k * 2 ^ nat (f - b))"

section \<open>Rounding\<close>

fun bit_length :: "nat \<Rightarrow> nat" where
  "bit_length n = (if n = 0 then 0 else Suc (bit_length (n div 2)))"

declare bit_length.simps [simp del]

text \<open>A ratio divided by \<open>2 ^ e\<close>, as a ratio.\<close>

definition scaled :: "nat \<Rightarrow> nat \<Rightarrow> int \<Rightarrow> nat \<times> nat" where
  "scaled p q e = (if 0 \<le> e then (p, q * 2 ^ nat e) else (p * 2 ^ nat (- e), q))"

definition at_least_pow2 :: "nat \<times> nat \<Rightarrow> nat \<Rightarrow> bool" where
  "at_least_pow2 r k \<longleftrightarrow> snd r * 2 ^ k \<le> fst r"

text \<open>The exponent at which the ratio has a mantissa of 53 bits.\<close>

definition binary_exponent :: "nat \<Rightarrow> nat \<Rightarrow> int" where
  "binary_exponent p q =
     (let e = int (bit_length p) - int (bit_length q) - 53
      in if at_least_pow2 (scaled p q e) 53 then e + 1 else e)"

definition round_half_even :: "nat \<times> nat \<Rightarrow> nat" where
  "round_half_even r =
     (let d = fst r div snd r; m = fst r mod snd r
      in if 2 * m > snd r \<or> (2 * m = snd r \<and> odd d) then d + 1 else d)"

text \<open>The double nearest to \<open>(-1)^s * p / q\<close>.\<close>

definition round_double :: "bool \<Rightarrow> nat \<Rightarrow> nat \<Rightarrow> double" where
  "round_double s p q =
     (if p = 0 then Finite s 0 (-1074)
      else (let e = max (binary_exponent p q) (-1074);
                m = round_half_even (scaled p q e);
                (m', e') = (if m = 2 ^ 53 then (2 ^ 52, e + 1) else (m, e))
            in if e' > 971 then Infinity s else Finite s m' e'))"

lemma round_double_not_NaN [simp]: "round_double s p q \<noteq> NaN"
  unfolding round_double_def Let_def by (simp only: split: prod.split if_split) simp

text \<open>The exact ratio of \<open>m * 2 ^ e\<close>.\<close>

definition dyadic :: "nat \<Rightarrow> int \<Rightarrow> nat \<times> nat" where
  "dyadic m e = (if 0 \<le> e then (m * 2 ^ nat e, 1) else (m, 2 ^ nat (- e)))"

definition real_ratio :: "nat \<times> nat \<Rightarrow> real" where
  "real_ratio r = real (fst r) / real (snd r)"

lemma real_ratio_scaled: "real_ratio (scaled p q e) = real_ratio (p, q) / 2 powi e"
  by (simp add: real_ratio_def scaled_def power_int_def divide_simps)

lemma real_ratio_dyadic: "real_ratio (dyadic m e) = real m * 2 powi e"
  by (simp add: real_ratio_def dyadic_def power_int_def divide_simps)

lemma snd_scaled_pos [simp]: "0 < q \<Longrightarrow> 0 < snd (scaled p q e)"
  by (simp add: scaled_def)

lemma snd_dyadic_pos [simp]: "0 < snd (dyadic m e)"
  by (simp add: dyadic_def)

lemma at_least_pow2_iff: "0 < snd r \<Longrightarrow> at_least_pow2 r k \<longleftrightarrow> 2 ^ k \<le> real_ratio r"
proof -
  have "real (snd r) * 2 ^ k = real (snd r * 2 ^ k)" by simp
  then show "0 < snd r \<Longrightarrow> ?thesis"
    by (simp only: at_least_pow2_def real_ratio_def pos_le_divide_eq mult.commute of_nat_0_less_iff
        of_nat_le_iff)
qed

lemma bit_length_bounds: "0 < n \<Longrightarrow> 2 ^ (bit_length n - 1) \<le> n \<and> n < 2 ^ bit_length n"
proof (induction n rule: less_induct)
  case (less n)
  show ?case
  proof (cases "n = 1")
    case True
    then show ?thesis by (simp add: bit_length.simps)
  next
    case False
    with less.prems have h: "0 < n div 2" "n div 2 < n" by auto
    from less.IH [OF h(2) h(1)] have IH: "2 ^ (bit_length (n div 2) - 1) \<le> n div 2"
      "n div 2 < 2 ^ bit_length (n div 2)" by auto
    from h(1) have b: "bit_length (n div 2) = Suc (bit_length (n div 2) - 1)"
      by (simp add: bit_length.simps [of "n div 2"])
    have "bit_length n = Suc (bit_length (n div 2))" using less.prems by (simp add: bit_length.simps [of n])
    with IH b show ?thesis by (metis Suc_1 diff_Suc_1 less_mult_imp_div_less mult.commute
        power_Suc power_Suc2 div_less_iff_less_mult less_eq_div_iff_mult_less_eq pos2)
  qed
qed

lemma binary_exponent_unique:
  fixes x :: real
  assumes "2 ^ 52 \<le> x / 2 powi e" "x / 2 powi e < 2 ^ 53"
    and "2 ^ 52 \<le> x / 2 powi f" "x / 2 powi f < 2 ^ 53"
  shows "e = f"
proof -
  have *: False if "e < f" "2 ^ 52 \<le> x / 2 powi f" "x / 2 powi e < 2 ^ 53" for e f :: int
  proof -
    from that(1) have "(2::real) powi (e + 1) \<le> 2 powi f" by (intro power_int_increasing) auto
    then have "2 * 2 powi e \<le> (2::real) powi f" by (simp add: power_int_add)
    moreover from that(2) have "2 ^ 52 * 2 powi f \<le> x" by (simp add: divide_simps)
    moreover from that(3) have "x < 2 ^ 53 * 2 powi e" by (simp add: divide_simps)
    ultimately show False by simp
  qed
  from * [of e f] * [of f e] assms show ?thesis by (cases e f rule: linorder_cases) auto
qed

lemma binary_exponent_bounds:
  assumes "0 < p" "0 < q"
  shows "2 ^ 52 \<le> real_ratio (p, q) / 2 powi binary_exponent p q"
    and "real_ratio (p, q) / 2 powi binary_exponent p q < 2 ^ 53"
proof -
  define e where "e = int (bit_length p) - int (bit_length q) - 53"
  define x where "x = real_ratio (p, q)"
  from bit_length_bounds [OF assms(1)] have p: "2 ^ (bit_length p - 1) \<le> real p" "real p < 2 ^ bit_length p"
    by (metis of_nat_le_iff of_nat_numeral of_nat_power) (metis bit_length_bounds assms(1) of_nat_less_iff of_nat_numeral of_nat_power)
  from bit_length_bounds [OF assms(2)] have q: "2 ^ (bit_length q - 1) \<le> real q" "real q < 2 ^ bit_length q"
    by (metis of_nat_le_iff of_nat_numeral of_nat_power) (metis bit_length_bounds assms(2) of_nat_less_iff of_nat_numeral of_nat_power)
  have b: "0 < bit_length p" "0 < bit_length q" using assms by (simp_all add: bit_length.simps)
  have pp: "2 powi (int (bit_length p) - 1) \<le> real p" "real p < 2 powi int (bit_length p)"
    using p b by (simp_all add: power_int_def nat_diff_distrib)
  have qq: "2 powi (int (bit_length q) - 1) \<le> real q" "real q < 2 powi int (bit_length q)"
    using q b by (simp_all add: power_int_def nat_diff_distrib)
  have lo: "2 ^ 52 < x / 2 powi e"
  proof -
    have "2 ^ 52 * (2 powi e * real q) < 2 ^ 52 * (2 powi e * 2 powi int (bit_length q))"
      using qq by simp
    also have "\<dots> = 2 powi (int (bit_length p) - 1)"
      by (simp add: e_def power_int_diff power_int_add)
    also have "\<dots> \<le> real p" by (rule pp)
    finally show ?thesis using assms by (simp add: x_def real_ratio_def divide_simps mult_ac)
  qed
  have hi: "x / 2 powi e < 2 * 2 ^ 53"
  proof -
    have "real p < 2 powi int (bit_length p)" by (rule pp)
    also have "\<dots> = 2 * 2 ^ 53 * (2 powi e * 2 powi (int (bit_length q) - 1))"
      by (simp add: e_def power_int_diff power_int_add)
    also have "\<dots> \<le> 2 * 2 ^ 53 * (2 powi e * real q)" using qq by simp
    finally show ?thesis using assms by (simp add: x_def real_ratio_def divide_simps mult_ac)
  qed
  have t: "at_least_pow2 (scaled p q e) 53 \<longleftrightarrow> 2 ^ 53 \<le> x / 2 powi e"
    using assms by (simp add: at_least_pow2_iff real_ratio_scaled x_def)
  have be: "binary_exponent p q = (if 2 ^ 53 \<le> x / 2 powi e then e + 1 else e)"
    unfolding binary_exponent_def Let_def using t by (simp add: e_def)
  have s: "x / 2 powi (e + 1) = (x / 2 powi e) / 2" by (simp add: power_int_add)
  have "2 ^ 52 \<le> x / 2 powi binary_exponent p q \<and> x / 2 powi binary_exponent p q < 2 ^ 53"
  proof (cases "2 ^ 53 \<le> x / 2 powi e")
    case True
    then have "binary_exponent p q = e + 1" by (simp only: be if_True)
    with True hi show ?thesis by (simp only: s) simp
  next
    case False
    then have "binary_exponent p q = e" by (simp only: be if_False)
    with False lo show ?thesis by simp
  qed
  then show "2 ^ 52 \<le> real_ratio (p, q) / 2 powi binary_exponent p q"
    and "real_ratio (p, q) / 2 powi binary_exponent p q < 2 ^ 53"
    by (simp_all add: x_def)
qed

lemma round_half_even_exact: "0 < snd r \<Longrightarrow> real_ratio r = real m \<Longrightarrow> round_half_even r = m"
proof -
  assume r: "0 < snd r" "real_ratio r = real m"
  then have "real (fst r) = real (m * snd r)" by (simp add: real_ratio_def divide_simps)
  then have "fst r = m * snd r" by (metis of_nat_eq_iff)
  with r show ?thesis by (simp add: round_half_even_def Let_def)
qed

text \<open>Rounding the exact value of a double gives the double back, however the ratio is written.\<close>

lemma round_double_exact:
  assumes wf: "double_canonical m e" and q: "0 < q" and x: "real_ratio (p, q) = real m * 2 powi e"
  shows "round_double s p q = Finite s m e"
proof (cases "m = 0")
  case True
  with x q have "p = 0" by (simp add: real_ratio_def)
  moreover from wf True have "e = -1074" by (auto simp: double_canonical_def)
  ultimately show ?thesis using True by (simp add: round_double_def)
next
  case False
  then have "0 < real m * 2 powi e" by simp
  with x have "0 < real_ratio (p, q)" by simp
  then have p: "0 < p" by (auto simp: real_ratio_def zero_less_divide_iff)
  note b = binary_exponent_bounds [OF p q]
  have me: "max (binary_exponent p q) (-1074) = e"
  proof (cases "2 ^ 52 \<le> m")
    case True
    have m: "real_ratio (p, q) / 2 powi e = real m" using x by simp
    have "(2::real) ^ 52 \<le> real m" using True by (metis of_nat_le_iff of_nat_numeral of_nat_power)
    moreover have "real m < 2 ^ 53" using wf unfolding double_canonical_def
      by (metis of_nat_less_iff of_nat_numeral of_nat_power)
    ultimately have "binary_exponent p q = e"
      using binary_exponent_unique [OF b, of e] by (simp add: m)
    then show ?thesis using wf by (auto simp: double_canonical_def)
  next
    case False
    with wf have e: "e = -1074" by (auto simp: double_canonical_def)
    from False have "real m < 2 ^ 52" by (metis not_le of_nat_less_iff of_nat_numeral of_nat_power)
    with x have "real_ratio (p, q) < 2 ^ 52 * 2 powi e" by simp
    moreover have "2 ^ 52 * 2 powi binary_exponent p q \<le> real_ratio (p, q)"
      using b(1) by (simp add: divide_simps)
    ultimately have "(2::real) powi binary_exponent p q < 2 powi e" by simp
    then have "binary_exponent p q < e" using power_int_increasing [of e "binary_exponent p q" "2::real"]
      by (meson linorder_not_le not_less one_le_numeral)
    with e show ?thesis by simp
  qed
  have "round_half_even (scaled p q e) = m"
    by (rule round_half_even_exact) (use q x in \<open>simp_all add: real_ratio_scaled\<close>)
  moreover have "m \<noteq> 2 ^ 53" "e \<le> 971" using wf by (auto simp: double_canonical_def)
  ultimately show ?thesis using p me by (simp add: round_double_def Let_def)
qed

text \<open>Rounding depends on the value of the ratio only.\<close>

lemma round_half_even_ratio:
  assumes "0 < snd r" "0 < snd t" "real_ratio r = real_ratio t"
  shows "round_half_even r = round_half_even t"
proof -
  have *: "round_half_even r =
      (let d = nat \<lfloor>real_ratio r\<rfloor>
       in if 2 * (real_ratio r - real d) > 1 \<or> (2 * (real_ratio r - real d) = 1 \<and> odd d) then d + 1 else d)"
    if r: "0 < snd r" for r
  proof -
    have d: "nat \<lfloor>real_ratio r\<rfloor> = fst r div snd r"
      by (simp add: real_ratio_def floor_divide_of_nat_eq)
    have m: "real (fst r mod snd r) = (real_ratio r - real (fst r div snd r)) * real (snd r)"
    proof -
      have "real (fst r) = real (fst r div snd r * snd r + fst r mod snd r)" by simp
      then have "real (fst r) = real (fst r div snd r) * real (snd r) + real (fst r mod snd r)"
        by (simp only: of_nat_add of_nat_mult)
      moreover have "real_ratio r * real (snd r) = real (fst r)" using r by (simp add: real_ratio_def)
      ultimately show ?thesis by (simp add: left_diff_distrib)
    qed
    let ?y = "real_ratio r - real (fst r div snd r)"
    have g: "2 * (fst r mod snd r) > snd r \<longleftrightarrow> 2 * ?y > 1"
    proof -
      have "2 * (fst r mod snd r) > snd r \<longleftrightarrow> 2 * real (fst r mod snd r) > real (snd r)" by linarith
      also have "\<dots> \<longleftrightarrow> (2 * ?y) * real (snd r) > 1 * real (snd r)" by (simp only: m) (simp add: mult_ac)
      finally show ?thesis using r by (simp only: mult_less_cancel_right_disj) simp
    qed
    have e: "2 * (fst r mod snd r) = snd r \<longleftrightarrow> 2 * ?y = 1"
    proof -
      have "2 * (fst r mod snd r) = snd r \<longleftrightarrow> 2 * real (fst r mod snd r) = real (snd r)" by linarith
      also have "\<dots> \<longleftrightarrow> (2 * ?y) * real (snd r) = 1 * real (snd r)" by (simp only: m) (simp add: mult_ac)
      finally show ?thesis using r by (simp only: mult_cancel_right) simp
    qed
    show ?thesis unfolding round_half_even_def Let_def d using g e by simp
  qed
  show ?thesis unfolding * [OF assms(1)] * [OF assms(2)] assms(3) ..
qed

lemma round_double_ratio:
  assumes q: "0 < q" "0 < q'" and eq: "real_ratio (p, q) = real_ratio (p', q')"
  shows "round_double s p q = round_double s p' q'"
proof (cases "p = 0")
  case True
  with q eq have "p' = 0" by (simp add: real_ratio_def)
  with True show ?thesis by (simp add: round_double_def)
next
  case False
  then have p: "0 < p" by simp
  with q have "0 < real_ratio (p, q)" by (simp add: real_ratio_def)
  then have p': "0 < p'" unfolding eq using q by (auto simp: real_ratio_def zero_less_divide_iff)
  from binary_exponent_unique [OF binary_exponent_bounds [OF p q(1)]
      binary_exponent_bounds [OF p' q(2), folded eq]]
  have be: "binary_exponent p q = binary_exponent p' q'" .
  have "round_half_even (scaled p q e) = round_half_even (scaled p' q' e)" for e
    by (rule round_half_even_ratio) (use q eq in \<open>simp_all add: real_ratio_scaled\<close>)
  with be p p' show ?thesis by (simp add: round_double_def)
qed

text \<open>A ratio past every double rounds to an infinity.\<close>

lemma round_double_overflow:
  assumes "0 < p" "0 < q" and big: "2 ^ 1024 \<le> real_ratio (p, q)"
  shows "round_double s p q = Infinity s"
proof -
  define e where "e = binary_exponent p q"
  have "real_ratio (p, q) < 2 ^ 53 * 2 powi e"
    using binary_exponent_bounds(2) [OF assms(1,2)] by (simp add: e_def divide_simps)
  with big have "(2::real) ^ 53 * 2 ^ 971 < 2 ^ 53 * 2 powi e" by (simp flip: power_add)
  then have "(2::real) powi 971 < 2 powi e" by (simp add: power_int_def)
  then have "971 < e" using power_int_increasing [of e 971 "2::real"] by (meson linorder_not_le not_less one_le_numeral)
  then show ?thesis using assms(1) by (simp add: round_double_def Let_def flip: e_def)
qed

section \<open>Decimal text\<close>

text \<open>The digit class of the lexer and of the host's \<open>\d\<close>.\<close>

definition isDigit :: "code_unit \<Rightarrow> bool" where
  "isDigit ch \<longleftrightarrow> 48 \<le> ch \<and> ch \<le> 57"

fun digits_of :: "nat \<Rightarrow> jstring" where
  "digits_of n = (if n < 10 then [48 + n] else digits_of (n div 10) @ [48 + n mod 10])"

declare digits_of.simps [simp del]

definition value_of :: "jstring \<Rightarrow> nat" where
  "value_of ds = foldl (\<lambda>v c. 10 * v + (c - 48)) 0 ds"

lemma foldl_digits: "foldl (\<lambda>v c. 10 * v + (c - 48)) a ds = a * 10 ^ length ds + value_of ds"
proof (induction ds arbitrary: a)
  case (Cons d ds)
  show ?case
    using Cons [of "10 * a + (d - 48)"] Cons [of "d - 48"] by (simp add: value_of_def algebra_simps)
qed (simp add: value_of_def)

lemma value_of_append: "value_of (xs @ ys) = value_of xs * 10 ^ length ys + value_of ys"
  using foldl_digits [of "value_of xs" ys] by (simp add: value_of_def)

lemma value_of_zeros [simp]: "value_of (replicate n 48) = 0"
  by (induction n) (simp_all add: value_of_def)

lemma value_of_Nil [simp]: "value_of [] = 0"
  by (simp add: value_of_def)

lemma value_of_single [simp]: "value_of [c] = c - 48"
  by (simp add: value_of_def)

lemma value_of_digits_of [simp]: "value_of (digits_of n) = n"
proof (induction n rule: digits_of.induct)
  case (1 n)
  then show ?case
    by (cases "n < 10") (simp_all add: digits_of.simps [of n] value_of_append)
qed

lemma digits_of_digits: "list_all isDigit (digits_of n)"
proof (induction n rule: digits_of.induct)
  case (1 n)
  have "n mod 10 < 10" by simp
  then have "n mod 10 \<le> 9" by linarith
  with 1 show ?case
    by (cases "n < 10") (simp_all add: digits_of.simps [of n] isDigit_def)
qed

lemma digits_of_nonempty [simp]: "digits_of n \<noteq> []"
  by (simp add: digits_of.simps [of n])

text \<open>Reading \<open>digits[.digits][e[+-]digits]\<close>: the texts of numbers the programs reads.\<close>

definition span_digits :: "jstring \<Rightarrow> jstring \<times> jstring" where
  "span_digits t = (takeWhile isDigit t, dropWhile isDigit t)"

definition exponent_digits :: "jstring \<Rightarrow> nat option" where
  "exponent_digits ds = (if ds \<noteq> [] \<and> list_all isDigit ds then Some (value_of ds) else None)"

definition read_exponent :: "jstring \<Rightarrow> int option" where
  "read_exponent t =
     (if t = [] then Some 0
      else if hd t = 101 \<or> hd t = 69 then
        (if tl t \<noteq> [] \<and> hd (tl t) = 45 then map_option (\<lambda>n. - int n) (exponent_digits (tl (tl t)))
         else if tl t \<noteq> [] \<and> hd (tl t) = 43 then map_option int (exponent_digits (tl (tl t)))
         else map_option int (exponent_digits (tl t)))
      else None)"

definition decimal_ratio :: "nat \<Rightarrow> int \<Rightarrow> nat \<times> nat" where
  "decimal_ratio n k = (if 0 \<le> k then (n * 10 ^ nat k, 1) else (n, 10 ^ nat (- k)))"

definition number_of_text :: "jstring \<Rightarrow> double" where
  "number_of_text t =
     (let (whole, r) = span_digits t;
          (fraction, r') = (if r \<noteq> [] \<and> hd r = 46 then span_digits (tl r) else ([], r))
      in if whole @ fraction = [] then NaN
         else (case read_exponent r' of
            None \<Rightarrow> NaN
          | Some e \<Rightarrow>
              let (p, q) = decimal_ratio (value_of (whole @ fraction)) (e - int (length fraction))
              in round_double False p q))"

lemma real_ratio_decimal: "real_ratio (decimal_ratio n k) = real n * 10 powi k"
  by (simp add: real_ratio_def decimal_ratio_def power_int_def divide_simps)

lemma snd_decimal_pos [simp]: "0 < snd (decimal_ratio n k)"
  by (simp add: decimal_ratio_def)

lemma fst_decimal_pos: "0 < n \<Longrightarrow> 0 < fst (decimal_ratio n k)"
  by (simp add: decimal_ratio_def)

lemma span_digits_append:
  "list_all isDigit ds \<Longrightarrow> r = [] \<or> \<not> isDigit (hd r) \<Longrightarrow> span_digits (ds @ r) = (ds, r)"
proof (induction ds)
  case Nil
  then show ?case by (cases r) (auto simp: span_digits_def)
qed (auto simp: span_digits_def)

text \<open>The four shapes the host writes a number in, read back.\<close>

lemma number_of_whole:
  assumes "list_all isDigit ds" "ds \<noteq> []"
  shows "number_of_text ds = round_double False (value_of ds) 1"
  using span_digits_append [of ds "[]"] assms
  by (simp add: number_of_text_def read_exponent_def decimal_ratio_def)

lemma number_of_fraction:
  assumes "list_all isDigit ws" "list_all isDigit fs" "ws \<noteq> []"
  shows "number_of_text (ws @ 46 # fs) =
    (let (p, q) = decimal_ratio (value_of (ws @ fs)) (- int (length fs)) in round_double False p q)"
  using span_digits_append [of ws "46 # fs"] span_digits_append [of fs "[]"] assms
  by (simp add: number_of_text_def read_exponent_def isDigit_def)

definition exponent_text :: "int \<Rightarrow> jstring" where
  "exponent_text e = [101, if e < 0 then 45 else 43] @ digits_of (nat \<bar>e\<bar>)"

lemma read_exponent_text: "read_exponent (exponent_text e) = Some e"
  using digits_of_digits [of "nat \<bar>e\<bar>"]
  by (simp add: read_exponent_def exponent_text_def exponent_digits_def)

lemma number_of_exponent:
  assumes "list_all isDigit ws" "ws \<noteq> []"
  shows "number_of_text (ws @ exponent_text e) =
    (let (p, q) = decimal_ratio (value_of ws) e in round_double False p q)"
proof -
  have "span_digits (ws @ exponent_text e) = (ws, exponent_text e)"
    by (rule span_digits_append [OF assms(1)]) (simp add: exponent_text_def isDigit_def)
  moreover have "hd (exponent_text e) \<noteq> 46" by (simp add: exponent_text_def)
  ultimately show ?thesis using assms by (simp add: number_of_text_def read_exponent_text)
qed

lemma number_of_fraction_exponent:
  assumes "list_all isDigit ws" "list_all isDigit fs" "ws \<noteq> []"
  shows "number_of_text (ws @ 46 # fs @ exponent_text e) =
    (let (p, q) = decimal_ratio (value_of (ws @ fs)) (e - int (length fs)) in round_double False p q)"
proof -
  have "span_digits (ws @ 46 # fs @ exponent_text e) = (ws, 46 # fs @ exponent_text e)"
    by (rule span_digits_append [OF assms(1)]) (simp add: isDigit_def)
  moreover have "span_digits (fs @ exponent_text e) = (fs, exponent_text e)"
    by (rule span_digits_append [OF assms(2)]) (simp add: exponent_text_def isDigit_def)
  ultimately show ?thesis using assms by (simp add: number_of_text_def read_exponent_text)
qed

text \<open>The equations that evaluate the reading of a concrete text.\<close>

lemmas number_eval = number_of_text_def span_digits_def read_exponent_def exponent_digits_def
  decimal_ratio_def isDigit_def round_double_def binary_exponent_def bit_length.simps scaled_def
  at_least_pow2_def round_half_even_def value_of_def Let_def

lemma number_of_0: "number_of_text [48] = Finite False 0 (-1074)"
  by (simp add: number_eval)

lemma number_of_1: "number_of_text [49] = Finite False 4503599627370496 (-52)"
  by (simp add: number_eval)

section \<open>The text of a number\<close>

text \<open>
  \<open>String(value)\<close>: with \<open>value = 0.d1 d2 ... dk * 10 ^ n\<close> for the shortest digits that read
  back, the closest of them where two of that length do. Seventeen digits are always enough;
  past them the search falls back on the exact decimal expansion, so that what it answers reads
  back without that fact.
\<close>

definition reads_back :: "nat \<Rightarrow> int \<Rightarrow> nat \<Rightarrow> int \<Rightarrow> bool" where
  "reads_back m e c k \<longleftrightarrow> (let (p, q) = decimal_ratio c k in round_double False p q = Finite False m e)"

text \<open>The \<open>n\<close> with \<open>10 ^ (n - 1) \<le> p / q < 10 ^ n\<close>.\<close>

fun decimal_shift :: "nat \<Rightarrow> nat \<Rightarrow> nat \<Rightarrow> nat \<Rightarrow> int" where
  "decimal_shift 0 p q k = - int k"
| "decimal_shift (Suc fuel) p q k = (if q \<le> p then 1 - int k else decimal_shift fuel (p * 10) q (k + 1))"

definition decimal_point :: "nat \<Rightarrow> nat \<Rightarrow> int" where
  "decimal_point p q = (if q \<le> p then int (length (digits_of (p div q))) else decimal_shift 400 p q 0)"

definition nearest_decimals :: "nat \<times> nat \<Rightarrow> int \<Rightarrow> nat list" where
  "nearest_decimals r k =
     (let (a, b) = (if 0 \<le> k then (fst r * 10 ^ nat k, snd r) else (fst r, snd r * 10 ^ nat (- k)));
          d = a div b
      in if 2 * (a mod b) \<le> b then [d, d + 1] else [d + 1, d])"

fun shortest_from :: "nat \<Rightarrow> nat \<Rightarrow> nat \<Rightarrow> int \<Rightarrow> int \<Rightarrow> nat \<times> int" where
  "shortest_from 0 k m e n = (if 0 \<le> e then (m * 2 ^ nat e, 0) else (m * 5 ^ nat (- e), e))"
| "shortest_from (Suc fuel) k m e n =
     (case find (\<lambda>c. reads_back m e c (n - int k)) (nearest_decimals (dyadic m e) (int k - n)) of
        Some c \<Rightarrow> (c, n - int k)
      | None \<Rightarrow> shortest_from fuel (k + 1) m e n)"

definition strip_zeros :: "jstring \<Rightarrow> jstring" where
  "strip_zeros ds = rev (dropWhile (\<lambda>c. c = 48) (rev ds))"

definition format_digits :: "jstring \<Rightarrow> int \<Rightarrow> jstring" where
  "format_digits ds n =
     (let k = int (length ds)
      in if k \<le> n \<and> n \<le> 21 then ds @ replicate (nat (n - k)) 48
         else if 0 < n \<and> n \<le> 21 then take (nat n) ds @ 46 # drop (nat n) ds
         else if -6 < n \<and> n \<le> 0 then [48] @ 46 # replicate (nat (- n)) 48 @ ds
         else if k = 1 then ds @ exponent_text (n - 1)
         else take 1 ds @ 46 # drop 1 ds @ exponent_text (n - 1))"

definition finite_text :: "nat \<Rightarrow> int \<Rightarrow> jstring" where
  "finite_text m e =
     (if m = 0 then js ''0''
      else let (p, q) = dyadic m e;
               (c, k) = shortest_from 17 1 m e (decimal_point p q);
               ds = digits_of c
           in format_digits (strip_zeros ds) (k + int (length ds)))"

fun string_of_double :: "double \<Rightarrow> jstring" where
  "string_of_double NaN = js ''NaN''"
| "string_of_double (Infinity s) = (if s then js ''-Infinity'' else js ''Infinity'')"
| "string_of_double (Finite s m e) = (if s \<and> m \<noteq> 0 then 45 # finite_text m e else finite_text m e)"

lemma decimal_round:
  "real_ratio (p, q) = real c * 10 powi k \<Longrightarrow> 0 < q \<Longrightarrow>
     reads_back m e c k \<longleftrightarrow> round_double False p q = Finite False m e"
  using round_double_ratio [of q "snd (decimal_ratio c k)" p "fst (decimal_ratio c k)" False]
  by (simp add: reads_back_def real_ratio_decimal case_prod_unfold Let_def)

lemma reads_back_value:
  assumes "real c * 10 powi k = real c' * 10 powi k'"
  shows "reads_back m e c k \<longleftrightarrow> reads_back m e c' k'"
proof -
  let ?r = "decimal_ratio c' k'"
  have "reads_back m e c k \<longleftrightarrow> round_double False (fst ?r) (snd ?r) = Finite False m e"
    by (rule decimal_round) (simp_all add: real_ratio_decimal assms)
  then show ?thesis by (simp add: reads_back_def case_prod_unfold Let_def)
qed

lemma shortest_from_reads_back:
  assumes "double_canonical m e" "shortest_from fuel k m e n = (c, i)"
  shows "reads_back m e c i"
  using assms(2)
proof (induction fuel arbitrary: k)
  case 0
  have "real c * 10 powi i = real m * 2 powi e"
    using 0 by (auto simp: power_int_def field_simps split: if_splits simp flip: power_mult_distrib)
  then have "real_ratio (dyadic m e) = real c * 10 powi i" by (simp add: real_ratio_dyadic)
  then have "reads_back m e c i \<longleftrightarrow>
      round_double False (fst (dyadic m e)) (snd (dyadic m e)) = Finite False m e"
    by (intro decimal_round) simp_all
  then show ?case
    by (simp add: round_double_exact [OF assms(1)] real_ratio_dyadic)
next
  case (Suc fuel)
  show ?case
  proof (cases "find (\<lambda>c. reads_back m e c (n - int k)) (nearest_decimals (dyadic m e) (int k - n))")
    case None
    with Suc show ?thesis by simp
  next
    case (Some c')
    with Suc.prems show ?thesis by (auto simp: find_Some_iff)
  qed
qed

text \<open>Writing digits and reading the text: the value of the digits at their place.\<close>

lemma number_of_format:
  assumes ds: "list_all isDigit ds" "ds \<noteq> []"
  shows "number_of_text (format_digits ds n) = Finite False m e \<longleftrightarrow>
    reads_back m e (value_of ds) (n - int (length ds))"
proof -
  define k where "k = int (length ds)"
  have k: "0 < k" using ds by (simp add: k_def)
  consider (whole) "k \<le> n \<and> n \<le> 21" | (point) "\<not> (k \<le> n \<and> n \<le> 21)" "0 < n \<and> n \<le> 21"
    | (small) "-6 < n \<and> n \<le> 0" | (single) "n \<le> -6 \<or> 21 < n" "k = 1"
    | (exponent) "n \<le> -6 \<or> 21 < n" "k \<noteq> 1"
    by linarith
  then show ?thesis
  proof cases
    case whole
    then have "format_digits ds n = ds @ replicate (nat (n - k)) 48"
      by (simp add: format_digits_def k_def)
    moreover have "number_of_text (ds @ replicate (nat (n - k)) 48) =
        round_double False (value_of ds * 10 ^ nat (n - k)) 1"
      using ds by (subst number_of_whole) (auto simp: list_all_iff isDigit_def value_of_append)
    ultimately show ?thesis using whole by (simp add: reads_back_def decimal_ratio_def k_def)
  next
    case point
    then have n: "0 < n" "n < k" by auto
    have "format_digits ds n = take (nat n) ds @ 46 # drop (nat n) ds"
      using point by (simp add: format_digits_def Let_def flip: k_def)
    moreover have "number_of_text (take (nat n) ds @ 46 # drop (nat n) ds) =
        (let (p, q) = decimal_ratio (value_of ds) (n - k) in round_double False p q)"
      using ds n by (subst number_of_fraction)
        (auto simp: list_all_iff k_def nat_diff_distrib of_nat_diff nat_less_iff algebra_simps
          dest: in_set_takeD in_set_dropD)
    ultimately show ?thesis by (simp add: reads_back_def k_def case_prod_unfold Let_def)
  next
    case small
    then have "format_digits ds n = [48] @ 46 # (replicate (nat (- n)) 48 @ ds)"
      using k by (auto simp: format_digits_def Let_def simp flip: k_def)
    moreover have "number_of_text ([48] @ 46 # (replicate (nat (- n)) 48 @ ds)) =
        (let (p, q) = decimal_ratio (value_of ds) (n - k) in round_double False p q)"
      using ds small by (subst number_of_fraction)
        (auto simp: list_all_iff isDigit_def k_def value_of_append
           value_of_append [of "[48]", simplified])
    ultimately show ?thesis by (simp add: reads_back_def k_def case_prod_unfold Let_def)
  next
    case single
    then have "format_digits ds n = ds @ exponent_text (n - 1)"
      using k by (auto simp: format_digits_def Let_def simp flip: k_def)
    then show ?thesis using single ds
      by (simp add: number_of_exponent reads_back_def k_def case_prod_unfold Let_def)
  next
    case exponent
    then have "format_digits ds n = take 1 ds @ 46 # drop 1 ds @ exponent_text (n - 1)"
      using k by (auto simp: format_digits_def Let_def simp flip: k_def)
    moreover have "number_of_text (take 1 ds @ 46 # drop 1 ds @ exponent_text (n - 1)) =
        (let (p, q) = decimal_ratio (value_of ds) (n - k) in round_double False p q)"
    proof (subst number_of_fraction_exponent)
      have "n - 1 - int (length (drop 1 ds)) = n - k" using ds by (cases ds) (auto simp: k_def)
      then show "(let (p, q) = decimal_ratio (value_of (take 1 ds @ drop 1 ds)) (n - 1 - int (length (drop 1 ds)))
          in round_double False p q) = (let (p, q) = decimal_ratio (value_of ds) (n - k) in round_double False p q)"
        by (simp only: append_take_drop_id)
    qed (use ds in \<open>auto simp: list_all_iff dest: in_set_takeD in_set_dropD\<close>)
    ultimately show ?thesis by (simp add: reads_back_def k_def case_prod_unfold Let_def)
  qed
qed

lemma strip_zeros_append: "\<exists>j. ds = strip_zeros ds @ replicate j 48"
proof -
  have "rev ds = takeWhile (\<lambda>c. c = 48) (rev ds) @ dropWhile (\<lambda>c. c = 48) (rev ds)" by simp
  then have "ds = rev (dropWhile (\<lambda>c. c = 48) (rev ds)) @ rev (takeWhile (\<lambda>c. c = 48) (rev ds))"
    by (metis rev_append rev_rev_ident)
  moreover have "rev (takeWhile (\<lambda>c. c = 48) (rev ds)) =
      replicate (length (takeWhile (\<lambda>c. c = 48) (rev ds))) 48"
    by (intro replicate_eqI) (auto dest: set_takeWhileD)
  ultimately show ?thesis by (metis strip_zeros_def)
qed

lemma digits_of_leading: "0 < n \<Longrightarrow> hd (digits_of n) \<noteq> 48"
proof (induction n rule: less_induct)
  case (less n)
  show ?case
  proof (cases "n < 10")
    case True
    then show ?thesis using less.prems by (simp add: digits_of.simps [of n])
  next
    case False
    then have "digits_of n = digits_of (n div 10) @ [48 + n mod 10]" by (simp add: digits_of.simps [of n])
    then show ?thesis using less.IH [of "n div 10"] False by simp
  qed
qed

text \<open>The digits and the place a finite double is written with.\<close>

lemma finite_text_format:
  assumes wf: "double_canonical m e" and m: "0 < m"
  obtains ds n where "list_all isDigit ds" "ds \<noteq> []" "hd ds \<noteq> 48" "finite_text m e = format_digits ds n"
    "reads_back m e (value_of ds) (n - int (length ds))"
proof -
  define n where "n = (let (p, q) = dyadic m e in decimal_point p q)"
  obtain c k where ck: "shortest_from 17 1 m e n = (c, k)" by fastforce
  note rb = shortest_from_reads_back [OF wf ck]
  have c: "c \<noteq> 0"
  proof
    assume "c = 0"
    with rb have "round_double False 0 (snd (decimal_ratio 0 k)) = Finite False m e"
      by (simp add: reads_back_def decimal_ratio_def split: if_splits)
    with m show False by (simp add: round_double_def)
  qed
  define ds where "ds = digits_of c"
  define ss where "ss = strip_zeros ds"
  obtain j where j: "ds = ss @ replicate j 48" using strip_zeros_append [of ds] unfolding ss_def by blast
  have "list_all isDigit ds" by (simp add: ds_def digits_of_digits)
  with j have ss: "list_all isDigit ss" by simp
  have vds: "value_of ds = c" by (simp add: ds_def)
  have v: "c = value_of ss * 10 ^ j" using vds by (simp add: j value_of_append)
  with c have ne: "ss \<noteq> []" by auto
  have "real (value_of ss) * 10 powi (k + int j) = real c * 10 powi k"
    by (simp add: v power_int_add)
  with rb have "reads_back m e (value_of ss) (k + int j)" using reads_back_value by blast
  moreover have "k + int (length ds) - int (length ss) = k + int j"
    using arg_cong [OF j, of length] by simp
  ultimately have "reads_back m e (value_of ss) (k + int (length ds) - int (length ss))" by (simp only:)
  moreover have "finite_text m e = format_digits ss (k + int (length ds))"
    using m ck by (simp add: finite_text_def n_def ds_def ss_def case_prod_unfold Let_def)
  moreover have "hd ss \<noteq> 48"
  proof -
    have "hd ss = hd ds" using ne by (simp add: j)
    then show ?thesis using digits_of_leading [of c] c by (simp add: ds_def)
  qed
  ultimately show ?thesis using that ss ne by blast
qed

lemma finite_text_reads_back:
  assumes "double_canonical m e" "0 < m"
  shows "number_of_text (finite_text m e) = Finite False m e"
  using assms by (rule finite_text_format) (simp add: number_of_format)

text \<open>The four shapes of a text, with digits in every part and no zero in front of another digit.\<close>

definition digit_text :: "jstring \<Rightarrow> bool" where
  "digit_text ds \<longleftrightarrow> list_all isDigit ds \<and> ds \<noteq> []"

definition leading :: "jstring \<Rightarrow> bool" where
  "leading ds \<longleftrightarrow> ds = [48] \<or> hd ds \<noteq> 48"

lemma format_digits_shape:
  assumes ds: "list_all isDigit ds" "ds \<noteq> []" "hd ds \<noteq> 48"
  shows "\<exists>ws. digit_text ws \<and> leading ws \<and> (format_digits ds n = ws \<or>
    (\<exists>fs. digit_text fs \<and> format_digits ds n = ws @ 46 # fs) \<or>
    (\<exists>e. format_digits ds n = ws @ exponent_text e) \<or>
    (\<exists>fs e. digit_text fs \<and> format_digits ds n = ws @ 46 # fs @ exponent_text e))"
proof -
  have zeros: "list_all isDigit (replicate i 48)" for i by (simp add: list_all_iff isDigit_def)
  have sub: "list_all isDigit (take i ds)" "list_all isDigit (drop i ds)" for i
    using ds(1) by (auto simp: list_all_iff dest: in_set_takeD in_set_dropD)
  have first: "0 < i \<Longrightarrow> hd (take i ds) \<noteq> 48" for i using ds by (cases ds; cases i) auto
  consider "int (length ds) \<le> n \<and> n \<le> 21" | "0 < n" "n < int (length ds)" "n \<le> 21"
    | "-6 < n \<and> n \<le> 0" | "n \<le> -6 \<or> 21 < n" "length ds = 1" | "n \<le> -6 \<or> 21 < n" "length ds \<noteq> 1"
    by linarith
  then show ?thesis
  proof cases
    case 1
    then have "format_digits ds n = ds @ replicate (nat (n - int (length ds))) 48" by (simp add: format_digits_def)
    moreover have "digit_text \<dots>" "leading \<dots>" using ds zeros by (simp_all add: digit_text_def leading_def)
    ultimately show ?thesis by metis
  next
    case 2
    then have "format_digits ds n = take (nat n) ds @ 46 # drop (nat n) ds" by (simp add: format_digits_def Let_def)
    moreover have "digit_text (take (nat n) ds)" "digit_text (drop (nat n) ds)" "leading (take (nat n) ds)"
      using sub ds 2 first [of "nat n"] by (auto simp: digit_text_def leading_def)
    ultimately show ?thesis by blast
  next
    case 3
    have "n < int (length ds)" using 3 ds by (cases ds) auto
    with 3 have "format_digits ds n = [48] @ 46 # (replicate (nat (- n)) 48 @ ds)" by (simp add: format_digits_def Let_def)
    moreover have "digit_text [48]" "leading [48]" "digit_text (replicate (nat (- n)) 48 @ ds)"
      using ds zeros by (simp_all add: digit_text_def leading_def isDigit_def)
    ultimately show ?thesis by blast
  next
    case 4
    then have "format_digits ds n = ds @ exponent_text (n - 1)" by (auto simp: format_digits_def Let_def)
    moreover have "digit_text ds" "leading ds" using ds by (simp_all add: digit_text_def leading_def)
    ultimately show ?thesis by blast
  next
    case 5
    then have "format_digits ds n = take 1 ds @ 46 # drop 1 ds @ exponent_text (n - 1)"
      using ds by (auto simp: format_digits_def Let_def)
    moreover have "digit_text (take 1 ds)" "digit_text (drop 1 ds)" "leading (take 1 ds)"
      using sub ds 5 first [of 1] by (cases ds; auto simp: digit_text_def leading_def)+
    ultimately show ?thesis by blast
  qed
qed

section \<open>Arithmetic\<close>

definition round_dyadic :: "bool \<Rightarrow> nat \<Rightarrow> int \<Rightarrow> double" where
  "round_dyadic s m e = (let (p, q) = dyadic m e in round_double s p q)"

fun double_add :: "double \<Rightarrow> double \<Rightarrow> double" where
  "double_add NaN _ = NaN"
| "double_add _ NaN = NaN"
| "double_add (Infinity s) (Infinity t) = (if s = t then Infinity s else NaN)"
| "double_add (Infinity s) (Finite _ _ _) = Infinity s"
| "double_add (Finite _ _ _) (Infinity t) = Infinity t"
| "double_add (Finite s m e) (Finite t k f) =
     (let b = min e f;
          v = signed_mantissa s m * 2 ^ nat (e - b) + signed_mantissa t k * 2 ^ nat (f - b)
      in if v = 0 then Finite (s \<and> t) 0 (-1074)
         else round_dyadic (v < 0) (nat \<bar>v\<bar>) b)"

definition double_sub :: "double \<Rightarrow> double \<Rightarrow> double" where
  "double_sub a b = double_add a (double_neg b)"

fun double_mult :: "double \<Rightarrow> double \<Rightarrow> double" where
  "double_mult NaN _ = NaN"
| "double_mult _ NaN = NaN"
| "double_mult (Infinity s) (Infinity t) = Infinity (s \<noteq> t)"
| "double_mult (Infinity s) (Finite t k _) = (if k = 0 then NaN else Infinity (s \<noteq> t))"
| "double_mult (Finite s m _) (Infinity t) = (if m = 0 then NaN else Infinity (s \<noteq> t))"
| "double_mult (Finite s m e) (Finite t k f) = round_dyadic (s \<noteq> t) (m * k) (e + f)"

fun double_div :: "double \<Rightarrow> double \<Rightarrow> double" where
  "double_div NaN _ = NaN"
| "double_div _ NaN = NaN"
| "double_div (Infinity s) (Infinity t) = NaN"
| "double_div (Infinity s) (Finite t _ _) = Infinity (s \<noteq> t)"
| "double_div (Finite s _ _) (Infinity t) = Finite (s \<noteq> t) 0 (-1074)"
| "double_div (Finite s m e) (Finite t k f) =
     (if k = 0 then (if m = 0 then NaN else Infinity (s \<noteq> t))
      else let (p, q) = dyadic m (e - f) in round_double (s \<noteq> t) p (q * k))"

fun double_finite :: "double \<Rightarrow> bool" where
  "double_finite (Finite _ _ _) = True"
| "double_finite _ = False"

lemma double_sub_finite: "double_finite a \<Longrightarrow> double_finite b \<Longrightarrow> double_sub a b \<noteq> NaN"
  unfolding double_sub_def
  by (cases a; cases b) (simp_all add: Let_def round_dyadic_def case_prod_unfold)

text \<open>The real a finite double stands for; comparison is comparison of reals.\<close>

fun double_real :: "double \<Rightarrow> real" where
  "double_real (Finite s m e) = real_of_int (signed_mantissa s m) * 2 powi e"
| "double_real _ = 0"

lemma shifted_mantissa:
  "b \<le> e \<Longrightarrow> real_of_int (x * 2 ^ nat (e - b)) * 2 powi b = real_of_int x * 2 powi e"
proof -
  assume "b \<le> e"
  then have "(2::real) ^ nat (e - b) * 2 powi b = 2 powi e"
    by (simp add: power_int_diff flip: power_int_of_nat)
  then show ?thesis by (simp add: mult.assoc)
qed

lemma double_less_real:
  assumes "double_finite a" "double_finite b"
  shows "double_less a b \<longleftrightarrow> double_real a < double_real b"
    and "double_eq a b \<longleftrightarrow> double_real a = double_real b"
proof -
  obtain s m e t k f where ab: "a = Finite s m e" "b = Finite t k f"
    using assms by (cases a; cases b) auto
  define c where "c = min e f"
  let ?x = "signed_mantissa s m * 2 ^ nat (e - c)" and ?y = "signed_mantissa t k * 2 ^ nat (f - c)"
  have a: "double_real a = real_of_int ?x * 2 powi c" and b: "double_real b = real_of_int ?y * 2 powi c"
    unfolding ab by (simp_all only: double_real.simps, (subst shifted_mantissa; simp add: c_def)+)
  have pos: "0 < (2::real) powi c" by simp
  have "?x < ?y \<longleftrightarrow> real_of_int ?x * 2 powi c < real_of_int ?y * 2 powi c"
    by (simp only: mult_less_cancel_right_pos [OF pos] of_int_less_iff)
  then show "double_less a b \<longleftrightarrow> double_real a < double_real b"
    unfolding a b by (simp only: ab double_less.simps Let_def flip: c_def)
  have "?x = ?y \<longleftrightarrow> real_of_int ?x * 2 powi c = real_of_int ?y * 2 powi c"
    using pos by (simp only: mult_cancel_right of_int_eq_iff) simp
  then show "double_eq a b \<longleftrightarrow> double_real a = double_real b"
    unfolding a b by (simp only: ab double_eq.simps Let_def flip: c_def)
qed

text \<open>What is read from a text is a double in its one form.\<close>

lemma round_half_even_bounds:
  "fst r < k * snd r \<Longrightarrow> round_half_even r \<le> k" "k * snd r \<le> fst r \<Longrightarrow> 0 < snd r \<Longrightarrow> k \<le> round_half_even r"
proof -
  have "fst r div snd r < k" if "fst r < k * snd r" using that by (simp add: less_mult_imp_div_less)
  then show "fst r < k * snd r \<Longrightarrow> round_half_even r \<le> k" by (fastforce simp: round_half_even_def Let_def)
  have "k \<le> fst r div snd r" if "k * snd r \<le> fst r" "0 < snd r" using that by (simp add: less_eq_div_iff_mult_less_eq)
  then show "k * snd r \<le> fst r \<Longrightarrow> 0 < snd r \<Longrightarrow> k \<le> round_half_even r" by (fastforce simp: round_half_even_def Let_def)
qed

lemma round_double_wf:
  assumes q: "0 < q"
  shows "double_wf (round_double s p q)"
proof (cases "p = 0")
  case True
  then show ?thesis by (simp add: round_double_def double_canonical_def)
next
  case False
  then have p: "0 < p" by simp
  note b = binary_exponent_bounds [OF p q]
  define e where "e = max (binary_exponent p q) (-1074)"
  define m where "m = round_half_even (scaled p q e)"
  have pos: "0 < snd (scaled p q e)" using q by (simp add: scaled_def)
  have bound: "real_ratio (scaled p q e) < 2 ^ 53"
  proof -
    have "real_ratio (p, q) < 2 ^ 53 * 2 powi binary_exponent p q" using b(2) by (simp add: divide_simps)
    also have "\<dots> \<le> 2 ^ 53 * 2 powi e" using power_int_increasing [of "binary_exponent p q" e "2::real"] by (simp add: e_def)
    finally show ?thesis by (simp add: real_ratio_scaled divide_simps)
  qed
  then have "real (fst (scaled p q e)) < real (2 ^ 53 * snd (scaled p q e))"
    using pos by (simp add: real_ratio_def divide_simps)
  then have "fst (scaled p q e) < 2 ^ 53 * snd (scaled p q e)" unfolding of_nat_less_iff .
  then have top: "m \<le> 2 ^ 53" unfolding m_def by (rule round_half_even_bounds(1))
  have low: "2 ^ 52 \<le> m" if "e \<noteq> -1074"
  proof -
    have "e = binary_exponent p q" using that by (auto simp: e_def max_def split: if_splits)
    then have "2 ^ 52 \<le> real_ratio (scaled p q e)" using b(1) by (simp add: real_ratio_scaled)
    then have "real (2 ^ 52 * snd (scaled p q e)) \<le> real (fst (scaled p q e))" using pos by (simp add: real_ratio_def divide_simps)
    then have "2 ^ 52 * snd (scaled p q e) \<le> fst (scaled p q e)" unfolding of_nat_le_iff .
    then show ?thesis unfolding m_def using pos by (rule round_half_even_bounds(2))
  qed
  have "-1074 \<le> e" by (simp add: e_def)
  then show ?thesis using p top low
    by (auto simp: round_double_def Let_def double_canonical_def simp flip: e_def m_def)
qed

lemma number_of_text_wf: "double_wf (number_of_text t)"
proof -
  have "double_wf (round_double False p q)" if "decimal_ratio n k = (p, q)" for n k p q
    using that by (auto simp: decimal_ratio_def round_double_wf split: if_splits)
  then show ?thesis unfolding number_of_text_def Let_def by (auto split: prod.split option.split)
qed

end
