(* ===== verification/Cel_Calendar.thy ===== *)
theory Cel_Calendar
  imports Js_Number
begin

text \<open>
  The civil calendar of the expression engine (\<open>cel/nodejs/src/timestamp-value.ts\<close>): leap years, the
  length of a month, and the two conversions between a date and the count of days since the first of
  January 1970, with the proof that they are each other's inverse and that the second counts the days of
  the calendar one by one. Every number involved is an integer far below \<open>2 ^ 53\<close>, which the host holds
  exactly; \<open>Math.floor\<close> of a quotient is \<open>div\<close>.
\<close>

section \<open>Dates\<close>


definition isLeapYear :: "int \<Rightarrow> bool" where
  "isLeapYear year \<longleftrightarrow> (year mod 4 = 0 \<and> year mod 100 \<noteq> 0) \<or> year mod 400 = 0"

definition MONTH_DAYS :: "int list" where
  "MONTH_DAYS = [31, 28, 31, 30, 31, 30, 31, 31, 30, 31, 30, 31]"

definition daysInMonth :: "int \<Rightarrow> int \<Rightarrow> int" where
  "daysInMonth year month = (if month = 2 \<and> isLeapYear year then 29 else MONTH_DAYS ! nat (month - 1))"

definition daysFromCivil :: "int \<Rightarrow> int \<Rightarrow> int \<Rightarrow> int" where
  "daysFromCivil year month day =
     (let shifted = (if month \<le> 2 then year - 1 else year);
          era = shifted div 400;
          yearOfEra = shifted - era * 400;
          dayOfYear = (153 * (month + (if month > 2 then - 3 else 9)) + 2) div 5 + day - 1;
          dayOfEra = yearOfEra * 365 + yearOfEra div 4 - yearOfEra div 100 + dayOfYear
      in era * 146097 + dayOfEra - 719468)"

definition civilFromDays :: "int \<Rightarrow> int \<times> int \<times> int" where
  "civilFromDays days =
     (let shifted = days + 719468;
          era = shifted div 146097;
          dayOfEra = shifted - era * 146097;
          yearOfEra = (dayOfEra - dayOfEra div 1460 + dayOfEra div 36524 - dayOfEra div 146096) div 365;
          year = yearOfEra + era * 400;
          dayOfYear = dayOfEra - (365 * yearOfEra + yearOfEra div 4 - yearOfEra div 100);
          monthPrime = (5 * dayOfYear + 2) div 153;
          day = dayOfYear - (153 * monthPrime + 2) div 5 + 1;
          month = monthPrime + (if monthPrime < 10 then 3 else - 9)
      in (if month \<le> 2 then year + 1 else year, month, day))"

section \<open>Eras\<close>

text \<open>The day of an era: century, cycle of four years, year and day of that year, which starts in March.\<close>

lemma div_is: "b * q \<le> a \<Longrightarrow> a < b * (q + 1) \<Longrightarrow> a div b = q" for a b q :: int
  using int_div_pos_eq [of a b q "a - b * q"] by (simp add: algebra_simps)

text \<open>A number as so many wholes, at most \<open>k\<close>, and a rest; the last whole takes what is over.\<close>

lemma capped_division:
  fixes n b k :: int
  assumes "0 \<le> n" "n \<le> b * (k + 1)" "0 < b" "0 \<le> k"
  obtains q r where "n = b * q + r" "0 \<le> q" "q \<le> k" "0 \<le> r" "r < b \<or> (r = b \<and> q = k \<and> n = b * (k + 1))"
proof (cases "n = b * (k + 1)")
  case True
  show ?thesis by (rule that [of k b]) (use True assms in \<open>auto simp: algebra_simps\<close>)
next
  case False
  have "n div b * b \<le> n" using assms(3) by (metis div_mod_decomp_int le_add_same_cancel1 pos_mod_sign)
  moreover have "n < (k + 1) * b" using False assms(2) by (simp add: mult.commute)
  ultimately have "n div b < k + 1" using assms(3) by (meson mult_less_cancel_right_pos order_le_less_trans)
  show ?thesis
    by (rule that [of "n div b" "n mod b"]) (use assms \<open>n div b < k + 1\<close> in \<open>auto simp: pos_imp_zdiv_nonneg_iff\<close>)
qed

lemma era_split:
  assumes "0 \<le> n" "n < (146097::int)"
  obtains c q y d where "n = 36524 * c + 1461 * q + 365 * y + d" "0 \<le> c" "c \<le> 3" "0 \<le> q" "q \<le> 24" "0 \<le> y" "y \<le> 3"
    "0 \<le> d" "d \<le> 364 \<or> (d = 365 \<and> y = 3 \<and> (q < 24 \<or> c = 3))"
proof -
  obtain c m where c: "n = 36524 * c + m" "0 \<le> c" "c \<le> 3" "0 \<le> m" "m < 36524 \<or> (m = 36524 \<and> c = 3)"
    by (rule capped_division [of n 36524 3]) (use assms in auto)
  obtain q k where q: "m = 1461 * q + k" "0 \<le> q" "q \<le> 24" "0 \<le> k" "k < 1461"
    by (rule capped_division [of m 1461 24]) (use c(4,5) in auto)
  obtain y d where y: "k = 365 * y + d" "0 \<le> y" "y \<le> 3" "0 \<le> d" "d < 365 \<or> (d = 365 \<and> y = 3)"
    by (rule capped_division [of k 365 3]) (use q(4,5) in auto)
  have "d \<le> 364 \<or> (d = 365 \<and> y = 3 \<and> (q < 24 \<or> c = 3))"
    using c(5) q(1,3) y(1,5) by linarith
  moreover have "n = 36524 * c + 1461 * q + 365 * y + d" using c(1) q(1) y(1) by simp
  ultimately show ?thesis using that c(2,3) q(2,3) y(2,3,4) by blast
qed

lemma year_of_era:
  assumes n: "n = 36524 * c + 1461 * q + 365 * y + d" and "0 \<le> c" "c \<le> 3" "0 \<le> q" "q \<le> 24" "0 \<le> y" "y \<le> (3::int)"
    "0 \<le> d" "d \<le> 364 \<or> (d = 365 \<and> y = 3 \<and> (q < 24 \<or> c = 3))"
  shows "(n - n div 1460 + n div 36524 - n div 146096) div 365 = 100 * c + 4 * q + y"
proof -
  let ?r = "25 * c + q - c + 365 * y + d"
  have n': "n = 1460 * (25 * c + q) + ?r" using n by simp
  have r: "0 \<le> ?r" "?r < 2920" using assms by auto
  have a: "n div 1460 = 25 * c + q + ?r div 1460" unfolding n' by simp
  have b: "n div 36524 - n div 146096 = c"
  proof (cases "1461 * q + 365 * y + d = 36524")
    case True
    have "c = 3" using True assms(3-9) by linarith
    with True n have "n = 146096" by simp
    with \<open>c = 3\<close> have "c = 3" "n = 146096" by simp_all
    then show ?thesis by simp
  next
    case False
    then have lt: "1461 * q + 365 * y + d < 36524" using assms(3-9) by linarith
    have "n div 36524 = c" by (rule div_is) (use n lt assms in auto)
    moreover have "n div 146096 = 0" using n lt assms by (intro div_pos_pos_trivial) auto
    ultimately show ?thesis by simp
  qed
  have "?r div 1460 = 0 \<and> ?r < 1460 \<or> ?r div 1460 = 1 \<and> 1460 \<le> ?r"
    using r div_is [of 1460 0 ?r] div_is [of 1460 1 ?r] by linarith
  then have "0 \<le> d - ?r div 1460 \<and> d - ?r div 1460 \<le> 364" using assms(2-9) by linarith
  moreover have "n - n div 1460 + n div 36524 - n div 146096 = 365 * (100 * c + 4 * q + y) + (d - ?r div 1460)"
    using a b n by simp
  ultimately show ?thesis by (intro div_is) auto
qed

lemma month_of_year:
  assumes "0 \<le> d" "d \<le> (365::int)"
  defines "mp \<equiv> (5 * d + 2) div 153"
  defines "day \<equiv> d - (153 * mp + 2) div 5 + 1"
  shows "0 \<le> mp" "mp \<le> 11" "1 \<le> day" "day \<le> [31, 30, 31, 30, 31, 31, 30, 31, 30, 31, 31, 29] ! nat mp"
    "mp = 11 \<Longrightarrow> day = 29 \<Longrightarrow> d = 365"
proof -
  have lo: "153 * mp \<le> 5 * d + 2" and hi: "5 * d + 2 < 153 * (mp + 1)"
    unfolding mp_def by presburger+
  show mp: "0 \<le> mp" "mp \<le> 11" using lo hi assms(1,2) by auto
  then have "mp = 0 \<or> mp = 1 \<or> mp = 2 \<or> mp = 3 \<or> mp = 4 \<or> mp = 5 \<or> mp = 6 \<or> mp = 7 \<or> mp = 8 \<or> mp = 9 \<or> mp = 10 \<or> mp = 11"
    by presburger
  then show "1 \<le> day" "day \<le> [31, 30, 31, 30, 31, 31, 30, 31, 30, 31, 31, 29] ! nat mp"
    "mp = 11 \<Longrightarrow> day = 29 \<Longrightarrow> d = 365"
    using lo hi assms(1,2) unfolding day_def by auto
qed

text \<open>What the algorithm computes, in terms of the split of the day of the era.\<close>

lemma civilFromDays_split:
  assumes "days + 719468 = 146097 * e + (36524 * c + 1461 * q + 365 * y + d)"
    and "0 \<le> c" "c \<le> 3" "0 \<le> q" "q \<le> 24" "0 \<le> y" "y \<le> (3::int)"
    and "0 \<le> d" "d \<le> 364 \<or> (d = 365 \<and> y = 3 \<and> (q < 24 \<or> c = 3))"
  defines "year \<equiv> 400 * e + 100 * c + 4 * q + y"
  defines "mp \<equiv> (5 * d + 2) div 153"
  shows "civilFromDays days =
    (if mp < 10 then (year, mp + 3, d - (153 * mp + 2) div 5 + 1) else (year + 1, mp - 9, d - (153 * mp + 2) div 5 + 1))"
proof -
  let ?n = "36524 * c + 1461 * q + 365 * y + d"
  have "0 \<le> ?n" "?n < 146097" using assms(2-9) by auto
  then have era: "(days + 719468) div 146097 = e" using assms(1) by (intro div_is) auto
  have rest: "days + 719468 - e * 146097 = ?n" using assms(1) by simp
  note yoe = year_of_era [OF refl assms(2-9)]
  have "(100 * c + 4 * q + y) div 4 = 25 * c + q" by (rule div_is) (use assms(6,7) in auto)
  moreover have "(100 * c + 4 * q + y) div 100 = c" by (rule div_is) (use assms(4-7) in auto)
  ultimately have doy: "?n - (365 * (100 * c + 4 * q + y) + (100 * c + 4 * q + y) div 4 - (100 * c + 4 * q + y) div 100) = d"
    by simp
  have mp: "0 \<le> mp" "mp \<le> 11" using month_of_year(1,2) [of d] assms(8,9) unfolding mp_def by auto
  show ?thesis
    unfolding civilFromDays_def Let_def era rest yoe doy mp_def [symmetric]
    using mp by (auto simp: year_def)
qed

lemma era_decompose:
  obtains e c q y d where "days + 719468 = 146097 * e + (36524 * c + 1461 * q + 365 * y + d)"
    "0 \<le> c" "c \<le> 3" "0 \<le> q" "q \<le> 24" "0 \<le> y" "y \<le> (3::int)"
    "0 \<le> d" "d \<le> 364 \<or> (d = 365 \<and> y = 3 \<and> (q < 24 \<or> c = 3))"
proof -
  let ?n = "(days + 719468) mod 146097"
  have "0 \<le> ?n" "?n < 146097" by simp_all
  then obtain c q y d where "?n = 36524 * c + 1461 * q + 365 * y + d" "0 \<le> c" "c \<le> 3" "0 \<le> q" "q \<le> 24" "0 \<le> y" "y \<le> 3"
    "0 \<le> d" "d \<le> 364 \<or> (d = 365 \<and> y = 3 \<and> (q < 24 \<or> c = 3))" by (rule era_split)
  moreover have "days + 719468 = 146097 * ((days + 719468) div 146097) + ?n" by simp
  ultimately show ?thesis using that by metis
qed

definition valid_date :: "int \<times> int \<times> int \<Rightarrow> bool" where
  "valid_date date = (case date of (y, m, d) \<Rightarrow> 1 \<le> m \<and> m \<le> 12 \<and> 1 \<le> d \<and> d \<le> daysInMonth y m)"

lemma mod_zero_within: "0 < x \<Longrightarrow> x \<le> b \<Longrightarrow> x mod b = 0 \<longleftrightarrow> x = b" for x b :: int
  by (cases "x = b") (auto simp: mod_pos_pos_trivial)

text \<open>A year of the era is a leap year exactly when its March year ends with a 29th of February.\<close>

lemma leap_of_split:
  assumes "0 \<le> c" "c \<le> 3" "0 \<le> q" "q \<le> 24" "0 \<le> y" "y \<le> (3::int)"
  shows "isLeapYear (400 * e + 100 * c + 4 * q + y + 1) \<longleftrightarrow> y = 3 \<and> (q < 24 \<or> c = 3)"
proof -
  let ?k = "400 * e + 100 * c + 4 * q + y + 1"
  have "?k = (y + 1) + (100 * e + 25 * c + q) * 4" by simp
  then have "?k mod 4 = (y + 1) mod 4" by (simp only: mod_mult_self1)
  then have four: "?k mod 4 = 0 \<longleftrightarrow> y + 1 = 4" using mod_zero_within [of "y + 1" 4] assms(5,6) by simp
  have "?k = (4 * q + y + 1) + (4 * e + c) * 100" by simp
  then have "?k mod 100 = (4 * q + y + 1) mod 100" by (simp only: mod_mult_self1)
  then have hundred: "?k mod 100 = 0 \<longleftrightarrow> 4 * q + y + 1 = 100"
    using mod_zero_within [of "4 * q + y + 1" 100] assms by simp
  have "?k = (100 * c + 4 * q + y + 1) + e * 400" by simp
  then have "?k mod 400 = (100 * c + 4 * q + y + 1) mod 400" by (simp only: mod_mult_self1)
  then have four_hundred: "?k mod 400 = 0 \<longleftrightarrow> 100 * c + 4 * q + y + 1 = 400"
    using mod_zero_within [of "100 * c + 4 * q + y + 1" 400] assms by simp
  have "q = 24 \<and> y = 3" if "4 * q + y + 1 = 100" using that assms by (intro conjI; linarith)
  then have "y + 1 = 4 \<longleftrightarrow> y = 3" "4 * q + y + 1 = 100 \<longleftrightarrow> q = 24 \<and> y = 3" by auto
  moreover have "c = 3 \<and> q = 24 \<and> y = 3" if "100 * c + 4 * q + y + 1 = 400"
    using that assms by (intro conjI; linarith)
  then have "100 * c + 4 * q + y + 1 = 400 \<longleftrightarrow> c = 3 \<and> q = 24 \<and> y = 3" by auto
  ultimately show ?thesis unfolding isLeapYear_def four hundred four_hundred using assms by auto
qed

text \<open>The day of the year that a date of a March year is.\<close>

lemma civilFromDays_valid: "valid_date (civilFromDays days)"
proof -
  obtain e c q y d where n: "days + 719468 = 146097 * e + (36524 * c + 1461 * q + 365 * y + d)"
    and b: "0 \<le> c" "c \<le> 3" "0 \<le> q" "q \<le> 24" "0 \<le> y" "y \<le> (3::int)"
    and d: "0 \<le> d" "d \<le> 364 \<or> (d = 365 \<and> y = 3 \<and> (q < 24 \<or> c = 3))" by (rule era_decompose)
  note date = civilFromDays_split [OF n b d]
  define mp where "mp = (5 * d + 2) div 153"
  define day where "day = d - (153 * mp + 2) div 5 + 1"
  define year where "year = 400 * e + 100 * c + 4 * q + y"
  have "d \<le> 365" using d(2) by auto
  note month = month_of_year [OF d(1) this, folded mp_def, folded day_def]
  have leap: "isLeapYear (year + 1)" if "mp = 11" "day = 29"
  proof -
    have "d = 365" using month(5) that by (simp add: day_def)
    then show ?thesis using d(2) leap_of_split [OF b, of e] by (simp add: year_def)
  qed
  have date: "civilFromDays days = (if mp < 10 then (year, mp + 3, day) else (year + 1, mp - 9, day))"
    using date by (simp add: mp_def day_def year_def)
  have len: "day \<le> daysInMonth year (mp + 3)" if "mp < 10"
  proof -
    have "mp = 0 \<or> mp = 1 \<or> mp = 2 \<or> mp = 3 \<or> mp = 4 \<or> mp = 5 \<or> mp = 6 \<or> mp = 7 \<or> mp = 8 \<or> mp = 9"
      using month(1) that by presburger
    with month(4) show ?thesis by (elim disjE) (simp_all add: daysInMonth_def MONTH_DAYS_def)
  qed
  have len': "day \<le> daysInMonth (year + 1) (mp - 9)" if "\<not> mp < 10"
  proof -
    have "mp = 10 \<or> mp = 11" using month(2) that by presburger
    with month(4) leap show ?thesis
      by (elim disjE) (cases "day = 29"; simp add: daysInMonth_def MONTH_DAYS_def)+
  qed
  show ?thesis
    using month(1,2,3) len len' unfolding date by (auto simp: valid_date_def)
qed

lemma daysFromCivil_of_days: "(case civilFromDays days of (y, m, d) \<Rightarrow> daysFromCivil y m d) = days"
proof -
  obtain e c q y d where n: "days + 719468 = 146097 * e + (36524 * c + 1461 * q + 365 * y + d)"
    and b: "0 \<le> c" "c \<le> 3" "0 \<le> q" "q \<le> 24" "0 \<le> y" "y \<le> (3::int)"
    and d: "0 \<le> d" "d \<le> 364 \<or> (d = 365 \<and> y = 3 \<and> (q < 24 \<or> c = 3))" by (rule era_decompose)
  define mp where "mp = (5 * d + 2) div 153"
  define day where "day = d - (153 * mp + 2) div 5 + 1"
  define year where "year = 400 * e + 100 * c + 4 * q + y"
  have "d \<le> 365" using d(2) by auto
  note month = month_of_year [OF d(1) this, folded mp_def, folded day_def]
  have date: "civilFromDays days = (if mp < 10 then (year, mp + 3, day) else (year + 1, mp - 9, day))"
    using civilFromDays_split [OF n b d] by (simp add: mp_def day_def year_def)
  have era: "year div 400 = e" unfolding year_def by (rule div_is) (use b in auto)
  have yoe: "year - e * 400 = 100 * c + 4 * q + y" by (simp add: year_def)
  have four: "(100 * c + 4 * q + y) div 4 = 25 * c + q" by (rule div_is) (use b in auto)
  have hundred: "(100 * c + 4 * q + y) div 100 = c" by (rule div_is) (use b in auto)
  let ?Y = "if mp < 10 then year else year + 1" and ?M = "if mp < 10 then mp + 3 else mp - 9"
  have shifted: "(if ?M \<le> 2 then ?Y - 1 else ?Y) = year" "?M + (if ?M > 2 then - 3 else 9) = mp"
    using month(1,2) by auto
  have "daysFromCivil ?Y ?M day =
      e * 146097 + ((100 * c + 4 * q + y) * 365 + (25 * c + q) - c + ((153 * mp + 2) div 5 + day - 1)) - 719468"
    by (simp only: daysFromCivil_def Let_def shifted era yoe four hundred)
  also have "\<dots> = days" using n by (simp add: day_def)
  finally show ?thesis using date by auto
qed

section \<open>Counting days\<close>

text \<open>The days of the years before a March year, and of the months before a month of it.\<close>

definition days_before :: "int \<Rightarrow> int" where
  "days_before y = 365 * y + y div 4 - y div 100 + y div 400"

lemma div_shift: "0 < b \<Longrightarrow> (b * k * e + r) div b = k * e + r div b" for b k e r :: int
  by (simp add: mult.assoc)

lemma era_years:
  fixes y :: int
  defines "e \<equiv> y div 400"
  defines "r \<equiv> y - e * 400"
  shows "e * 146097 + (r * 365 + r div 4 - r div 100) = days_before y"
proof -
  have y: "y = 400 * e + r" by (simp add: r_def)
  have "y div 4 = 100 * e + r div 4" using div_shift [of 4 100 e r] by (simp add: y)
  moreover have "y div 100 = 4 * e + r div 100" using div_shift [of 100 4 e r] by (simp add: y)
  ultimately show ?thesis unfolding days_before_def e_def [symmetric] using y by linarith
qed

lemma daysFromCivil_before:
  "daysFromCivil y m d = days_before (if m \<le> 2 then y - 1 else y) +
     (153 * (m + (if m > 2 then - 3 else 9)) + 2) div 5 + d - 1 - 719468"
  unfolding daysFromCivil_def Let_def era_years [of "if m \<le> 2 then y - 1 else y", symmetric] by linarith

lemma div_step: "0 < b \<Longrightarrow> (k + 1) div b = k div b + (if (k + 1) mod b = 0 then 1 else 0)" for b k :: int
proof -
  assume "0 < b"
  show ?thesis
  proof (cases "(k + 1) mod b = 0")
    case True
    then obtain j where "k + 1 = b * j" by (auto simp: dvd_def mod_eq_0_iff_dvd)
    then have "k = b * (j - 1) + (b - 1)" by (simp add: algebra_simps)
    then have "k div b = j - 1" using \<open>0 < b\<close> by (intro div_is) (auto simp: algebra_simps)
    with \<open>k + 1 = b * j\<close> True \<open>0 < b\<close> show ?thesis by simp
  next
    case False
    let ?q = "(k + 1) div b" and ?r = "(k + 1) mod b"
    have "k + 1 = b * ?q + ?r" by simp
    moreover have "0 < ?r" using False \<open>0 < b\<close> pos_mod_sign [of b "k + 1"] by linarith
    moreover have "?r < b" using \<open>0 < b\<close> by (rule pos_mod_bound)
    ultimately have "b * ?q \<le> k" "k < b * ?q + b" by linarith+
    then have "k div b = ?q" by (intro div_is) (simp_all add: distrib_left)
    with False show ?thesis by simp
  qed
qed

lemma days_before_step: "days_before (y + 1) = days_before y + 365 + (if isLeapYear (y + 1) then 1 else 0)"
proof -
  have "(y + 1) mod 400 = 0 \<Longrightarrow> (y + 1) mod 100 = 0" "(y + 1) mod 100 = 0 \<Longrightarrow> (y + 1) mod 4 = 0"
    by (simp_all add: mod_eq_0_iff_dvd) (auto elim: dvd_trans [rotated])
  then show ?thesis
    unfolding days_before_def isLeapYear_def div_step [of 4 y, simplified] div_step [of 100 y, simplified]
      div_step [of 400 y, simplified] by auto
qed

definition next_day :: "int \<times> int \<times> int \<Rightarrow> int \<times> int \<times> int" where
  "next_day date = (case date of (y, m, d) \<Rightarrow>
     if d < daysInMonth y m then (y, m, d + 1) else if m < 12 then (y, m + 1, 1) else (y + 1, 1, 1))"

lemma month_cases:
  assumes "1 \<le> m" "m \<le> (12::int)"
  obtains "m = 1" | "m = 2" | "m = 3" | "m = 4" | "m = 5" | "m = 6" | "m = 7" | "m = 8" | "m = 9" | "m = 10" | "m = 11" | "m = 12"
proof -
  have "m = 1 \<or> m = 2 \<or> m = 3 \<or> m = 4 \<or> m = 5 \<or> m = 6 \<or> m = 7 \<or> m = 8 \<or> m = 9 \<or> m = 10 \<or> m = 11 \<or> m = 12"
    using assms by presburger
  then show ?thesis using that by blast
qed

lemma daysFromCivil_next:
  assumes "valid_date (y, m, d)"
  shows "(case next_day (y, m, d) of (y', m', d') \<Rightarrow> daysFromCivil y' m' d') = daysFromCivil y m d + 1"
proof -
  have m: "1 \<le> m" "m \<le> 12" and d: "1 \<le> d" "d \<le> daysInMonth y m" using assms by (auto simp: valid_date_def)
  have step: "days_before y = days_before (y - 1) + 365 + (if isLeapYear y then 1 else 0)"
    using days_before_step [of "y - 1"] by simp
  show ?thesis
  proof (cases "d < daysInMonth y m")
    case True
    then show ?thesis by (simp add: next_day_def daysFromCivil_before)
  next
    case False
    with d(2) have "d = daysInMonth y m" by simp
    with m show ?thesis
      by (cases rule: month_cases) (simp_all add: next_day_def daysFromCivil_before daysInMonth_def MONTH_DAYS_def step)
  qed
qed

lemma year_split:
  obtains e c q k where "(y::int) = 400 * e + 100 * c + 4 * q + k" "0 \<le> c" "c \<le> 3" "0 \<le> q" "q \<le> 24" "0 \<le> k" "k \<le> 3"
    "days_before y = 146097 * e + 36524 * c + 1461 * q + 365 * k"
proof -
  define e where "e = y div 400"
  define r where "r = y mod 400"
  define c where "c = r div 100"
  define s where "s = r mod 100"
  define q where "q = s div 4"
  define k where "k = s mod 4"
  have r: "0 \<le> r" "r < 400" by (simp_all add: r_def)
  have s: "0 \<le> s" "s < 100" by (simp_all add: s_def)
  have k: "0 \<le> k" "k < 4" by (simp_all add: k_def)
  have eq: "y = 400 * e + r" "r = 100 * c + s" "s = 4 * q + k" by (simp_all add: e_def r_def c_def s_def q_def k_def)
  have c: "0 \<le> c" "c \<le> 3" and q: "0 \<le> q" "q \<le> 24" using r s k eq by linarith+
  have y: "y = 400 * e + 100 * c + 4 * q + k" using eq by simp
  have "y div 4 = 100 * e + 25 * c + q" by (rule div_is) (use y k in auto)
  moreover have "y div 100 = 4 * e + c" by (rule div_is) (use y eq(3) s in auto)
  ultimately have "days_before y = 146097 * e + 36524 * c + 1461 * q + 365 * k"
    unfolding days_before_def e_def [symmetric] using y by linarith
  with that y c q k show ?thesis by auto
qed

lemma day_of_year:
  assumes "valid_date (y, m, d)"
  defines "Y \<equiv> if m \<le> 2 then y - 1 else y"
  defines "mp \<equiv> m + (if m > 2 then - 3 else 9)"
  defines "doy \<equiv> (153 * mp + 2) div 5 + d - 1"
  shows "0 \<le> doy" "doy \<le> 364 \<or> (doy = 365 \<and> isLeapYear (Y + 1))" "(5 * doy + 2) div 153 = mp"
    "doy - (153 * mp + 2) div 5 + 1 = d" "m = (if mp < 10 then mp + 3 else mp - 9)" "y = (if mp < 10 then Y else Y + 1)"
    "daysFromCivil y m d = days_before Y + doy - 719468"
proof -
  have m: "1 \<le> m" "m \<le> 12" and d: "1 \<le> d" "d \<le> daysInMonth y m" using assms(1) by (auto simp: valid_date_def)
  show "daysFromCivil y m d = days_before Y + doy - 719468"
    by (simp add: daysFromCivil_before Y_def doy_def mp_def)
  show "doy - (153 * mp + 2) div 5 + 1 = d" by (simp add: doy_def)
  show "m = (if mp < 10 then mp + 3 else mp - 9)" "y = (if mp < 10 then Y else Y + 1)"
    using m by (auto simp: mp_def Y_def)
  have all: "0 \<le> doy \<and> (doy \<le> 364 \<or> (doy = 365 \<and> isLeapYear (Y + 1))) \<and> 153 * mp \<le> 5 * doy + 2 \<and> 5 * doy + 2 < 153 * (mp + 1)"
    using m d by (cases rule: month_cases)
      (auto simp: doy_def mp_def Y_def daysInMonth_def MONTH_DAYS_def split: if_splits)
  then show "0 \<le> doy" "doy \<le> 364 \<or> (doy = 365 \<and> isLeapYear (Y + 1))" by auto
  show "(5 * doy + 2) div 153 = mp" by (rule div_is) (use all in auto)
qed

lemma civilFromDays_of_date:
  assumes "valid_date (y, m, d)"
  shows "civilFromDays (daysFromCivil y m d) = (y, m, d)"
proof -
  define Y where "Y = (if m \<le> 2 then y - 1 else y)"
  define mp where "mp = m + (if m > 2 then - 3 else 9)"
  define doy where "doy = (153 * mp + 2) div 5 + d - 1"
  note date = day_of_year [OF assms, folded Y_def, folded mp_def, folded doy_def]
  obtain e c q k where Y: "Y = 400 * e + 100 * c + 4 * q + k" and b: "0 \<le> c" "c \<le> 3" "0 \<le> q" "q \<le> 24" "0 \<le> k" "k \<le> 3"
    and before: "days_before Y = 146097 * e + 36524 * c + 1461 * q + 365 * k" by (rule year_split)
  have n: "daysFromCivil y m d + 719468 = 146097 * e + (36524 * c + 1461 * q + 365 * k + doy)"
    using date(7) before by simp
  have "doy \<le> 364 \<or> (doy = 365 \<and> k = 3 \<and> (q < 24 \<or> c = 3))"
    using date(2) leap_of_split [OF b, of e] Y by auto
  from civilFromDays_split [OF n b date(1) this] have
    "civilFromDays (daysFromCivil y m d) = (if mp < 10 then (Y, mp + 3, d) else (Y + 1, mp - 9, d))"
    unfolding date(3,4) Y by simp
  with date(5,6) show ?thesis by (auto split: if_splits)
qed

lemma next_day_valid: "valid_date date \<Longrightarrow> valid_date (next_day date)"
proof (cases date)
  case (fields y m d)
  assume "valid_date date"
  then have m: "1 \<le> m" "m \<le> 12" "1 \<le> d" by (auto simp: valid_date_def fields)
  have "1 \<le> daysInMonth y' m'" if "1 \<le> m'" "m' \<le> 12" for y' m'
    using that by (cases rule: month_cases) (simp_all add: daysInMonth_def MONTH_DAYS_def)
  with m show ?thesis by (auto simp: valid_date_def next_day_def fields)
qed

lemma civil_day_after: "civilFromDays (days + 1) = next_day (civilFromDays days)"
proof -
  obtain y m d where date: "civilFromDays days = (y, m, d)" by (cases "civilFromDays days")
  then have valid: "valid_date (y, m, d)" using civilFromDays_valid [of days] by simp
  obtain y' m' d' where next': "next_day (y, m, d) = (y', m', d')" by (cases "next_day (y, m, d)")
  have "daysFromCivil y' m' d' = days + 1"
    using daysFromCivil_next [OF valid] daysFromCivil_of_days [of days] by (simp add: next' date)
  moreover have "valid_date (y', m', d')" using next_day_valid [OF valid] by (simp add: next')
  ultimately show ?thesis
    using civilFromDays_of_date [of y' m' d'] by (simp add: date next')
qed

section \<open>Properties\<close>

text \<open>\<open>civilFromDays\<close> counts the calendar: day zero is the first of January 1970, and the day after a day is the
  next date, with the month and the year turning where the calendar says.\<close>

theorem civilFromDays_counts:
  "civilFromDays 0 = (1970, 1, 1) \<and> civilFromDays (days + 1) = next_day (civilFromDays days)"
proof
  show "civilFromDays 0 = (1970, 1, 1)" by code_simp
  show "civilFromDays (days + 1) = next_day (civilFromDays days)" by (rule civil_day_after)
qed

text \<open>The two conversions are inverse to each other: every count of days names a valid date which reads back as
  that count, and every valid date is the one its count names.\<close>

theorem civil_days_inverse:
  "valid_date (civilFromDays days) \<and> (case civilFromDays days of (y, m, d) \<Rightarrow> daysFromCivil y m d) = days \<and>
   (if valid_date (year, month, day) then civilFromDays (daysFromCivil year month day) = (year, month, day) else True)"
  using civilFromDays_valid [of days] daysFromCivil_of_days [of days] civilFromDays_of_date [of year month day] by simp

end
