(* ===== verification/Cel_Time.thy ===== *)
theory Cel_Time
  imports Cel_Calendar
begin

text \<open>
  Durations and instants of the expression engine (\<open>cel/nodejs/src/duration-value.ts\<close> and
  \<open>timestamp-value.ts\<close>): the values, their ranges, their texts read and written, and their fields.

  A regular expression of the source is written out as the reading it denotes, digit classes and optional
  parts in order. \<open>BigInt\<close> is \<open>int\<close>; the host's numbers here are integers it holds exactly. The rules
  behind a named time zone are the host's data and a parameter. A failure is its code; messages are not
  modelled.
\<close>

section \<open>Values\<close>


datatype evaluation_code = NoSuchKey | NoSuchVariable | IndexOutOfRange | NoMatchingOverload | UnsupportedContainer
  | UnsupportedKeyType | DuplicateMapKey | NumericOverflow | DivisionByZero | ModuloByZero | InvalidConversion
  | InvalidArgument | InvalidRegularExpression | OptionalValueMissing | UnboundFunction | AsyncValueUnsupported

datatype cel_duration = Duration (d_seconds: int) (d_nanos: int)

datatype cel_timestamp = Timestamp (ts_seconds: int) (ts_nanos: int)

abbreviation NANOS_PER_SECOND :: int where
  "NANOS_PER_SECOND \<equiv> 1000000000"

section \<open>Durations\<close>

definition MAX_DURATION_NANOS :: int where
  "MAX_DURATION_NANOS = 9223372036854775807"

definition MIN_DURATION_NANOS :: int where
  "MIN_DURATION_NANOS = - 9223372036854775808"

definition celDurationFromNanos :: "int \<Rightarrow> evaluation_code + cel_duration" where
  "celDurationFromNanos amount =
     (if amount > MAX_DURATION_NANOS \<or> amount < MIN_DURATION_NANOS then Inl InvalidConversion
      else Inr (Duration (trunc_div amount NANOS_PER_SECOND) (trunc_mod amount NANOS_PER_SECOND)))"

definition durationNanos :: "cel_duration \<Rightarrow> int" where
  "durationNanos d = d_seconds d * NANOS_PER_SECOND + d_nanos d"

definition durationOutOfRange :: "cel_duration \<Rightarrow> evaluation_code option" where
  "durationOutOfRange d =
     (let amount = durationNanos d
      in if amount \<le> MAX_DURATION_NANOS \<and> amount \<ge> MIN_DURATION_NANOS then None else Some InvalidConversion)"

definition UNIT_NANOS :: "(jstring \<times> int) list" where
  "UNIT_NANOS = [(js ''ns'', 1), (js ''us'', 1000), ([181, 115], 1000), ([956, 115], 1000), (js ''ms'', 1000000),
     (js ''s'', 1000000000), (js ''m'', 60000000000), (js ''h'', 3600000000000), (js ''d'', 86400000000000),
     (js ''w'', 604800000000000)]"

text \<open>The first alternative that matches; none is tried after a longer spelling of its own letter.\<close>

definition unit_at :: "jstring \<Rightarrow> (int \<times> jstring) option" where
  "unit_at t = map_option (\<lambda>(u, n). (n, drop (length u) t)) (find (\<lambda>(u, n). starts_with t u) UNIT_NANOS)"

text \<open>One number and unit: the digits, the fraction when there is a point, the unit and what follows.\<close>

definition part_at :: "jstring \<Rightarrow> (jstring \<times> jstring option \<times> int \<times> jstring) option" where
  "part_at t =
     (let (digits, r) = span_digits t;
          (fraction, r') = (if r \<noteq> [] \<and> hd r = 46 then map_prod Some id (span_digits (tl r)) else (None, r))
      in map_option (\<lambda>(n, rest). (digits, fraction, n, rest)) (unit_at r'))"

definition part_nanos :: "jstring \<Rightarrow> jstring option \<Rightarrow> int \<Rightarrow> int" where
  "part_nanos digits fraction scale =
     int (value_of digits) * scale +
     (case fraction of
        Some (c # cs) \<Rightarrow> trunc_div (int (value_of (take 9 (c # cs @ replicate 9 48))) * scale) NANOS_PER_SECOND
      | _ \<Rightarrow> 0)"

lemma unit_at_shorter: "unit_at t = Some (n, rest) \<Longrightarrow> length rest < length t"
  by (cases t) (auto simp: unit_at_def UNIT_NANOS_def starts_with_def find_Some_iff2 split: if_splits prod.splits)

lemma part_at_shorter: "part_at t = Some (ds, f, n, rest) \<Longrightarrow> length rest < length t"
proof -
  assume p: "part_at t = Some (ds, f, n, rest)"
  have drop: "length (dropWhile isDigit u) \<le> length u" for u by (rule length_dropWhile_le)
  show ?thesis
    using p drop [of t] drop [of "tl (dropWhile isDigit t)"]
    by (auto simp: part_at_def span_digits_def split: if_splits dest!: unit_at_shorter)
qed

function duration_parts :: "jstring \<Rightarrow> int \<Rightarrow> int option" where
  "duration_parts body amount =
     (if body = [] then Some amount
      else case part_at body of
          None \<Rightarrow> None
        | Some (digits, fraction, scale, rest) \<Rightarrow>
            if digits = [] \<and> (fraction = None \<or> fraction = Some []) then None
            else duration_parts rest (amount + part_nanos digits fraction scale))"
  by pat_completeness auto
termination by (relation "measure (length \<circ> fst)") (auto dest: part_at_shorter)

declare duration_parts.simps [simp del]

definition durationNanosFromText :: "jstring \<Rightarrow> evaluation_code + int" where
  "durationNanosFromText text =
     (let signed = (text \<noteq> [] \<and> (hd text = 43 \<or> hd text = 45));
          negative = (signed \<and> hd text = 45);
          body = (if signed then tl text else text)
      in if body = [48] then Inr 0
         else if body = [] then Inl InvalidConversion
         else (case duration_parts body 0 of
             None \<Rightarrow> Inl InvalidConversion
           | Some amount \<Rightarrow> Inr (if negative then - amount else amount)))"

definition parseDuration :: "jstring \<Rightarrow> evaluation_code + cel_duration" where
  "parseDuration text = (case durationNanosFromText text of Inl e \<Rightarrow> Inl e | Inr n \<Rightarrow> celDurationFromNanos n)"

text \<open>\<open>padStart(width, "0")\<close> of a number's digits, and the fraction with its zeros trimmed.\<close>

definition pad :: "nat \<Rightarrow> nat \<Rightarrow> jstring" where
  "pad n width = replicate (width - length (digits_of n)) 48 @ digits_of n"

definition fraction_text :: "nat \<Rightarrow> jstring" where
  "fraction_text nanos = (if nanos = 0 then [] else 46 # strip_zeros (pad nanos 9))"

definition formatDuration :: "cel_duration \<Rightarrow> jstring" where
  "formatDuration d =
     (let amount = durationNanos d;
          magnitude = nat \<bar>amount\<bar>
      in (if amount < 0 then [45] else []) @ digits_of (magnitude div 1000000000) @
         fraction_text (magnitude mod 1000000000) @ [115])"

datatype duration_field = GetHours | GetMinutes | GetSeconds | GetMilliseconds

fun durationField :: "cel_duration \<Rightarrow> duration_field \<Rightarrow> int" where
  "durationField d GetHours = trunc_div (durationNanos d) 3600000000000"
| "durationField d GetMinutes = trunc_div (durationNanos d) 60000000000"
| "durationField d GetSeconds = trunc_div (durationNanos d) NANOS_PER_SECOND"
| "durationField d GetMilliseconds = trunc_div (d_nanos d) 1000000"

section \<open>Digits of a fixed width\<close>

lemma digits_of_length: "n < 10 ^ w \<Longrightarrow> 0 < w \<Longrightarrow> length (digits_of n) \<le> w"
proof (induction n arbitrary: w rule: digits_of.induct)
  case (1 n)
  show ?case
  proof (cases "n < 10")
    case True
    then show ?thesis using 1(3) by (simp add: digits_of.simps [of n])
  next
    case False
    obtain v where v: "w = Suc v" using 1(3) by (cases w) auto
    have "0 < v"
    proof (rule ccontr)
      assume "\<not> 0 < v"
      with v 1(2) False show False by simp
    qed
    with v have v: "w = Suc v" "0 < v" by simp_all
    then have "n div 10 < 10 ^ v" using 1(2) by (simp add: less_mult_imp_div_less mult.commute)
    then show ?thesis using 1(1) [OF False _ v(2)] False v(1) by (simp add: digits_of.simps [of n])
  qed
qed

lemma pad_digits: "list_all isDigit (pad n w)"
  using digits_of_digits [of n] by (auto simp: pad_def list_all_iff isDigit_def)

lemma pad_length: "n < 10 ^ w \<Longrightarrow> 0 < w \<Longrightarrow> length (pad n w) = w"
  using digits_of_length [of n w] by (simp add: pad_def)

lemma pad_value [simp]: "value_of (pad n w) = n"
  by (simp add: pad_def value_of_append)

lemma strip_zeros_digits: "list_all isDigit ds \<Longrightarrow> list_all isDigit (strip_zeros ds)"
  using strip_zeros_append [of ds] by (metis list_all_append)

text \<open>A fraction trimmed of its zeros and read to nine digits again.\<close>

lemma strip_zeros_padded:
  assumes "length ds = 9"
  shows "take 9 (strip_zeros ds @ replicate 9 48) = ds"
proof -
  obtain j where j: "ds = strip_zeros ds @ replicate j 48" using strip_zeros_append by blast
  have "length ds = length (strip_zeros ds) + j" by (subst j) simp
  with assms have "j = 9 - length (strip_zeros ds)" "length (strip_zeros ds) \<le> 9" by auto
  then show ?thesis by (subst (2) j) (simp add: take_replicate min_def)
qed

lemma fraction_text_reads:
  assumes "0 < n" "n < 1000000000"
  obtains c cs where "fraction_text n = 46 # c # cs" "list_all isDigit (c # cs)"
    "value_of (take 9 (c # cs @ replicate 9 48)) = n"
proof -
  have len: "length (pad n 9) = 9" using assms(2) by (intro pad_length) auto
  have read: "value_of (take 9 (strip_zeros (pad n 9) @ replicate 9 48)) = n"
    by (simp only: strip_zeros_padded [OF len] pad_value)
  have "strip_zeros (pad n 9) \<noteq> []"
  proof
    assume "strip_zeros (pad n 9) = []"
    with read assms(1) show False by (simp del: replicate.simps)
  qed
  then obtain c cs where c: "strip_zeros (pad n 9) = c # cs" by (cases "strip_zeros (pad n 9)") auto
  show ?thesis
    by (rule that [of c cs]) (use assms(1) c read strip_zeros_digits [OF pad_digits [of n 9]] in \<open>auto simp: fraction_text_def\<close>)
qed

lemma trunc_div_nonneg: "0 \<le> a \<Longrightarrow> 0 < b \<Longrightarrow> trunc_div a b = a div b"
  by (cases "a = 0") (simp_all add: trunc_div_def)

section \<open>Writing and reading a duration\<close>

lemma unit_second: "unit_at [115] = Some (1000000000, [])"
  by (simp add: unit_at_def UNIT_NANOS_def starts_with_def)

lemma duration_parts_written:
  assumes "n < 1000000000"
  shows "duration_parts (digits_of s @ fraction_text n @ [115]) 0 = Some (int s * NANOS_PER_SECOND + int n)"
proof (cases "n = 0")
  case True
  have "span_digits (digits_of s @ [115]) = (digits_of s, [115])"
    by (rule span_digits_append) (simp_all add: digits_of_digits isDigit_def)
  with True have "part_at (digits_of s @ fraction_text n @ [115]) = Some (digits_of s, None, 1000000000, [])"
    by (simp add: part_at_def fraction_text_def unit_second)
  then show ?thesis
    using True by (simp add: duration_parts.simps [of "digits_of s @ _"] part_nanos_def duration_parts.simps [of "[]"])
next
  case False
  then obtain c cs where f: "fraction_text n = 46 # c # cs" "list_all isDigit (c # cs)"
    "value_of (take 9 (c # cs @ replicate 9 48)) = n" using assms fraction_text_reads [of n] by auto
  have "span_digits (digits_of s @ 46 # c # cs @ [115]) = (digits_of s, 46 # c # cs @ [115])"
    by (rule span_digits_append) (simp_all add: digits_of_digits isDigit_def)
  moreover have "span_digits ((c # cs) @ [115]) = (c # cs, [115])"
    by (rule span_digits_append) (use f(2) in \<open>simp_all add: isDigit_def\<close>)
  ultimately have "part_at (digits_of s @ fraction_text n @ [115]) = Some (digits_of s, Some (c # cs), 1000000000, [])"
    by (simp add: part_at_def f(1) unit_second)
  then show ?thesis
    using f(3) by (simp add: duration_parts.simps [of "digits_of s @ _"] part_nanos_def duration_parts.simps [of "[]"] trunc_div_nonneg del: take_append)
qed

lemma formatDuration_reads_back: "durationNanosFromText (formatDuration d) = Inr (durationNanos d)"
proof -
  define m where "m = nat \<bar>durationNanos d\<bar>"
  define body where "body = digits_of (m div 1000000000) @ fraction_text (m mod 1000000000) @ [115]"
  have "int (m div 1000000000) * NANOS_PER_SECOND + int (m mod 1000000000) = int m"
    by (metis div_mult_mod_eq of_nat_add of_nat_mult of_nat_numeral)
  then have parts: "duration_parts body 0 = Some (int m)"
    using duration_parts_written [of "m mod 1000000000" "m div 1000000000"] by (simp add: body_def)
  have body: "body \<noteq> []" "body \<noteq> [48]" "isDigit (hd body)"
    using digits_of_digits [of "m div 1000000000"]
    by (auto simp: body_def append_eq_Cons_conv list_all_iff intro: hd_in_set)
  have "formatDuration d = (if durationNanos d < 0 then [45] else []) @ body"
    by (simp add: formatDuration_def Let_def m_def body_def)
  then show ?thesis
    using body parts by (auto simp: durationNanosFromText_def Let_def isDigit_def m_def)
qed

section \<open>Timestamps\<close>

definition MIN_TIMESTAMP_SECONDS :: int where
  "MIN_TIMESTAMP_SECONDS = - 62135596800"

definition MAX_TIMESTAMP_SECONDS :: int where
  "MAX_TIMESTAMP_SECONDS = 253402300799"

definition celTimestamp :: "int \<Rightarrow> int \<Rightarrow> evaluation_code + cel_timestamp" where
  "celTimestamp seconds nanos =
     (let whole = seconds + trunc_div nanos NANOS_PER_SECOND;
          rest = trunc_mod nanos NANOS_PER_SECOND;
          (whole, rest) = (if rest < 0 then (whole - 1, rest + NANOS_PER_SECOND) else (whole, rest))
      in if whole < MIN_TIMESTAMP_SECONDS \<or> whole > MAX_TIMESTAMP_SECONDS then Inl InvalidConversion
         else Inr (Timestamp whole rest))"

definition timestampNanos :: "cel_timestamp \<Rightarrow> int" where
  "timestampNanos t = ts_seconds t * NANOS_PER_SECOND + ts_nanos t"

record civil_fields =
  f_year :: int
  f_month :: int
  f_day :: int
  f_hour :: int
  f_minute :: int
  f_second :: int

definition secondsFromFields :: "civil_fields \<Rightarrow> int" where
  "secondsFromFields f = daysFromCivil (f_year f) (f_month f) (f_day f) * 86400 +
     (f_hour f * 3600 + f_minute f * 60 + f_second f)"

definition floorDiv :: "int \<Rightarrow> int \<Rightarrow> int" where
  "floorDiv v b = (let quotient = trunc_div v b in if trunc_mod v b < 0 then quotient - 1 else quotient)"

definition utcFields :: "int \<Rightarrow> civil_fields" where
  "utcFields seconds =
     (let days = floorDiv seconds 86400;
          rest = seconds - days * 86400;
          (year, month, day) = civilFromDays days
      in \<lparr>f_year = year, f_month = month, f_day = day, f_hour = rest div 3600,
          f_minute = (rest mod 3600) div 60, f_second = rest mod 60\<rparr>)"

text \<open>Exactly so many digits, and one code unit of a class: the pieces of the pattern.\<close>

definition take_digits :: "nat \<Rightarrow> jstring \<Rightarrow> (nat \<times> jstring) option" where
  "take_digits n t = (if length (take n t) = n \<and> list_all isDigit (take n t) then Some (value_of (take n t), drop n t) else None)"

definition take_unit :: "code_unit list \<Rightarrow> jstring \<Rightarrow> jstring option" where
  "take_unit cs t = (if t \<noteq> [] \<and> hd t \<in> set cs then Some (tl t) else None)"

definition take_fraction :: "jstring \<Rightarrow> (jstring option \<times> jstring) option" where
  "take_fraction t =
     (if t \<noteq> [] \<and> hd t = 46 then
        (let (ds, r) = span_digits (tl t) in if ds = [] then None else Some (Some ds, r))
      else Some (None, t))"

text \<open>\<open>Z\<close>, or a signed offset of hours and minutes, and nothing after it.\<close>

definition take_offset :: "jstring \<Rightarrow> (bool \<times> nat \<times> nat) option option" where
  "take_offset t =
     (if t = [90] \<or> t = [122] then Some None
      else do {
        t1 \<leftarrow> take_unit [43, 45] t;
        (hours, t2) \<leftarrow> take_digits 2 t1;
        t3 \<leftarrow> take_unit [58] t2;
        (minutes, t4) \<leftarrow> take_digits 2 t3;
        if t4 = [] then Some (Some (hd t = 45, hours, minutes)) else None
      })"

definition RFC_3339 :: "jstring \<Rightarrow> (civil_fields \<times> jstring option \<times> (bool \<times> nat \<times> nat) option) option" where
  "RFC_3339 text = do {
     (year, t) \<leftarrow> take_digits 4 text;
     t \<leftarrow> take_unit [45] t;
     (month, t) \<leftarrow> take_digits 2 t;
     t \<leftarrow> take_unit [45] t;
     (day, t) \<leftarrow> take_digits 2 t;
     t \<leftarrow> take_unit [84, 116, 32] t;
     (hour, t) \<leftarrow> take_digits 2 t;
     t \<leftarrow> take_unit [58] t;
     (minute, t) \<leftarrow> take_digits 2 t;
     t \<leftarrow> take_unit [58] t;
     (second, t) \<leftarrow> take_digits 2 t;
     (fraction, t) \<leftarrow> take_fraction t;
     offset \<leftarrow> take_offset t;
     Some (\<lparr>f_year = int year, f_month = int month, f_day = int day, f_hour = int hour, f_minute = int minute,
            f_second = int second\<rparr>, fraction, offset)
   }"

definition parseTimestamp :: "jstring \<Rightarrow> evaluation_code + cel_timestamp" where
  "parseTimestamp text =
     (case RFC_3339 text of
        None \<Rightarrow> Inl InvalidConversion
      | Some (f, fraction, offset) \<Rightarrow>
          if f_month f < 1 \<or> f_month f > 12 \<or> f_day f < 1 \<or> f_day f > daysInMonth (f_year f) (f_month f) \<or>
             f_hour f > 23 \<or> f_minute f > 59 \<or> f_second f > 59
          then Inl InvalidConversion
          else
            (let seconds = secondsFromFields f +
                   (case offset of
                      None \<Rightarrow> 0
                    | Some (west, hours, minutes) \<Rightarrow>
                        (let shift = int hours * 3600 + int minutes * 60 in if west then shift else - shift));
                 nanos = (case fraction of None \<Rightarrow> 0 | Some ds \<Rightarrow> int (value_of (take 9 (ds @ replicate 9 48))))
             in celTimestamp seconds nanos))"

definition formatTimestamp :: "cel_timestamp \<Rightarrow> jstring" where
  "formatTimestamp t =
     (let f = utcFields (ts_seconds t)
      in pad (nat (f_year f)) 4 @ [45] @ pad (nat (f_month f)) 2 @ [45] @ pad (nat (f_day f)) 2 @ [84] @
         pad (nat (f_hour f)) 2 @ [58] @ pad (nat (f_minute f)) 2 @ [58] @ pad (nat (f_second f)) 2 @
         fraction_text (nat (ts_nanos t)) @ [90])"

text \<open>The instants the domain holds.\<close>

definition timestamp_ok :: "cel_timestamp \<Rightarrow> bool" where
  "timestamp_ok t \<longleftrightarrow> MIN_TIMESTAMP_SECONDS \<le> ts_seconds t \<and> ts_seconds t \<le> MAX_TIMESTAMP_SECONDS \<and>
     0 \<le> ts_nanos t \<and> ts_nanos t < NANOS_PER_SECOND"

lemma floorDiv_div: "0 < b \<Longrightarrow> floorDiv v b = v div b"
proof -
  assume b: "0 < b"
  have eq: "v = b * trunc_div v b + trunc_mod v b" using trunc_div_mod [of v b] by (simp add: mult.commute)
  have bound: "\<bar>trunc_mod v b\<bar> < b" using trunc_mod_bound [of b v] b by simp
  show ?thesis
  proof (cases "trunc_mod v b < 0")
    case True
    with eq bound have "b * (trunc_div v b - 1) \<le> v" "v < b * (trunc_div v b - 1 + 1)"
      by (simp_all add: right_diff_distrib)
    with True show ?thesis by (simp add: floorDiv_def Let_def div_is)
  next
    case False
    with eq bound have "b * trunc_div v b \<le> v" "v < b * (trunc_div v b + 1)"
      by (simp_all add: distrib_left)
    with False show ?thesis by (simp add: floorDiv_def Let_def div_is)
  qed
qed

lemma celTimestamp_normal:
  assumes "timestamp_ok t"
  shows "celTimestamp (ts_seconds t) (ts_nanos t) = Inr t"
proof -
  have n: "0 \<le> ts_nanos t" "ts_nanos t < NANOS_PER_SECOND" using assms by (auto simp: timestamp_ok_def)
  then have "trunc_div (ts_nanos t) NANOS_PER_SECOND = 0" by (simp add: trunc_div_nonneg)
  moreover have "trunc_mod (ts_nanos t) NANOS_PER_SECOND = ts_nanos t"
    using trunc_div_mod [of "ts_nanos t" NANOS_PER_SECOND] calculation by simp
  ultimately show ?thesis using assms n by (cases t) (auto simp: celTimestamp_def Let_def timestamp_ok_def)
qed

lemma utcFields_days:
  "f_year (utcFields s) = fst (civilFromDays (s div 86400))"
  "f_month (utcFields s) = fst (snd (civilFromDays (s div 86400)))"
  "f_day (utcFields s) = snd (snd (civilFromDays (s div 86400)))"
  "f_hour (utcFields s) = (s mod 86400) div 3600"
  "f_minute (utcFields s) = ((s mod 86400) mod 3600) div 60"
  "f_second (utcFields s) = (s mod 86400) mod 60"
  by (simp_all add: utcFields_def Let_def floorDiv_div minus_div_mult_eq_mod split: prod.splits)

lemma div_less_of:
  fixes a b k :: int
  assumes "0 < b" "a < b * k"
  shows "a div b < k"
proof (rule ccontr)
  assume "\<not> a div b < k"
  then have "b * k \<le> b * (a div b)" using assms(1) by simp
  also have "\<dots> \<le> a" using mult_div_mod_eq [of b a] pos_mod_sign [OF assms(1), of a] by linarith
  finally show False using assms(2) by simp
qed

lemma utcFields_seconds: "secondsFromFields (utcFields s) = s"
proof -
  have "daysFromCivil (f_year (utcFields s)) (f_month (utcFields s)) (f_day (utcFields s)) = s div 86400"
    using daysFromCivil_of_days [of "s div 86400"] by (simp add: utcFields_days case_prod_beta)
  moreover have "(r div 3600) * 3600 + ((r mod 3600) div 60) * 60 + r mod 60 = r" for r :: int
  proof -
    have "(r mod 3600) mod 60 = r mod 60" by (rule mod_mod_cancel) simp
    then show ?thesis using div_mult_mod_eq [of "r mod 3600" 60] div_mult_mod_eq [of r 3600] by linarith
  qed
  ultimately show ?thesis
    unfolding secondsFromFields_def using div_mult_mod_eq [of s 86400] by (simp only: utcFields_days(4-6))
qed

lemma year_mono: "n \<le> m \<Longrightarrow> fst (civilFromDays n) \<le> fst (civilFromDays m)"
proof (induction m rule: int_ge_induct)
  case (step m)
  have "fst (civilFromDays m) \<le> fst (next_day (civilFromDays m))" by (auto simp: next_day_def split: prod.splits)
  with step civil_day_after [of m] show ?case by simp
qed simp

lemma year_range:
  assumes "timestamp_ok t"
  shows "1 \<le> f_year (utcFields (ts_seconds t))" "f_year (utcFields (ts_seconds t)) \<le> 9999"
proof -
  let ?d = "ts_seconds t div 86400"
  have lo: "- 719162 \<le> ?d"
    using assms zdiv_mono1 [of "- 62135596800" "ts_seconds t" 86400] by (simp add: timestamp_ok_def MIN_TIMESTAMP_SECONDS_def)
  have hi: "?d \<le> 2932896"
    using assms zdiv_mono1 [of "ts_seconds t" 253402300799 86400] by (simp add: timestamp_ok_def MAX_TIMESTAMP_SECONDS_def)
  have "civilFromDays (- 719162) = (1, 1, 1)" "civilFromDays 2932896 = (9999, 12, 31)" by code_simp+
  with year_mono [OF lo] year_mono [OF hi]
  show "1 \<le> f_year (utcFields (ts_seconds t))" "f_year (utcFields (ts_seconds t)) \<le> 9999"
    by (simp_all add: utcFields_days)
qed

lemma utcFields_ranges:
  "valid_date (f_year (utcFields s), f_month (utcFields s), f_day (utcFields s))"
  "0 \<le> f_hour (utcFields s)" "f_hour (utcFields s) \<le> 23" "0 \<le> f_minute (utcFields s)" "f_minute (utcFields s) \<le> 59"
  "0 \<le> f_second (utcFields s)" "f_second (utcFields s) \<le> 59"
proof -
  show "valid_date (f_year (utcFields s), f_month (utcFields s), f_day (utcFields s))"
    using civilFromDays_valid [of "s div 86400"] by (simp add: utcFields_days)
  have "(s mod 86400) div 3600 < 24" by (rule div_less_of) (simp_all add: pos_mod_bound)
  then show "f_hour (utcFields s) \<le> 23" by (simp add: utcFields_days)
  have "((s mod 86400) mod 3600) div 60 < 60" by (rule div_less_of) (simp_all add: pos_mod_bound)
  then show "f_minute (utcFields s) \<le> 59" by (simp add: utcFields_days)
  show "f_second (utcFields s) \<le> 59" using pos_mod_bound [of 60 "s mod 86400"] by (simp add: utcFields_days)
qed (simp_all add: utcFields_days pos_imp_zdiv_nonneg_iff)

lemma take_digits_pad: "n < 10 ^ w \<Longrightarrow> 0 < w \<Longrightarrow> take_digits w (pad n w @ r) = Some (n, r)"
  using pad_length [of n w] pad_digits [of n w] by (simp add: take_digits_def)

lemma take_unit_Cons: "c \<in> set cs \<Longrightarrow> take_unit cs (c # r) = Some r"
  by (simp add: take_unit_def)

lemma take_fraction_text:
  assumes "n < 1000000000"
  shows "\<exists>f. take_fraction (fraction_text n @ [90]) = Some (f, [90]) \<and>
    (case f of None \<Rightarrow> 0 | Some ds \<Rightarrow> int (value_of (take 9 (ds @ replicate 9 48)))) = int n"
proof (cases "n = 0")
  case False
  then obtain c cs where f: "fraction_text n = 46 # c # cs" "list_all isDigit (c # cs)"
    "value_of (take 9 (c # cs @ replicate 9 48)) = n" using assms fraction_text_reads [of n] by auto
  have "span_digits ((c # cs) @ [90]) = (c # cs, [90])"
    by (rule span_digits_append) (use f(2) in \<open>simp_all add: isDigit_def\<close>)
  with f(1,3) show ?thesis by (intro exI [of _ "Some (c # cs)"]) (simp add: take_fraction_def del: take_append)
qed (simp add: fraction_text_def take_fraction_def)

lemma fraction_length: "nanos < 1000000000 \<Longrightarrow> length (fraction_text nanos) \<le> 10"
  using pad_length [of nanos 9] strip_zeros_append [of "pad nanos 9"] by (auto simp: fraction_text_def dest!: arg_cong [of _ _ length])

lemma take_fraction_length:
  assumes "take_fraction t = Some (Some ds, r)"
  shows "length t = Suc (length ds + length r)"
proof -
  have "length (tl t) = length (takeWhile isDigit (tl t)) + length (dropWhile isDigit (tl t))"
    by (metis length_append takeWhile_dropWhile_id)
  with assms show ?thesis by (cases t) (auto simp: take_fraction_def span_digits_def split: if_splits)
qed

text \<open>What the pattern reads out of the text of an instant.\<close>

lemma formatTimestamp_fields:
  assumes "timestamp_ok t"
  obtains fr where "RFC_3339 (formatTimestamp t) = Some (utcFields (ts_seconds t), fr, None)"
    "(case fr of None \<Rightarrow> 0 | Some ds \<Rightarrow> int (value_of (take 9 (ds @ replicate 9 48)))) = ts_nanos t"
    "\<And>ds. fr = Some ds \<Longrightarrow> length ds \<le> 9"
proof -
  define f where "f = utcFields (ts_seconds t)"
  note ranges = utcFields_ranges [of "ts_seconds t", folded f_def] year_range [OF assms, folded f_def]
  have date: "1 \<le> f_month f" "f_month f \<le> 12" "1 \<le> f_day f" "f_day f \<le> daysInMonth (f_year f) (f_month f)"
    using ranges(1) by (auto simp: valid_date_def)
  have day: "f_day f \<le> 31"
    using date by (cases rule: month_cases [OF date(1,2)]) (auto simp: daysInMonth_def MONTH_DAYS_def split: if_splits)
  have nanos: "nat (ts_nanos t) < 1000000000" "int (nat (ts_nanos t)) = ts_nanos t" using assms by (auto simp: timestamp_ok_def)
  from take_fraction_text [OF nanos(1)] obtain fr
    where fr: "take_fraction (fraction_text (nat (ts_nanos t)) @ [90]) = Some (fr, [90])"
      "(case fr of None \<Rightarrow> 0 | Some ds \<Rightarrow> int (value_of (take 9 (ds @ replicate 9 48)))) = ts_nanos t"
    using nanos(2) by auto
  have short: "length ds \<le> 9" if "fr = Some ds" for ds
    using take_fraction_length [of _ ds] fr(1) that fraction_length [OF nanos(1)] by fastforce
  have four: "take_digits 4 (pad (nat (f_year f)) 4 @ r) = Some (nat (f_year f), r)" for r
    by (rule take_digits_pad) (use ranges(8,9) in auto)
  have two: "take_digits 2 (pad (nat v) 2 @ r) = Some (nat v, r)" if "v \<le> 99" for v r
    by (rule take_digits_pad) (use that in auto)
  have "RFC_3339 (formatTimestamp t) = Some (f, fr, None)"
    unfolding RFC_3339_def formatTimestamp_def Let_def f_def [symmetric]
    using ranges date day
    by (simp add: four two take_unit_Cons fr(1) take_offset_def)
  with that fr(2) short show ?thesis by (simp add: f_def)
qed

lemma formatTimestamp_reads_back:
  assumes "timestamp_ok t"
  shows "parseTimestamp (formatTimestamp t) = Inr t"
proof -
  define f where "f = utcFields (ts_seconds t)"
  note ranges = utcFields_ranges [of "ts_seconds t", folded f_def] year_range [OF assms, folded f_def]
  have date: "1 \<le> f_month f" "f_month f \<le> 12" "1 \<le> f_day f" "f_day f \<le> daysInMonth (f_year f) (f_month f)"
    using ranges(1) by (auto simp: valid_date_def)
  obtain fr where "RFC_3339 (formatTimestamp t) = Some (f, fr, None)"
    "(case fr of None \<Rightarrow> 0 | Some ds \<Rightarrow> int (value_of (take 9 (ds @ replicate 9 48)))) = ts_nanos t"
    using formatTimestamp_fields [OF assms] unfolding f_def by metis
  moreover have "secondsFromFields f = ts_seconds t" by (simp add: f_def utcFields_seconds)
  ultimately show ?thesis
    using ranges date celTimestamp_normal [OF assms] by (simp add: parseTimestamp_def Let_def)
qed

section \<open>Zones and fields\<close>

text \<open>A fixed offset: an optional sign, two digits, a colon and two digits.\<close>

definition FIXED_OFFSET :: "jstring \<Rightarrow> (bool \<times> nat \<times> nat) option" where
  "FIXED_OFFSET zone = do {
     t \<leftarrow> Some (if zone \<noteq> [] \<and> (hd zone = 43 \<or> hd zone = 45) then tl zone else zone);
     (hours, t) \<leftarrow> take_digits 2 t;
     t \<leftarrow> take_unit [58] t;
     (minutes, t) \<leftarrow> take_digits 2 t;
     if t = [] then Some (zone \<noteq> [] \<and> hd zone = 45, hours, minutes) else None
   }"

definition zonedFields ::
  "(jstring \<Rightarrow> int \<Rightarrow> civil_fields option) \<Rightarrow> cel_timestamp \<Rightarrow> jstring option \<Rightarrow> evaluation_code + civil_fields"
where
  "zonedFields named_zone t zone =
     (case zone of
        None \<Rightarrow> Inr (utcFields (ts_seconds t))
      | Some name \<Rightarrow>
          if name = js ''UTC'' then Inr (utcFields (ts_seconds t))
          else (case FIXED_OFFSET name of
              Some (west, hours, minutes) \<Rightarrow>
                if hours > 23 \<or> minutes > 59 then Inl InvalidArgument
                else (let offset = int hours * 3600 + int minutes * 60
                      in Inr (utcFields (ts_seconds t + (if west then - offset else offset))))
            | None \<Rightarrow> (case named_zone name (ts_seconds t) of None \<Rightarrow> Inl InvalidArgument | Some f \<Rightarrow> Inr f)))"

datatype timestamp_field = GetFullYear | GetMonth | GetDayOfYear | GetDayOfMonth | GetDate | GetDayOfWeek
  | GetInstantHours | GetInstantMinutes | GetInstantSeconds | GetInstantMilliseconds

fun civil_field :: "civil_fields \<Rightarrow> timestamp_field \<Rightarrow> int" where
  "civil_field f GetFullYear = f_year f"
| "civil_field f GetMonth = f_month f - 1"
| "civil_field f GetDayOfMonth = f_day f - 1"
| "civil_field f GetDate = f_day f"
| "civil_field f GetDayOfYear = daysFromCivil (f_year f) (f_month f) (f_day f) - daysFromCivil (f_year f) 1 1"
| "civil_field f GetDayOfWeek =
     (let days = daysFromCivil (f_year f) (f_month f) (f_day f) in trunc_mod (trunc_mod days 7 + 11) 7)"
| "civil_field f GetInstantHours = f_hour f"
| "civil_field f GetInstantMinutes = f_minute f"
| "civil_field f GetInstantSeconds = f_second f"
| "civil_field f GetInstantMilliseconds = 0"

definition timestampField ::
  "(jstring \<Rightarrow> int \<Rightarrow> civil_fields option) \<Rightarrow> cel_timestamp \<Rightarrow> timestamp_field \<Rightarrow> jstring option \<Rightarrow> evaluation_code + int"
where
  "timestampField named_zone t field zone =
     (if field = GetInstantMilliseconds then Inr (ts_nanos t div 1000000)
      else map_sum id (\<lambda>civil. civil_field civil field) (zonedFields named_zone t zone))"

text \<open>The day of the week counts from Sunday, day zero was a Thursday, and each day is the next one.\<close>

lemma trunc_mod_seven: "trunc_mod (trunc_mod n 7 + 11) 7 = (n + 4) mod 7"
proof -
  have eq: "n = 7 * trunc_div n 7 + trunc_mod n 7" using trunc_div_mod [of n 7] by simp
  have bound: "\<bar>trunc_mod n 7\<bar> < 7" using trunc_mod_bound [of 7 n] by simp
  have "n + 4 = (trunc_mod n 7 + 4) + trunc_div n 7 * 7" using eq by simp
  then have "(n + 4) mod 7 = (trunc_mod n 7 + 4) mod 7" by (simp only: mod_mult_self1)
  also have "\<dots> = (trunc_mod n 7 + 4 + 7) mod 7" by (rule mod_add_self2 [symmetric])
  also have "\<dots> = trunc_mod (trunc_mod n 7 + 11) 7"
  proof -
    have "0 < x \<Longrightarrow> trunc_mod x 7 = x mod 7" for x by (simp add: trunc_mod_def)
    moreover have "0 < trunc_mod n 7 + 11" using bound by linarith
    moreover have "trunc_mod n 7 + 4 + 7 = trunc_mod n 7 + 11" by simp
    ultimately show ?thesis by presburger
  qed
  finally show ?thesis by simp
qed

lemma day_of_week_advances:
  "civil_field (utcFields (s + 86400)) GetDayOfWeek = (civil_field (utcFields s) GetDayOfWeek + 1) mod 7"
proof -
  have day: "daysFromCivil (f_year (utcFields s)) (f_month (utcFields s)) (f_day (utcFields s)) = s div 86400" for s
    using daysFromCivil_of_days [of "s div 86400"] by (simp add: utcFields_days case_prod_beta)
  have "(s + 86400) div 86400 = s div 86400 + 1" using div_add_self2 [of 86400 s] by simp
  then have "civil_field (utcFields (s + 86400)) GetDayOfWeek = (s div 86400 + 1 + 4) mod 7"
    by (simp only: civil_field.simps Let_def trunc_mod_seven day)
  moreover have "civil_field (utcFields s) GetDayOfWeek = (s div 86400 + 4) mod 7"
    by (simp only: civil_field.simps Let_def trunc_mod_seven day)
  moreover have "(k + 1 + 4) mod 7 = ((k + 4) mod 7 + 1) mod 7" for k :: int by presburger
  ultimately show ?thesis by (simp only:)
qed

section \<open>Properties\<close>

text \<open>The durations of the domain: seconds and nanoseconds of one sign, within a 64-bit count of nanoseconds.\<close>

definition duration_ok :: "cel_duration \<Rightarrow> bool" where
  "duration_ok d \<longleftrightarrow> \<bar>d_nanos d\<bar> < NANOS_PER_SECOND \<and> 0 \<le> d_seconds d * d_nanos d \<and>
     MIN_DURATION_NANOS \<le> durationNanos d \<and> durationNanos d \<le> MAX_DURATION_NANOS"

lemma celDurationFromNanos_ok:
  assumes "celDurationFromNanos n = Inr d"
  shows "duration_ok d" "durationNanos d = n"
proof -
  let ?q = "trunc_div n NANOS_PER_SECOND" and ?r = "trunc_mod n NANOS_PER_SECOND"
  have d: "d = Duration ?q ?r" and range: "MIN_DURATION_NANOS \<le> n" "n \<le> MAX_DURATION_NANOS"
    using assms by (auto simp: celDurationFromNanos_def split: if_splits)
  show n: "durationNanos d = n" using trunc_div_mod [of n NANOS_PER_SECOND] by (simp add: d durationNanos_def)
  have "0 \<le> ?q * ?r"
  proof -
    have "0 \<le> \<bar>n\<bar> div NANOS_PER_SECOND" "0 \<le> \<bar>n\<bar> mod NANOS_PER_SECOND" by (simp_all add: pos_imp_zdiv_nonneg_iff)
    then show ?thesis by (auto simp: trunc_div_def trunc_mod_def sgn_if)
  qed
  then show "duration_ok d"
    using range n trunc_mod_bound [of NANOS_PER_SECOND n] by (simp add: duration_ok_def d)
qed

lemma parts_unique:
  fixes q s b r n :: int
  assumes "q * b + r = s * b + n" "\<bar>r - n\<bar> < b"
  shows "q = s \<and> r = n"
proof -
  have "q = s"
  proof (rule ccontr)
    assume "q \<noteq> s"
    then have "1 * b \<le> \<bar>q - s\<bar> * b" using assms(2) by (intro mult_right_mono) auto
    also have "\<dots> = \<bar>(q - s) * b\<bar>" using assms(2) by (simp add: abs_mult)
    also have "(q - s) * b = n - r" using assms(1) by (simp add: left_diff_distrib)
    finally show False using assms(2) by simp
  qed
  with assms(1) show ?thesis by simp
qed

lemma celDurationFromNanos_normal:
  assumes "duration_ok d"
  shows "celDurationFromNanos (durationNanos d) = Inr d"
proof -
  obtain s n where d: "d = Duration s n" by (cases d)
  have n: "\<bar>n\<bar> < NANOS_PER_SECOND" "0 \<le> s * n" using assms by (simp_all add: duration_ok_def d)
  let ?t = "s * NANOS_PER_SECOND + n"
  let ?q = "trunc_div ?t NANOS_PER_SECOND" and ?r = "trunc_mod ?t NANOS_PER_SECOND"
  have eq: "?q * NANOS_PER_SECOND + ?r = ?t" by (rule trunc_div_mod)
  have bound: "\<bar>?r\<bar> < NANOS_PER_SECOND" using trunc_mod_bound [of NANOS_PER_SECOND ?t] by simp
  have sign: "?r = 0 \<or> sgn ?r = sgn ?t" by (rule trunc_mod_sign)
  have "?q = s \<and> ?r = n"
  proof (cases "0 \<le> s \<and> 0 \<le> n")
    case True
    then have "0 \<le> ?t" by simp
    then have "0 \<le> ?r" using sign by (auto simp: sgn_if split: if_splits)
    then show ?thesis using bound n True by (intro parts_unique [OF eq]) auto
  next
    case False
    with n(2) have le: "s \<le> 0 \<and> n \<le> 0" by (auto simp: zero_le_mult_iff)
    then have "?t \<le> 0" by simp
    then have "?r \<le> 0" using sign by (auto simp: sgn_if split: if_splits)
    then show ?thesis using bound n le by (intro parts_unique [OF eq]) auto
  qed
  then show ?thesis using assms by (simp add: celDurationFromNanos_def durationNanos_def d duration_ok_def)
qed

text \<open>C28. A duration is written so that it reads back: the text of any duration reads as its nanoseconds, whatever
  range they are in, and the text of a duration of the domain parses to that very duration.\<close>

theorem duration_text_roundtrip:
  assumes "duration_ok d"
  shows "durationNanosFromText (formatDuration d) = Inr (durationNanos d) \<and> parseDuration (formatDuration d) = Inr d"
  using formatDuration_reads_back [of d] celDurationFromNanos_normal [OF assms] by (simp add: parseDuration_def)

theorem duration_text_roundtrip_witness:
  "durationNanosFromText (formatDuration (Duration (- 1) (- 500000000))) = Inr (- 1500000000) \<and>
   parseDuration (formatDuration (Duration (- 1) (- 500000000))) = Inr (Duration (- 1) (- 500000000))"
  using duration_text_roundtrip [of "Duration (- 1) (- 500000000)"]
  by (simp add: duration_ok_def durationNanos_def MIN_DURATION_NANOS_def MAX_DURATION_NANOS_def)

text \<open>A duration that parses is in the domain: its parts have one sign, its nanoseconds are within a second, and its
  total fits a signed 64-bit integer.\<close>

theorem parseDuration_in_domain:
  assumes "parseDuration text = Inr d"
  shows "duration_ok d \<and> durationNanosFromText text = Inr (durationNanos d)"
  using assms celDurationFromNanos_ok by (auto simp: parseDuration_def split: sum.splits)

theorem parseDuration_in_domain_witness:
  "duration_ok (Duration 5400 0) \<and> durationNanosFromText (js ''1h30m'') = Inr (durationNanos (Duration 5400 0))"
  by (rule parseDuration_in_domain) code_simp

text \<open>C29. An instant of the domain is written so that it reads back as that instant, to the nanosecond, from the
  first second of year 1 to the last of year 9999.\<close>

theorem timestamp_text_roundtrip:
  assumes "timestamp_ok t"
  shows "parseTimestamp (formatTimestamp t) = Inr t"
  by (rule formatTimestamp_reads_back [OF assms])

theorem timestamp_text_roundtrip_witness:
  "parseTimestamp (formatTimestamp (Timestamp (- 1) 999999999)) = Inr (Timestamp (- 1) 999999999)"
  by (rule timestamp_text_roundtrip) (simp add: timestamp_ok_def MIN_TIMESTAMP_SECONDS_def MAX_TIMESTAMP_SECONDS_def)

text \<open>Building an instant is exact: seconds and nanoseconds of any sign give the instant at that very count of
  nanoseconds, with its nanoseconds brought into a second, and are refused exactly when its second is out of
  range.\<close>

theorem celTimestamp_exact:
  "case celTimestamp seconds nanos of
     Inl e \<Rightarrow> e = InvalidConversion \<and>
       (let s = (seconds * NANOS_PER_SECOND + nanos) div NANOS_PER_SECOND
        in s < MIN_TIMESTAMP_SECONDS \<or> s > MAX_TIMESTAMP_SECONDS)
   | Inr t \<Rightarrow> timestamp_ok t \<and> timestampNanos t = seconds * NANOS_PER_SECOND + nanos"
proof -
  let ?q = "trunc_div nanos NANOS_PER_SECOND" and ?r = "trunc_mod nanos NANOS_PER_SECOND"
  have eq: "?q * NANOS_PER_SECOND + ?r = nanos" by (rule trunc_div_mod)
  have bound: "\<bar>?r\<bar> < NANOS_PER_SECOND" using trunc_mod_bound [of NANOS_PER_SECOND nanos] by simp
  define w where "w = (if ?r < 0 then seconds + ?q - 1 else seconds + ?q)"
  define r where "r = (if ?r < 0 then ?r + NANOS_PER_SECOND else ?r)"
  have r: "0 \<le> r" "r < NANOS_PER_SECOND" and total: "w * NANOS_PER_SECOND + r = seconds * NANOS_PER_SECOND + nanos"
    using bound eq by (auto simp: r_def w_def algebra_simps)
  have "(seconds * NANOS_PER_SECOND + nanos) div NANOS_PER_SECOND = w"
    unfolding total [symmetric] by (rule div_is) (use r in auto)
  moreover have "celTimestamp seconds nanos =
      (if w < MIN_TIMESTAMP_SECONDS \<or> w > MAX_TIMESTAMP_SECONDS then Inl InvalidConversion else Inr (Timestamp w r))"
    by (simp add: celTimestamp_def Let_def w_def r_def)
  ultimately show ?thesis using r total by (simp add: timestamp_ok_def timestampNanos_def)
qed

end
