(* ===== verification/Cel_Syntax.thy ===== *)
theory Cel_Syntax
  imports Js_Number
begin

text \<open>
  The canonical syntax tree of the expression engine (\<open>cel/nodejs/src/syntax-tree.ts\<close>), the
  words no identifier may be (\<open>reserved-words.ts\<close>) and the equality of trees
  (\<open>tree-equality.ts\<close>).

  A node carries the range it covers; \<open>treesEqual\<close> ignores every range and the mark that a
  member name was written between backticks. \<open>erase\<close> is the abstract counterpart: the tree
  with exactly those parts blanked, so that the comparison is equality of erased trees.
\<close>

section \<open>Words\<close>

definition RESERVED_WORDS :: "jstring list" where
  "RESERVED_WORDS =
     [js ''as'', js ''break'', js ''const'', js ''continue'', js ''else'', js ''false'',
      js ''for'', js ''function'', js ''if'', js ''import'', js ''in'', js ''let'',
      js ''loop'', js ''namespace'', js ''null'', js ''package'', js ''return'',
      js ''true'', js ''var'', js ''void'', js ''while'']"

definition LITERAL_WORDS :: "jstring list" where
  "LITERAL_WORDS = [js ''true'', js ''false'', js ''null'']"

definition OPERATOR_WORDS :: "jstring list" where
  "OPERATOR_WORDS = [js ''in'']"

datatype word_reading = WordName | WordLiteral | WordOperator | WordRefused

definition wordReading :: "jstring \<Rightarrow> word_reading" where
  "wordReading text =
     (if text \<in> set LITERAL_WORDS then WordLiteral
      else if text \<in> set OPERATOR_WORDS then WordOperator
      else if text \<in> set RESERVED_WORDS then WordRefused else WordName)"

definition isReservedWord :: "jstring \<Rightarrow> bool" where
  "isReservedWord name \<longleftrightarrow> name \<in> set RESERVED_WORDS"

text \<open>The character classes the pattern of an identifier and the lexer share.\<close>

definition isIdentStart :: "code_unit \<Rightarrow> bool" where
  "isIdentStart ch \<longleftrightarrow> ch = 95 \<or> (97 \<le> ch \<and> ch \<le> 122) \<or> (65 \<le> ch \<and> ch \<le> 90)"

definition isIdentPart :: "code_unit \<Rightarrow> bool" where
  "isIdentPart ch \<longleftrightarrow> isIdentStart ch \<or> isDigit ch"

fun isIdentifierSpelling :: "jstring \<Rightarrow> bool" where
  "isIdentifierSpelling [] = False"
| "isIdentifierSpelling (c # cs) = (isIdentStart c \<and> list_all isIdentPart cs)"

lemma wordReading_name_iff: "wordReading text = WordName \<longleftrightarrow> \<not> isReservedWord text"
  by (simp add: wordReading_def isReservedWord_def LITERAL_WORDS_def OPERATOR_WORDS_def
      RESERVED_WORDS_def)

lemma reserved_is_spelled: "isReservedWord text \<Longrightarrow> isIdentifierSpelling text"
  by (auto simp: isReservedWord_def RESERVED_WORDS_def isIdentStart_def isIdentPart_def isDigit_def)

section \<open>The tree\<close>

datatype literal =
    LInt int
  | LUint int
  | LDouble double
  | LString jstring
  | LBytes "nat list"
  | LBool bool
  | LNull

datatype unary_op = OpNot | OpMinus

datatype binary_op =
    OpOr | OpAnd | OpEq | OpNe | OpLt | OpLe | OpGt | OpGe | OpIn
  | OpAdd | OpSub | OpMul | OpDiv | OpMod

datatype node =
    NLiteral literal source_range
  | NIdent jstring bool source_range
  | NList "(node \<times> bool) list" source_range
  | NMap "(node \<times> node \<times> bool) list" source_range
  | NSelect node jstring source_range bool bool source_range
  | NIndex node node bool source_range
  | NCall jstring source_range "node list" source_range
  | NReceiverCall node jstring source_range "node list" source_range
  | NQCall jstring source_range jstring source_range "node list" source_range
  | NUnary unary_op node source_range
  | NBinary binary_op node node source_range
  | NConditional node node node source_range
  | NUnparsed source_range

fun range_of :: "node \<Rightarrow> source_range" where
  "range_of (NLiteral _ r) = r"
| "range_of (NIdent _ _ r) = r"
| "range_of (NList _ r) = r"
| "range_of (NMap _ r) = r"
| "range_of (NSelect _ _ _ _ _ r) = r"
| "range_of (NIndex _ _ _ r) = r"
| "range_of (NCall _ _ _ r) = r"
| "range_of (NReceiverCall _ _ _ _ r) = r"
| "range_of (NQCall _ _ _ _ _ r) = r"
| "range_of (NUnary _ _ r) = r"
| "range_of (NBinary _ _ _ r) = r"
| "range_of (NConditional _ _ _ r) = r"
| "range_of (NUnparsed r) = r"

text \<open>Every child node, in source order.\<close>

fun childNodes :: "node \<Rightarrow> node list" where
  "childNodes (NLiteral _ _) = []"
| "childNodes (NIdent _ _ _) = []"
| "childNodes (NUnparsed _) = []"
| "childNodes (NList elements _) = map fst elements"
| "childNodes (NMap entries _) = concat (map (\<lambda>(key, value, _). [key, value]) entries)"
| "childNodes (NSelect operand _ _ _ _ _) = [operand]"
| "childNodes (NIndex operand index _ _) = [operand, index]"
| "childNodes (NCall _ _ args _) = args"
| "childNodes (NReceiverCall receiver _ _ args _) = receiver # args"
| "childNodes (NQCall _ _ _ _ args _) = args"
| "childNodes (NUnary _ operand _) = [operand]"
| "childNodes (NBinary _ left right _) = [left, right]"
| "childNodes (NConditional condition whenTrue whenFalse _) = [condition, whenTrue, whenFalse]"

lemma size_childNodes: "c \<in> set (childNodes n) \<Longrightarrow> size c < size n"
proof (induction n rule: childNodes.induct)
  case (4 elements r)
  then obtain b where "(c, b) \<in> set elements" by auto
  from size_list_mem [OF this, of "size_prod size (\<lambda>_. 0)"] show ?case by simp
next
  case (5 entries r)
  then obtain k v b where e: "(k, v, b) \<in> set entries" and "c = k \<or> c = v" by auto
  with size_list_mem [OF e, of "size_prod size (size_prod size (\<lambda>_. 0))"] show ?case by auto
qed (auto dest: size_list_mem [where f = size])

text \<open>The same bounds in the shape the recursions over lists of pairs ask for them.\<close>

lemma size_list_pair: "(v, b) \<in> set es \<Longrightarrow> size v \<le> size_list (size_prod size (\<lambda>_. 0)) es"
  using size_list_mem [of "(v, b)" es "size_prod size (\<lambda>_. 0)"] by simp

lemma size_list_triple:
  "(k, v, b) \<in> set ms \<Longrightarrow>
     size k \<le> size_list (size_prod size (size_prod size (\<lambda>_. 0))) ms \<and>
     size v \<le> size_list (size_prod size (size_prod size (\<lambda>_. 0))) ms"
  using size_list_mem [of "(k, v, b)" ms "size_prod size (size_prod size (\<lambda>_. 0))"] by simp

lemma size_list_nth: "i < length xs \<Longrightarrow> size (xs ! i) \<le> size_list size xs"
  by (simp add: size_list_mem)

text \<open>Depth-first pre-order walk, and the height the parser measures a tree by.\<close>

function walkTree :: "node \<Rightarrow> node list" where
  "walkTree n = n # concat (map walkTree (childNodes n))"
  by pat_completeness auto
termination
  by (relation "measure size") (auto intro: size_childNodes)

declare walkTree.simps [simp del]

fun is_unparsed :: "node \<Rightarrow> bool" where
  "is_unparsed (NUnparsed _) = True"
| "is_unparsed _ = False"

definition hasUnparsed :: "node \<Rightarrow> bool" where
  "hasUnparsed tree \<longleftrightarrow> list_ex is_unparsed (walkTree tree)"

lemma hasUnparsed_rec:
  "hasUnparsed n \<longleftrightarrow> is_unparsed n \<or> (\<exists>c \<in> set (childNodes n). hasUnparsed c)"
  by (simp add: hasUnparsed_def walkTree.simps [of n] list_ex_iff)

lemma node_child_induct [case_names child]:
  assumes "\<And>n. (\<And>c. c \<in> set (childNodes n) \<Longrightarrow> P c) \<Longrightarrow> P n"
  shows "P n"
  by (induction n rule: measure_induct_rule [of size]) (blast intro: assms size_childNodes)

lemma NMap_children:
  "set (childNodes (NMap entries r)) = (\<Union>p \<in> set entries. {fst p, fst (snd p)})"
  by (simp add: case_prod_unfold)

text \<open>A property of every node of a tree, as the walk meets them.\<close>

definition everywhere :: "(node \<Rightarrow> bool) \<Rightarrow> node \<Rightarrow> bool" where
  "everywhere P n \<longleftrightarrow> list_all P (walkTree n)"

lemma everywhere_rec: "everywhere P n \<longleftrightarrow> P n \<and> (\<forall>c \<in> set (childNodes n). everywhere P c)"
  by (auto simp: everywhere_def walkTree.simps [of n] list_all_iff)

lemma everywhere_simps [simp]:
  "everywhere P (NLiteral l r) \<longleftrightarrow> P (NLiteral l r)"
  "everywhere P (NIdent s b r) \<longleftrightarrow> P (NIdent s b r)"
  "everywhere P (NUnparsed r) \<longleftrightarrow> P (NUnparsed r)"
  "everywhere P (NList es r) \<longleftrightarrow> P (NList es r) \<and> (\<forall>(v, b) \<in> set es. everywhere P v)"
  "everywhere P (NMap ms r) \<longleftrightarrow>
     P (NMap ms r) \<and> (\<forall>(k, v, b) \<in> set ms. everywhere P k \<and> everywhere P v)"
  "everywhere P (NSelect n s fr b q r) \<longleftrightarrow> P (NSelect n s fr b q r) \<and> everywhere P n"
  "everywhere P (NIndex n i b r) \<longleftrightarrow> P (NIndex n i b r) \<and> everywhere P n \<and> everywhere P i"
  "everywhere P (NCall s nr as r) \<longleftrightarrow> P (NCall s nr as r) \<and> (\<forall>a \<in> set as. everywhere P a)"
  "everywhere P (NReceiverCall n s nr as r) \<longleftrightarrow>
     P (NReceiverCall n s nr as r) \<and> everywhere P n \<and> (\<forall>a \<in> set as. everywhere P a)"
  "everywhere P (NQCall ns nsr s nr as r) \<longleftrightarrow>
     P (NQCall ns nsr s nr as r) \<and> (\<forall>a \<in> set as. everywhere P a)"
  "everywhere P (NUnary u n r) \<longleftrightarrow> P (NUnary u n r) \<and> everywhere P n"
  "everywhere P (NBinary o1 n m r) \<longleftrightarrow> P (NBinary o1 n m r) \<and> everywhere P n \<and> everywhere P m"
  "everywhere P (NConditional c n m r) \<longleftrightarrow>
     P (NConditional c n m r) \<and> everywhere P c \<and> everywhere P n \<and> everywhere P m"
  by (subst everywhere_rec; force)+

section \<open>Equality of trees\<close>

definition literalsEqual :: "literal \<Rightarrow> literal \<Rightarrow> bool" where
  "literalsEqual left right =
     (case left of
        LNull \<Rightarrow> (case right of LNull \<Rightarrow> True | _ \<Rightarrow> False)
      | LInt a \<Rightarrow> (case right of LInt b \<Rightarrow> a = b | _ \<Rightarrow> False)
      | LUint a \<Rightarrow> (case right of LUint b \<Rightarrow> a = b | _ \<Rightarrow> False)
      | LDouble a \<Rightarrow> (case right of LDouble b \<Rightarrow> a = b | _ \<Rightarrow> False)
      | LBool a \<Rightarrow> (case right of LBool b \<Rightarrow> a = b | _ \<Rightarrow> False)
      | LString a \<Rightarrow> (case right of LString b \<Rightarrow> a = b | _ \<Rightarrow> False)
      | LBytes a \<Rightarrow> (case right of LBytes b \<Rightarrow>
            length a = length b \<and> list_all2 (=) a b | _ \<Rightarrow> False))"

lemma literalsEqual_iff: "literalsEqual a b \<longleftrightarrow> a = b"
  by (auto simp: literalsEqual_def list.rel_eq split: literal.splits)

fun treesEqual :: "node \<Rightarrow> node \<Rightarrow> bool" where
  "treesEqual (NLiteral a _) right =
     (case right of NLiteral b _ \<Rightarrow> literalsEqual a b | _ \<Rightarrow> False)"
| "treesEqual (NIdent name absolute _) right =
     (case right of NIdent name' absolute' _ \<Rightarrow> name = name' \<and> absolute = absolute' | _ \<Rightarrow> False)"
| "treesEqual (NUnparsed _) right = (case right of NUnparsed _ \<Rightarrow> True | _ \<Rightarrow> False)"
| "treesEqual (NList elements _) right =
     (case right of NList other _ \<Rightarrow>
          list_all2 (\<lambda>(v, optional) (v', optional'). optional = optional' \<and> treesEqual v v')
            elements other
      | _ \<Rightarrow> False)"
| "treesEqual (NMap entries _) right =
     (case right of NMap other _ \<Rightarrow>
          list_all2 (\<lambda>(k, v, optional) (k', v', optional').
            optional = optional' \<and> treesEqual k k' \<and> treesEqual v v') entries other
      | _ \<Rightarrow> False)"
| "treesEqual (NSelect operand field _ optional _ _) right =
     (case right of NSelect operand' field' _ optional' _ _ \<Rightarrow>
          field = field' \<and> optional = optional' \<and> treesEqual operand operand'
      | _ \<Rightarrow> False)"
| "treesEqual (NIndex operand index optional _) right =
     (case right of NIndex operand' index' optional' _ \<Rightarrow>
          optional = optional' \<and> treesEqual operand operand' \<and> treesEqual index index'
      | _ \<Rightarrow> False)"
| "treesEqual (NCall name _ args _) right =
     (case right of NCall name' _ args' _ \<Rightarrow> name = name' \<and> list_all2 treesEqual args args'
      | _ \<Rightarrow> False)"
| "treesEqual (NReceiverCall receiver name _ args _) right =
     (case right of NReceiverCall receiver' name' _ args' _ \<Rightarrow>
          name = name' \<and> treesEqual receiver receiver' \<and> list_all2 treesEqual args args'
      | _ \<Rightarrow> False)"
| "treesEqual (NQCall namespace _ name _ args _) right =
     (case right of NQCall namespace' _ name' _ args' _ \<Rightarrow>
          namespace = namespace' \<and> name = name' \<and> list_all2 treesEqual args args'
      | _ \<Rightarrow> False)"
| "treesEqual (NUnary operator operand _) right =
     (case right of NUnary operator' operand' _ \<Rightarrow>
          operator = operator' \<and> treesEqual operand operand'
      | _ \<Rightarrow> False)"
| "treesEqual (NBinary operator left' right' _) right =
     (case right of NBinary operator2 left2 right2 _ \<Rightarrow>
          operator = operator2 \<and> treesEqual left' left2 \<and> treesEqual right' right2
      | _ \<Rightarrow> False)"
| "treesEqual (NConditional c t f _) right =
     (case right of NConditional c' t' f' _ \<Rightarrow>
          treesEqual c c' \<and> treesEqual t t' \<and> treesEqual f f'
      | _ \<Rightarrow> False)"

text \<open>The part of a tree the comparison reads: ranges and backtick marks blanked.\<close>

fun erase :: "node \<Rightarrow> node" where
  "erase (NLiteral l _) = NLiteral l (0, 0)"
| "erase (NIdent name absolute _) = NIdent name absolute (0, 0)"
| "erase (NUnparsed _) = NUnparsed (0, 0)"
| "erase (NList elements _) = NList (map (\<lambda>(v, optional). (erase v, optional)) elements) (0, 0)"
| "erase (NMap entries _) =
     NMap (map (\<lambda>(k, v, optional). (erase k, erase v, optional)) entries) (0, 0)"
| "erase (NSelect operand field _ optional _ _) =
     NSelect (erase operand) field (0, 0) optional False (0, 0)"
| "erase (NIndex operand index optional _) = NIndex (erase operand) (erase index) optional (0, 0)"
| "erase (NCall name _ args _) = NCall name (0, 0) (map erase args) (0, 0)"
| "erase (NReceiverCall receiver name _ args _) =
     NReceiverCall (erase receiver) name (0, 0) (map erase args) (0, 0)"
| "erase (NQCall namespace _ name _ args _) =
     NQCall namespace (0, 0) name (0, 0) (map erase args) (0, 0)"
| "erase (NUnary operator operand _) = NUnary operator (erase operand) (0, 0)"
| "erase (NBinary operator l r _) = NBinary operator (erase l) (erase r) (0, 0)"
| "erase (NConditional c t f _) = NConditional (erase c) (erase t) (erase f) (0, 0)"

lemma list_all2_map_eq:
  "(\<And>x y. x \<in> set xs \<Longrightarrow> P x y \<longleftrightarrow> f x = f y) \<Longrightarrow> list_all2 P xs ys \<longleftrightarrow> map f xs = map f ys"
proof (induction xs arbitrary: ys)
  case (Cons x xs)
  then show ?case by (cases ys) auto
qed auto

lemma treesEqual_erase: "treesEqual a b \<longleftrightarrow> erase a = erase b"
proof (induction a arbitrary: b rule: erase.induct)
  case (4 elements r)
  have "list_all2 (\<lambda>(v, optional) (v', optional'). optional = optional' \<and> treesEqual v v') elements ys
      \<longleftrightarrow> map (\<lambda>(v, optional). (erase v, optional)) elements
          = map (\<lambda>(v, optional). (erase v, optional)) ys" for ys
    by (rule list_all2_map_eq) (use 4 in fastforce)
  then show ?case by (cases b) auto
next
  case (5 entries r)
  have "list_all2 (\<lambda>(k, v, optional) (k', v', optional').
        optional = optional' \<and> treesEqual k k' \<and> treesEqual v v') entries ys
      \<longleftrightarrow> map (\<lambda>(k, v, optional). (erase k, erase v, optional)) entries
          = map (\<lambda>(k, v, optional). (erase k, erase v, optional)) ys" for ys
    by (rule list_all2_map_eq) (use 5 in fastforce)
  then show ?case by (cases b) auto
next
  case (8 name nr args r)
  have "list_all2 treesEqual args ys \<longleftrightarrow> map erase args = map erase ys" for ys
    by (rule list_all2_map_eq) (use 8 in blast)
  then show ?case by (cases b) auto
next
  case (9 receiver name nr args r)
  have "list_all2 treesEqual args ys \<longleftrightarrow> map erase args = map erase ys" for ys
    by (rule list_all2_map_eq) (use 9 in blast)
  with 9 show ?case by (cases b) auto
next
  case (10 namespace nsr name nr args r)
  have "list_all2 treesEqual args ys \<longleftrightarrow> map erase args = map erase ys" for ys
    by (rule list_all2_map_eq) (use 10 in blast)
  then show ?case by (cases b) auto
next
  case (1 l r)
  then show ?case by (cases b) (auto simp: literalsEqual_iff)
next
  case (2 name absolute r)
  then show ?case by (cases b) auto
next
  case (3 r)
  then show ?case by (cases b) auto
next
  case (6 operand field fr optional quoted r)
  then show ?case by (cases b) auto
next
  case (7 operand index optional r)
  then show ?case by (cases b) auto
next
  case (11 operator operand r)
  then show ?case by (cases b) auto
next
  case (12 operator l r rr)
  then show ?case by (cases b) auto
next
  case (13 c t f r)
  then show ?case by (cases b) auto
qed

section \<open>Properties\<close>

text \<open>Comparing two trees answers whether they are the same expression: the same tree once
  every range and every backtick mark is blanked. The comparison is therefore reflexive,
  symmetric and transitive.\<close>

theorem treesEqual_reading:
  "treesEqual a b \<longleftrightarrow> erase a = erase b"
  by (rule treesEqual_erase)

end
