(* ===== verification/Cel_Lexer.thy ===== *)
theory Cel_Lexer
  imports Cel_Syntax
begin

unbundle bit_operations_syntax

text \<open>
  The tokens of the expression engine (\<open>cel/nodejs/src/lexer.ts\<close>) and what the front end says
  when it cannot read the source (\<open>syntax-diagnostic.ts\<close>).

  A scanner holds the offset it stands at and the text from there on. A token carries its kind,
  with the literal it decoded or the lexeme it is, and its range; a diagnostic its code and its
  range. The sentences of diagnostics are not modelled, nor the lexeme of a literal, which
  only those sentences read.
\<close>

section \<open>Diagnostics\<close>

datatype syntax_code =
    UnexpectedCharacter | UnexpectedToken | UnexpectedEnd | UnterminatedString
  | ReservedIdentifier | InvalidNumber | InvalidInteger | InvalidUnsignedInteger
  | InvalidEscapeSequence | InvalidUnicodeEscape | InvalidUnicodeSurrogate
  | InvalidHexEscape | InvalidOctalEscape | OctalEscapeOutOfRange | BytesUnicodeEscape
  | LimitExceeded

record syntax_diagnostic =
  code :: syntax_code
  drange :: source_range

definition diagnostic :: "syntax_code \<Rightarrow> nat \<Rightarrow> nat \<Rightarrow> syntax_diagnostic" where
  "diagnostic c from_at to_at = \<lparr>code = c, drange = (from_at, to_at)\<rparr>"

text \<open>The first diagnostic reported is held; later ones are ignored.\<close>

definition report :: "syntax_diagnostic \<Rightarrow> syntax_diagnostic option \<Rightarrow> syntax_diagnostic option" where
  "report d held = (case held of None \<Rightarrow> Some d | Some _ \<Rightarrow> held)"

definition firstInSourceOrder ::
  "syntax_diagnostic option \<Rightarrow> syntax_diagnostic option \<Rightarrow> nat \<Rightarrow> syntax_diagnostic list" where
  "firstInSourceOrder lexed_first parsed_first cut_at =
     (case (lexed_first, parsed_first) of
        (Some l, Some p) \<Rightarrow> [if fst (drange p) < cut_at then p else l]
      | (Some l, None) \<Rightarrow> [l]
      | (None, Some p) \<Rightarrow> [p]
      | (None, None) \<Rightarrow> [])"

section \<open>Tokens\<close>

definition MAX_INT :: int where "MAX_INT = 9223372036854775807"

definition MIN_INT :: int where "MIN_INT = -9223372036854775808"

definition MAX_UINT :: int where "MAX_UINT = 18446744073709551615"

text \<open>The flag of an integer marks the magnitude of exactly \<open>2 ^ 63\<close>.\<close>

datatype token_kind =
    KIdent jstring | KQuotedIdent jstring | KReserved jstring | KKeyword jstring
  | KInt int bool | KUint int | KDouble double | KString jstring | KBytes "nat list"
  | KPunct jstring | KEof

record token =
  kind :: token_kind
  tstart :: nat
  tend :: nat

definition PUNCTUATION :: "code_unit list" where
  "PUNCTUATION = js ''()[]{}.,:?!+-*/%''"

definition SIMPLE_ESCAPES :: "(code_unit \<times> nat) list" where
  "SIMPLE_ESCAPES =
     [(92, 0x5c), (39, 0x27), (34, 0x22), (96, 0x60), (63, 0x3f), (97, 0x07), (98, 0x08),
      (102, 0x0c), (110, 0x0a), (114, 0x0d), (116, 0x09), (118, 0x0b)]"

definition isHexDigit :: "code_unit \<Rightarrow> bool" where
  "isHexDigit ch \<longleftrightarrow> isDigit ch \<or> (97 \<le> ch \<and> ch \<le> 102) \<or> (65 \<le> ch \<and> ch \<le> 70)"

definition isOctalDigit :: "code_unit \<Rightarrow> bool" where
  "isOctalDigit ch \<longleftrightarrow> 48 \<le> ch \<and> ch \<le> 55"

text \<open>What a word before a quote makes of the literal: whether it is raw, and whether bytes.\<close>

definition stringPrefix :: "jstring \<Rightarrow> (bool \<times> bool) option" where
  "stringPrefix text =
     (let lower = map (\<lambda>c. if 65 \<le> c \<and> c \<le> 90 then c + 32 else c) text in
      if lower = js ''r'' then Some (True, False)
      else if lower = js ''b'' then Some (False, True)
      else if lower = js ''br'' then Some (True, True)
      else None)"

definition isLineBreak :: "code_unit \<Rightarrow> bool" where
  "isLineBreak ch \<longleftrightarrow> ch = 10 \<or> ch = 13"

definition isSpace :: "code_unit \<Rightarrow> bool" where
  "isSpace ch \<longleftrightarrow> ch = 32 \<or> ch = 9 \<or> ch = 10 \<or> ch = 13 \<or> ch = 12 \<or> ch = 11"

text \<open>The code point a text begins with, and over how many code units.\<close>

definition code_point_at :: "jstring \<Rightarrow> nat \<times> nat" where
  "code_point_at s =
     (if 0xd800 \<le> hd s \<and> hd s \<le> 0xdbff \<and> tl s \<noteq> [] \<and> 0xdc00 \<le> hd (tl s) \<and> hd (tl s) \<le> 0xdfff
      then (0x10000 + (hd s - 0xd800) * 0x400 + (hd (tl s) - 0xdc00), 2)
      else (hd s, 1))"

section \<open>Literal text\<close>

definition pushUtf8 :: "nat \<Rightarrow> nat list" where
  "pushUtf8 point =
     (if point < 0x80 then [point]
      else if point < 0x800 then [0xc0 OR drop_bit 6 point, 0x80 OR (point AND 0x3f)]
      else if point < 0x10000 then
        [0xe0 OR drop_bit 12 point, 0x80 OR (drop_bit 6 point AND 0x3f), 0x80 OR (point AND 0x3f)]
      else
        [0xf0 OR drop_bit 18 point, 0x80 OR (drop_bit 12 point AND 0x3f),
         0x80 OR (drop_bit 6 point AND 0x3f), 0x80 OR (point AND 0x3f)])"

text \<open>One character as the literal holds it, and how many code units it was read over.\<close>

definition literalCharacter :: "bool \<Rightarrow> jstring \<Rightarrow> nat list \<times> nat" where
  "literalCharacter bytes s =
     (if \<not> bytes then ([hd s], 1)
      else let (point, _) = code_point_at s in (pushUtf8 point, if point > 0xffff then 2 else 1))"

definition hex_digit_value :: "code_unit \<Rightarrow> nat" where
  "hex_digit_value c = (if c \<le> 57 then c - 48 else if c \<le> 70 then c - 55 else c - 87)"

definition radix_value :: "nat \<Rightarrow> jstring \<Rightarrow> nat" where
  "radix_value radix ds = foldl (\<lambda>v c. radix * v + hex_digit_value c) 0 ds"

definition writtenDigits :: "nat \<Rightarrow> (code_unit \<Rightarrow> bool) \<Rightarrow> jstring \<Rightarrow> jstring" where
  "writtenDigits width admits s = takeWhile admits (take width s)"

text \<open>
  An escape, \<open>s\<close> being the text after its backslash at offset \<open>pos\<close>: what it decodes to and over
  how many code units, the backslash counted.
\<close>

type_synonym escape_result = "syntax_diagnostic + nat list \<times> nat"

definition readHexEscape :: "nat \<Rightarrow> jstring \<Rightarrow> escape_result" where
  "readHexEscape pos s =
     (let ds = writtenDigits 2 isHexDigit (drop 1 s) in
      if length ds < 2 then Inl (diagnostic InvalidHexEscape pos (pos + 2 + length ds))
      else Inr ([radix_value 16 ds], 4))"

definition readOctalEscape :: "nat \<Rightarrow> jstring \<Rightarrow> escape_result" where
  "readOctalEscape pos s =
     (let ds = writtenDigits 3 isOctalDigit s in
      if length ds < 3 then Inl (diagnostic InvalidOctalEscape pos (pos + 1 + length ds))
      else if radix_value 8 ds > 0xff then Inl (diagnostic OctalEscapeOutOfRange pos (pos + 4))
      else Inr ([radix_value 8 ds], 4))"

text \<open>The trailing surrogate escape a leading one stands beside: \<open>/^\\u([0-9a-fA-F]{4})$/\<close>.\<close>

definition trailing_escape :: "jstring \<Rightarrow> nat option" where
  "trailing_escape s =
     (let follows = take 6 s in
      if length follows = 6 \<and> take 2 follows = [92, 117] \<and> list_all isHexDigit (drop 2 follows)
      then Some (radix_value 16 (drop 2 follows)) else None)"

definition readUnicodeEscape :: "nat \<Rightarrow> nat \<Rightarrow> jstring \<Rightarrow> escape_result" where
  "readUnicodeEscape width pos s =
     (let ds = writtenDigits width isHexDigit (drop 1 s); end_at = pos + 2 + length ds;
          point = radix_value 16 ds in
      if length ds < width then Inl (diagnostic InvalidUnicodeEscape pos end_at)
      else if point > 0x10ffff then Inl (diagnostic InvalidUnicodeEscape pos end_at)
      else if 0xdc00 \<le> point \<and> point \<le> 0xdfff then Inl (diagnostic InvalidUnicodeSurrogate pos end_at)
      else if 0xd800 \<le> point \<and> point \<le> 0xdbff then
        (case trailing_escape (drop (1 + width) s) of
           Some trail \<Rightarrow>
             if trail < 0xdc00 \<or> trail > 0xdfff then Inl (diagnostic InvalidUnicodeSurrogate pos end_at)
             else Inr ([point, trail], 2 + width + 6)
         | None \<Rightarrow> Inl (diagnostic InvalidUnicodeSurrogate pos end_at))
      else if point > 0xffff then
        Inr ([0xd800 + drop_bit 10 (point - 0x10000), 0xdc00 + ((point - 0x10000) AND 0x3ff)], 2 + width)
      else Inr ([point], 2 + width))"

definition readEscape :: "nat \<Rightarrow> bool \<Rightarrow> jstring \<Rightarrow> escape_result" where
  "readEscape pos bytes s =
     (if s = [] then Inl (diagnostic InvalidEscapeSequence pos (pos + 1))
      else case map_of SIMPLE_ESCAPES (hd s) of
        Some simple \<Rightarrow> Inr ([simple], 2)
      | None \<Rightarrow>
          if hd s = 120 \<or> hd s = 88 then readHexEscape pos s
          else if hd s = 117 \<or> hd s = 85 then
            (if bytes then Inl (diagnostic BytesUnicodeEscape pos (pos + 2))
             else readUnicodeEscape (if hd s = 117 then 4 else 8) pos s)
          else if isOctalDigit (hd s) then readOctalEscape pos s
          else Inl (diagnostic InvalidEscapeSequence pos (pos + 1 + snd (code_point_at s))))"

lemma literalCharacter_width: "0 < snd (literalCharacter bytes s)"
  by (simp add: literalCharacter_def split: prod.split)

lemma readEscape_width: "readEscape pos bytes s = Inr (us, w) \<Longrightarrow> 2 \<le> w"
  by (auto simp: readEscape_def readHexEscape_def readOctalEscape_def readUnicodeEscape_def Let_def
      split: option.splits if_splits)

text \<open>
  The text of a literal from the offset \<open>pos\<close> to its terminator, \<open>open_at\<close> being where its quote
  stands: what it holds, where it ends and the text after it.
\<close>

type_synonym literal_text = "syntax_diagnostic + nat list \<times> nat \<times> jstring"

definition push_units :: "nat list \<Rightarrow> literal_text \<Rightarrow> literal_text" where
  "push_units us r = map_sum id (\<lambda>(units, end_at, rest). (us @ units, end_at, rest)) r"

lemma push_units_Inr:
  "push_units us r = Inr (us', e, rest) \<longleftrightarrow> (\<exists>units. r = Inr (units, e, rest) \<and> us' = us @ units)"
  by (cases r) (auto simp: push_units_def)

lemma push_units_simps [simp]:
  "push_units us (Inr (units, e, rest)) = Inr (us @ units, e, rest)"
  "push_units us (Inl d) = Inl d"
  by (simp_all add: push_units_def)

function scanRaw :: "nat \<Rightarrow> jstring \<Rightarrow> bool \<Rightarrow> bool \<Rightarrow> nat \<Rightarrow> jstring \<Rightarrow> literal_text" where
  "scanRaw open_at terminator triple bytes pos s =
     (if s = [] then Inl (diagnostic UnterminatedString open_at pos)
      else if starts_with s terminator then
        Inr ([], pos + length terminator, drop (length terminator) s)
      else if \<not> triple \<and> isLineBreak (hd s) then Inl (diagnostic UnterminatedString open_at pos)
      else if hd s = 92 \<and> tl s \<noteq> [] \<and> (triple \<or> \<not> isLineBreak (hd (tl s))) then
        (let (us, w) = literalCharacter bytes (tl s) in
         push_units (0x5c # us) (scanRaw open_at terminator triple bytes (pos + 1 + w) (drop (1 + w) s)))
      else
        (let (us, w) = literalCharacter bytes s in
         push_units us (scanRaw open_at terminator triple bytes (pos + w) (drop w s))))"
  by pat_completeness auto
termination
proof (relation "measure (\<lambda>(_, _, _, _, _, s). length s)", goal_cases)
  case (2 open_at terminator triple bytes pos s r us w)
  then show ?case by simp
next
  case (3 open_at terminator triple bytes pos s r us w)
  then show ?case using literalCharacter_width [of bytes s] by (simp add: prod_eq_iff)
qed simp

function scanEscaped :: "nat \<Rightarrow> jstring \<Rightarrow> bool \<Rightarrow> bool \<Rightarrow> nat \<Rightarrow> jstring \<Rightarrow> literal_text" where
  "scanEscaped open_at terminator triple bytes pos s =
     (if s = [] then Inl (diagnostic UnterminatedString open_at pos)
      else if starts_with s terminator then
        Inr ([], pos + length terminator, drop (length terminator) s)
      else if \<not> triple \<and> isLineBreak (hd s) then Inl (diagnostic UnterminatedString open_at pos)
      else if hd s \<noteq> 92 then
        (let (us, w) = literalCharacter bytes s in
         push_units us (scanEscaped open_at terminator triple bytes (pos + w) (drop w s)))
      else
        (case readEscape pos bytes (tl s) of
           Inl d \<Rightarrow> Inl d
         | Inr (us, w) \<Rightarrow>
             push_units us (scanEscaped open_at terminator triple bytes (pos + w) (drop w s))))"
  by pat_completeness auto
termination
proof (relation "measure (\<lambda>(_, _, _, _, _, s). length s)", goal_cases)
  case (2 open_at terminator triple bytes pos s r us w)
  then show ?case using literalCharacter_width [of bytes s] by (simp add: prod_eq_iff)
next
  case (3 open_at terminator triple bytes pos s r us w)
  then show ?case using readEscape_width [of pos bytes "tl s" us w] by simp
qed simp

declare scanRaw.simps [simp del] scanEscaped.simps [simp del]

section \<open>The scanner\<close>

text \<open>A token and the text after it, or why there is none.\<close>

type_synonym lex_result = "syntax_diagnostic + token \<times> jstring"

definition lexed :: "token_kind \<Rightarrow> nat \<Rightarrow> nat \<Rightarrow> jstring \<Rightarrow> lex_result" where
  "lexed k from_at to_at rest = Inr (\<lparr>kind = k, tstart = from_at, tend = to_at\<rparr>, rest)"

function skipIgnored :: "nat \<Rightarrow> jstring \<Rightarrow> nat \<times> jstring" where
  "skipIgnored pos s =
     (if s \<noteq> [] \<and> isSpace (hd s) then skipIgnored (pos + 1) (tl s)
      else if s \<noteq> [] \<and> hd s = 47 \<and> tl s \<noteq> [] \<and> hd (tl s) = 47 then
        skipIgnored (pos + length (takeWhile (\<lambda>c. c \<noteq> 10) s)) (dropWhile (\<lambda>c. c \<noteq> 10) s)
      else (pos, s))"
  by pat_completeness auto
termination
proof (relation "measure (\<lambda>(_, s). length s)", goal_cases)
  case (3 pos s)
  then show ?case by (cases s) (auto simp: less_Suc_eq_le length_dropWhile_le)
qed auto

declare skipIgnored.simps [simp del]

definition readPunctuation :: "nat \<Rightarrow> jstring \<Rightarrow> lex_result" where
  "readPunctuation start s =
     (let pair = take 2 s in
      if pair \<in> {js ''=='', js ''!='', js ''<='', js ''>='', js ''&&'', js ''||''} then
        lexed (KPunct pair) start (start + 2) (drop 2 s)
      else if hd s = 60 \<or> hd s = 62 \<or> hd s \<in> set PUNCTUATION then
        lexed (KPunct [hd s]) start (start + 1) (tl s)
      else Inl (diagnostic UnexpectedCharacter start (start + snd (code_point_at s))))"

definition readQuotedIdentifier :: "nat \<Rightarrow> jstring \<Rightarrow> lex_result" where
  "readQuotedIdentifier start s =
     (let inner = takeWhile (\<lambda>c. c \<noteq> 96) (tl s); rest = dropWhile (\<lambda>c. c \<noteq> 96) (tl s);
          close = start + 1 + length inner in
      if rest = [] \<or> list_ex isLineBreak inner then Inl (diagnostic UnterminatedString start close)
      else lexed (KQuotedIdent inner) start (close + 1) (tl rest))"

text \<open>A string or bytes literal starting at \<open>start\<close>; \<open>s\<close> begins with its quote, at \<open>quoteAt\<close>.\<close>

definition readQuoted :: "nat \<Rightarrow> nat \<Rightarrow> bool \<Rightarrow> bool \<Rightarrow> jstring \<Rightarrow> lex_result" where
  "readQuoted start quoteAt raw bytes s =
     (let quote = hd s; triple = (take 3 s = [quote, quote, quote]);
          terminator = (if triple then [quote, quote, quote] else [quote]);
          scan = (if raw then scanRaw else scanEscaped) in
      case scan quoteAt terminator triple bytes (quoteAt + length terminator) (drop (length terminator) s) of
        Inl d \<Rightarrow> Inl d
      | Inr (units, end_at, rest) \<Rightarrow>
          lexed (if bytes then KBytes (map (\<lambda>u. u mod 256) units) else KString units) start end_at rest)"

definition readWord :: "nat \<Rightarrow> jstring \<Rightarrow> lex_result" where
  "readWord start s =
     (let text = takeWhile isIdentPart s; rest = dropWhile isIdentPart s; pos = start + length text;
          plain = (case wordReading text of
              WordOperator \<Rightarrow> lexed (KKeyword text) start pos rest
            | WordRefused \<Rightarrow> lexed (KReserved text) start pos rest
            | _ \<Rightarrow> lexed (KIdent text) start pos rest)
      in (case stringPrefix text of
            Some (raw, bytes) \<Rightarrow>
              if rest \<noteq> [] \<and> (hd rest = 39 \<or> hd rest = 34) then readQuoted start pos raw bytes rest else plain
          | None \<Rightarrow> plain))"

definition invalidNumber :: "nat \<Rightarrow> nat \<Rightarrow> jstring \<Rightarrow> lex_result" where
  "invalidNumber start pos rest =
     Inl (diagnostic InvalidNumber start (pos + length (takeWhile isIdentPart rest)))"

text \<open>The digits of a decimal number, whether they make a double, and the text after them.\<close>

definition decimal_digits :: "jstring \<Rightarrow> jstring \<times> bool \<times> jstring" where
  "decimal_digits s =
     (let whole = takeWhile isDigit s; r = dropWhile isDigit s;
          pointed = (r \<noteq> [] \<and> hd r = 46 \<and> tl r \<noteq> [] \<and> isDigit (hd (tl r)));
          fraction = (if pointed then 46 # takeWhile isDigit (tl r) else []);
          r1 = (if pointed then dropWhile isDigit (tl r) else r);
          signed = (r1 \<noteq> [] \<and> tl r1 \<noteq> [] \<and> (hd (tl r1) = 43 \<or> hd (tl r1) = 45));
          k = (if signed then 2 else 1); r2 = drop k r1;
          raised = (r1 \<noteq> [] \<and> (hd r1 = 101 \<or> hd r1 = 69) \<and> r2 \<noteq> [] \<and> isDigit (hd r2))
      in if raised then (whole @ fraction @ take k r1 @ takeWhile isDigit r2, True, dropWhile isDigit r2)
         else (whole @ fraction, pointed, r1))"

definition finish_number :: "nat \<Rightarrow> nat \<Rightarrow> jstring \<Rightarrow> bool \<Rightarrow> nat \<Rightarrow> jstring \<Rightarrow> lex_result" where
  "finish_number start pos digits is_double radix rest =
     (let unsigned = (rest \<noteq> [] \<and> (hd rest = 117 \<or> hd rest = 85));
          pos' = (if unsigned then pos + 1 else pos); rest' = (if unsigned then tl rest else rest) in
      if rest' \<noteq> [] \<and> isIdentPart (hd rest') then invalidNumber start pos' rest'
      else if is_double then
        (if unsigned then invalidNumber start pos' rest'
         else lexed (KDouble (number_of_text digits)) start pos' rest')
      else
        (let magnitude = int (radix_value radix digits) in
         if unsigned then
           (if magnitude > MAX_UINT then Inl (diagnostic InvalidUnsignedInteger start pos')
            else lexed (KUint magnitude) start pos' rest')
         else if magnitude > - MIN_INT then Inl (diagnostic InvalidInteger start pos')
         else lexed (KInt magnitude (magnitude = - MIN_INT)) start pos' rest'))"

definition readNumber :: "nat \<Rightarrow> jstring \<Rightarrow> lex_result" where
  "readNumber start s =
     (if hd s = 48 \<and> tl s \<noteq> [] \<and> (hd (tl s) = 120 \<or> hd (tl s) = 88) then
        (let digits = takeWhile isHexDigit (drop 2 s); rest = dropWhile isHexDigit (drop 2 s) in
         if digits = [] then invalidNumber start (start + 2) rest
         else finish_number start (start + 2 + length digits) digits False 16 rest)
      else
        (let (digits, is_double, rest) = decimal_digits s in
         finish_number start (start + length digits) digits is_double 10 rest))"

definition next_token :: "nat \<Rightarrow> jstring \<Rightarrow> lex_result" where
  "next_token start s =
     (let ch = hd s in
      if ch = 39 \<or> ch = 34 then readQuoted start start False False s
      else if isIdentStart ch then readWord start s
      else if isDigit ch then readNumber start s
      else if ch = 46 \<and> tl s \<noteq> [] \<and> isDigit (hd (tl s)) then readNumber start s
      else if ch = 96 then readQuotedIdentifier start s
      else readPunctuation start s)"

subsection \<open>Every token moves on\<close>

lemma skipIgnored_length: "length (snd (skipIgnored pos s)) \<le> length s"
proof (induction pos s rule: skipIgnored.induct)
  case (1 pos s)
  have "length (dropWhile (\<lambda>c. c \<noteq> 10) s) \<le> length s" by (rule length_dropWhile_le)
  with 1 show ?case by (subst skipIgnored.simps) (auto simp: le_diff_conv)
qed

lemma scanRaw_length: "scanRaw open_at t triple bytes pos s = Inr (us, e, rest) \<Longrightarrow> length rest \<le> length s"
proof (induction open_at t triple bytes pos s arbitrary: us e rest rule: scanRaw.induct)
  case (1 open_at t triple bytes pos s)
  obtain vs w vs' w' where lc: "literalCharacter bytes s = (vs, w)" "literalCharacter bytes (tl s) = (vs', w')"
    by (cases "literalCharacter bytes s"; cases "literalCharacter bytes (tl s)")
  note IH = "1.IH" [simplified lc Let_def, OF _ _ _ _ refl refl]
  from "1.prems" show ?case
    by (subst (asm) scanRaw.simps)
      (auto simp: push_units_Inr lc split: if_splits dest: IH)
qed

lemma scanEscaped_length: "scanEscaped open_at t triple bytes pos s = Inr (us, e, rest) \<Longrightarrow> length rest \<le> length s"
proof (induction "length s" arbitrary: pos s us rule: less_induct)
  case less
  have step: "length rest \<le> length s"
    if "scanEscaped open_at t triple bytes p (drop w s) = Inr (vs, e, rest)" "0 < w" "s \<noteq> []" for p w vs
    using less.hyps [OF _ that(1)] that(2,3) by auto
  have width: "0 < w" if "literalCharacter bytes s = (vs, w) \<or> readEscape pos bytes (tl s) = Inr (vs, w)" for vs w
    using that literalCharacter_width [of bytes s] readEscape_width [of pos bytes "tl s" vs w] by auto
  from less.prems show ?case
    by (subst (asm) scanEscaped.simps)
      (auto simp: push_units_Inr Let_def split: if_splits sum.splits prod.splits intro: step width)
qed

lemma decimal_digits_split:
  assumes "decimal_digits s = (digits, is_double, rest)"
  shows "digits @ rest = s"
    and "s \<noteq> [] \<Longrightarrow> isDigit (hd s) \<or> (hd s = 46 \<and> tl s \<noteq> [] \<and> isDigit (hd (tl s))) \<Longrightarrow> digits \<noteq> []"
proof -
  define r where "r = dropWhile isDigit s"
  define pointed where "pointed \<longleftrightarrow> r \<noteq> [] \<and> hd r = 46 \<and> tl r \<noteq> [] \<and> isDigit (hd (tl r))"
  define fraction where "fraction = (if pointed then 46 # takeWhile isDigit (tl r) else [])"
  define r1 where "r1 = (if pointed then dropWhile isDigit (tl r) else r)"
  define k :: nat where "k = (if r1 \<noteq> [] \<and> tl r1 \<noteq> [] \<and> (hd (tl r1) = 43 \<or> hd (tl r1) = 45) then 2 else 1)"
  define r2 where "r2 = drop k r1"
  define raised where "raised \<longleftrightarrow> r1 \<noteq> [] \<and> (hd r1 = 101 \<or> hd r1 = 69) \<and> r2 \<noteq> [] \<and> isDigit (hd r2)"
  have s: "takeWhile isDigit s @ r = s" by (simp add: r_def)
  have r: "fraction @ r1 = r" by (cases r) (auto simp: fraction_def r1_def pointed_def)
  have r1: "take k r1 @ r2 = r1" unfolding r2_def by (rule append_take_drop_id)
  have "decimal_digits s =
      (if raised then (takeWhile isDigit s @ fraction @ take k r1 @ takeWhile isDigit r2, True, dropWhile isDigit r2)
       else (takeWhile isDigit s @ fraction, pointed, r1))"
    unfolding decimal_digits_def Let_def r_def [symmetric] pointed_def [symmetric] fraction_def [symmetric]
      r1_def [symmetric] k_def [symmetric] r2_def [symmetric] raised_def [symmetric]
    by (rule refl)
  note eq = this
  from eq assms s r r1 show "digits @ rest = s" by (auto split: if_splits)
  show "digits \<noteq> []" if "s \<noteq> []" "isDigit (hd s) \<or> (hd s = 46 \<and> tl s \<noteq> [] \<and> isDigit (hd (tl s)))"
  proof -
    have "takeWhile isDigit s @ fraction \<noteq> []"
    proof (cases "isDigit (hd s)")
      case True
      then show ?thesis using that(1) by (cases s) auto
    next
      case False
      then have "r = s" using that(1) by (cases s) (auto simp: r_def)
      then show ?thesis using that False by (simp add: fraction_def pointed_def)
    qed
    moreover from eq assms obtain u where "digits = (takeWhile isDigit s @ fraction) @ u"
      by (auto split: if_splits)
    ultimately show ?thesis by auto
  qed
qed

lemma lexed_Inr [simp]: "lexed k a b r = Inr (t, rest) \<longleftrightarrow> t = \<lparr>kind = k, tstart = a, tend = b\<rparr> \<and> rest = r"
  by (auto simp: lexed_def)

lemma finish_number_length:
  "finish_number start pos digits d radix rest = Inr (t, rest') \<Longrightarrow> length rest' \<le> length rest"
  by (auto simp: finish_number_def invalidNumber_def Let_def split: if_splits)

lemma readQuoted_length:
  assumes "readQuoted start q raw bytes s = Inr (t, rest)" "s \<noteq> []"
  shows "length rest < length s"
proof -
  from assms(1) have "length rest \<le> length s - 1"
    by (auto simp: readQuoted_def Let_def split: if_splits sum.splits
        dest!: scanRaw_length scanEscaped_length)
  with assms(2) show ?thesis by (cases s) auto
qed

lemma readWord_length:
  assumes "readWord start s = Inr (t, rest)" "isIdentStart (hd s)" "s \<noteq> []"
  shows "length rest < length s"
proof -
  have d: "length (dropWhile isIdentPart s) < length s"
    using assms by (cases s) (auto simp: isIdentPart_def less_Suc_eq_le length_dropWhile_le)
  show ?thesis
  proof (cases "rest = dropWhile isIdentPart s")
    case False
    with assms(1) obtain raw bytes where
      "readQuoted start (start + length (takeWhile isIdentPart s)) raw bytes (dropWhile isIdentPart s) = Inr (t, rest)"
      "dropWhile isIdentPart s \<noteq> []"
      by (auto simp: readWord_def Let_def split: option.splits if_splits prod.splits word_reading.splits)
    from readQuoted_length [OF this] d show ?thesis by simp
  qed (use d in simp)
qed

lemma next_token_length:
  assumes "next_token start s = Inr (t, rest)" "s \<noteq> []"
  shows "length rest < length s"
proof -
  have num: "length rest < length s" if "readNumber start s = Inr (t, rest)" "isDigit (hd s) \<or> (hd s = 46 \<and> tl s \<noteq> [] \<and> isDigit (hd (tl s)))"
  proof (cases "hd s = 48 \<and> tl s \<noteq> [] \<and> (hd (tl s) = 120 \<or> hd (tl s) = 88)")
    case True
    with that(1) have "length rest \<le> length (dropWhile isHexDigit (drop 2 s))"
      by (auto simp: readNumber_def Let_def invalidNumber_def split: if_splits dest: finish_number_length)
    also have "\<dots> \<le> length (drop 2 s)" by (rule length_dropWhile_le)
    finally show ?thesis using assms(2) by (cases s) auto
  next
    case False
    obtain digits d r where dd: "decimal_digits s = (digits, d, r)" by (cases "decimal_digits s")
    with that(1) False have "length rest \<le> length r"
      by (auto simp: readNumber_def split: if_splits dest: finish_number_length)
    moreover have digits: "digits \<noteq> []"
      by (rule decimal_digits_split(2) [OF dd assms(2) that(2)])
    from digits have "0 < length digits" by simp
    moreover have "length s = length digits + length r"
      using arg_cong [OF decimal_digits_split(1) [OF dd], of length] by simp
    ultimately show ?thesis by linarith
  qed
  have qid: "length rest < length s" if "readQuotedIdentifier start s = Inr (t, rest)"
  proof -
    have "length rest \<le> length (dropWhile (\<lambda>c. c \<noteq> 96) (tl s))"
      using that by (auto simp: readQuotedIdentifier_def Let_def split: if_splits)
    also have "\<dots> \<le> length (tl s)" by (rule length_dropWhile_le)
    finally show ?thesis using assms(2) by (cases s) auto
  qed
  have punct: "length rest < length s" if "readPunctuation start s = Inr (t, rest)"
    using that assms(2) by (cases s) (auto simp: readPunctuation_def Let_def split: if_splits)
  note quoted = readQuoted_length [OF _ assms(2)] and word = readWord_length [OF _ _ assms(2)]
  show ?thesis
    using assms(1) unfolding next_token_def Let_def
    by (simp split: if_split_asm add: quoted word num qid punct)
qed

text \<open>Every token up to the end of the source, or up to the first unreadable text.\<close>

function tokens_from :: "nat \<Rightarrow> jstring \<Rightarrow> token list \<times> syntax_diagnostic option" where
  "tokens_from pos s =
     (let (start, s') = skipIgnored pos s; eof = \<lparr>kind = KEof, tstart = start, tend = start\<rparr> in
      if s' = [] then ([eof], None)
      else (case next_token start s' of
              Inl d \<Rightarrow> ([eof], Some d)
            | Inr (t, rest) \<Rightarrow> (let (ts, d) = tokens_from (tend t) rest in (t # ts, d))))"
  by pat_completeness auto
termination
proof (relation "measure (\<lambda>(_, s). length s)", goal_cases)
  case (2 pos s p start s' eof r t rest)
  then have "length rest < length s'" by (auto intro: next_token_length)
  also have "length s' \<le> length s" using skipIgnored_length [of pos s] 2 by (metis snd_conv)
  finally show ?case by simp
qed simp

declare tokens_from.simps [simp del]

definition tokenize :: "jstring \<Rightarrow> token list \<times> syntax_diagnostic option" where
  "tokenize source = tokens_from 0 source"

end
