(* ===== verification/Cel_Value.thy ===== *)
theory Cel_Value
  imports Cel_Time Cel_Lexer
begin

text \<open>
  The value domain of the expression engine (\<open>cel/nodejs/src/cel-value.ts\<close>), checked 64-bit arithmetic
  (\<open>integer-arithmetic.ts\<close>), the one comparison behind equality and ordering
  (\<open>value-equality.ts\<close>) and the building of maps by the identity of their keys
  (\<open>cel-map-value.ts\<close>).

  A value is a datatype with one constructor for each shape the host holds it in. What the host
  compares by reference, a value of a host's own type, an error or an object of no type, carries the
  number of that object. A map is its entries in insertion order, with the identity each is filed
  under; a record is a plain object's members in the order the host walks them.
\<close>

section \<open>The domain\<close>

datatype map_key = KeyText jstring | KeyBool bool | KeyNumber int

datatype cel_value =
    VNull
  | VBool bool
  | VString jstring
  | VDouble double
  | VInt int
  | VBytes "nat list"
  | VList "cel_value list"
  | VUint int
  | VTimestamp cel_timestamp
  | VDuration cel_duration
  | VType jstring
  | VOptional "cel_value option"
  | VMap "(map_key \<times> cel_value \<times> cel_value) list"
  | VRecord "(jstring \<times> cel_value) list"
  | VError evaluation_code nat
  | VHost jstring nat
  | VUndefined
  | VForeign nat

fun isCelError :: "cel_value \<Rightarrow> bool" where
  "isCelError (VError _ _) = True"
| "isCelError _ = False"

fun celTypeNameOf :: "cel_value \<Rightarrow> jstring option" where
  "celTypeNameOf (VBool _) = Some (js ''bool'')"
| "celTypeNameOf (VString _) = Some (js ''string'')"
| "celTypeNameOf (VDouble _) = Some (js ''double'')"
| "celTypeNameOf (VInt _) = Some (js ''int'')"
| "celTypeNameOf VNull = Some (js ''null_type'')"
| "celTypeNameOf (VUint _) = Some (js ''uint'')"
| "celTypeNameOf (VTimestamp _) = Some (js ''google.protobuf.Timestamp'')"
| "celTypeNameOf (VDuration _) = Some (js ''google.protobuf.Duration'')"
| "celTypeNameOf (VType _) = Some (js ''type'')"
| "celTypeNameOf (VOptional _) = Some (js ''optional'')"
| "celTypeNameOf (VMap _) = Some (js ''map'')"
| "celTypeNameOf (VHost brand _) = Some brand"
| "celTypeNameOf (VRecord _) = Some (js ''map'')"
| "celTypeNameOf (VList _) = Some (js ''list'')"
| "celTypeNameOf (VBytes _) = Some (js ''bytes'')"
| "celTypeNameOf (VError _ _) = None"
| "celTypeNameOf VUndefined = None"
| "celTypeNameOf (VForeign _) = None"

fun literalValue :: "literal \<Rightarrow> cel_value" where
  "literalValue (LInt i) = VInt i"
| "literalValue (LUint i) = VUint i"
| "literalValue (LDouble d) = VDouble d"
| "literalValue (LString s) = VString s"
| "literalValue (LBytes b) = VBytes b"
| "literalValue (LBool b) = VBool b"
| "literalValue LNull = VNull"

section \<open>Integer arithmetic\<close>

definition intResult :: "int \<Rightarrow> evaluation_code + int" where
  "intResult v = (if v < MIN_INT \<or> v > MAX_INT then Inl NumericOverflow else Inr v)"

definition uintResult :: "int \<Rightarrow> evaluation_code + int" where
  "uintResult v = (if v < 0 \<or> v > MAX_UINT then Inl NumericOverflow else Inr v)"

definition intDivide :: "int \<Rightarrow> int \<Rightarrow> evaluation_code + int" where
  "intDivide left right = (if right = 0 then Inl DivisionByZero else intResult (trunc_div left right))"

definition intModulo :: "int \<Rightarrow> int \<Rightarrow> evaluation_code + int" where
  "intModulo left right = (if right = 0 then Inl ModuloByZero else intResult (trunc_mod left right))"

definition uintDivide :: "int \<Rightarrow> int \<Rightarrow> evaluation_code + int" where
  "uintDivide left right = (if right = 0 then Inl DivisionByZero else uintResult (trunc_div left right))"

definition uintModulo :: "int \<Rightarrow> int \<Rightarrow> evaluation_code + int" where
  "uintModulo left right = (if right = 0 then Inl ModuloByZero else uintResult (trunc_mod left right))"

definition fitsInt :: "int \<Rightarrow> bool" where
  "fitsInt v \<longleftrightarrow> MIN_INT \<le> v \<and> v \<le> MAX_INT"

definition fitsUint :: "int \<Rightarrow> bool" where
  "fitsUint v \<longleftrightarrow> 0 \<le> v \<and> v < MAX_UINT + 1"

section \<open>Comparison\<close>

text \<open>\<open>Number(bigint)\<close>: the nearest double, ties to even.\<close>

definition double_of_int :: "int \<Rightarrow> double" where
  "double_of_int i = round_double (i < 0) (nat \<bar>i\<bar>) 1"

definition MIN_INT_AS_DOUBLE :: double where
  "MIN_INT_AS_DOUBLE = double_of_int (- 9223372036854775808)"

definition MAX_INT_AS_DOUBLE :: double where
  "MAX_INT_AS_DOUBLE = double_of_int 9223372036854775807"

definition MAX_UINT_AS_DOUBLE :: double where
  "MAX_UINT_AS_DOUBLE = double_of_int 18446744073709551615"

definition compareIntegerDouble :: "int \<Rightarrow> bool \<Rightarrow> double \<Rightarrow> int option" where
  "compareIntegerDouble left is_unsigned right =
     (if right = NaN then None
      else if double_less right (if is_unsigned then Finite False 0 (-1074) else MIN_INT_AS_DOUBLE) then Some 1
      else if double_less (if is_unsigned then MAX_UINT_AS_DOUBLE else MAX_INT_AS_DOUBLE) right then Some (- 1)
      else (let converted = double_of_int left
            in Some (if double_less converted right then - 1 else if double_less right converted then 1 else 0)))"

definition compareNumbers :: "double \<Rightarrow> double \<Rightarrow> int option" where
  "compareNumbers left right =
     (if left = NaN \<or> right = NaN then None
      else Some (if double_less left right then - 1 else if double_less right left then 1 else 0))"

definition compareBigints :: "int \<Rightarrow> int \<Rightarrow> int" where
  "compareBigints left right = (if left < right then - 1 else if left > right then 1 else 0)"

datatype magnitude = Integer int bool | Real_number double

fun numeric :: "cel_value \<Rightarrow> magnitude option" where
  "numeric (VInt i) = Some (Integer i False)"
| "numeric (VDouble d) = Some (Real_number d)"
| "numeric (VUint i) = Some (Integer i True)"
| "numeric _ = None"

fun compareMagnitudes :: "magnitude \<Rightarrow> magnitude \<Rightarrow> int option" where
  "compareMagnitudes (Integer a _) (Integer b _) = Some (compareBigints a b)"
| "compareMagnitudes (Integer a u) (Real_number d) = compareIntegerDouble a u d"
| "compareMagnitudes (Real_number d) (Integer b u) = map_option uminus (compareIntegerDouble b u d)"
| "compareMagnitudes (Real_number d) (Real_number e) = compareNumbers d e"

definition compareNumeric :: "cel_value \<Rightarrow> cel_value \<Rightarrow> int option" where
  "compareNumeric left right =
     (case (numeric left, numeric right) of (Some a, Some b) \<Rightarrow> compareMagnitudes a b | _ \<Rightarrow> None)"

fun compareBytes :: "nat list \<Rightarrow> nat list \<Rightarrow> int" where
  "compareBytes (a # as) (b # bs) = (if a \<noteq> b then (if a < b then - 1 else 1) else compareBytes as bs)"
| "compareBytes [] [] = 0"
| "compareBytes [] (b # bs) = - 1"
| "compareBytes (a # as) [] = 1"

definition celCompare :: "cel_value \<Rightarrow> cel_value \<Rightarrow> int option" where
  "celCompare left right =
     (if numeric left \<noteq> None \<and> numeric right \<noteq> None then compareNumeric left right
      else case (left, right) of
          (VString a, VString b) \<Rightarrow> Some (if a < b then - 1 else if a > b then 1 else 0)
        | (VBool a, VBool b) \<Rightarrow> Some (if a = b then 0 else if a then 1 else - 1)
        | (VBytes a, VBytes b) \<Rightarrow> Some (compareBytes a b)
        | (VTimestamp a, VTimestamp b) \<Rightarrow> Some (compareBigints (timestampNanos a) (timestampNanos b))
        | (VDuration a, VDuration b) \<Rightarrow> Some (compareBigints (durationNanos a) (durationNanos b))
        | _ \<Rightarrow> None)"

section \<open>Keys and maps\<close>

text \<open>A whole double as the integer it is.\<close>

fun double_integer :: "double \<Rightarrow> int option" where
  "double_integer (Finite s m e) =
     (if 0 \<le> e then Some (signed_mantissa s m * 2 ^ nat e)
      else if m mod 2 ^ nat (- e) = 0 then Some (signed_mantissa s (m div 2 ^ nat (- e)))
      else None)"
| "double_integer _ = None"

fun mapKeyIdentity :: "cel_value \<Rightarrow> map_key option" where
  "mapKeyIdentity (VString s) = Some (KeyText s)"
| "mapKeyIdentity (VBool b) = Some (KeyBool b)"
| "mapKeyIdentity (VInt i) = Some (KeyNumber i)"
| "mapKeyIdentity (VDouble d) = map_option KeyNumber (double_integer d)"
| "mapKeyIdentity (VUint i) = Some (KeyNumber i)"
| "mapKeyIdentity _ = None"

datatype map_failure = CarriedError cel_value | MapError evaluation_code

fun is_double :: "cel_value \<Rightarrow> bool" where
  "is_double (VDouble _) = True"
| "is_double _ = False"

fun map_entries ::
  "(map_key \<times> cel_value \<times> cel_value) list \<Rightarrow> (cel_value \<times> cel_value) list \<Rightarrow>
   map_failure + (map_key \<times> cel_value \<times> cel_value) list"
where
  "map_entries entries [] = Inr entries"
| "map_entries entries ((key, v) # flat) =
     (if isCelError key then Inl (CarriedError key)
      else if isCelError v then Inl (CarriedError v)
      else (case (if is_double key then None else mapKeyIdentity key) of
          None \<Rightarrow> Inl (MapError UnsupportedKeyType)
        | Some identity \<Rightarrow>
            if identity \<in> fst ` set entries then Inl (MapError DuplicateMapKey)
            else map_entries (entries @ [(identity, key, v)]) flat))"

definition celMapFromEntries :: "(cel_value \<times> cel_value) list \<Rightarrow> map_failure + cel_value" where
  "celMapFromEntries flat = map_sum id VMap (map_entries [] flat)"

definition celMapKeys :: "(map_key \<times> cel_value \<times> cel_value) list \<Rightarrow> cel_value list" where
  "celMapKeys entries = map (\<lambda>(_, key, _). key) entries"

section \<open>Equality\<close>

fun mapPairs :: "cel_value \<Rightarrow> (map_key \<times> cel_value) list option" where
  "mapPairs (VMap entries) = Some (map (\<lambda>(identity, _, v). (identity, v)) entries)"
| "mapPairs (VRecord members) = Some (map (\<lambda>(name, v). (KeyText name, v)) members)"
| "mapPairs _ = None"

text \<open>\<open>left === right\<close> of two values that are not objects.\<close>

definition same_primitive :: "cel_value \<Rightarrow> cel_value \<Rightarrow> bool" where
  "same_primitive left right =
     (case left of
        VBool a \<Rightarrow> (case right of VBool b \<Rightarrow> a = b | _ \<Rightarrow> False)
      | VString a \<Rightarrow> (case right of VString b \<Rightarrow> a = b | _ \<Rightarrow> False)
      | VInt a \<Rightarrow> (case right of VInt b \<Rightarrow> a = b | _ \<Rightarrow> False)
      | VDouble a \<Rightarrow> (case right of VDouble b \<Rightarrow> double_eq a b | _ \<Rightarrow> False)
      | VUndefined \<Rightarrow> right = VUndefined
      | _ \<Rightarrow> False)"

definition pairs_size :: "(map_key \<times> cel_value) list \<Rightarrow> nat" where
  "pairs_size ps = size_list size (map snd ps)"

lemma pairs_size_simps [simp]: "pairs_size [] = 0" "pairs_size (p # ps) = Suc (size (snd p) + pairs_size ps)"
  by (simp_all add: pairs_size_def)

lemma size_mapPairs: "mapPairs v = Some ps \<Longrightarrow> pairs_size ps < size v"
proof (cases v)
  case (VMap es)
  moreover have "pairs_size (map (\<lambda>(i, _, v). (i, v)) es) \<le> size_list (size_prod (\<lambda>_. 0) (size_prod size size)) es"
    by (induction es) auto
  ultimately show "mapPairs v = Some ps \<Longrightarrow> pairs_size ps < size v" by auto
next
  case (VRecord es)
  moreover have "pairs_size (map (\<lambda>(n, v). (KeyText n, v)) es) \<le> size_list (size_prod (\<lambda>_. 0) size) es"
    by (induction es) auto
  ultimately show "mapPairs v = Some ps \<Longrightarrow> pairs_size ps < size v" by auto
qed auto

text \<open>Two values of one type that hold no other value.\<close>

definition equalLeaves :: "cel_value \<Rightarrow> cel_value \<Rightarrow> bool" where
  "equalLeaves left right =
     (case left of
        VBool a \<Rightarrow> (case right of VBool b \<Rightarrow> a = b | _ \<Rightarrow> False)
      | VString a \<Rightarrow> (case right of VString b \<Rightarrow> a = b | _ \<Rightarrow> False)
      | VBytes a \<Rightarrow> (case right of VBytes b \<Rightarrow> compareBytes a b = 0 | _ \<Rightarrow> False)
      | VTimestamp a \<Rightarrow> (case right of VTimestamp b \<Rightarrow> timestampNanos a = timestampNanos b | _ \<Rightarrow> False)
      | VDuration a \<Rightarrow> (case right of VDuration b \<Rightarrow> durationNanos a = durationNanos b | _ \<Rightarrow> False)
      | VType a \<Rightarrow> (case right of VType b \<Rightarrow> a = b | _ \<Rightarrow> False)
      | VHost _ a \<Rightarrow> (case right of VHost _ b \<Rightarrow> a = b | _ \<Rightarrow> False)
      | VForeign a \<Rightarrow> (case right of VForeign b \<Rightarrow> a = b | _ \<Rightarrow> False)
      | VError _ a \<Rightarrow> (case right of VError _ b \<Rightarrow> a = b | _ \<Rightarrow> False)
      | _ \<Rightarrow> False)"

function celEqual :: "cel_value \<Rightarrow> cel_value \<Rightarrow> bool"
  and equalLists :: "cel_value list \<Rightarrow> cel_value list \<Rightarrow> bool"
  and equalEntries :: "(map_key \<times> cel_value) list \<Rightarrow> (map_key \<times> cel_value) list \<Rightarrow> bool"
where
  "celEqual left right =
     (if same_primitive left right then True
      else if numeric left \<noteq> None \<and> numeric right \<noteq> None then compareNumeric left right = Some 0
      else if left = VNull \<or> right = VNull then left = right
      else if celTypeNameOf left \<noteq> celTypeNameOf right then False
      else case left of
          VList a \<Rightarrow> (case right of VList b \<Rightarrow> length a = length b \<and> equalLists a b | _ \<Rightarrow> False)
        | VOptional x \<Rightarrow> (case right of
              VOptional y \<Rightarrow> (case x of None \<Rightarrow> y = None | Some a \<Rightarrow> (case y of None \<Rightarrow> False | Some b \<Rightarrow> celEqual a b))
            | _ \<Rightarrow> False)
        | _ \<Rightarrow> (case mapPairs left of
              Some a \<Rightarrow> (case mapPairs right of Some b \<Rightarrow> length a = length b \<and> equalEntries a b | None \<Rightarrow> False)
            | None \<Rightarrow> equalLeaves left right))"
| "equalLists [] ys = True"
| "equalLists (x # xs) ys = (case ys of [] \<Rightarrow> False | y # ys' \<Rightarrow> celEqual x y \<and> equalLists xs ys')"
| "equalEntries [] b = True"
| "equalEntries ((identity, v) # a) b =
     (case map_of b identity of None \<Rightarrow> False | Some w \<Rightarrow> celEqual v w \<and> equalEntries a b)"
  by pat_completeness auto
termination
  by (relation "measure (\<lambda>x. case x of Inl (l, r) \<Rightarrow> 2 * size l | Inr (Inl (xs, _)) \<Rightarrow> 2 * size_list size xs + 1
      | Inr (Inr (ps, _)) \<Rightarrow> 2 * pairs_size ps + 1)")
    (auto simp del: mapPairs.simps dest!: size_mapPairs)

declare celEqual.simps [simp del]

text \<open>Well-formed values: doubles are canonical, and no two entries of a map have one key.\<close>

function value_ok :: "cel_value \<Rightarrow> bool" where
  "value_ok v =
     (case v of
        VDouble d \<Rightarrow> double_wf d
      | VList vs \<Rightarrow> (\<forall>x \<in> set vs. value_ok x)
      | VOptional (Some x) \<Rightarrow> value_ok x
      | VMap es \<Rightarrow> distinct (map fst es) \<and> (\<forall>e \<in> set es. mapKeyIdentity (fst (snd e)) = Some (fst e) \<and> value_ok (snd (snd e)))
      | VRecord es \<Rightarrow> distinct (map fst es) \<and> (\<forall>e \<in> set es. value_ok (snd e))
      | _ \<Rightarrow> True)"
  by pat_completeness auto
termination
proof (relation "measure size", goal_cases)
  case (2 v vs x)
  then show ?case using size_list_mem [of x vs size] by simp
next
  case (4 v es e)
  then show ?case using size_list_mem [of e es "size_prod (\<lambda>_. 0) (size_prod size size)"] by (cases e) auto
next
  case (5 v es e)
  then show ?case using size_list_mem [of e es "size_prod (\<lambda>_. 0) size"] by (cases e) auto
qed auto

declare value_ok.simps [simp del]

section \<open>Comparison is antisymmetric\<close>

lemma double_less_asym: "double_less a b \<Longrightarrow> \<not> double_less b a"
proof (cases "double_finite a \<and> double_finite b")
  case True
  then show "double_less a b \<Longrightarrow> \<not> double_less b a" by (simp add: double_less_real)
qed (cases a; cases b; auto)

lemma double_eq_less: "double_eq a b \<longleftrightarrow> a \<noteq> NaN \<and> b \<noteq> NaN \<and> \<not> double_less a b \<and> \<not> double_less b a"
proof (cases "double_finite a \<and> double_finite b")
  case True
  moreover have "a \<noteq> NaN" "b \<noteq> NaN" using True by (cases a; cases b; simp)+
  ultimately show ?thesis by (auto simp: double_less_real)
qed (cases a; cases b; auto)

lemma double_eq_sym: "double_eq a b = double_eq b a"
  by (auto simp: double_eq_less)

lemma compareBigints_neg: "compareBigints b a = - compareBigints a b"
  by (simp add: compareBigints_def)

lemma compareNumbers_neg: "compareNumbers b a = map_option uminus (compareNumbers a b)"
  by (auto simp: compareNumbers_def dest: double_less_asym)

lemma compareMagnitudes_neg: "compareMagnitudes b a = map_option uminus (compareMagnitudes a b)"
proof (cases a; cases b)
  fix d e
  assume "a = Real_number d" "b = Real_number e"
  then show ?thesis using compareNumbers_neg [of e d] by simp
qed (simp_all add: compareBigints_def option.map_comp comp_def option.map_ident)

lemma compareNumeric_neg: "compareNumeric b a = map_option uminus (compareNumeric a b)"
proof (cases "numeric a"; cases "numeric b")
  fix m n
  assume "numeric a = Some m" "numeric b = Some n"
  then show ?thesis using compareMagnitudes_neg [of n m] by (simp add: compareNumeric_def)
qed (simp_all add: compareNumeric_def)

lemma compareBytes_neg: "compareBytes b a = - compareBytes a b"
  by (induction a b rule: compareBytes.induct) auto

lemma compareBytes_zero: "compareBytes a b = 0 \<longleftrightarrow> a = b"
  by (induction a b rule: compareBytes.induct) auto

lemma mapPairs_ok:
  assumes "mapPairs v = Some ps" "value_ok v"
  shows "distinct (map fst ps) \<and> (\<forall>p \<in> set ps. size (snd p) < size v \<and> value_ok (snd p))"
proof -
  have small: "\<forall>p \<in> set ps. size (snd p) < size v"
  proof
    fix p assume "p \<in> set ps"
    then have "size (snd p) \<le> pairs_size ps" by (induction ps) auto
    with size_mapPairs [OF assms(1)] show "size (snd p) < size v" by simp
  qed
  moreover have "distinct (map fst ps)"
  proof (cases v)
    case (VMap es)
    then have "map fst ps = map fst es" using assms(1) by (induction es arbitrary: ps v) auto
    then show ?thesis using assms(2) VMap by (simp add: value_ok.simps [of "VMap _"])
  next
    case (VRecord es)
    then have "map fst ps = map KeyText (map fst es)" using assms(1) by (induction es arbitrary: ps v) auto
    moreover have "distinct (map KeyText xs) \<longleftrightarrow> distinct xs" for xs by (induction xs) auto
    ultimately show ?thesis using assms(2) VRecord by (simp add: value_ok.simps [of "VRecord _"] del: map_map)
  qed (use assms(1) in auto)
  moreover have "\<forall>p \<in> set ps. value_ok (snd p)"
    using assms by (cases v) (force simp: value_ok.simps [of "VMap _"] value_ok.simps [of "VRecord _"])+
  ultimately show ?thesis using small by blast
qed

section \<open>Equality is symmetric\<close>

lemma same_primitive_sym: "same_primitive a b = same_primitive b a"
  by (cases a; cases b) (auto simp: same_primitive_def double_eq_sym)

lemma equalEntries_iff:
  "equalEntries a b \<longleftrightarrow> (\<forall>p \<in> set a. \<exists>w. map_of b (fst p) = Some w \<and> celEqual (snd p) w)"
  by (induction a) (auto split: option.splits)

lemma equalLists_iff: "length a = length b \<Longrightarrow> equalLists a b \<longleftrightarrow> list_all2 celEqual a b"
  by (induction a b rule: list_induct2) auto

lemma matching_pairs:
  assumes "distinct (map fst a)" "distinct (map fst b)" "length a = length b"
    and "\<forall>p \<in> set a. \<exists>w. map_of b (fst p) = Some w \<and> R (snd p) w"
  shows "\<forall>q \<in> set b. \<exists>v. map_of a (fst q) = Some v \<and> R v (snd q)"
proof -
  have "fst ` set a \<subseteq> fst ` set b" using assms(4) by (force dest: map_of_SomeD)
  moreover have "card (fst ` set a) = card (fst ` set b)"
    using assms(1-3) by (metis distinct_card length_map list.set_map)
  ultimately have dom: "fst ` set a = fst ` set b" by (simp add: card_subset_eq)
  show ?thesis
  proof
    fix q assume q: "q \<in> set b"
    then obtain v where v: "(fst q, v) \<in> set a" using dom by (metis image_iff prod.collapse)
    then have "map_of a (fst q) = Some v" using assms(1) by simp
    moreover have "map_of b (fst q) = Some (snd q)" using q assms(2) by (simp add: map_of_is_SomeI)
    ultimately show "\<exists>v. map_of a (fst q) = Some v \<and> R v (snd q)" using assms(4) v by force
  qed
qed

text \<open>Where the two sides are not two containers, equality is decided at once.\<close>

fun is_container :: "cel_value \<Rightarrow> bool" where
  "is_container (VList _) = True"
| "is_container (VOptional (Some _)) = True"
| "is_container (VMap _) = True"
| "is_container (VRecord _) = True"
| "is_container _ = False"

lemma celEqual_containers:
  "celEqual (VList a) (VList b) \<longleftrightarrow> list_all2 celEqual a b"
  "celEqual (VOptional (Some x)) (VOptional (Some y)) \<longleftrightarrow> celEqual x y"
  using equalLists_iff [of a b]
  by (auto simp: celEqual.simps [of "VList _"] celEqual.simps [of "VOptional _"] same_primitive_def dest: list_all2_lengthD)

lemma celEqual_maps:
  assumes "mapPairs l = Some a" "mapPairs r = Some b"
  shows "celEqual l r \<longleftrightarrow> length a = length b \<and> (\<forall>p \<in> set a. \<exists>w. map_of b (fst p) = Some w \<and> celEqual (snd p) w)"
  using assms by (cases l; cases r) (simp_all add: celEqual.simps [of "VMap _"] celEqual.simps [of "VRecord _"] same_primitive_def equalEntries_iff)

lemma same_primitive_type: "same_primitive l r \<Longrightarrow> celTypeNameOf l = celTypeNameOf r"
  by (auto simp: same_primitive_def split: cel_value.splits)

lemma celEqual_mismatch:
  assumes "celTypeNameOf l \<noteq> celTypeNameOf r" "numeric l = None \<or> numeric r = None"
  shows "\<not> celEqual l r"
proof -
  have "\<not> same_primitive l r" "l \<noteq> r" using assms(1) same_primitive_type by auto
  with assms show ?thesis by (auto simp: celEqual.simps [of l r])
qed

lemma celEqual_flat_left:
  "celEqual VNull r \<longleftrightarrow> r = VNull"
  "celEqual (VBool b) r \<longleftrightarrow> r = VBool b"
  "celEqual (VString s) r \<longleftrightarrow> r = VString s"
  "celEqual (VBytes bs) r \<longleftrightarrow> r = VBytes bs"
  "celEqual (VType n) r \<longleftrightarrow> r = VType n"
  "celEqual VUndefined r \<longleftrightarrow> r = VUndefined"
  "celEqual (VOptional None) r \<longleftrightarrow> r = VOptional None"
  "celEqual (VTimestamp t) r \<longleftrightarrow> (\<exists>a. r = VTimestamp a \<and> timestampNanos a = timestampNanos t)"
  "celEqual (VDuration d) r \<longleftrightarrow> (\<exists>a. r = VDuration a \<and> durationNanos a = durationNanos d)"
  "celEqual (VForeign i) r \<longleftrightarrow> (\<exists>a. r = VForeign a \<and> a = i)"
  "celEqual (VHost k i) r \<longleftrightarrow> (\<exists>a. r = VHost k a \<and> a = i)"
  "celEqual (VError e i) r \<longleftrightarrow> (\<exists>e'. r = VError e' i)"
  by (cases r; (simp add: celEqual_mismatch; fail)?; auto simp: celEqual.simps equalLeaves_def same_primitive_def compareBytes_zero split: option.splits)+

lemma celEqual_flat_right:
  "celEqual l VNull \<longleftrightarrow> l = VNull"
  "celEqual l (VBool b) \<longleftrightarrow> l = VBool b"
  "celEqual l (VString s) \<longleftrightarrow> l = VString s"
  "celEqual l (VBytes bs) \<longleftrightarrow> l = VBytes bs"
  "celEqual l (VType n) \<longleftrightarrow> l = VType n"
  "celEqual l VUndefined \<longleftrightarrow> l = VUndefined"
  "celEqual l (VOptional None) \<longleftrightarrow> l = VOptional None"
  "celEqual l (VTimestamp t) \<longleftrightarrow> (\<exists>a. l = VTimestamp a \<and> timestampNanos a = timestampNanos t)"
  "celEqual l (VDuration d) \<longleftrightarrow> (\<exists>a. l = VDuration a \<and> durationNanos a = durationNanos d)"
  "celEqual l (VForeign i) \<longleftrightarrow> (\<exists>a. l = VForeign a \<and> a = i)"
  "celEqual l (VHost k i) \<longleftrightarrow> (\<exists>a. l = VHost k a \<and> a = i)"
  "celEqual l (VError e i) \<longleftrightarrow> (\<exists>e'. l = VError e' i)"
  by (cases l; (simp add: celEqual_mismatch; fail)?; auto simp: celEqual.simps equalLeaves_def same_primitive_def compareBytes_zero split: option.splits)+

lemma numeric_type: "numeric v = Some m \<Longrightarrow> celTypeNameOf v \<in> {Some (js ''int''), Some (js ''uint''), Some (js ''double'')}"
  by (cases v) auto

lemma celEqual_not_numeric:
  assumes "numeric l = Some m" "numeric r = None"
  shows "\<not> celEqual l r" "\<not> celEqual r l"
proof -
  have host: "\<not> celEqual l (VHost k i)" "\<not> celEqual (VHost k i) l" for k i
    using assms(1) by (cases l; simp add: celEqual_flat_right celEqual_flat_left)+
  have "celTypeNameOf l \<noteq> celTypeNameOf r" if "\<And>k i. r \<noteq> VHost k i"
    using that assms(2) numeric_type [OF assms(1)] by (cases r) auto
  then show "\<not> celEqual l r" "\<not> celEqual r l"
    using host celEqual_mismatch [of l r] celEqual_mismatch [of r l] assms(2) by (metis)+
qed

lemma celEqual_numeric:
  assumes "numeric l = Some m" "numeric r = Some n"
  shows "celEqual l r \<longleftrightarrow> same_primitive l r \<or> compareMagnitudes m n = Some 0"
  using assms by (auto simp: celEqual.simps [of l r] compareNumeric_def)

fun container_matches :: "cel_value \<Rightarrow> cel_value \<Rightarrow> bool" where
  "container_matches (VList _) r = (\<exists>b. r = VList b)"
| "container_matches (VOptional _) r = (\<exists>y. r = VOptional (Some y))"
| "container_matches _ r = (mapPairs r \<noteq> None)"

lemma celEqual_container:
  assumes "is_container l" "\<not> container_matches l r"
  shows "\<not> celEqual l r" "\<not> celEqual r l"
proof -
  have num: "numeric l = None" and name: "celTypeNameOf l \<in> {Some (js ''list''), Some (js ''optional''), Some (js ''map'')}"
    using assms(1) by (cases l; simp)+
  have "(\<not> celEqual l r \<and> \<not> celEqual r l) \<or> celTypeNameOf l \<noteq> celTypeNameOf r"
    using assms by (elim is_container.elims(2); cases r) (auto simp: celEqual_flat_left celEqual_flat_right)
  then show "\<not> celEqual l r" "\<not> celEqual r l"
    using num celEqual_mismatch [of l r] celEqual_mismatch [of r l] by metis+
qed

lemma celEqual_symmetric_flat:
  assumes "\<not> is_container left"
  shows "celEqual left right = celEqual right left"
proof (cases "numeric left")
  case None
  with assms show ?thesis
    by (elim is_container.elims(3)) (simp_all add: celEqual_flat_left celEqual_flat_right)
next
  case (Some m)
  show ?thesis
  proof (cases "numeric right")
    case None
    with celEqual_not_numeric [OF Some] show ?thesis by simp
  next
    case (Some n)
    with \<open>numeric left = Some m\<close> compareMagnitudes_neg [of m n] same_primitive_sym [of left right] show ?thesis
      by (auto simp: celEqual_numeric)
  qed
qed

text \<open>Two maps are equal either way round when their values are, key by key.\<close>

lemma celEqual_symmetric_maps:
  assumes maps: "mapPairs left = Some a" "mapPairs right = Some b" and ok: "value_ok left" "value_ok right"
    and IH: "\<And>v w. size v < size left \<Longrightarrow> value_ok v \<Longrightarrow> value_ok w \<Longrightarrow> celEqual v w = celEqual w v"
  shows "celEqual left right = celEqual right left"
proof -
  have a: "distinct (map fst a)" "\<forall>p \<in> set a. size (snd p) < size left \<and> value_ok (snd p)"
    using mapPairs_ok [OF maps(1) ok(1)] by blast+
  have b: "distinct (map fst b)" "\<forall>p \<in> set b. value_ok (snd p)"
    using mapPairs_ok [OF maps(2) ok(2)] by blast+
  have sym: "celEqual (snd p) w = celEqual w (snd p)" if "p \<in> set a" "map_of b k = Some w" for p k w
    by (rule IH) (use that a(2) b(2) in \<open>auto dest!: map_of_SomeD\<close>)
  show ?thesis
    unfolding celEqual_maps [OF maps] celEqual_maps [OF maps(2,1)]
    using matching_pairs [OF a(1) b(1), of "\<lambda>v w. celEqual w v"] matching_pairs [OF b(1) a(1), of celEqual] sym
    by (smt (verit) map_of_SomeD)
qed

text \<open>C27. Equality does not depend on which side is which, over every kind of value: across the numeric types, lists,
  optionals and the two shapes of map, one held by the engine and one a host's plain object.\<close>

theorem celEqual_symmetric:
  assumes "value_ok left" "value_ok right"
  shows "celEqual left right = celEqual right left"
  using assms
proof (induction "size left" arbitrary: left right rule: less_induct)
  case less
  consider (flat) "\<not> is_container left" | (other) "is_container left" "\<not> container_matches left right"
    | (list) a b where "left = VList a" "right = VList b"
    | (optional) x y where "left = VOptional (Some x)" "right = VOptional (Some y)"
    | (maps) a b where "mapPairs left = Some a" "mapPairs right = Some b"
    by (cases "is_container left"; cases "container_matches left right") (auto elim!: is_container.elims(2))
  then show ?case
  proof cases
    case flat
    then show ?thesis by (rule celEqual_symmetric_flat)
  next
    case other
    then show ?thesis using celEqual_container by blast
  next
    case list
    have "celEqual x y = celEqual y x" if "x \<in> set a" "y \<in> set b" for x y
    proof (rule less.hyps)
      show "size x < size left" using size_list_mem [OF that(1), of size] by (simp add: list)
      show "value_ok x" "value_ok y" using less.prems that by (simp_all add: list value_ok.simps [of "VList _"])
    qed
    then show ?thesis unfolding list celEqual_containers list_all2_conv_all_nth by (metis nth_mem)
  next
    case optional
    have "celEqual x y = celEqual y x"
      by (rule less.hyps) (use less.prems in \<open>simp_all add: optional value_ok.simps [of "VOptional _"]\<close>)
    then show ?thesis unfolding optional celEqual_containers by simp
  next
    case maps
    show ?thesis by (rule celEqual_symmetric_maps [OF maps less.prems less.hyps])
  qed
qed

theorem celEqual_symmetric_witness:
  "celEqual (VMap [(KeyNumber 1, VInt 1, VDouble NaN)]) (VMap [(KeyNumber 1, VUint 1, VNull)]) =
   celEqual (VMap [(KeyNumber 1, VUint 1, VNull)]) (VMap [(KeyNumber 1, VInt 1, VDouble NaN)])"
  by (rule celEqual_symmetric) (simp_all add: value_ok.simps)

section \<open>Arithmetic keeps the 64-bit range\<close>

lemma fitsInt_abs: "fitsInt v \<longleftrightarrow> \<bar>v\<bar> \<le> MAX_INT \<or> v = MIN_INT"
  by (auto simp: fitsInt_def MIN_INT_def MAX_INT_def)

lemma intResult_fits: "intResult v = (if fitsInt v then Inr v else Inl NumericOverflow)"
  by (auto simp: intResult_def fitsInt_def)

lemma trunc_div_fits:
  assumes "fitsInt a" "b \<noteq> 0"
  shows "fitsInt (trunc_div a b) \<longleftrightarrow> \<not> (a = MIN_INT \<and> b = - 1)"
proof (cases "\<bar>b\<bar> = 1")
  case True
  then have "b = 1 \<or> b = -1" by auto
  then show ?thesis using assms(1)
    by (auto simp: trunc_div_def fitsInt_def MIN_INT_def MAX_INT_def sgn_if)
next
  case False
  with assms(2) have "\<bar>b\<bar> \<ge> 2" by linarith
  then have "\<bar>a\<bar> div \<bar>b\<bar> \<le> \<bar>a\<bar> div 2" by (simp add: zdiv_mono2)
  moreover have "\<bar>a\<bar> \<le> 9223372036854775808" using assms(1) by (auto simp: fitsInt_def MIN_INT_def MAX_INT_def)
  ultimately have "\<bar>trunc_div a b\<bar> \<le> MAX_INT" using assms(2) by (simp add: trunc_div_abs MAX_INT_def)
  moreover have "b \<noteq> -1" using False by auto
  ultimately show ?thesis by (simp add: fitsInt_abs)
qed

text \<open>Checked division and modulo of two 64-bit integers never answer a wrapped number. Division and modulo by
  zero are errors of their own, and the one other refusal is the least integer divided by minus one.
  Otherwise quotient and remainder recombine to the dividend, the remainder is smaller than the divisor
  and takes the dividend's sign, and both stay in range.\<close>

theorem int_division_exact:
  assumes "fitsInt left" "fitsInt right"
  shows "(case intDivide left right of
            Inr q \<Rightarrow> right \<noteq> 0 \<and> fitsInt q \<and>
              (\<exists>r. intModulo left right = Inr r \<and> fitsInt r \<and> left = q * right + r \<and> \<bar>r\<bar> < \<bar>right\<bar> \<and>
                (if r = 0 then True else (0 < r) = (0 < left)))
          | Inl e \<Rightarrow> if right = 0 then e = DivisionByZero \<and> intModulo left right = Inl ModuloByZero
              else left = MIN_INT \<and> right = - 1 \<and> e = NumericOverflow)"
proof (cases "right = 0")
  case False
  let ?q = "trunc_div left right" and ?r = "trunc_mod left right"
  have bound: "\<bar>?r\<bar> < \<bar>right\<bar>" using trunc_mod_bound [OF False] .
  moreover have "\<bar>right\<bar> \<le> 9223372036854775808" using assms(2) by (auto simp: fitsInt_def MIN_INT_def MAX_INT_def)
  ultimately have fits: "fitsInt ?r" by (simp add: fitsInt_abs MAX_INT_def)
  have sign: "?r = 0 \<or> (0 < ?r) = (0 < left)" using trunc_mod_sign [of left right] by (auto simp: sgn_if split: if_splits)
  show ?thesis
    using False bound fits sign trunc_div_mod [of left right] trunc_div_fits [OF assms(1) False]
    by (auto simp: intDivide_def intModulo_def intResult_fits)
qed (simp add: intDivide_def intModulo_def)

theorem int_division_exact_witness:
  "(case intDivide (-7) 2 of
            Inr q \<Rightarrow> (2::int) \<noteq> 0 \<and> fitsInt q \<and>
              (\<exists>r. intModulo (-7) 2 = Inr r \<and> fitsInt r \<and> -7 = q * 2 + r \<and> \<bar>r\<bar> < \<bar>2\<bar> \<and>
                (if r = 0 then True else (0 < r) = (0 < (-7 :: int))))
          | Inl e \<Rightarrow> if (2::int) = 0 then e = DivisionByZero \<and> intModulo (-7) 2 = Inl ModuloByZero
              else -7 = MIN_INT \<and> 2 = - (1::int) \<and> e = NumericOverflow)"
  by (rule int_division_exact) (simp_all add: fitsInt_def MIN_INT_def MAX_INT_def)

section \<open>Comparison and equality agree\<close>

lemma compareBigints_zero: "compareBigints a b = 0 \<longleftrightarrow> a = b"
  by (auto simp: compareBigints_def)

lemma celCompare_numeric:
  assumes "numeric left = Some m" "numeric right = Some n"
  shows "celCompare left right = compareMagnitudes m n"
  using assms by (simp add: celCompare_def compareNumeric_def)

definition compareLeaves :: "cel_value \<Rightarrow> cel_value \<Rightarrow> int option" where
  "compareLeaves left right = 
    (case (left, right) of
          (VString a, VString b) \<Rightarrow> Some (if a < b then - 1 else if a > b then 1 else 0)
        | (VBool a, VBool b) \<Rightarrow> Some (if a = b then 0 else if a then 1 else - 1)
        | (VBytes a, VBytes b) \<Rightarrow> Some (compareBytes a b)
        | (VTimestamp a, VTimestamp b) \<Rightarrow> Some (compareBigints (timestampNanos a) (timestampNanos b))
        | (VDuration a, VDuration b) \<Rightarrow> Some (compareBigints (durationNanos a) (durationNanos b))
        | _ \<Rightarrow> None)"

lemma compareMagnitudes_same: "same_primitive left right \<Longrightarrow> numeric left = Some m \<Longrightarrow> numeric right = Some n \<Longrightarrow>
    compareMagnitudes m n = Some 0"
  by (cases left; cases right) (auto simp: same_primitive_def compareBigints_def compareNumbers_def double_eq_less)

lemma comparison_sign:
  "compareBigints a b \<in> {-1, 0, 1}" "compareBytes xs ys \<in> {-1, 0, 1}"
  by (simp add: compareBigints_def) (induction xs ys rule: compareBytes.induct, auto)

lemma compareMagnitudes_sign: "compareMagnitudes m n = Some c \<Longrightarrow> c \<in> {-1, 0, 1}"
  by (cases m; cases n) (auto simp: compareBigints_def compareNumbers_def compareIntegerDouble_def Let_def split: if_splits)

lemma compare_equal:
  "compareBigints a b \<noteq> - 1 \<Longrightarrow> compareBigints a b \<noteq> 1 \<Longrightarrow> a = b"
  "compareBytes xs ys \<noteq> - 1 \<Longrightarrow> compareBytes xs ys \<noteq> 1 \<Longrightarrow> xs = ys"
  using comparison_sign(1) [of a b] comparison_sign(2) [of xs ys] by (auto simp: compareBigints_zero compareBytes_zero)

lemma compareLeaves_consistent:
  "compareLeaves right left = map_option uminus (compareLeaves left right) \<and>
   (case compareLeaves left right of None \<Rightarrow> True | Some c \<Rightarrow> c \<in> {- 1, 0, 1} \<and> (c = 0) = celEqual left right)"
  by (cases left; simp add: compareLeaves_def; cases right)
   (auto simp: compareLeaves_def celEqual_flat_left compareBytes_zero compareBigints_zero compareBigints_neg [symmetric]
     compareBytes_neg [symmetric] intro: compare_equal)
text \<open>C38. One comparison serves ordering and equality: exchanging the operands reverses the order that is
  found, and wherever two values order at all they are equal exactly when neither comes first, across the
  numeric types included.\<close>

theorem celCompare_consistent:
  "celCompare right left = map_option uminus (celCompare left right) \<and>
   (case celCompare left right of None \<Rightarrow> True | Some c \<Rightarrow> c \<in> {- 1, 0, 1} \<and> (c = 0) = celEqual left right)"
proof (cases "numeric left \<noteq> None \<and> numeric right \<noteq> None")
  case True
  then obtain m n where num: "numeric left = Some m" "numeric right = Some n" by auto
  have eq: "celEqual left right \<longleftrightarrow> compareMagnitudes m n = Some 0"
    using celEqual_numeric [OF num] compareMagnitudes_same [OF _ num] by blast
  have "celCompare left right = compareMagnitudes m n"
    "celCompare right left = map_option uminus (compareMagnitudes m n)"
    using compareMagnitudes_neg [of n m] by (simp_all add: celCompare_numeric num)
  moreover have "c \<in> {- 1, 0, 1}" if "compareMagnitudes m n = Some c" for c
    by (rule compareMagnitudes_sign [OF that])
  ultimately show ?thesis unfolding eq by (cases "compareMagnitudes m n") (simp_all only: option.case option.inject simp_thms)
next
  case False
  then have "celCompare left right = compareLeaves left right" "celCompare right left = compareLeaves right left"
    by (auto simp: celCompare_def compareLeaves_def)
  then show ?thesis using compareLeaves_consistent [of right left] by (simp only:)
qed

section \<open>Keys and maps\<close>

lemma mapKeyIdentity_cases:
  "mapKeyIdentity v = Some i \<Longrightarrow> \<not> is_double v \<Longrightarrow>
     (\<exists>s. v = VString s \<and> i = KeyText s) \<or> (\<exists>b. v = VBool b \<and> i = KeyBool b) \<or>
     (\<exists>k. v \<in> {VInt k, VUint k} \<and> i = KeyNumber k)"
  by (cases v) auto

text \<open>The identity a map files an entry under is equality of the keys: two values a map can be built with
  have one identity exactly when the language calls them equal, so an int and a uint of one number are
  one key while a string is never a number's or a bool's.\<close>

theorem map_key_is_equality:
  assumes "mapKeyIdentity left = Some i" "mapKeyIdentity right = Some j" "\<not> is_double left" "\<not> is_double right"
  shows "(i = j) = celEqual left right"
  using mapKeyIdentity_cases [OF assms(1,3)] mapKeyIdentity_cases [OF assms(2,4)]
  by (auto simp: celEqual_flat_left celEqual_flat_right celEqual_numeric same_primitive_def compareBigints_zero)

definition new_entries ::
  "(map_key \<times> cel_value \<times> cel_value) list \<Rightarrow> (cel_value \<times> cel_value) list \<Rightarrow>
   (map_key \<times> cel_value \<times> cel_value) list \<Rightarrow> bool"
where
  "new_entries entries flat added \<longleftrightarrow> map snd added = flat \<and>
     (\<forall>e \<in> set added. mapKeyIdentity (fst (snd e)) = Some (fst e) \<and> \<not> is_double (fst (snd e)) \<and>
        \<not> isCelError (fst (snd e)) \<and> \<not> isCelError (snd (snd e))) \<and>
     distinct (map fst added) \<and> set (map fst added) \<inter> set (map fst entries) = {}"

lemma new_entries_Nil: "new_entries entries [] added \<longleftrightarrow> added = []"
  by (auto simp: new_entries_def)

lemma new_entries_Cons:
  "new_entries entries ((k, v) # flat) added \<longleftrightarrow>
     (\<exists>i zs. added = (i, k, v) # zs \<and> mapKeyIdentity k = Some i \<and> \<not> is_double k \<and> \<not> isCelError k \<and> \<not> isCelError v \<and>
        i \<notin> fst ` set entries \<and> new_entries (entries @ [(i, k, v)]) flat zs)"
proof (cases added)
  case (Cons e zs)
  obtain i k' v' where "e = (i, k', v')" by (cases e)
  then show ?thesis unfolding Cons new_entries_def by (simp add: disjoint_iff) blast
qed (simp add: new_entries_def)

lemma map_entries_ok:
  "map_entries entries flat = Inr es \<longleftrightarrow> (\<exists>added. es = entries @ added \<and> new_entries entries flat added)"
proof (induction flat arbitrary: entries)
  case (Cons kv flat)
  obtain k v where kv: "kv = (k, v)" by (cases kv)
  show ?case
  proof (cases "isCelError k \<or> isCelError v \<or> is_double k \<or> mapKeyIdentity k = None")
    case True
    then show ?thesis by (auto simp: kv new_entries_Cons)
  next
    case False
    then obtain i where "mapKeyIdentity k = Some i" by auto
    with False show ?thesis by (auto simp: kv new_entries_Cons Cons.IH)
  qed
qed (auto simp: new_entries_Nil)

text \<open>A map literal is built exactly when every key is an int, a uint, a bool or a string, no key or value is
  an error and no two keys share an identity; the map then holds the entries in written order, each filed
  under its own key's identity.\<close>

theorem celMapFromEntries_ok:
  "celMapFromEntries flat = Inr m \<longleftrightarrow>
     (\<exists>es. m = VMap es \<and> map snd es = flat \<and> distinct (map fst es) \<and>
        list_all (\<lambda>(identity, key, v). mapKeyIdentity key = Some identity \<and> \<not> is_double key \<and>
          \<not> isCelError key \<and> \<not> isCelError v) es)"
  using map_entries_ok [of "[]" flat]
  by (cases "map_entries [] flat") (auto simp: celMapFromEntries_def new_entries_def list_all_iff split_def)

section \<open>Reflexivity\<close>

fun has_nan :: "cel_value \<Rightarrow> bool" where
  "has_nan (VDouble d) = (d = NaN)"
| "has_nan (VList vs) = (\<exists>v \<in> set vs. has_nan v)"
| "has_nan (VOptional present) = (\<exists>v \<in> set_option present. has_nan v)"
| "has_nan (VMap es) = (\<exists>e \<in> set es. \<exists>kv \<in> Basic_BNFs.snds e. \<exists>v \<in> Basic_BNFs.snds kv. has_nan v)"
| "has_nan (VRecord es) = (\<exists>e \<in> set es. \<exists>v \<in> Basic_BNFs.snds e. has_nan v)"
| "has_nan _ = False"

lemma has_nan_maps: "mapPairs v = Some ps \<Longrightarrow> has_nan v \<longleftrightarrow> (\<exists>p \<in> set ps. has_nan (snd p))"
  by (cases v) (auto simp: image_iff snds.simps split: prod.splits, force+)

lemma celEqual_self_double: "celEqual (VDouble d) (VDouble d) \<longleftrightarrow> d \<noteq> NaN"
  by (auto simp: celEqual_numeric same_primitive_def compareNumbers_def double_eq_less dest: double_less_asym)

text \<open>A value is equal to itself exactly when no NaN is anywhere inside it, however deeply.\<close>

theorem celEqual_reflexive:
  assumes "value_ok v"
  shows "celEqual v v = (\<not> has_nan v)"
  using assms
proof (induction "size v" arbitrary: v rule: less_induct)
  case less
  consider (list) vs where "v = VList vs" | (optional) x where "v = VOptional (Some x)"
    | (maps) ps where "mapPairs v = Some ps" | (flat) "\<not> is_container v"
    by (cases v rule: is_container.cases) auto
  then show ?case
  proof cases
    case list
    have "celEqual x x = (\<not> has_nan x)" if "x \<in> set vs" for x
    proof (rule less.hyps)
      show "size x < size v" using size_list_mem [OF that, of size] by (simp add: list)
      show "value_ok x" using less.prems that by (simp add: list value_ok.simps [of "VList _"])
    qed
    then show ?thesis unfolding list celEqual_containers by (simp add: list_all2_same)
  next
    case optional
    have "celEqual x x = (\<not> has_nan x)"
      by (rule less.hyps) (use less.prems in \<open>simp_all add: optional value_ok.simps [of "VOptional _"]\<close>)
    then show ?thesis unfolding optional celEqual_containers by simp
  next
    case maps
    have ps: "distinct (map fst ps)" "\<forall>p \<in> set ps. size (snd p) < size v \<and> value_ok (snd p)"
      using mapPairs_ok [OF maps less.prems] by blast+
    have "celEqual (snd p) (snd p) = (\<not> has_nan (snd p))" if "p \<in> set ps" for p
      by (rule less.hyps) (use that ps(2) in blast)+
    moreover have "map_of ps (fst p) = Some (snd p)" if "p \<in> set ps" for p
      using that ps(1) by (simp add: map_of_is_SomeI)
    ultimately show ?thesis unfolding celEqual_maps [OF maps maps] has_nan_maps [OF maps] by auto
  next
    case flat
    then show ?thesis
      by (cases v rule: is_container.cases)
        (auto simp: celEqual_flat_left celEqual_self_double celEqual_numeric compareBigints_def)
  qed
qed

end
