(* ===== verification/Cel_Names.thy ===== *)
theory Cel_Names
  imports Cel_Syntax
begin

text \<open>
  Names in an expression: which calls bind one (\<open>comprehension-bindings.ts\<close>), the pass that
  turns \<open>Alias.fn(x)\<close> into a qualified call (\<open>namespace-resolution.ts\<close>), and the names an
  expression reads from its environment (\<open>root-references.ts\<close>).
\<close>

section \<open>Binding forms\<close>

record comprehension_binding =
  variableArgument :: nat
  scopedArguments :: "nat list"

definition RECEIVER_MACROS :: "((jstring \<times> nat) \<times> comprehension_binding) list" where
  "RECEIVER_MACROS =
     [((js ''all'', 2), \<lparr>variableArgument = 0, scopedArguments = [1]\<rparr>),
      ((js ''exists'', 2), \<lparr>variableArgument = 0, scopedArguments = [1]\<rparr>),
      ((js ''exists_one'', 2), \<lparr>variableArgument = 0, scopedArguments = [1]\<rparr>),
      ((js ''filter'', 2), \<lparr>variableArgument = 0, scopedArguments = [1]\<rparr>),
      ((js ''map'', 2), \<lparr>variableArgument = 0, scopedArguments = [1]\<rparr>),
      ((js ''map'', 3), \<lparr>variableArgument = 0, scopedArguments = [1, 2]\<rparr>),
      ((js ''optMap'', 2), \<lparr>variableArgument = 0, scopedArguments = [1]\<rparr>),
      ((js ''optFlatMap'', 2), \<lparr>variableArgument = 0, scopedArguments = [1]\<rparr>)]"

definition NAMESPACE_MACROS :: "((jstring \<times> jstring \<times> nat) \<times> comprehension_binding) list" where
  "NAMESPACE_MACROS =
     [((js ''cel'', js ''bind'', 3), \<lparr>variableArgument = 0, scopedArguments = [2]\<rparr>)]"

definition receiverMacroBinding :: "jstring \<Rightarrow> nat \<Rightarrow> comprehension_binding option" where
  "receiverMacroBinding name arity = map_of RECEIVER_MACROS (name, arity)"

definition namespaceMacroBinding ::
  "jstring \<Rightarrow> jstring \<Rightarrow> nat \<Rightarrow> comprehension_binding option" where
  "namespaceMacroBinding namespace name arity = map_of NAMESPACE_MACROS (namespace, name, arity)"

lemma receiverMacroBinding_Some:
  "receiverMacroBinding name arity = Some b \<Longrightarrow>
     variableArgument b = 0 \<and> set (scopedArguments b) \<subseteq> {0<..<arity} \<and>
     {0<..<arity} \<subseteq> set (scopedArguments b)"
  by (auto simp: receiverMacroBinding_def RECEIVER_MACROS_def split: if_splits)

lemma namespaceMacroBinding_Some:
  "namespaceMacroBinding namespace name arity = Some b \<Longrightarrow>
     variableArgument b = 0 \<and> scopedArguments b = [2] \<and> arity = 3"
  by (auto simp: namespaceMacroBinding_def NAMESPACE_MACROS_def split: if_splits)

section \<open>Namespaces\<close>

definition RESERVED_NAMESPACES :: "jstring list" where
  "RESERVED_NAMESPACES = [js ''cel'', js ''optional'']"

datatype namespace_error = NotSpelledAsName jstring | IsReservedWord jstring | IsReservedNamespace jstring

fun normalizeNamespaces_loop ::
  "jstring list \<Rightarrow> jstring list \<Rightarrow> namespace_error + jstring list" where
  "normalizeNamespaces_loop normalized [] = Inr normalized"
| "normalizeNamespaces_loop normalized (name # names) =
     (if \<not> isIdentifierSpelling name then Inl (NotSpelledAsName name)
      else if isReservedWord name then Inl (IsReservedWord name)
      else if name \<in> set RESERVED_NAMESPACES then Inl (IsReservedNamespace name)
      else normalizeNamespaces_loop
             (if name \<in> set normalized then normalized else normalized @ [name]) names)"

definition normalizeNamespaces :: "jstring list \<Rightarrow> namespace_error + jstring list" where
  "normalizeNamespaces names = map_sum id sort (normalizeNamespaces_loop [] names)"

definition namespaceSetsEqual :: "jstring list \<Rightarrow> jstring list \<Rightarrow> bool" where
  "namespaceSetsEqual left right \<longleftrightarrow> length left = length right \<and> list_all2 (=) left right"

definition namespace_name :: "jstring \<Rightarrow> bool" where
  "namespace_name name \<longleftrightarrow>
     isIdentifierSpelling name \<and> \<not> isReservedWord name \<and> name \<notin> set RESERVED_NAMESPACES"

lemma normalizeNamespaces_loop_Inr:
  "list_all namespace_name names \<Longrightarrow>
     \<exists>ns. normalizeNamespaces_loop acc names = Inr ns \<and> set ns = set acc \<union> set names \<and>
       (distinct acc \<longrightarrow> distinct ns)"
proof (induction names arbitrary: acc)
  case (Cons name names)
  let ?acc = "if name \<in> set acc then acc else acc @ [name]"
  from Cons.prems Cons.IH [of ?acc] obtain ns where
    "normalizeNamespaces_loop ?acc names = Inr ns" "set ns = set ?acc \<union> set names"
    "distinct ?acc \<longrightarrow> distinct ns" by auto
  with Cons.prems show ?case by (auto simp: namespace_name_def)
qed simp

lemma normalizeNamespaces_loop_Inl:
  "\<not> list_all namespace_name names \<Longrightarrow> \<exists>e. normalizeNamespaces_loop acc names = Inl e"
  by (induction names arbitrary: acc) (auto simp: namespace_name_def)

lemma normalizeNamespaces_valid:
  assumes "list_all namespace_name names"
  shows "normalizeNamespaces names = Inr (sorted_list_of_set (set names))"
proof -
  from normalizeNamespaces_loop_Inr [OF assms, of "[]"] obtain ns where
    ns: "normalizeNamespaces_loop [] names = Inr ns" "set ns = set names" "distinct ns" by auto
  then have "sort ns = sorted_list_of_set (set names)"
    by (metis sorted_list_of_set_sort_remdups distinct_remdups_id)
  with ns show ?thesis by (simp add: normalizeNamespaces_def)
qed

lemma normalizeNamespaces_invalid:
  "\<not> list_all namespace_name names \<Longrightarrow> \<exists>e. normalizeNamespaces names = Inl e"
  using normalizeNamespaces_loop_Inl [of names "[]"] by (auto simp: normalizeNamespaces_def)

subsection \<open>The pass\<close>

text \<open>Whether a call on \<open>receiver\<close> names a module: a bare, not absolute, name of the set.\<close>

fun names_namespace :: "jstring list \<Rightarrow> node \<Rightarrow> bool" where
  "names_namespace namespaces (NIdent name absolute _) = (\<not> absolute \<and> name \<in> set namespaces)"
| "names_namespace namespaces _ = False"

fun resolveNode :: "node \<Rightarrow> jstring list \<Rightarrow> node" where
  "resolveNode (NLiteral l r) _ = NLiteral l r"
| "resolveNode (NIdent name absolute r) _ = NIdent name absolute r"
| "resolveNode (NUnparsed r) _ = NUnparsed r"
| "resolveNode (NList elements r) namespaces =
     NList (map (\<lambda>(v, optional). (resolveNode v namespaces, optional)) elements) r"
| "resolveNode (NMap entries r) namespaces =
     NMap (map (\<lambda>(k, v, optional). (resolveNode k namespaces, resolveNode v namespaces, optional))
       entries) r"
| "resolveNode (NSelect operand field fr optional quoted r) namespaces =
     NSelect (resolveNode operand namespaces) field fr optional quoted r"
| "resolveNode (NIndex operand index optional r) namespaces =
     NIndex (resolveNode operand namespaces) (resolveNode index namespaces) optional r"
| "resolveNode (NCall name nr args r) namespaces =
     NCall name nr (map (\<lambda>a. resolveNode a namespaces) args) r"
| "resolveNode (NQCall ns nsr name nr args r) namespaces =
     NQCall ns nsr name nr (map (\<lambda>a. resolveNode a namespaces) args) r"
| "resolveNode (NReceiverCall receiver name nr args r) namespaces =
     (let receiver' = resolveNode receiver namespaces;
          args' = map (\<lambda>a. resolveNode a namespaces) args
      in (case receiver' of
            NIdent rname absolute rr \<Rightarrow>
              if \<not> absolute \<and> rname \<in> set namespaces then NQCall rname rr name nr args' r
              else NReceiverCall receiver' name nr args' r
          | _ \<Rightarrow> NReceiverCall receiver' name nr args' r))"
| "resolveNode (NUnary operator operand r) namespaces =
     NUnary operator (resolveNode operand namespaces) r"
| "resolveNode (NBinary operator left right r) namespaces =
     NBinary operator (resolveNode left namespaces) (resolveNode right namespaces) r"
| "resolveNode (NConditional c t f r) namespaces =
     NConditional (resolveNode c namespaces) (resolveNode t namespaces) (resolveNode f namespaces) r"

definition resolveNamespaces :: "node \<Rightarrow> jstring list \<Rightarrow> node" where
  "resolveNamespaces tree namespaces = (if namespaces = [] then tree else resolveNode tree namespaces)"

lemma names_namespace_iff:
  "names_namespace ns n \<longleftrightarrow> (\<exists>name r. n = NIdent name False r \<and> name \<in> set ns)"
  by (cases n) auto

lemma resolve_call_of_namespace:
  "name \<in> set ns \<Longrightarrow> resolveNode (NReceiverCall (NIdent name False rr) f nr args r) ns =
     NQCall name rr f nr (map (\<lambda>a. resolveNode a ns) args) r"
  by (simp add: Let_def)

text \<open>A call on an ident resolves only where the ident was written: no node becomes an ident.\<close>

lemma resolveNode_NIdent [simp]: "resolveNode n ns = NIdent name absolute r \<longleftrightarrow> n = NIdent name absolute r"
  by (cases n) (auto simp: Let_def split: node.splits)

lemma names_namespace_resolveNode [simp]: "names_namespace ns (resolveNode n ns') = names_namespace ns n"
proof (cases "\<exists>name absolute r. n = NIdent name absolute r")
  case False
  then have "\<not> names_namespace ns n" by (cases n) auto
  moreover from False have "\<not> names_namespace ns (resolveNode n ns')"
    using resolveNode_NIdent by (cases "resolveNode n ns'") auto
  ultimately show ?thesis by simp
qed auto

lemma resolve_call_of_value:
  "\<not> names_namespace ns receiver \<Longrightarrow> resolveNode (NReceiverCall receiver f nr args r) ns =
     NReceiverCall (resolveNode receiver ns) f nr (map (\<lambda>a. resolveNode a ns) args) r"
  using names_namespace_resolveNode [of ns receiver ns]
  by (auto simp: Let_def names_namespace_iff split: node.split)

declare resolveNode.simps(10) [simp del]

lemmas resolve_call_simps = resolve_call_of_namespace resolve_call_of_value

text \<open>What is left to resolve under a set, anywhere in a tree.\<close>

fun resolvable :: "jstring list \<Rightarrow> node \<Rightarrow> bool" where
  "resolvable namespaces (NReceiverCall receiver _ _ _ _) = names_namespace namespaces receiver"
| "resolvable namespaces _ = False"

fun is_qcall :: "node \<Rightarrow> bool" where
  "is_qcall (NQCall _ _ _ _ _ _) = True"
| "is_qcall _ = False"

text \<open>The writing of a qualified call back as the call on a name it was read from.\<close>

fun unresolve :: "node \<Rightarrow> node" where
  "unresolve (NLiteral l r) = NLiteral l r"
| "unresolve (NIdent name absolute r) = NIdent name absolute r"
| "unresolve (NUnparsed r) = NUnparsed r"
| "unresolve (NList elements r) = NList (map (\<lambda>(v, optional). (unresolve v, optional)) elements) r"
| "unresolve (NMap entries r) =
     NMap (map (\<lambda>(k, v, optional). (unresolve k, unresolve v, optional)) entries) r"
| "unresolve (NSelect operand field fr optional quoted r) =
     NSelect (unresolve operand) field fr optional quoted r"
| "unresolve (NIndex operand index optional r) =
     NIndex (unresolve operand) (unresolve index) optional r"
| "unresolve (NCall name nr args r) = NCall name nr (map unresolve args) r"
| "unresolve (NQCall ns nsr name nr args r) =
     NReceiverCall (NIdent ns False nsr) name nr (map unresolve args) r"
| "unresolve (NReceiverCall receiver name nr args r) =
     NReceiverCall (unresolve receiver) name nr (map unresolve args) r"
| "unresolve (NUnary operator operand r) = NUnary operator (unresolve operand) r"
| "unresolve (NBinary operator left right r) = NBinary operator (unresolve left) (unresolve right) r"
| "unresolve (NConditional c t f r) = NConditional (unresolve c) (unresolve t) (unresolve f) r"

lemma resolveNode_resolved: "everywhere (\<lambda>n. \<not> resolvable ns n) (resolveNode n ns)"
proof (induction n rule: unresolve.induct)
  case (10 receiver name nr args r)
  then show ?case
    by (cases "names_namespace ns receiver")
      (auto simp: names_namespace_iff resolve_call_simps)
qed fastforce+

lemma resolveNode_unresolvable: "everywhere (\<lambda>n. \<not> resolvable ns n) n \<Longrightarrow> resolveNode n ns = n"
proof (induction n rule: unresolve.induct)
  case (10 receiver name nr args r)
  then have "\<not> names_namespace ns receiver" by simp
  with 10 show ?case by (auto simp: resolve_call_of_value intro!: map_idI)
qed (fastforce intro!: map_idI)+

lemma unresolve_resolveNode: "everywhere (\<lambda>n. \<not> is_qcall n) n \<Longrightarrow> unresolve (resolveNode n ns) = n"
proof (induction n rule: unresolve.induct)
  case (10 receiver name nr args r)
  then have "map (unresolve \<circ> (\<lambda>a. resolveNode a ns)) args = args"
    by (auto intro!: map_idI)
  with 10 show ?case
    by (cases "names_namespace ns receiver") (auto simp: names_namespace_iff resolve_call_simps)
qed (fastforce intro!: map_idI)+

section \<open>Root references\<close>

text \<open>The names bound where a node stands, each with how many binders hold it.\<close>

type_synonym bound_names = "jstring \<rightharpoonup> nat"

definition bind_name :: "bound_names \<Rightarrow> jstring \<Rightarrow> bound_names" where
  "bind_name depth name = depth(name \<mapsto> (case depth name of None \<Rightarrow> 0 | Some held \<Rightarrow> held) + 1)"

definition unbind_name :: "bound_names \<Rightarrow> jstring \<Rightarrow> bound_names" where
  "unbind_name depth name =
     (case depth name of None \<Rightarrow> depth
      | Some held \<Rightarrow> if held = 1 then depth(name := None) else depth(name \<mapsto> held - 1))"

definition has_bound :: "bound_names \<Rightarrow> jstring \<Rightarrow> bool" where
  "has_bound depth name \<longleftrightarrow> depth name \<noteq> None"

definition counts_binders :: "bound_names \<Rightarrow> bool" where
  "counts_binders depth \<longleftrightarrow> (\<forall>name. depth name \<noteq> Some 0)"

lemma unbind_bind: "counts_binders depth \<Longrightarrow> unbind_name (bind_name depth name) name = depth"
proof (cases "depth name")
  case (Some held)
  moreover assume "counts_binders depth"
  ultimately have "0 < held" by (metis counts_binders_def gr0I)
  with Some show ?thesis by (auto simp: unbind_name_def bind_name_def)
qed (auto simp: unbind_name_def bind_name_def)

lemma counts_binders_bind [simp]: "counts_binders depth \<Longrightarrow> counts_binders (bind_name depth name)"
  by (auto simp: counts_binders_def bind_name_def)

lemma has_bound_bind [simp]: "has_bound (bind_name depth name) x \<longleftrightarrow> x = name \<or> has_bound depth x"
  by (auto simp: has_bound_def bind_name_def)

text \<open>
  A walk is a function of the names bound and the names found so far, answering both: the
  binder count is one mutable map the walk adds to and takes from. The set of names found
  keeps insertion order, which the final sort forgets.
\<close>

type_synonym walk_state = "bound_names \<times> jstring list"

definition add_found :: "jstring \<Rightarrow> walk_state \<Rightarrow> walk_state" where
  "add_found name = (\<lambda>(bound, found). (bound, if name \<in> set found then found else found @ [name]))"

definition onNamespace :: "node \<Rightarrow> bool" where
  "onNamespace receiver =
     (case receiver of NIdent name _ _ \<Rightarrow> name \<in> set RESERVED_NAMESPACES | _ \<Rightarrow> False)"

definition call_binding :: "node \<Rightarrow> jstring \<Rightarrow> nat \<Rightarrow> comprehension_binding option" where
  "call_binding receiver name arity =
     (case receiver of
        NIdent rname _ _ \<Rightarrow>
          if rname \<in> set RESERVED_NAMESPACES then namespaceMacroBinding rname name arity
          else receiverMacroBinding name arity
      | _ \<Rightarrow> receiverMacroBinding name arity)"

text \<open>The binding of a call and the name it binds, where the variable's argument is a name.\<close>

definition bound_variable ::
  "node \<Rightarrow> jstring \<Rightarrow> node list \<Rightarrow> (comprehension_binding \<times> jstring) option" where
  "bound_variable receiver name args =
     (case call_binding receiver name (length args) of
        None \<Rightarrow> None
      | Some binding \<Rightarrow>
          (case at_index args (variableArgument binding) of
             Some (NIdent variable _ _) \<Rightarrow> Some (binding, variable)
           | _ \<Rightarrow> None))"

function collect :: "node \<Rightarrow> walk_state \<Rightarrow> walk_state" where
  "collect (NIdent name absolute _) st =
     (if absolute \<or> \<not> has_bound (fst st) name then add_found name st else st)"
| "collect (NLiteral _ _) st = st"
| "collect (NUnparsed _) st = st"
| "collect (NReceiverCall receiver name _ args _) st =
     (let st1 = (if onNamespace receiver then st else collect receiver st)
      in (case bound_variable receiver name args of
            None \<Rightarrow> fold collect args st1
          | Some (binding, variable) \<Rightarrow>
              (let st2 = fold (\<lambda>(pos, argument) st.
                     if pos = variableArgument binding \<or> pos \<in> set (scopedArguments binding) then st
                     else collect argument st) (enumerate 0 args) st1;
                   st3 = (bind_name (fst st2) variable, snd st2);
                   st4 = fold (\<lambda>pos st. if pos < length args then collect (args ! pos) st else st)
                     (scopedArguments binding) st3
               in (unbind_name (fst st4) variable, snd st4))))"
| "collect (NList elements _) st = fold (\<lambda>(value, _). collect value) elements st"
| "collect (NMap entries _) st = fold (\<lambda>(key, value, _) st. collect value (collect key st)) entries st"
| "collect (NSelect operand _ _ _ _ _) st = collect operand st"
| "collect (NIndex operand index _ _) st = collect index (collect operand st)"
| "collect (NCall _ _ args _) st = fold collect args st"
| "collect (NQCall _ _ _ _ args _) st = fold collect args st"
| "collect (NUnary _ operand _) st = collect operand st"
| "collect (NBinary _ left right _) st = collect right (collect left st)"
| "collect (NConditional condition whenTrue whenFalse _) st =
     collect whenFalse (collect whenTrue (collect condition st))"
  by pat_completeness auto
termination
proof (relation "measure (\<lambda>(n, st). size n)")
qed (auto simp: less_Suc_eq_le in_set_enumerate_eq dest: size_list_pair size_list_triple
    intro: trans_le_add1 trans_le_add2 size_list_nth [THEN trans_le_add1] size_list_mem)

definition rootReferences :: "node \<Rightarrow> jstring list" where
  "rootReferences tree = sort (snd (collect tree (Map.empty, [])))"

subsection \<open>What the walk answers\<close>

text \<open>
  The abstract counterpart: the names read absolutely, and the names read free, each by
  structural recursion with no state. A binding call takes its variable away from what its
  scoped arguments read free, and nothing away from what they read absolutely.
\<close>

function absolute_reads :: "node \<Rightarrow> jstring set" where
  "absolute_reads n =
     (case n of
        NIdent name absolute _ \<Rightarrow> if absolute then {name} else {}
      | NReceiverCall receiver name _ args _ \<Rightarrow>
          (if onNamespace receiver then {} else absolute_reads receiver) \<union>
          (case bound_variable receiver name args of
             None \<Rightarrow> \<Union> (absolute_reads ` set args)
           | Some (binding, variable) \<Rightarrow>
               \<Union> ((\<lambda>pos. absolute_reads (args ! pos)) ` ({0..<length args} - {variableArgument binding})))
      | _ \<Rightarrow> \<Union> (absolute_reads ` set (childNodes n)))"
  by pat_completeness auto
termination
  by (relation "measure size") (auto simp: less_Suc_eq_le dest: size_list_pair size_list_triple
    intro: trans_le_add1 trans_le_add2 size_list_nth [THEN trans_le_add1] size_list_mem)

function free_reads :: "node \<Rightarrow> jstring set" where
  "free_reads n =
     (case n of
        NIdent name absolute _ \<Rightarrow> if absolute then {} else {name}
      | NReceiverCall receiver name _ args _ \<Rightarrow>
          (if onNamespace receiver then {} else free_reads receiver) \<union>
          (case bound_variable receiver name args of
             None \<Rightarrow> \<Union> (free_reads ` set args)
           | Some (binding, variable) \<Rightarrow>
               \<Union> ((\<lambda>pos. free_reads (args ! pos)) `
                 ({0..<length args} - {variableArgument binding} - set (scopedArguments binding))) \<union>
               (\<Union> ((\<lambda>pos. free_reads (args ! pos)) `
                 (set (scopedArguments binding) \<inter> {0..<length args})) - {variable}))
      | _ \<Rightarrow> \<Union> (free_reads ` set (childNodes n)))"
  by pat_completeness auto
termination
  by (relation "measure size") (auto simp: less_Suc_eq_le dest: size_list_pair size_list_triple
    intro: trans_le_add1 trans_le_add2 size_list_nth [THEN trans_le_add1] size_list_mem)

declare absolute_reads.simps [simp del] free_reads.simps [simp del]

text \<open>A walk that leaves the binders as they were and adds exactly what it should.\<close>

definition adds :: "(walk_state \<Rightarrow> walk_state) \<Rightarrow> jstring set \<Rightarrow> jstring set \<Rightarrow> bool" where
  "adds f A F \<longleftrightarrow> (\<forall>bound found. counts_binders bound \<longrightarrow>
     fst (f (bound, found)) = bound \<and>
     set (snd (f (bound, found))) = set found \<union> A \<union> (F - dom bound) \<and>
     (distinct found \<longrightarrow> distinct (snd (f (bound, found)))))"

lemma addsI:
  assumes "\<And>bound found. counts_binders bound \<Longrightarrow>
     fst (f (bound, found)) = bound \<and>
     set (snd (f (bound, found))) = set found \<union> A \<union> (F - dom bound) \<and>
     (distinct found \<longrightarrow> distinct (snd (f (bound, found))))"
  shows "adds f A F"
  using assms by (auto simp: adds_def)

lemma addsD:
  assumes "adds f A F" and "counts_binders (fst st)"
  shows "fst (f st) = fst st" and "set (snd (f st)) = set (snd st) \<union> A \<union> (F - dom (fst st))"
    and "distinct (snd st) \<Longrightarrow> distinct (snd (f st))"
  using assms by (cases st; auto simp: adds_def)+

lemma adds_id: "adds (\<lambda>st. st) {} {}"
  by (auto simp: adds_def)

lemma adds_comp: "adds f A F \<Longrightarrow> adds g B G \<Longrightarrow> adds (\<lambda>st. g (f st)) (A \<union> B) (F \<union> G)"
proof (rule addsI, intro conjI impI)
  fix bound :: bound_names and found
  assume f: "adds f A F" and g: "adds g B G" and b: "counts_binders bound"
  note f = addsD [OF f, of "(bound, found)", simplified, OF b]
  from f b have b': "counts_binders (fst (f (bound, found)))" by simp
  note g = addsD [OF g b']
  show "fst (g (f (bound, found))) = bound" using f g by simp
  show "set (snd (g (f (bound, found)))) = set found \<union> (A \<union> B) \<union> (F \<union> G - dom bound)"
    using f g by auto
  show "distinct (snd (g (f (bound, found))))" if "distinct found"
    using f g that by simp
qed

lemma adds_fold:
  "(\<And>x. x \<in> set xs \<Longrightarrow> adds (f x) (A x) (F x)) \<Longrightarrow>
     adds (fold f xs) (\<Union> (A ` set xs)) (\<Union> (F ` set xs))"
proof (induction xs)
  case Nil
  show ?case by (simp add: adds_def)
next
  case (Cons x xs)
  then have "adds (\<lambda>st. fold f xs (f x st)) (A x \<union> \<Union> (A ` set xs)) (F x \<union> \<Union> (F ` set xs))"
    by (intro adds_comp) auto
  then show ?case by (simp add: adds_def)
qed

lemma adds_ident:
  "adds (\<lambda>st. if absolute \<or> \<not> has_bound (fst st) name then add_found name st else st)
     (if absolute then {name} else {}) (if absolute then {} else {name})"
  by (auto simp: adds_def add_found_def has_bound_def split: prod.splits)

text \<open>Under a binder: the variable is taken from what is read free and the count restored.\<close>

lemma adds_bind:
  assumes "adds f A F"
  shows "adds (\<lambda>st. (unbind_name (fst (f (bind_name (fst st) v, snd st))) v,
                      snd (f (bind_name (fst st) v, snd st)))) A (F - {v})"
proof (rule addsI)
  fix bound :: bound_names and found
  assume b: "counts_binders bound"
  then have b': "counts_binders (bind_name bound v)" by simp
  note f = addsD [OF assms, of "(bind_name bound v, found)", simplified, OF b']
  have "dom (bind_name bound v) = insert v (dom bound)"
    by (auto simp: bind_name_def)
  with f unbind_bind [OF b, of v]
  show "fst (unbind_name (fst (f (bind_name (fst (bound, found)) v, snd (bound, found)))) v,
          snd (f (bind_name (fst (bound, found)) v, snd (bound, found)))) = bound \<and>
     set (snd (unbind_name (fst (f (bind_name (fst (bound, found)) v, snd (bound, found)))) v,
          snd (f (bind_name (fst (bound, found)) v, snd (bound, found))))) =
       set found \<union> A \<union> (F - {v} - dom bound) \<and>
     (distinct found \<longrightarrow> distinct (snd (unbind_name (fst (f (bind_name (fst (bound, found)) v, snd (bound, found)))) v,
          snd (f (bind_name (fst (bound, found)) v, snd (bound, found))))))"
    by auto
qed

lemma absolute_reads_eqs [simp]:
  "absolute_reads (NIdent name absolute r) = (if absolute then {name} else {})"
  "absolute_reads (NLiteral l r) = {}"
  "absolute_reads (NUnparsed r) = {}"
  "absolute_reads (NList es r) = \<Union> ((\<lambda>p. absolute_reads (fst p)) ` set es)"
  "absolute_reads (NMap ms r) = \<Union> ((\<lambda>p. absolute_reads (fst p) \<union> absolute_reads (fst (snd p))) ` set ms)"
  "absolute_reads (NSelect n s fr b q r) = absolute_reads n"
  "absolute_reads (NIndex n i b r) = absolute_reads n \<union> absolute_reads i"
  "absolute_reads (NCall s nr as r) = \<Union> (absolute_reads ` set as)"
  "absolute_reads (NQCall ns nsr s nr as r) = \<Union> (absolute_reads ` set as)"
  "absolute_reads (NUnary u n r) = absolute_reads n"
  "absolute_reads (NBinary bo n m r) = absolute_reads n \<union> absolute_reads m"
  "absolute_reads (NConditional c n m r) = absolute_reads c \<union> (absolute_reads n \<union> absolute_reads m)"
  by (subst absolute_reads.simps; force)+

lemma free_reads_eqs [simp]:
  "free_reads (NIdent name absolute r) = (if absolute then {} else {name})"
  "free_reads (NLiteral l r) = {}"
  "free_reads (NUnparsed r) = {}"
  "free_reads (NList es r) = \<Union> ((\<lambda>p. free_reads (fst p)) ` set es)"
  "free_reads (NMap ms r) = \<Union> ((\<lambda>p. free_reads (fst p) \<union> free_reads (fst (snd p))) ` set ms)"
  "free_reads (NSelect n s fr b q r) = free_reads n"
  "free_reads (NIndex n i b r) = free_reads n \<union> free_reads i"
  "free_reads (NCall s nr as r) = \<Union> (free_reads ` set as)"
  "free_reads (NQCall ns nsr s nr as r) = \<Union> (free_reads ` set as)"
  "free_reads (NUnary u n r) = free_reads n"
  "free_reads (NBinary bo n m r) = free_reads n \<union> free_reads m"
  "free_reads (NConditional c n m r) = free_reads c \<union> (free_reads n \<union> free_reads m)"
  by (subst free_reads.simps; force)+

lemmas call_reads =
  absolute_reads.simps [of "NReceiverCall receiver name nr args r" for receiver name nr args r, simplified]
  free_reads.simps [of "NReceiverCall receiver name nr args r" for receiver name nr args r, simplified]

lemma set_enumerate_nth: "set (enumerate 0 xs) = (\<lambda>i. (i, xs ! i)) ` {0..<length xs}"
  by (auto simp: in_set_enumerate_eq image_iff)

lemma collect_adds: "adds (collect n) (absolute_reads n) (free_reads n)"
proof (induction n rule: node_child_induct)
  case (child n)
  show ?case
  proof (cases n)
    case (NIdent name absolute r)
    then show ?thesis using adds_ident [of absolute name] by simp
  next
    case (NList elements r)
    have "adds (fold (\<lambda>p. collect (fst p)) elements)
        (\<Union> ((\<lambda>p. absolute_reads (fst p)) ` set elements)) (\<Union> ((\<lambda>p. free_reads (fst p)) ` set elements))"
      by (rule adds_fold) (use child NList in auto)
    then show ?thesis by (simp add: NList case_prod_unfold)
  next
    case (NMap entries r)
    have "adds (fold (\<lambda>p st. collect (fst (snd p)) (collect (fst p) st)) entries)
        (\<Union> ((\<lambda>p. absolute_reads (fst p) \<union> absolute_reads (fst (snd p))) ` set entries))
        (\<Union> ((\<lambda>p. free_reads (fst p) \<union> free_reads (fst (snd p))) ` set entries))"
    proof (rule adds_fold)
      fix p
      assume "p \<in> set entries"
      then have "fst p \<in> set (childNodes n)" "fst (snd p) \<in> set (childNodes n)"
        unfolding NMap NMap_children by blast+
      then show "adds (\<lambda>st. collect (fst (snd p)) (collect (fst p) st))
          (absolute_reads (fst p) \<union> absolute_reads (fst (snd p)))
          (free_reads (fst p) \<union> free_reads (fst (snd p)))"
        by (intro adds_comp child)
    qed
    then show ?thesis by (simp add: NMap case_prod_unfold)
  next
    case (NCall name nr args r)
    have "adds (fold collect args) (\<Union> (absolute_reads ` set args)) (\<Union> (free_reads ` set args))"
      by (rule adds_fold) (use child NCall in auto)
    then show ?thesis by (simp add: NCall)
  next
    case (NQCall ns nsr name nr args r)
    have "adds (fold collect args) (\<Union> (absolute_reads ` set args)) (\<Union> (free_reads ` set args))"
      by (rule adds_fold) (use child NQCall in auto)
    then show ?thesis by (simp add: NQCall)
  next
    case (NIndex operand index optional r)
    from adds_comp [OF child child, of operand index] show ?thesis by (simp add: NIndex)
  next
    case (NBinary operator left right r)
    from adds_comp [OF child child, of left right] show ?thesis by (simp add: NBinary)
  next
    case (NConditional c t f r)
    from adds_comp [OF child adds_comp [OF child child], of c t f]
    show ?thesis by (simp add: NConditional)
  next
    case (NReceiverCall receiver name nr args r)
    define rA where "rA = (if onNamespace receiver then {} else absolute_reads receiver)"
    define rF where "rF = (if onNamespace receiver then {} else free_reads receiver)"
    have recv: "adds (\<lambda>st. if onNamespace receiver then st else collect receiver st) rA rF"
      using child [of receiver] NReceiverCall adds_id by (auto simp: rA_def rF_def)
    have arg: "adds (collect (args ! i)) (absolute_reads (args ! i)) (free_reads (args ! i))"
      if "i < length args" for i
      using child [of "args ! i"] NReceiverCall that by simp
    show ?thesis
    proof (cases "bound_variable receiver name args")
      case None
      have "adds (fold collect args) (\<Union> (absolute_reads ` set args)) (\<Union> (free_reads ` set args))"
        by (rule adds_fold) (use child NReceiverCall in auto)
      from adds_comp [OF recv this] None show ?thesis
        by (simp add: NReceiverCall call_reads rA_def rF_def Let_def)
    next
      case (Some p)
      then obtain b v where p: "bound_variable receiver name args = Some (b, v)" by (cases p) auto
      let ?skip = "\<lambda>pos. pos = variableArgument b \<or> pos \<in> set (scopedArguments b)"
      let ?free = "{0..<length args} - {variableArgument b} - set (scopedArguments b)"
      let ?scoped = "set (scopedArguments b) \<inter> {0..<length args}"
      from p have var: "variableArgument b \<notin> set (scopedArguments b)"
        using receiverMacroBinding_Some namespaceMacroBinding_Some
        by (fastforce simp: bound_variable_def call_binding_def split: option.splits node.splits if_splits)
      have un: "adds (fold (\<lambda>(pos, argument) st. if ?skip pos then st else collect argument st) (enumerate 0 args))
          (\<Union> ((\<lambda>i. absolute_reads (args ! i)) ` ?free)) (\<Union> ((\<lambda>i. free_reads (args ! i)) ` ?free))"
      proof -
        have "adds (fold (\<lambda>q st. if ?skip (fst q) then st else collect (snd q) st) (enumerate 0 args))
          (\<Union> ((\<lambda>q. if ?skip (fst q) then {} else absolute_reads (snd q)) ` set (enumerate 0 args)))
          (\<Union> ((\<lambda>q. if ?skip (fst q) then {} else free_reads (snd q)) ` set (enumerate 0 args)))"
          by (rule adds_fold) (use arg adds_id in \<open>auto simp: in_set_enumerate_eq\<close>)
        moreover have "\<Union> ((\<lambda>q. if ?skip (fst q) then {} else f (snd q)) ` set (enumerate 0 args))
            = \<Union> ((\<lambda>i. f (args ! i)) ` ?free)" for f :: "node \<Rightarrow> jstring set"
          by (auto simp: set_enumerate_nth split: if_splits)
        ultimately show ?thesis by (simp add: case_prod_unfold)
      qed
      have "adds (fold (\<lambda>pos st. if pos < length args then collect (args ! pos) st else st) (scopedArguments b))
          (\<Union> ((\<lambda>pos. if pos < length args then absolute_reads (args ! pos) else {}) ` set (scopedArguments b)))
          (\<Union> ((\<lambda>pos. if pos < length args then free_reads (args ! pos) else {}) ` set (scopedArguments b)))"
        by (rule adds_fold) (use arg adds_id in auto)
      moreover have "\<Union> ((\<lambda>pos. if pos < length args then f (args ! pos) else {}) ` set (scopedArguments b))
          = \<Union> ((\<lambda>pos. f (args ! pos)) ` ?scoped)" for f :: "node \<Rightarrow> jstring set"
        by (force split: if_splits)
      ultimately have "adds (fold (\<lambda>pos st. if pos < length args then collect (args ! pos) st else st) (scopedArguments b))
          (\<Union> ((\<lambda>pos. absolute_reads (args ! pos)) ` ?scoped)) (\<Union> ((\<lambda>pos. free_reads (args ! pos)) ` ?scoped))"
        by simp
      note all = adds_comp [OF adds_comp [OF recv un] adds_bind [OF this, of v]]
      have eqA: "rA \<union> \<Union> ((\<lambda>i. absolute_reads (args ! i)) ` ?free) \<union> \<Union> ((\<lambda>pos. absolute_reads (args ! pos)) ` ?scoped)
          = absolute_reads n"
        using var by (auto simp: NReceiverCall call_reads p rA_def)
      have eqF: "rF \<union> \<Union> ((\<lambda>i. free_reads (args ! i)) ` ?free) \<union> (\<Union> ((\<lambda>pos. free_reads (args ! pos)) ` ?scoped) - {v})
          = free_reads n"
        by (auto simp: NReceiverCall call_reads p rF_def)
      from all show ?thesis
        by (simp add: eqA eqF) (simp add: NReceiverCall p Let_def)
    qed
  qed (use child adds_id in auto)
qed

lemma resolveNode_nil: "resolveNode n [] = n"
proof -
  have "\<not> resolvable [] m" for m
  proof (cases m)
    case (NReceiverCall receiver name nr args r)
    then show ?thesis by (cases receiver) auto
  qed auto
  then show ?thesis by (intro resolveNode_unresolvable) (simp add: everywhere_def list_all_iff)
qed

lemma resolveNamespaces_resolveNode: "resolveNamespaces tree ns = resolveNode tree ns"
  by (simp add: resolveNamespaces_def resolveNode_nil)

section \<open>Properties\<close>

text \<open>Normalizing a namespace set answers a set exactly when every name of it is an
  identifier, not a reserved word and not a namespace CEL keeps; the set is then the distinct
  names in order, so two hosts that say the same names in any order get one set.\<close>

theorem normalizeNamespaces_canonical:
  "normalizeNamespaces names = Inr ns \<longleftrightarrow>
     list_all namespace_name names \<and> ns = sorted_list_of_set (set names)"
  using normalizeNamespaces_valid [of names] normalizeNamespaces_invalid [of names]
  by (cases "list_all namespace_name names") auto

text \<open>C24. The namespace pass leaves no call on a name of the set anywhere in the tree, and a
  second pass changes nothing.\<close>

theorem resolveNamespaces_complete:
  "everywhere (\<lambda>n. \<not> resolvable ns n) (resolveNamespaces tree ns) \<and>
     resolveNamespaces (resolveNamespaces tree ns) ns = resolveNamespaces tree ns"
  by (simp add: resolveNamespaces_resolveNode resolveNode_resolved resolveNode_unresolvable)

text \<open>C34. The namespace pass loses nothing of a tree as the parser builds it: writing every
  qualified call back as a call on its namespace gives the tree that was read, ranges included.\<close>

theorem resolveNamespaces_lossless:
  assumes "everywhere (\<lambda>n. \<not> is_qcall n) tree"
  shows "unresolve (resolveNamespaces tree ns) = tree"
  using assms by (simp add: resolveNamespaces_resolveNode unresolve_resolveNode)

theorem resolveNamespaces_lossless_witness:
  "unresolve (resolveNamespaces
      (NReceiverCall (NIdent (js ''m'') False (0, 1)) (js ''f'') (2, 3) [] (0, 5)) [js ''m'']) =
     NReceiverCall (NIdent (js ''m'') False (0, 1)) (js ''f'') (2, 3) [] (0, 5)"
  by (rule resolveNamespaces_lossless) simp

text \<open>C23. The root references of an expression are, sorted and without repetition, the
  names it reads absolutely and the names it reads free, where a name is free unless a binding
  call around it binds it in that argument.\<close>

theorem rootReferences_exact:
  "set (rootReferences n) = absolute_reads n \<union> free_reads n \<and>
     sorted (rootReferences n) \<and> distinct (rootReferences n)"
proof -
  have "counts_binders (fst (Map.empty :: bound_names, []))" by (simp add: counts_binders_def)
  from addsD [OF collect_adds [of n] this] show ?thesis by (simp add: rootReferences_def)
qed

end
