(* ===== verification/Module_Versions.thy ===== *)
theory Module_Versions
  imports Js_Number "HOL-Library.Product_Lexorder"
begin

text \<open>
  Module versions and version ranges (\<open>analyzer/nodejs/src/module-version-order.ts\<close> and
  \<open>version-range.ts\<close>): the precedence of versions, the range grammar \<open>requires:\<close> declares, and
  the interval a range comes to.

  The numeric parts are doubles, as \<open>Number(s)\<close> reads them: a part above \<open>2 ^ 53\<close> is rounded
  and one above the largest double is \<open>Infinity\<close>. A comparison answers the sign of the number
  the code returns, which is what every caller reads of it; \<open>Undefined\<close> is the \<open>NaN\<close> that
  subtracting two infinite identifiers gives.

  The messages of refusals are not modelled; which refusal it is and the hint it carries are.
\<close>

section \<open>Precedence\<close>

record module_version =
  major :: double
  minor :: double
  patch :: double
  pre :: "jstring list option"

datatype comparison = Negative | Zero | Positive | Undefined

definition numeric_text :: "jstring \<Rightarrow> bool" where
  "numeric_text t \<longleftrightarrow> t \<noteq> [] \<and> list_all isDigit t"

definition parseModuleVersion :: "jstring \<Rightarrow> module_version option" where
  "parseModuleVersion raw =
     (let v = (if starts_with raw (js ''v'') then drop 1 raw else raw);
          pieces = split_on (\<lambda>c. c = 45) v;
          core = hd pieces;
          preText = (if tl pieces = [] then None else Some (join_with 45 (tl pieces)));
          segments = split_on (\<lambda>c. c = 46) core
      in (case segments of
            [a, b, c] \<Rightarrow>
              if numeric_text a \<and> numeric_text b \<and> numeric_text c then
                Some \<lparr>major = number_of_text a, minor = number_of_text b, patch = number_of_text c,
                      pre = map_option (split_on (\<lambda>c. c = 46)) preText\<rparr>
              else None
          | _ \<Rightarrow> None))"

text \<open>The sign of \<open>a - b\<close>.\<close>

definition difference :: "double \<Rightarrow> double \<Rightarrow> comparison" where
  "difference a b =
     (if double_less a b then Negative else if double_less b a then Positive
      else if double_sub a b = NaN then Undefined else Zero)"

fun compare_pre :: "jstring list \<Rightarrow> jstring list \<Rightarrow> comparison" where
  "compare_pre [] [] = Zero"
| "compare_pre [] (_ # _) = Negative"
| "compare_pre (_ # _) [] = Positive"
| "compare_pre (ai # as) (bi # bs) =
     (if numeric_text ai \<and> numeric_text bi then
        (let d = difference (number_of_text ai) (number_of_text bi)
         in if d \<noteq> Zero then d else compare_pre as bs)
      else if numeric_text ai \<noteq> numeric_text bi then
        (if numeric_text ai then Negative else Positive)
      else if ai \<noteq> bi then (if ai < bi then Negative else Positive)
      else compare_pre as bs)"

definition compareParsedModuleVersions :: "module_version \<Rightarrow> module_version \<Rightarrow> comparison" where
  "compareParsedModuleVersions a b =
     (if \<not> double_eq (major a) (major b) then difference (major a) (major b)
      else if \<not> double_eq (minor a) (minor b) then difference (minor a) (minor b)
      else if \<not> double_eq (patch a) (patch b) then difference (patch a) (patch b)
      else (case (pre a, pre b) of
              (None, None) \<Rightarrow> Zero
            | (None, Some _) \<Rightarrow> Positive
            | (Some _, None) \<Rightarrow> Negative
            | (Some as, Some bs) \<Rightarrow> compare_pre as bs))"

definition compareModuleVersions :: "jstring \<Rightarrow> jstring \<Rightarrow> comparison option" where
  "compareModuleVersions a b =
     (case (parseModuleVersion a, parseModuleVersion b) of
        (Some left, Some right) \<Rightarrow> Some (compareParsedModuleVersions left right)
      | _ \<Rightarrow> None)"

definition isNewerModuleVersion :: "jstring \<Rightarrow> jstring \<Rightarrow> bool" where
  "isNewerModuleVersion candidate current \<longleftrightarrow> compareModuleVersions candidate current = Some Positive"

definition isSameModuleVersion :: "jstring \<Rightarrow> jstring \<Rightarrow> bool" where
  "isSameModuleVersion a b \<longleftrightarrow> a = b \<or> compareModuleVersions a b = Some Zero"

fun newest_loop :: "bool \<Rightarrow> (jstring \<times> module_version) option \<Rightarrow> jstring list \<Rightarrow> (jstring \<times> module_version) option" where
  "newest_loop includePrerelease best [] = best"
| "newest_loop includePrerelease best (version # versions) =
     (case parseModuleVersion version of
        None \<Rightarrow> newest_loop includePrerelease best versions
      | Some parsed \<Rightarrow>
          if pre parsed \<noteq> None \<and> \<not> includePrerelease then newest_loop includePrerelease best versions
          else (case best of
                  None \<Rightarrow> newest_loop includePrerelease (Some (version, parsed)) versions
                | Some (_, bestParsed) \<Rightarrow>
                    if compareParsedModuleVersions parsed bestParsed = Positive
                    then newest_loop includePrerelease (Some (version, parsed)) versions
                    else newest_loop includePrerelease best versions))"

definition newestModuleVersion :: "jstring list \<Rightarrow> bool \<Rightarrow> jstring option" where
  "newestModuleVersion versions includePrerelease = map_option fst (newest_loop includePrerelease None versions)"

subsection \<open>The order\<close>

text \<open>
  The abstract counterpart: a key in a linear order. A release outranks every prerelease, a
  numeric identifier comes before every other one, a shorter list before its extensions.
\<close>

definition identifier_key :: "jstring \<Rightarrow> nat \<times> real \<times> jstring" where
  "identifier_key t = (if numeric_text t then (0, double_real (number_of_text t), []) else (1, 0, t))"

definition pre_key :: "jstring list option \<Rightarrow> nat \<times> (nat \<times> real \<times> jstring) list" where
  "pre_key p = (case p of None \<Rightarrow> (1, []) | Some ids \<Rightarrow> (0, map identifier_key ids))"

definition version_key ::
  "module_version \<Rightarrow> real \<times> real \<times> real \<times> nat \<times> (nat \<times> real \<times> jstring) list" where
  "version_key v = (double_real (major v), double_real (minor v), double_real (patch v), pre_key (pre v))"

text \<open>No part so long that it reads as \<open>Infinity\<close>.\<close>

definition finite_version :: "module_version \<Rightarrow> bool" where
  "finite_version v \<longleftrightarrow> double_finite (major v) \<and> double_finite (minor v) \<and> double_finite (patch v) \<and>
     (case pre v of None \<Rightarrow> True
      | Some ids \<Rightarrow> list_all (\<lambda>t. numeric_text t \<longrightarrow> double_finite (number_of_text t)) ids)"

definition order_sign :: "'a::linorder \<Rightarrow> 'a \<Rightarrow> comparison" where
  "order_sign a b = (if a < b then Negative else if b < a then Positive else Zero)"

lemma order_sign_iff [simp]:
  "order_sign a b = Zero \<longleftrightarrow> a = b" "order_sign a b = Positive \<longleftrightarrow> b < a"
  "order_sign a b = Negative \<longleftrightarrow> a < b" "order_sign a b \<noteq> Undefined"
  by (auto simp: order_sign_def)

lemma order_sign_pair:
  "order_sign (a, b) (c, d) = (if a = c then order_sign b d else order_sign a c)"
  by (auto simp: order_sign_def)

lemma order_sign_Cons:
  fixes x y :: "'a::linorder"
  shows "order_sign (x # xs) (y # ys) = (if x = y then order_sign xs ys else order_sign x y)"
  by (auto simp: order_sign_def)

lemma difference_sign:
  assumes "double_finite a" "double_finite b"
  shows "difference a b = order_sign (double_real a) (double_real b)"
proof -
  have "double_sub a b \<noteq> NaN" using assms by (rule double_sub_finite)
  with double_less_real [OF assms] double_less_real [OF assms(2,1)] show ?thesis
    by (simp add: difference_def order_sign_def)
qed

lemma compare_pre_sign:
  "list_all (\<lambda>t. numeric_text t \<longrightarrow> double_finite (number_of_text t)) as \<Longrightarrow>
   list_all (\<lambda>t. numeric_text t \<longrightarrow> double_finite (number_of_text t)) bs \<Longrightarrow>
     compare_pre as bs = order_sign (map identifier_key as) (map identifier_key bs)"
proof (induction as arbitrary: bs)
  case Nil
  show ?case by (cases bs) (simp_all add: order_sign_def)
next
  case (Cons ai as bs')
  show ?case
  proof (cases bs')
    case Nil
    then show ?thesis by (simp add: order_sign_def)
  next
    case (Cons bi bs)
    with Cons.prems Cons.IH [of bs] have IH:
      "compare_pre as bs = order_sign (map identifier_key as) (map identifier_key bs)" by simp
    show ?thesis
  proof (cases "numeric_text ai \<and> numeric_text bi")
    case True
    then show ?thesis using Cons.prems Cons IH
      by (simp add: difference_sign order_sign_Cons identifier_key_def [of ai] identifier_key_def [of bi]
        order_sign_pair Let_def)
  next
    case False
    then show ?thesis using IH Cons
      by (auto simp: order_sign_Cons identifier_key_def [of ai] identifier_key_def [of bi]
        order_sign_pair)
        (auto simp: order_sign_def)
  qed
  qed
qed

lemma compare_sign:
  assumes "finite_version a" "finite_version b"
  shows "compareParsedModuleVersions a b = order_sign (version_key a) (version_key b)"
  using assms
  by (auto simp: compareParsedModuleVersions_def version_key_def order_sign_pair finite_version_def
      difference_sign double_less_real pre_key_def compare_pre_sign split: option.splits)
    (auto simp: order_sign_def)

text \<open>Which tags \<open>newestModuleVersion\<close> may answer.\<close>

definition eligible :: "bool \<Rightarrow> jstring \<Rightarrow> bool" where
  "eligible includePrerelease version \<longleftrightarrow>
     (case parseModuleVersion version of None \<Rightarrow> False | Some v \<Rightarrow> pre v = None \<or> includePrerelease)"

definition tag_key where "tag_key version = version_key (the (parseModuleVersion version))"

lemma newest_loop_invariant:
  assumes "list_all (\<lambda>t. \<forall>v. parseModuleVersion t = Some v \<longrightarrow> finite_version v) versions"
    and "\<And>t v. best = Some (t, v) \<Longrightarrow> parseModuleVersion t = Some v \<and> finite_version v"
  shows "case newest_loop p best versions of
      None \<Rightarrow> best = None \<and> filter (eligible p) versions = []
    | Some (t, v) \<Rightarrow> parseModuleVersion t = Some v \<and>
        (best = Some (t, v) \<or> t \<in> set (filter (eligible p) versions)) \<and>
        (\<forall>u w. best = Some (u, w) \<longrightarrow> tag_key u \<le> tag_key t) \<and>
        (\<forall>u \<in> set (filter (eligible p) versions). tag_key u \<le> tag_key t)"
  using assms
proof (induction versions arbitrary: best)
  case Nil
  then show ?case by (cases best) auto
next
  case (Cons version versions)
  show ?case
  proof (cases "eligible p version")
    case False
    then have "newest_loop p best (version # versions) = newest_loop p best versions"
      by (auto simp: eligible_def split: option.splits)
    with Cons.IH [of best] Cons.prems False show ?thesis
      by (simp only: filter.simps if_False list.pred_inject)
  next
    case True
    then obtain v where v: "parseModuleVersion version = Some v" "pre v = None \<or> p"
      by (auto simp: eligible_def split: option.splits)
    have fv: "finite_version v" using Cons.prems v by simp
    show ?thesis
    proof (cases best)
      case None
      then have "newest_loop p best (version # versions) = newest_loop p (Some (version, v)) versions"
        using v by auto
      with Cons.IH [of "Some (version, v)"] Cons.prems v fv True None show ?thesis
        by (auto split: option.splits)
    next
      case (Some b)
      then obtain t w where b: "best = Some (t, w)" "parseModuleVersion t = Some w" "finite_version w"
        using Cons.prems(2) by (cases b) auto
      show ?thesis
      proof (cases "compareParsedModuleVersions v w = Positive")
        case pos: True
        then have "newest_loop p best (version # versions) = newest_loop p (Some (version, v)) versions"
          using v b by auto
        moreover from pos have "tag_key t \<le> tag_key version"
          using v b fv by (simp add: compare_sign tag_key_def)
        ultimately show ?thesis using Cons.IH [of "Some (version, v)"] Cons.prems v fv True b
          by (auto split: option.splits)
      next
        case neg: False
        then have "newest_loop p best (version # versions) = newest_loop p best versions"
          using v b by auto
        moreover from neg have "tag_key version \<le> tag_key t"
          using v b fv by (simp add: compare_sign tag_key_def)
        ultimately show ?thesis using Cons.IH [of best] Cons.prems v fv True b
          by (auto split: option.splits)
      qed
    qed
  qed
qed

section \<open>Properties\<close>

text \<open>C35. Comparing two versions answers their order under one key, a linear order: the numeric
  core first, a release above its prereleases, then the identifiers field by field, a numeric
  one below every other and a shorter list below its extensions. The comparison is therefore
  reflexive, antisymmetric and transitive, as long as no part is too long to be finite.\<close>

theorem compareParsedModuleVersions_order:
  assumes "finite_version a" "finite_version b"
  shows "compareParsedModuleVersions a b = order_sign (version_key a) (version_key b)"
  using assms by (rule compare_sign)

theorem compareParsedModuleVersions_order_witness:
  "compareParsedModuleVersions
      \<lparr>major = Finite False 4503599627370496 (-52), minor = Finite False 0 (-1074),
       patch = Finite False 0 (-1074), pre = Some [js ''rc'']\<rparr>
      \<lparr>major = Finite False 4503599627370496 (-52), minor = Finite False 0 (-1074),
       patch = Finite False 0 (-1074), pre = None\<rparr> = Negative"
  by (subst compareParsedModuleVersions_order)
    (simp_all add: finite_version_def version_key_def pre_key_def numeric_text_def isDigit_def)

text \<open>The newest version of a list is an eligible tag of the list that no eligible tag of it
  outranks; there is none exactly when no tag is eligible, so a digest or a moving tag
  never hides the versions after it.\<close>

theorem newestModuleVersion_newest:
  assumes "list_all (\<lambda>t. \<forall>v. parseModuleVersion t = Some v \<longrightarrow> finite_version v) versions"
  shows "case newestModuleVersion versions p of
      None \<Rightarrow> filter (eligible p) versions = []
    | Some t \<Rightarrow> t \<in> set (filter (eligible p) versions) \<and>
        (\<forall>u \<in> set (filter (eligible p) versions). \<not> isNewerModuleVersion u t)"
proof -
  have fin: "finite_version v" if "u \<in> set versions" "parseModuleVersion u = Some v" for u v
    using assms that by (simp add: list_all_iff)
  have newer: "tag_key t < tag_key u"
    if "u \<in> set versions" "t \<in> set versions" "isNewerModuleVersion u t" for u t
    using that fin by (auto simp: isNewerModuleVersion_def compareModuleVersions_def compare_sign tag_key_def
        split: option.splits)
  from newest_loop_invariant [OF assms, of None p] newer show ?thesis
    by (fastforce simp: newestModuleVersion_def split: option.splits prod.splits)
qed

lemmas version_eval = parseModuleVersion_def starts_with_def numeric_text_def isDigit_def
  number_of_1 number_of_0 join_with_def

theorem newestModuleVersion_newest_witness:
  "case newestModuleVersion [js ''latest'', js ''0.0.1'', js ''1.0.0'', js ''1.1.0-rc''] False of
      None \<Rightarrow> False
    | Some t \<Rightarrow> t = js ''1.0.0'' \<and> \<not> isNewerModuleVersion (js ''0.0.1'') t"
proof -
  let ?tags = "[js ''latest'', js ''0.0.1'', js ''1.0.0'', js ''1.1.0-rc'']"
  have "newestModuleVersion ?tags False = Some (js ''1.0.0'')"
    by (simp add: newestModuleVersion_def version_eval compareParsedModuleVersions_def difference_def
        Let_def)
  moreover have "list_all (\<lambda>t. \<forall>v. parseModuleVersion t = Some v \<longrightarrow> finite_version v) ?tags"
    by (simp add: version_eval finite_version_def)
  note newestModuleVersion_newest [OF this, of False]
  moreover have "eligible False (js ''0.0.1'')"
    by (simp add: eligible_def version_eval)
  ultimately show ?thesis by (simp del: js_Cons)
qed

text \<open>Numeric identifiers above \<open>2 ^ 53\<close> are compared after rounding, so two different
  prereleases are one version.\<close>

lemma rounded_identifiers_are_the_same:
  "isSameModuleVersion (js ''1.0.0-9007199254740992'') (js ''1.0.0-9007199254740993'')"
proof -
  have "number_of_text (js ''9007199254740992'') = Finite False 4503599627370496 1"
    and "number_of_text (js ''9007199254740993'') = Finite False 4503599627370496 1"
    by (simp_all add: number_eval)
  then show ?thesis
    by (simp add: isSameModuleVersion_def compareModuleVersions_def version_eval
        compareParsedModuleVersions_def difference_def double_sub_def Let_def)
qed

end
