(* ===== verification/Version_Range.thy ===== *)
theory Version_Range
  imports Module_Versions
begin

text \<open>
  The range grammar \<open>requires:\<close> and a need's \<open>version:\<close> declare
  (\<open>analyzer/nodejs/src/version-rng.ts\<close>): a conjunction of comparators, the interval it comes
  to, containment of one rng in another, and the ranges no version satisfies.
\<close>

datatype comparator_operator = AtLeast | AtMost | Above | Below

record version_comparator =
  operator :: comparator_operator
  raw :: jstring
  parsed :: module_version

record version_range =
  range_raw :: jstring
  comparators :: "version_comparator list"

datatype range_refusal =
    NoRangeString | Disjunction | HyphenRange | CaretOrTilde jstring | Wildcard jstring
  | ExactPin jstring | NoComparator jstring | NotThreePart jstring | DeclaresNone

type_synonym range_error = "range_refusal \<times> jstring option"

datatype range_reading = RequiresReading | NeedReading

definition OPERATORS :: "(comparator_operator \<times> jstring) list" where
  "OPERATORS = [(AtLeast, js ''>=''), (AtMost, js ''<=''), (Above, js ''>''), (Below, js ''<'')]"

definition hintedRefusal :: "range_refusal \<Rightarrow> jstring \<Rightarrow> range_error" where
  "hintedRefusal why version =
     (why, if parseModuleVersion version \<noteq> None then Some (js ''>='' @ version) else None)"

text \<open>\<open>/\s-\s/\<close>, and the text before its first match.\<close>

fun before_hyphen :: "jstring \<Rightarrow> jstring option" where
  "before_hyphen (a # b # c # t) =
     (if js_space a \<and> b = 45 \<and> js_space c then Some []
      else map_option (Cons a) (before_hyphen (b # c # t)))"
| "before_hyphen _ = None"

fun includes_bars :: "jstring \<Rightarrow> bool" where
  "includes_bars (a # b # t) = ((a = 124 \<and> b = 124) \<or> includes_bars (b # t))"
| "includes_bars _ = False"

text \<open>The two wildcard patterns: some piece between dots is a single \<open>x\<close>, \<open>X\<close> or \<open>*\<close>.\<close>

definition is_wildcard :: "jstring \<Rightarrow> bool" where
  "is_wildcard term \<longleftrightarrow>
     list_ex (\<lambda>p. p = js ''x'' \<or> p = js ''X'' \<or> p = js ''*'') (split_on (\<lambda>c. c = 46) term)"

definition caret_upper :: "jstring \<Rightarrow> jstring" where
  "caret_upper version =
     (let one = Finite False (2 ^ 52) (-52); zero = Finite False 0 (-1074) in
      case parseModuleVersion version of
        Some v \<Rightarrow>
          if double_eq (major v) zero
          then js ''0.'' @ string_of_double (double_add (minor v) one) @ js ''.0''
          else string_of_double (double_add (major v) one) @ js ''.0.0''
      | None \<Rightarrow> js ''1.0.0'')"

definition find_operator :: "jstring \<Rightarrow> (comparator_operator \<times> jstring) option" where
  "find_operator term = find (\<lambda>(_, spelled). starts_with term spelled) OPERATORS"

definition parseTerm :: "range_reading \<Rightarrow> jstring \<Rightarrow> range_error + version_comparator" where
  "parseTerm reading term =
     (if starts_with term (js ''^'') \<or> starts_with term (js ''~'') then
        (let version = drop 1 term in
         Inl (CaretOrTilde term,
           Some (if reading = NeedReading
                 then js ''>='' @ version @ js '' <'' @ caret_upper version
                 else js ''>='' @ version)))
      else if is_wildcard term then Inl (Wildcard term, None)
      else if starts_with term (js ''='') then
        Inl (hintedRefusal (ExactPin term) (dropWhile (\<lambda>c. c = 61) term))
      else (case find_operator term of
              None \<Rightarrow> Inl (hintedRefusal (NoComparator term) term)
            | Some (found, spelled) \<Rightarrow>
                (let version = js_trim (drop (length spelled) term) in
                 case parseModuleVersion version of
                   None \<Rightarrow> Inl (NotThreePart term, None)
                 | Some p \<Rightarrow> Inr \<lparr>operator = found, raw = version, parsed = p\<rparr>)))"

fun parseTerms ::
  "range_reading \<Rightarrow> version_comparator list \<Rightarrow> jstring list \<Rightarrow> range_error + version_comparator list" where
  "parseTerms reading found [] = Inr found"
| "parseTerms reading found (term # terms) =
     (case parseTerm reading term of
        Inl e \<Rightarrow> Inl e
      | Inr c \<Rightarrow> parseTerms reading (found @ [c]) terms)"

definition parseVersionRange :: "jstring option \<Rightarrow> range_reading \<Rightarrow> range_error + version_range" where
  "parseVersionRange given reading =
     (case given of
        None \<Rightarrow> Inl (NoRangeString, None)
      | Some written \<Rightarrow>
          if js_trim written = [] then Inl (NoRangeString, None)
          else
            let text = js_trim written in
            if includes_bars text then Inl (Disjunction, None)
            else (case before_hyphen text of
              Some before \<Rightarrow>
                Inl (HyphenRange, Some (js_trim before @ js '' rewritten as '' @ [39] @ js ''>='' @ [39] @
                  js '' and '' @ [39] @ js ''<='' @ [39] @ js '' comparators''))
            | None \<Rightarrow>
                (let terms = filter (\<lambda>t. t \<noteq> []) (split_on (\<lambda>c. js_space c \<or> c = 44) text) in
                 case parseTerms reading [] terms of
                   Inl e \<Rightarrow> Inl e
                 | Inr found \<Rightarrow>
                     if found = [] then Inl (DeclaresNone, None)
                     else Inr \<lparr>range_raw = text, comparators = found\<rparr>)))"

definition comparator_holds :: "module_version \<Rightarrow> version_comparator \<Rightarrow> bool" where
  "comparator_holds v c =
     (let cmp = compareParsedModuleVersions v (parsed c) in
      case operator c of
        AtLeast \<Rightarrow> cmp = Positive \<or> cmp = Zero
      | Above \<Rightarrow> cmp = Positive
      | AtMost \<Rightarrow> cmp = Negative \<or> cmp = Zero
      | Below \<Rightarrow> cmp = Negative)"

definition rangeAccepts :: "version_range \<Rightarrow> jstring \<Rightarrow> bool" where
  "rangeAccepts rng version =
     (case parseModuleVersion version of
        None \<Rightarrow> False
      | Some v \<Rightarrow> list_all (comparator_holds v) (comparators rng))"

text \<open>\<open>reduce\<close> from \<open>undefined\<close>, keeping the best so far.\<close>

definition reduce_best ::
  "(version_comparator \<Rightarrow> version_comparator \<Rightarrow> bool) \<Rightarrow> version_comparator list \<Rightarrow> version_comparator option" where
  "reduce_best better list =
     fold (\<lambda>c best. case best of None \<Rightarrow> Some c | Some b \<Rightarrow> if better c b then Some c else best) list None"

definition highest :: "version_comparator list \<Rightarrow> version_comparator option" where
  "highest = reduce_best (\<lambda>c best. compareParsedModuleVersions (parsed c) (parsed best) = Positive)"

definition lowest :: "version_comparator list \<Rightarrow> version_comparator option" where
  "lowest = reduce_best (\<lambda>c best. compareParsedModuleVersions (parsed c) (parsed best) = Negative)"

definition is_lower :: "version_comparator \<Rightarrow> bool" where
  "is_lower c \<longleftrightarrow> operator c = AtLeast \<or> operator c = Above"

definition is_upper :: "version_comparator \<Rightarrow> bool" where
  "is_upper c \<longleftrightarrow> operator c = AtMost \<or> operator c = Below"

definition lowerBound :: "version_range \<Rightarrow> version_comparator option" where
  "lowerBound rng = highest (filter is_lower (comparators rng))"

definition upperBound :: "version_range \<Rightarrow> version_comparator option" where
  "upperBound rng = lowest (filter is_upper (comparators rng))"

record interval_bound =
  bound_version :: jstring
  inclusive :: bool

record version_interval =
  min_bound :: "interval_bound option"
  max_bound :: "interval_bound option"

text \<open>\<open>tightest\<close> with sign 1 and the exclusive \<open>>\<close>, and with sign -1 and the exclusive \<open><\<close>.\<close>

definition tightest_low :: "version_range \<Rightarrow> version_comparator option" where
  "tightest_low rng = reduce_best (\<lambda>c best.
     let cmp = compareParsedModuleVersions (parsed c) (parsed best)
     in cmp = Positive \<or> (cmp = Zero \<and> operator c = Above)) (filter is_lower (comparators rng))"

definition tightest_high :: "version_range \<Rightarrow> version_comparator option" where
  "tightest_high rng = reduce_best (\<lambda>c best.
     let cmp = compareParsedModuleVersions (parsed c) (parsed best)
     in cmp = Negative \<or> (cmp = Zero \<and> operator c = Below)) (filter is_upper (comparators rng))"

definition rangeInterval :: "version_range \<Rightarrow> version_interval" where
  "rangeInterval rng =
     \<lparr>min_bound = map_option (\<lambda>c. \<lparr>bound_version = raw c, inclusive = (operator c = AtLeast)\<rparr>) (tightest_low rng),
      max_bound = map_option (\<lambda>c. \<lparr>bound_version = raw c, inclusive = (operator c = AtMost)\<rparr>) (tightest_high rng)\<rparr>"

definition version_of_bound :: "interval_bound \<Rightarrow> module_version" where
  "version_of_bound b = the (parseModuleVersion (bound_version b))"

definition rangeWithin :: "version_range \<Rightarrow> version_range \<Rightarrow> bool" where
  "rangeWithin inner outer =
     (let a = rangeInterval inner; b = rangeInterval outer in
      (case min_bound b of
         None \<Rightarrow> True
       | Some bmin \<Rightarrow>
           (case min_bound a of
              None \<Rightarrow> False
            | Some amin \<Rightarrow>
                (let cmp = compareParsedModuleVersions (version_of_bound amin) (version_of_bound bmin)
                 in \<not> (cmp = Negative \<or> (cmp = Zero \<and> inclusive amin \<and> \<not> inclusive bmin))))) \<and>
      (case max_bound b of
         None \<Rightarrow> True
       | Some bmax \<Rightarrow>
           (case max_bound a of
              None \<Rightarrow> False
            | Some amax \<Rightarrow>
                (let cmp = compareParsedModuleVersions (version_of_bound amax) (version_of_bound bmax)
                 in \<not> (cmp = Positive \<or> (cmp = Zero \<and> inclusive amax \<and> \<not> inclusive bmax))))))"

definition isUnsatisfiable :: "version_range \<Rightarrow> bool" where
  "isUnsatisfiable rng =
     (case (lowerBound rng, upperBound rng) of
        (Some low, Some high) \<Rightarrow>
          (case compareParsedModuleVersions (parsed low) (parsed high) of
             Positive \<Rightarrow> True
           | Zero \<Rightarrow> operator low = Above \<or> operator high = Below
           | _ \<Rightarrow> False)
      | _ \<Rightarrow> False)"

section \<open>What a parsed rng is\<close>

definition comparator_wf :: "version_comparator \<Rightarrow> bool" where
  "comparator_wf c \<longleftrightarrow> parseModuleVersion (raw c) = Some (parsed c)"

definition range_wf :: "version_range \<Rightarrow> bool" where
  "range_wf rng \<longleftrightarrow> comparators rng \<noteq> [] \<and> list_all comparator_wf (comparators rng)"

definition range_finite :: "version_range \<Rightarrow> bool" where
  "range_finite rng \<longleftrightarrow> list_all (\<lambda>c. finite_version (parsed c)) (comparators rng)"

fun spelling :: "comparator_operator \<Rightarrow> jstring" where
  "spelling AtLeast = js ''>=''"
| "spelling AtMost = js ''<=''"
| "spelling Above = js ''>''"
| "spelling Below = js ''<''"

text \<open>The terms of a range's text.\<close>

definition range_terms :: "jstring \<Rightarrow> jstring list" where
  "range_terms text = filter (\<lambda>t. t \<noteq> []) (split_on (\<lambda>c. js_space c \<or> c = 44) text)"

lemma split_on_piece: "q \<in> set (split_on p t) \<Longrightarrow> list_all (\<lambda>c. \<not> p c) q"
  by (induction t arbitrary: q) (auto split: list.splits if_splits)

lemma dropWhile_none: "list_all (\<lambda>c. \<not> p c) t \<Longrightarrow> dropWhile p t = t"
  by (cases t) auto

lemma js_trim_none: "list_all (\<lambda>c. \<not> js_space c) t \<Longrightarrow> js_trim t = t"
  by (simp add: js_trim_def dropWhile_none list_all_rev)

lemma find_Some_mem: "find p xs = Some x \<Longrightarrow> x \<in> set xs \<and> p x"
  by (induction xs) (auto split: if_splits)

lemma starts_with_split: "starts_with t p \<Longrightarrow> p @ drop (length p) t = t"
  by (metis starts_with_def append_take_drop_id)

lemma find_operator_Some:
  "find_operator term = Some (found, spelled) \<Longrightarrow> spelled = spelling found \<and> spelled @ drop (length spelled) term = term"
  unfolding find_operator_def
  by (drule find_Some_mem) (auto simp: OPERATORS_def intro: starts_with_split)

lemma parseTerm_Inr:
  assumes "parseTerm reading term = Inr c" and "list_all (\<lambda>c. \<not> js_space c) term"
  shows "comparator_wf c \<and> spelling (operator c) @ raw c = term"
proof -
  from assms(1) obtain found spelled p where f: "find_operator term = Some (found, spelled)"
    and p: "parseModuleVersion (js_trim (drop (length spelled) term)) = Some p"
    and c: "c = \<lparr>operator = found, raw = js_trim (drop (length spelled) term), parsed = p\<rparr>"
    by (auto simp: parseTerm_def Let_def split: if_splits option.splits prod.splits)
  have "list_all (\<lambda>c. \<not> js_space c) (drop (length spelled) term)"
    using assms(2) by (auto simp: list_all_iff dest: in_set_dropD)
  then have "js_trim (drop (length spelled) term) = drop (length spelled) term" by (rule js_trim_none)
  with c p conjunct1 [OF find_operator_Some [OF f]] conjunct2 [OF find_operator_Some [OF f]] show ?thesis
    by (simp add: comparator_wf_def)
qed

lemma parseTerms_Inr:
  "parseTerms reading found terms = Inr cs \<Longrightarrow>
   \<forall>t \<in> set terms. list_all (\<lambda>c. \<not> js_space c) t \<Longrightarrow>
     \<exists>new. cs = found @ new \<and> list_all comparator_wf new \<and>
       map (\<lambda>c. spelling (operator c) @ raw c) new = terms"
proof (induction terms arbitrary: found)
  case (Cons t ts)
  then obtain c where c: "parseTerm reading t = Inr c" by (auto split: sum.splits)
  from Cons.IH [of "found @ [c]"] Cons.prems c obtain new where
    new: "cs = (found @ [c]) @ new" "list_all comparator_wf new" "map (\<lambda>c. spelling (operator c) @ raw c) new = ts"
    by auto
  from parseTerm_Inr [OF c] Cons.prems have "comparator_wf c \<and> spelling (operator c) @ raw c = t" by simp
  with new show ?case by (intro exI [of _ "c # new"]) simp
qed simp

lemma parseVersionRange_Inr:
  assumes "parseVersionRange given reading = Inr rng"
  shows "range_wf rng \<and> map (\<lambda>c. spelling (operator c) @ raw c) (comparators rng) = range_terms (range_raw rng)"
proof -
  obtain written where written: "given = Some written"
    using assms by (cases given) (simp_all add: parseVersionRange_def)
  define body where "body = js_trim written"
  note step = assms [unfolded parseVersionRange_def written option.case, folded body_def, unfolded Let_def]
  have "body \<noteq> []" "\<not> includes_bars body" using step by (auto split: if_split_asm)
  note step = step [unfolded if_not_P [OF this(1)] if_not_P [OF this(2)]]
  have "before_hyphen body = None" using step by (cases "before_hyphen body") auto
  note step = step [unfolded this option.case, folded range_terms_def]
  obtain cs where cs: "parseTerms reading [] (range_terms body) = Inr cs"
    using step by (cases "parseTerms reading [] (range_terms body)") auto
  from step have "cs \<noteq> []" "rng = \<lparr>range_raw = body, comparators = cs\<rparr>"
    unfolding cs sum.case by (cases "cs = []"; simp)+
  with cs have p: "parseTerms reading [] (range_terms (range_raw rng)) = Inr cs"
    and cs: "cs \<noteq> []" "comparators rng = cs" by simp_all
  have "\<forall>t \<in> set (range_terms (range_raw rng)). list_all (\<lambda>c. \<not> js_space c) t"
  proof
    fix t
    assume "t \<in> set (range_terms (range_raw rng))"
    then have "t \<in> set (split_on (\<lambda>c. js_space c \<or> c = 44) (range_raw rng))" by (simp add: range_terms_def)
    from split_on_piece [OF this] show "list_all (\<lambda>c. \<not> js_space c) t" by (simp add: list_all_iff)
  qed
  from parseTerms_Inr [OF p this] cs show ?thesis by (auto simp: range_wf_def)
qed

section \<open>Intervals\<close>

text \<open>A \<open>reduce\<close> that keeps the better answers a greatest element of the list.\<close>

lemma reduce_best_greatest:
  assumes better: "\<And>c b. c \<in> set list \<Longrightarrow> b \<in> set list \<Longrightarrow> if better c b then le b c else le c b"
    and refl: "\<And>c. le c c"
    and le_trans: "\<And>a b c. le a b \<Longrightarrow> le b c \<Longrightarrow> le a c"
  shows "case reduce_best better list of None \<Rightarrow> list = [] | Some m \<Rightarrow> m \<in> set list \<and> (\<forall>c \<in> set list. le c m)"
proof -
  let ?step = "\<lambda>c best. case best of None \<Rightarrow> Some c | Some b \<Rightarrow> if better c b then Some c else best"
  have "\<exists>m. fold ?step xs (Some b) = Some m \<and> m \<in> insert b (set xs) \<and> (\<forall>c \<in> insert b (set xs). le c m)"
    if "insert b (set xs) \<subseteq> set list" for xs b
    using that
  proof (induction xs arbitrary: b)
    case (Cons x xs)
    show ?case
    proof (cases "better x b")
      case True
      then have "le b x" using better [of x b] Cons.prems by auto
      with True Cons.IH [of x] Cons.prems show ?thesis by (auto intro: le_trans)
    next
      case False
      then have "le x b" using better [of x b] Cons.prems by auto
      with False Cons.IH [of b] Cons.prems show ?thesis by (auto intro: le_trans)
    qed
  qed (simp add: refl)
  then show ?thesis by (cases list) (force simp: reduce_best_def)+
qed

definition low_key where "low_key c = (version_key (parsed c), of_bool (operator c = Above) :: nat)"

definition high_key where "high_key c = (version_key (parsed c), of_bool (operator c \<noteq> Below) :: nat)"

lemma tightest_low_greatest:
  assumes "range_finite rng"
  shows "case tightest_low rng of None \<Rightarrow> filter is_lower (comparators rng) = []
    | Some m \<Rightarrow> m \<in> set (filter is_lower (comparators rng)) \<and>
        (\<forall>c \<in> set (filter is_lower (comparators rng)). low_key c \<le> low_key m)"
  unfolding tightest_low_def
proof (rule reduce_best_greatest)
  fix c b
  assume "c \<in> set (filter is_lower (comparators rng))" "b \<in> set (filter is_lower (comparators rng))"
  then have fin: "finite_version (parsed c)" "finite_version (parsed b)" and op: "is_lower b" "is_lower c"
    using assms by (auto simp: range_finite_def list_all_iff)
  show "if (let cmp = compareParsedModuleVersions (parsed c) (parsed b)
         in cmp = Positive \<or> cmp = Zero \<and> operator c = Above) then low_key b \<le> low_key c
       else low_key c \<le> low_key b"
    using op by (auto simp: compare_sign [OF fin] low_key_def is_lower_def Let_def)
qed auto

lemma tightest_high_least:
  assumes "range_finite rng"
  shows "case tightest_high rng of None \<Rightarrow> filter is_upper (comparators rng) = []
    | Some m \<Rightarrow> m \<in> set (filter is_upper (comparators rng)) \<and>
        (\<forall>c \<in> set (filter is_upper (comparators rng)). high_key m \<le> high_key c)"
  unfolding tightest_high_def
proof (rule reduce_best_greatest)
  fix c b
  assume "c \<in> set (filter is_upper (comparators rng))" "b \<in> set (filter is_upper (comparators rng))"
  then have fin: "finite_version (parsed c)" "finite_version (parsed b)" and op: "is_upper b" "is_upper c"
    using assms by (auto simp: range_finite_def list_all_iff)
  show "if (let cmp = compareParsedModuleVersions (parsed c) (parsed b)
         in cmp = Negative \<or> cmp = Zero \<and> operator c = Below) then high_key c \<le> high_key b
       else high_key b \<le> high_key c"
    using op by (auto simp: compare_sign [OF fin] high_key_def is_upper_def Let_def)
qed auto

text \<open>What an interval admits, and what a comparator asks, over the keys.\<close>

definition interval_admits :: "version_interval \<Rightarrow> module_version \<Rightarrow> bool" where
  "interval_admits interval v \<longleftrightarrow>
     (case min_bound interval of None \<Rightarrow> True
      | Some b \<Rightarrow> version_key (version_of_bound b) < version_key v \<or>
          (inclusive b \<and> version_key (version_of_bound b) = version_key v)) \<and>
     (case max_bound interval of None \<Rightarrow> True
      | Some b \<Rightarrow> version_key v < version_key (version_of_bound b) \<or>
          (inclusive b \<and> version_key (version_of_bound b) = version_key v))"

lemma comparator_holds_keys:
  assumes "finite_version v" "finite_version (parsed c)"
  shows "comparator_holds v c \<longleftrightarrow>
    (if is_lower c then low_key c \<le> (version_key v, 0) else (version_key v, 1) \<le> high_key c)"
  using assms
  by (cases "operator c") (auto simp: comparator_holds_def compare_sign low_key_def high_key_def is_lower_def)

lemma is_upper_iff: "is_upper c \<longleftrightarrow> \<not> is_lower c"
  by (cases "operator c") (auto simp: is_upper_def is_lower_def)

lemma rangeInterval_admits:
  assumes wf: "range_wf rng" and fin: "range_finite rng" "finite_version v"
  shows "interval_admits (rangeInterval rng) v \<longleftrightarrow> list_all (comparator_holds v) (comparators rng)"
proof -
  let ?cs = "set (comparators rng)"
  have cs: "finite_version (parsed c)" "version_of_bound \<lparr>bound_version = raw c, inclusive = i\<rparr> = parsed c"
    if "c \<in> ?cs" for c i
    using wf fin that by (auto simp: range_wf_def range_finite_def list_all_iff comparator_wf_def version_of_bound_def)
  have low: "(case min_bound (rangeInterval rng) of None \<Rightarrow> True
      | Some b \<Rightarrow> version_key (version_of_bound b) < version_key v \<or>
          (inclusive b \<and> version_key (version_of_bound b) = version_key v)) \<longleftrightarrow>
      (\<forall>c \<in> ?cs. is_lower c \<longrightarrow> low_key c \<le> (version_key v, 0))"
  proof (cases "tightest_low rng")
    case None
    with tightest_low_greatest [OF fin(1)] show ?thesis
      by (auto simp: rangeInterval_def filter_empty_conv)
  next
    case (Some m)
    with tightest_low_greatest [OF fin(1)] have m: "m \<in> ?cs" "is_lower m"
      and le: "\<And>c. c \<in> ?cs \<Longrightarrow> is_lower c \<Longrightarrow> low_key c \<le> low_key m" by auto
    have "(\<forall>c \<in> ?cs. is_lower c \<longrightarrow> low_key c \<le> (version_key v, 0)) \<longleftrightarrow> low_key m \<le> (version_key v, 0)"
      using m le order_trans by blast
    also have "\<dots> \<longleftrightarrow> version_key (parsed m) < version_key v \<or>
        (operator m = AtLeast \<and> version_key (parsed m) = version_key v)"
      using m(2) by (auto simp: low_key_def is_lower_def)
    finally show ?thesis by (simp add: Some rangeInterval_def cs [OF m(1)])
  qed
  have high: "(case max_bound (rangeInterval rng) of None \<Rightarrow> True
      | Some b \<Rightarrow> version_key v < version_key (version_of_bound b) \<or>
          (inclusive b \<and> version_key (version_of_bound b) = version_key v)) \<longleftrightarrow>
      (\<forall>c \<in> ?cs. is_upper c \<longrightarrow> (version_key v, 1) \<le> high_key c)"
  proof (cases "tightest_high rng")
    case None
    with tightest_high_least [OF fin(1)] show ?thesis
      by (auto simp: rangeInterval_def filter_empty_conv)
  next
    case (Some m)
    with tightest_high_least [OF fin(1)] have m: "m \<in> ?cs" "is_upper m"
      and le: "\<And>c. c \<in> ?cs \<Longrightarrow> is_upper c \<Longrightarrow> high_key m \<le> high_key c" by auto
    have "(\<forall>c \<in> ?cs. is_upper c \<longrightarrow> (version_key v, 1) \<le> high_key c) \<longleftrightarrow> (version_key v, 1) \<le> high_key m"
      using m le order_trans by blast
    also have "\<dots> \<longleftrightarrow> version_key v < version_key (parsed m) \<or>
        (operator m = AtMost \<and> version_key (parsed m) = version_key v)"
      using m(2) by (auto simp: high_key_def is_upper_def)
    finally show ?thesis by (simp add: Some rangeInterval_def cs [OF m(1)])
  qed
  have "list_all (comparator_holds v) (comparators rng) \<longleftrightarrow>
      (\<forall>c \<in> ?cs. is_lower c \<longrightarrow> low_key c \<le> (version_key v, 0)) \<and>
      (\<forall>c \<in> ?cs. is_upper c \<longrightarrow> (version_key v, 1) \<le> high_key c)"
    using cs(1) by (auto simp: list_all_iff comparator_holds_keys [OF fin(2)] is_upper_iff)
  then show ?thesis unfolding interval_admits_def low high by simp
qed

lemma reduce_best_mem: "reduce_best better list = Some m \<Longrightarrow> m \<in> set list"
  using reduce_best_greatest [of list better "\<lambda>_ _. True"] by simp

lemma bounds_mem:
  "lowerBound rng = Some c \<Longrightarrow> c \<in> set (comparators rng) \<and> is_lower c"
  "upperBound rng = Some c \<Longrightarrow> c \<in> set (comparators rng) \<and> is_upper c"
  unfolding lowerBound_def upperBound_def highest_def lowest_def by (drule reduce_best_mem; simp)+

lemma tightest_mem:
  "tightest_low rng = Some c \<Longrightarrow> c \<in> set (comparators rng)"
  "tightest_high rng = Some c \<Longrightarrow> c \<in> set (comparators rng)"
  unfolding tightest_low_def tightest_high_def by (drule reduce_best_mem; simp)+

lemma interval_admits_mono:
  assumes wf: "range_wf inner" "range_wf outer" and fin: "range_finite inner" "range_finite outer"
    and within: "rangeWithin inner outer" and v: "interval_admits (rangeInterval inner) v"
  shows "interval_admits (rangeInterval outer) v"
proof -
  have bound: "finite_version (version_of_bound b)"
    if "range_wf rng" "range_finite rng"
      "min_bound (rangeInterval rng) = Some b \<or> max_bound (rangeInterval rng) = Some b" for rng b
  proof -
    from that(3) obtain c i where c: "c \<in> set (comparators rng)" "b = \<lparr>bound_version = raw c, inclusive = i\<rparr>"
      by (auto simp: rangeInterval_def dest: tightest_mem)
    with that(1,2) show ?thesis
      by (auto simp: range_wf_def range_finite_def list_all_iff comparator_wf_def version_of_bound_def)
  qed
  note inner = bound [OF wf(1) fin(1)] and outer = bound [OF wf(2) fin(2)]
  show ?thesis
    using within v unfolding interval_admits_def rangeWithin_def Let_def
    by (auto simp: compare_sign inner outer split: option.splits)
qed

section \<open>Properties\<close>

text \<open>C26. A range that parses holds at least one comparator, its comparators are the terms of
  the text in order with none dropped or rewritten, and the version of each is the reading of
  the version it was written with.\<close>

theorem parseVersionRange_faithful:
  assumes "parseVersionRange given reading = Inr rng"
  shows "comparators rng \<noteq> [] \<and>
    map (\<lambda>c. spelling (operator c) @ raw c) (comparators rng) = range_terms (range_raw rng) \<and>
    (\<forall>c. c \<in> set (comparators rng) \<longrightarrow> parseModuleVersion (raw c) = Some (parsed c))"
  using parseVersionRange_Inr [OF assms] by (simp add: range_wf_def list_all_iff comparator_wf_def)

lemmas range_eval = parseVersionRange_def js_trim_def js_space_def Let_def parseTerm_def
  find_operator_def OPERATORS_def is_wildcard_def version_eval

theorem parseVersionRange_faithful_witness:
  "case parseVersionRange (Some (js '' >=0.0.1,<1.0.0 '')) NeedReading of
     Inl _ \<Rightarrow> False
   | Inr rng \<Rightarrow> map (\<lambda>c. spelling (operator c) @ raw c) (comparators rng) = [js ''>=0.0.1'', js ''<1.0.0'']"
proof -
  have "\<exists>rng. parseVersionRange (Some (js '' >=0.0.1,<1.0.0 '')) NeedReading = Inr rng \<and>
      range_raw rng = js ''>=0.0.1,<1.0.0''"
    by (simp add: range_eval)
  then obtain rng where rng: "parseVersionRange (Some (js '' >=0.0.1,<1.0.0 '')) NeedReading = Inr rng"
    and spelled: "range_raw rng = js ''>=0.0.1,<1.0.0''" by blast
  have "range_terms (js ''>=0.0.1,<1.0.0'') = [js ''>=0.0.1'', js ''<1.0.0'']"
    by (simp add: range_terms_def js_space_def)
  with rng parseVersionRange_faithful [OF rng] spelled show ?thesis by (simp del: js_Cons)
qed

text \<open>C25. The interval of a range admits exactly the versions the range accepts: the tightest
  bound on each side, the exclusive one winning a tie, and nothing is lost or approximated.\<close>

theorem rangeInterval_exact:
  assumes "range_wf rng" "range_finite rng" "parseModuleVersion version = Some v" "finite_version v"
  shows "rangeAccepts rng version \<longleftrightarrow> interval_admits (rangeInterval rng) v"
  using rangeInterval_admits [OF assms(1,2,4)] assms(3) by (simp add: rangeAccepts_def)

text \<open>Two versions and two ranges the witnesses use.\<close>

definition sample_version :: "nat \<Rightarrow> int \<Rightarrow> module_version" where
  "sample_version m e = \<lparr>major = Finite False m e, minor = Finite False 0 (-1074),
     patch = Finite False 0 (-1074), pre = None\<rparr>"

definition sample_narrow :: version_range where
  "sample_narrow = \<lparr>range_raw = js ''>=0.0.0 <1.0.0'', comparators =
     [\<lparr>operator = AtLeast, raw = js ''0.0.0'', parsed = sample_version 0 (-1074)\<rparr>,
      \<lparr>operator = Below, raw = js ''1.0.0'', parsed = sample_version 4503599627370496 (-52)\<rparr>]\<rparr>"

definition sample_wide :: version_range where
  "sample_wide = \<lparr>range_raw = js ''<=1.0.0'', comparators =
     [\<lparr>operator = AtMost, raw = js ''1.0.0'', parsed = sample_version 4503599627370496 (-52)\<rparr>]\<rparr>"

lemma sample_facts:
  "parseModuleVersion (js ''1.0.0'') = Some (sample_version 4503599627370496 (-52))"
  "parseModuleVersion (js ''0.0.0'') = Some (sample_version 0 (-1074))"
  "finite_version (sample_version m e)"
  by (simp_all add: version_eval sample_version_def finite_version_def)

lemma sample_ranges:
  "range_wf sample_narrow" "range_finite sample_narrow" "range_wf sample_wide" "range_finite sample_wide"
  by (simp_all add: sample_narrow_def sample_wide_def range_wf_def range_finite_def comparator_wf_def
      sample_facts del: js_Cons)

lemma sample_compare:
  "compareParsedModuleVersions (sample_version 0 (-1074)) (sample_version 4503599627370496 (-52)) = Negative"
  "compareParsedModuleVersions (sample_version 4503599627370496 (-52)) (sample_version 0 (-1074)) = Positive"
  "compareParsedModuleVersions (sample_version 0 (-1074)) (sample_version 0 (-1074)) = Zero"
  "compareParsedModuleVersions (sample_version 4503599627370496 (-52)) (sample_version 4503599627370496 (-52)) = Zero"
  by (simp_all add: sample_version_def compareParsedModuleVersions_def difference_def Let_def)

theorem rangeInterval_exact_witness:
  "rangeAccepts sample_narrow (js ''0.0.0'') \<and>
   interval_admits (rangeInterval sample_narrow) (sample_version 0 (-1074))"
proof -
  have "rangeAccepts sample_narrow (js ''0.0.0'')"
    by (simp add: rangeAccepts_def sample_facts sample_narrow_def comparator_holds_def sample_compare del: js_Cons)
  with rangeInterval_exact [OF sample_ranges(1,2) sample_facts(2,3)] show ?thesis by blast
qed

text \<open>A range that lies within another accepts no version the other refuses, so a need
  forwarded under \<open>rangeWithin\<close> never widens what was supplied.\<close>

theorem rangeWithin_sound:
  assumes "range_wf inner" "range_finite inner" "range_wf outer" "range_finite outer"
    and "rangeWithin inner outer"
    and "parseModuleVersion version = Some v" "finite_version v" "rangeAccepts inner version"
  shows "rangeAccepts outer version"
  using interval_admits_mono [OF assms(1,3,2,4,5), of v] assms(6,7,8)
    rangeInterval_admits [OF assms(1,2), of v] rangeInterval_admits [OF assms(3,4), of v]
  by (simp add: rangeAccepts_def)

theorem rangeWithin_sound_witness: "rangeAccepts sample_wide (js ''0.0.0'')"
proof (rule rangeWithin_sound [OF sample_ranges])
  show "rangeWithin sample_narrow sample_wide"
    by (simp add: rangeWithin_def rangeInterval_def tightest_low_def tightest_high_def reduce_best_def
        sample_narrow_def sample_wide_def is_lower_def is_upper_def version_of_bound_def sample_facts
        sample_compare Let_def del: js_Cons)
  show "parseModuleVersion (js ''0.0.0'') = Some (sample_version 0 (-1074))" by (rule sample_facts)
  show "finite_version (sample_version 0 (-1074))" by (rule sample_facts)
  show "rangeAccepts sample_narrow (js ''0.0.0'')"
    by (simp add: rangeAccepts_def sample_facts sample_narrow_def comparator_holds_def sample_compare del: js_Cons)
qed

text \<open>A range reported unsatisfiable accepts no version whose parts are finite.\<close>

theorem isUnsatisfiable_sound:
  assumes "range_finite rng" "isUnsatisfiable rng"
    and "parseModuleVersion version = Some v" "finite_version v"
  shows "\<not> rangeAccepts rng version"
proof
  assume "rangeAccepts rng version"
  with assms(3) have holds: "comparator_holds v c" if "c \<in> set (comparators rng)" for c
    using that by (simp add: rangeAccepts_def list_all_iff)
  from assms(2) obtain low high where b: "lowerBound rng = Some low" "upperBound rng = Some high"
    by (auto simp: isUnsatisfiable_def split: option.splits)
  note low = bounds_mem(1) [OF b(1)] and high = bounds_mem(2) [OF b(2)]
  have fin: "finite_version (parsed low)" "finite_version (parsed high)"
    using low high assms(1) by (simp_all add: range_finite_def list_all_iff)
  from holds [of low] holds [of high] low high
  have "low_key low \<le> (version_key v, 0)" "(version_key v, 1) \<le> high_key high"
    by (simp_all add: comparator_holds_keys [OF assms(4)] fin is_upper_iff)
  with assms(2) show False
    by (auto simp: isUnsatisfiable_def b compare_sign fin low_key_def high_key_def
        order_sign_def split: if_splits comparison.splits)
qed

definition sample_empty :: version_range where
  "sample_empty = \<lparr>range_raw = js ''>=1.0.0 <0.0.0'', comparators =
     [\<lparr>operator = AtLeast, raw = js ''1.0.0'', parsed = sample_version 4503599627370496 (-52)\<rparr>,
      \<lparr>operator = Below, raw = js ''0.0.0'', parsed = sample_version 0 (-1074)\<rparr>]\<rparr>"

theorem isUnsatisfiable_sound_witness: "\<not> rangeAccepts sample_empty (js ''1.0.0'')"
proof (rule isUnsatisfiable_sound [OF _ _ sample_facts(1,3)])
  show "range_finite sample_empty" by (simp add: sample_empty_def range_finite_def sample_facts)
  show "isUnsatisfiable sample_empty"
    by (simp add: isUnsatisfiable_def lowerBound_def upperBound_def highest_def lowest_def reduce_best_def
        sample_empty_def is_lower_def is_upper_def sample_compare)
qed

section \<open>Where the code says less than it promises\<close>

text \<open>An exclusive bound written after an inclusive one at the same version is not seen: the
  range accepts nothing and is not reported unsatisfiable.\<close>

definition tied_range :: version_range where
  "tied_range = \<lparr>range_raw = js ''>=1.0.0 >1.0.0 <=1.0.0'', comparators =
     [\<lparr>operator = AtLeast, raw = js ''1.0.0'', parsed = sample_version 4503599627370496 (-52)\<rparr>,
      \<lparr>operator = Above, raw = js ''1.0.0'', parsed = sample_version 4503599627370496 (-52)\<rparr>,
      \<lparr>operator = AtMost, raw = js ''1.0.0'', parsed = sample_version 4503599627370496 (-52)\<rparr>]\<rparr>"

lemma isUnsatisfiable_misses_a_tie:
  "\<not> isUnsatisfiable tied_range \<and> (\<forall>version. \<not> rangeAccepts tied_range version)"
proof (intro conjI allI)
  show "\<not> isUnsatisfiable tied_range"
    by (simp add: isUnsatisfiable_def lowerBound_def upperBound_def highest_def lowest_def reduce_best_def
        tied_range_def is_lower_def is_upper_def sample_compare)
  show "\<not> rangeAccepts tied_range version" for version
    by (auto simp: rangeAccepts_def tied_range_def comparator_holds_def Let_def split: option.splits)
qed

lemma parse_tied_range: "parseVersionRange (Some (js ''>=1.0.0 >1.0.0 <=1.0.0'')) RequiresReading = Inr tied_range"
  by (simp add: range_eval tied_range_def sample_version_def)

text \<open>The hint a caret is refused with may itself be refused.\<close>

lemma caret_hint_is_refused:
  "parseVersionRange (Some (js ''^1.0'')) RequiresReading = Inl (CaretOrTilde (js ''^1.0''), Some (js ''>=1.0'')) \<and>
   parseVersionRange (Some (js ''>=1.0'')) RequiresReading = Inl (NotThreePart (js ''>=1.0''), None)"
  by (simp add: range_eval)

end
