(* ===== verification/Cel_Serializer.thy ===== *)
theory Cel_Serializer
  imports Cel_Lexer
begin

text \<open>
  The tree back to source (\<open>cel/nodejs/src/serializer.ts\<close>): precedence alone places
  parentheses, every literal has one spelling, and a tree that has no source is refused with
  the first reason met in writing order.
\<close>

datatype serialize_error =
    UnparsedHole | NotAName jstring | NotAMember jstring | NotAField jstring
  | DoubleIsNaN | IntOutOfRange int | UintOutOfRange int

type_synonym written = "serialize_error + jstring"

section \<open>Precedence\<close>

definition PRECEDENCE_conditional :: nat where "PRECEDENCE_conditional = 0"
definition PRECEDENCE_or :: nat where "PRECEDENCE_or = 1"
definition PRECEDENCE_and :: nat where "PRECEDENCE_and = 2"
definition PRECEDENCE_relation :: nat where "PRECEDENCE_relation = 3"
definition PRECEDENCE_additive :: nat where "PRECEDENCE_additive = 4"
definition PRECEDENCE_multiplicative :: nat where "PRECEDENCE_multiplicative = 5"
definition PRECEDENCE_unary :: nat where "PRECEDENCE_unary = 6"
definition PRECEDENCE_postfix :: nat where "PRECEDENCE_postfix = 7"
definition PRECEDENCE_primary :: nat where "PRECEDENCE_primary = 8"

lemmas PRECEDENCE = PRECEDENCE_conditional_def PRECEDENCE_or_def PRECEDENCE_and_def
  PRECEDENCE_relation_def PRECEDENCE_additive_def PRECEDENCE_multiplicative_def
  PRECEDENCE_unary_def PRECEDENCE_postfix_def PRECEDENCE_primary_def

fun BINARY_PRECEDENCE :: "binary_op \<Rightarrow> nat" where
  "BINARY_PRECEDENCE OpOr = PRECEDENCE_or"
| "BINARY_PRECEDENCE OpAnd = PRECEDENCE_and"
| "BINARY_PRECEDENCE OpEq = PRECEDENCE_relation"
| "BINARY_PRECEDENCE OpNe = PRECEDENCE_relation"
| "BINARY_PRECEDENCE OpLt = PRECEDENCE_relation"
| "BINARY_PRECEDENCE OpLe = PRECEDENCE_relation"
| "BINARY_PRECEDENCE OpGt = PRECEDENCE_relation"
| "BINARY_PRECEDENCE OpGe = PRECEDENCE_relation"
| "BINARY_PRECEDENCE OpIn = PRECEDENCE_relation"
| "BINARY_PRECEDENCE OpAdd = PRECEDENCE_additive"
| "BINARY_PRECEDENCE OpSub = PRECEDENCE_additive"
| "BINARY_PRECEDENCE OpMul = PRECEDENCE_multiplicative"
| "BINARY_PRECEDENCE OpDiv = PRECEDENCE_multiplicative"
| "BINARY_PRECEDENCE OpMod = PRECEDENCE_multiplicative"

fun operator_text :: "binary_op \<Rightarrow> jstring" where
  "operator_text OpOr = js ''||''"
| "operator_text OpAnd = js ''&&''"
| "operator_text OpEq = js ''==''"
| "operator_text OpNe = js ''!=''"
| "operator_text OpLt = js ''<''"
| "operator_text OpLe = js ''<=''"
| "operator_text OpGt = js ''>''"
| "operator_text OpGe = js ''>=''"
| "operator_text OpIn = js ''in''"
| "operator_text OpAdd = js ''+''"
| "operator_text OpSub = js ''-''"
| "operator_text OpMul = js ''*''"
| "operator_text OpDiv = js ''/''"
| "operator_text OpMod = js ''%''"

fun unary_text :: "unary_op \<Rightarrow> jstring" where
  "unary_text OpNot = js ''!''"
| "unary_text OpMinus = js ''-''"

fun isNegativeNumber :: "literal \<Rightarrow> bool" where
  "isNegativeNumber (LInt v) = (v < 0)"
| "isNegativeNumber (LDouble v) = double_negative v"
| "isNegativeNumber _ = False"

text \<open>The precedence of a hole is never asked: writing the hole is refused first.\<close>

fun precedenceOf :: "node \<Rightarrow> nat" where
  "precedenceOf (NLiteral l _) = (if isNegativeNumber l then PRECEDENCE_unary else PRECEDENCE_primary)"
| "precedenceOf (NIdent _ _ _) = PRECEDENCE_primary"
| "precedenceOf (NList _ _) = PRECEDENCE_primary"
| "precedenceOf (NMap _ _) = PRECEDENCE_primary"
| "precedenceOf (NSelect _ _ _ _ _ _) = PRECEDENCE_postfix"
| "precedenceOf (NIndex _ _ _ _) = PRECEDENCE_postfix"
| "precedenceOf (NCall _ _ _ _) = PRECEDENCE_postfix"
| "precedenceOf (NReceiverCall _ _ _ _ _) = PRECEDENCE_postfix"
| "precedenceOf (NQCall _ _ _ _ _ _) = PRECEDENCE_postfix"
| "precedenceOf (NUnary _ _ _) = PRECEDENCE_unary"
| "precedenceOf (NBinary operator _ _ _) = BINARY_PRECEDENCE operator"
| "precedenceOf (NConditional _ _ _ _) = PRECEDENCE_conditional"
| "precedenceOf (NUnparsed _) = PRECEDENCE_primary"

section \<open>Names\<close>

definition write_name :: "jstring \<Rightarrow> written" where
  "write_name text =
     (if \<not> isIdentifierSpelling text \<or> isReservedWord text then Inl (NotAName text) else Inr text)"

definition memberName :: "jstring \<Rightarrow> written" where
  "memberName text = (if \<not> isIdentifierSpelling text then Inl (NotAMember text) else Inr text)"

definition fieldName :: "jstring \<Rightarrow> bool \<Rightarrow> written" where
  "fieldName text quoted =
     (if \<not> quoted \<and> isIdentifierSpelling text then Inr text
      else if 96 \<in> set text \<or> 10 \<in> set text \<or> 13 \<in> set text \<or> text = [] then Inl (NotAField text)
      else Inr ([96] @ text @ [96]))"

section \<open>Literals\<close>

definition int_text :: "int \<Rightarrow> jstring" where
  "int_text v = (if v < 0 then 45 # digits_of (nat (- v)) else digits_of (nat v))"

definition writeDouble :: "double \<Rightarrow> written" where
  "writeDouble value =
     (if value = NaN then Inl DoubleIsNaN
      else if value = Infinity False then Inr (js ''1e999'')
      else if value = Infinity True then Inr (js ''-1e999'')
      else
        (let sign = (if double_negative value then js ''-'' else []);
             text = string_of_double (double_abs value)
         in Inr (sign @ (if 46 \<in> set text \<or> 101 \<in> set text then text else text @ js ''.0''))))"

definition hex_digit :: "nat \<Rightarrow> code_unit" where
  "hex_digit d = (if d < 10 then 48 + d else 87 + d)"

text \<open>\<open>\xNN\<close>, for a code below 256.\<close>

definition hex_escape :: "nat \<Rightarrow> jstring" where
  "hex_escape c = [92, 120, hex_digit (c div 16), hex_digit (c mod 16)]"

text \<open>Written per code unit: both units of a character outside the basic plane are above
  \<open>0x7f\<close>, and so written as they are.\<close>

definition string_unit :: "code_unit \<Rightarrow> jstring" where
  "string_unit c =
     (if c = 92 then [92, 92]
      else if c = 34 then [92, 34]
      else if c = 10 then [92, 110]
      else if c = 13 then [92, 114]
      else if c = 9 then [92, 116]
      else if c < 0x20 \<or> c = 0x7f then hex_escape c
      else [c])"

definition writeString :: "jstring \<Rightarrow> jstring" where
  "writeString value = [34] @ concat (map string_unit value) @ [34]"

definition byte_unit :: "nat \<Rightarrow> jstring" where
  "byte_unit b =
     (if b = 0x5c then [92, 92]
      else if b = 0x22 then [92, 34]
      else if 0x20 \<le> b \<and> b \<le> 0x7e then [b]
      else hex_escape b)"

definition writeBytes :: "nat list \<Rightarrow> jstring" where
  "writeBytes value = [98, 34] @ concat (map byte_unit value) @ [34]"

fun writeLiteral :: "literal \<Rightarrow> written" where
  "writeLiteral (LInt v) = (if v < MIN_INT \<or> v > MAX_INT then Inl (IntOutOfRange v) else Inr (int_text v))"
| "writeLiteral (LUint v) =
     (if v < 0 \<or> v > MAX_UINT then Inl (UintOutOfRange v) else Inr (int_text v @ js ''u''))"
| "writeLiteral (LDouble v) = writeDouble v"
| "writeLiteral (LString v) = Inr (writeString v)"
| "writeLiteral (LBytes v) = Inr (writeBytes v)"
| "writeLiteral (LBool b) = Inr (if b then js ''true'' else js ''false'')"
| "writeLiteral LNull = Inr (js ''null'')"

text \<open>The literals the reader folds a preceding minus into.\<close>

fun isFoldedUnderMinus :: "literal \<Rightarrow> bool" where
  "isFoldedUnderMinus (LInt v) = (\<not> isNegativeNumber (LInt v))"
| "isFoldedUnderMinus (LDouble v) = (\<not> isNegativeNumber (LDouble v))"
| "isFoldedUnderMinus _ = False"

section \<open>Nodes\<close>

text \<open>
  A node for a slot that binds at least as tightly as \<open>needs\<close>, \<open>text\<close> being what
  \<open>writeNode\<close> answers for it.
\<close>

definition write_in :: "node \<Rightarrow> nat \<Rightarrow> bool \<Rightarrow> written \<Rightarrow> written" where
  "write_in node needs underMinus text =
     (case node of
        NLiteral l _ \<Rightarrow>
          if underMinus \<and> isFoldedUnderMinus l then pieces [Inr [40], writeLiteral l, Inr [41]]
          else if precedenceOf node < needs then pieces [Inr [40], text, Inr [41]] else text
      | _ \<Rightarrow> if precedenceOf node < needs then pieces [Inr [40], text, Inr [41]] else text)"

definition mark :: "bool \<Rightarrow> written" where
  "mark optional = Inr (if optional then js ''?'' else [])"

definition comma_joined :: "written list \<Rightarrow> written" where
  "comma_joined ws = pieces (separated (Inr (js '', '')) ws)"

fun writeNode :: "node \<Rightarrow> bool \<Rightarrow> written" where
  "writeNode (NLiteral l _) _ = writeLiteral l"
| "writeNode (NIdent text absolute _) _ = pieces [Inr (if absolute then js ''.'' else []), write_name text]"
| "writeNode (NList elements _) _ =
     pieces [Inr (js ''[''),
       comma_joined (map (\<lambda>(value, optional).
         pieces [mark optional, write_in value PRECEDENCE_conditional False (writeNode value False)]) elements),
       Inr (js '']'')]"
| "writeNode (NMap entries _) _ =
     pieces [Inr (js ''{''),
       comma_joined (map (\<lambda>(key, value, optional).
         pieces [mark optional, write_in key PRECEDENCE_conditional False (writeNode key False), Inr (js '': ''),
           write_in value PRECEDENCE_conditional False (writeNode value False)]) entries),
       Inr (js ''}'')]"
| "writeNode (NSelect operand field _ optional quoted _) underMinus =
     pieces [write_in operand PRECEDENCE_postfix underMinus (writeNode operand underMinus), Inr (js ''.''),
       mark optional, fieldName field quoted]"
| "writeNode (NIndex operand index optional _) underMinus =
     pieces [write_in operand PRECEDENCE_postfix underMinus (writeNode operand underMinus), Inr (js ''[''),
       mark optional, write_in index PRECEDENCE_conditional False (writeNode index False), Inr (js '']'')]"
| "writeNode (NCall text _ args _) _ =
     pieces [write_name text, Inr (js ''(''),
       comma_joined (map (\<lambda>a. write_in a PRECEDENCE_conditional False (writeNode a False)) args), Inr (js '')'')]"
| "writeNode (NReceiverCall receiver text _ args _) underMinus =
     pieces [write_in receiver PRECEDENCE_postfix underMinus (writeNode receiver underMinus), Inr (js ''.''),
       memberName text, Inr (js ''(''),
       comma_joined (map (\<lambda>a. write_in a PRECEDENCE_conditional False (writeNode a False)) args), Inr (js '')'')]"
| "writeNode (NQCall namespace _ text _ args _) _ =
     pieces [write_name namespace, Inr (js ''.''), memberName text, Inr (js ''(''),
       comma_joined (map (\<lambda>a. write_in a PRECEDENCE_conditional False (writeNode a False)) args), Inr (js '')'')]"
| "writeNode (NUnary operator operand _) _ =
     pieces [Inr (unary_text operator),
       write_in operand PRECEDENCE_unary (operator = OpMinus) (writeNode operand (operator = OpMinus))]"
| "writeNode (NBinary operator left right _) _ =
     pieces [write_in left (BINARY_PRECEDENCE operator) False (writeNode left False),
       Inr (js '' ''), Inr (operator_text operator), Inr (js '' ''),
       write_in right (BINARY_PRECEDENCE operator + 1) False (writeNode right False)]"
| "writeNode (NConditional condition whenTrue whenFalse _) _ =
     pieces [write_in condition PRECEDENCE_or False (writeNode condition False), Inr (js '' ? ''),
       write_in whenTrue PRECEDENCE_conditional False (writeNode whenTrue False), Inr (js '' : ''),
       write_in whenFalse PRECEDENCE_conditional False (writeNode whenFalse False)]"
| "writeNode (NUnparsed _) _ = Inl UnparsedHole"

definition serializeTree :: "node \<Rightarrow> written" where
  "serializeTree root_node = write_in root_node PRECEDENCE_conditional False (writeNode root_node False)"

end
