(* ===== verification/Cel_Reading.thy ===== *)
theory Cel_Reading
  imports Cel_Serializer
begin

text \<open>
  What the lexer reads of what the serializer writes: the tokens of a tree's text, one list of
  token kinds per node, over which the parser's half of the round trip is stated.
\<close>

section \<open>Reading a text before another\<close>

text \<open>A text after which a word, a number or a literal has ended.\<close>

definition bounded :: "jstring \<Rightarrow> bool" where
  "bounded r \<longleftrightarrow> r = [] \<or> (\<not> isIdentPart (hd r) \<and> hd r \<noteq> 39 \<and> hd r \<noteq> 34 \<and>
     (hd r = 46 \<longrightarrow> tl r \<noteq> [] \<and> \<not> isDigit (hd (tl r))))"

definition kinds_from :: "nat \<Rightarrow> jstring \<Rightarrow> token_kind list" where
  "kinds_from pos s = map kind (fst (tokens_from pos s))"

text \<open>Before \<open>r\<close>, the text \<open>s\<close> is the tokens \<open>ks\<close> and nothing else changes.\<close>

definition reads :: "jstring \<Rightarrow> token_kind list \<Rightarrow> jstring \<Rightarrow> bool" where
  "reads s ks r \<longleftrightarrow> (\<forall>pos. \<exists>pos'. kinds_from pos (s @ r) = ks @ kinds_from pos' r \<and>
     snd (tokens_from pos (s @ r)) = snd (tokens_from pos' r))"

lemma reads_Nil [simp]: "reads [] [] r"
  by (auto simp: reads_def)

lemma reads_append: "reads s ks (t @ r) \<Longrightarrow> reads t ls r \<Longrightarrow> reads (s @ t) (ks @ ls) r"
  unfolding reads_def by (metis append.assoc)

lemma reads_token:
  assumes "s \<noteq> []" "\<not> isSpace (hd s)" "hd s = 47 \<Longrightarrow> tl (s @ r) = [] \<or> hd (tl (s @ r)) \<noteq> 47"
    and "\<And>pos. \<exists>t. next_token pos (s @ r) = Inr (t, r) \<and> kind t = k"
  shows "reads s [k] r"
  unfolding reads_def
proof
  fix pos
  obtain t where t: "next_token pos (s @ r) = Inr (t, r)" "kind t = k" using assms(4) by blast
  have "skipIgnored pos (s @ r) = (pos, s @ r)"
    using assms(1-3) by (subst skipIgnored.simps) auto
  then have "tokens_from pos (s @ r) = (t # fst (tokens_from (tend t) r), snd (tokens_from (tend t) r))"
    using assms(1) t by (subst tokens_from.simps) (simp add: case_prod_unfold Let_def)
  with t(2) show "\<exists>pos'. kinds_from pos (s @ r) = [k] @ kinds_from pos' r \<and>
      snd (tokens_from pos (s @ r)) = snd (tokens_from pos' r)"
    by (intro exI [of _ "tend t"]) (simp add: kinds_from_def)
qed

lemma reads_space: "reads [32] [] r"
  unfolding reads_def
proof
  fix pos
  have "skipIgnored pos (32 # r) = skipIgnored (pos + 1) r"
    by (subst skipIgnored.simps) (simp add: isSpace_def)
  then have "tokens_from pos (32 # r) = tokens_from (pos + 1) r"
    by (subst (1 2) tokens_from.simps) simp
  then show "\<exists>pos'. kinds_from pos ([32] @ r) = [] @ kinds_from pos' r \<and>
      snd (tokens_from pos ([32] @ r)) = snd (tokens_from pos' r)"
    by (intro exI [of _ "pos + 1"]) (simp add: kinds_from_def)
qed

section \<open>Punctuation, words and quoted names\<close>

lemma lexed_ex [simp]: "\<exists>t. lexed k a b r = Inr (t, r) \<and> kind t = k"
  by (simp add: lexed_def)

definition single_punct :: "code_unit \<Rightarrow> jstring \<Rightarrow> bool" where
  "single_punct c r \<longleftrightarrow> (c \<in> set (js ''()[]{},:?+-*%'')) \<or>
     (c = 33 \<and> (r = [] \<or> hd r \<noteq> 61)) \<or> (c = 46 \<and> (r = [] \<or> \<not> isDigit (hd r))) \<or>
     (c = 47 \<and> (r = [] \<or> hd r \<noteq> 47)) \<or> ((c = 60 \<or> c = 62) \<and> (r = [] \<or> hd r \<noteq> 61))"

lemma reads_punct: "single_punct c r \<Longrightarrow> reads [c] [KPunct [c]] r"
proof (rule reads_token)
  assume c: "single_punct c r"
  then show "\<not> isSpace (hd [c])" by (auto simp: single_punct_def isSpace_def)
  from c show "tl ([c] @ r) = [] \<or> hd (tl ([c] @ r)) \<noteq> 47" if "hd [c] = 47"
    using that by (auto simp: single_punct_def)
  fix pos
  have "take 2 (c # r) \<notin> {js ''=='', js ''!='', js ''<='', js ''>='', js ''&&'', js ''||''}"
    using c by (cases r) (auto simp: single_punct_def)
  then have "readPunctuation pos (c # r) = lexed (KPunct [c]) pos (pos + 1) r"
    using c by (auto simp: readPunctuation_def single_punct_def PUNCTUATION_def Let_def)
  moreover have "next_token pos (c # r) = readPunctuation pos (c # r)"
  proof -
    have "c \<in> {40, 41, 91, 93, 123, 125, 44, 58, 63, 43, 45, 42, 37, 33, 46, 47, 60, 62}"
      using c by (auto simp: single_punct_def)
    then have "c \<notin> {39, 34, 96} \<and> \<not> isIdentStart c \<and> \<not> isDigit c"
      by (elim insertE emptyE) (simp_all add: isIdentStart_def isDigit_def)
    moreover have "\<not> (c = 46 \<and> r \<noteq> [] \<and> isDigit (hd r))" using c by (auto simp: single_punct_def)
    ultimately show ?thesis by (auto simp: next_token_def Let_def)
  qed
  ultimately show "\<exists>t. next_token pos ([c] @ r) = Inr (t, r) \<and> kind t = KPunct [c]" by simp
qed simp

lemma reads_pair:
  assumes "s \<in> {js ''=='', js ''!='', js ''<='', js ''>='', js ''&&'', js ''||''}"
  shows "reads s [KPunct s] r"
proof (rule reads_token)
  fix pos
  obtain a b where s: "s = [a, b]" using assms by auto
  have "readPunctuation pos (s @ r) = lexed (KPunct s) pos (pos + 2) r"
    using assms by (simp add: s readPunctuation_def Let_def)
  moreover have "next_token pos (s @ r) = readPunctuation pos (s @ r)"
    using assms by (auto simp: next_token_def isIdentStart_def isDigit_def Let_def)
  ultimately show "\<exists>t. next_token pos (s @ r) = Inr (t, r) \<and> kind t = KPunct s" by simp
qed (use assms in \<open>auto simp: isSpace_def\<close>)

text \<open>The kind a word has where the lexer reads it.\<close>

definition word_kind :: "jstring \<Rightarrow> token_kind" where
  "word_kind text = (case wordReading text of
       WordOperator \<Rightarrow> KKeyword text | WordRefused \<Rightarrow> KReserved text | _ \<Rightarrow> KIdent text)"

lemma takeWhile_word:
  assumes "list_all p s" "r = [] \<or> \<not> p (hd r)"
  shows "takeWhile p (s @ r) = s" "dropWhile p (s @ r) = r"
  using assms by (induction s; cases r; auto)+

lemma identifier_parts:
  "isIdentifierSpelling text \<Longrightarrow> text \<noteq> [] \<and> isIdentStart (hd text) \<and> list_all isIdentPart text"
  by (cases "text") (auto simp: isIdentPart_def)

lemma identStart_facts:
  "isIdentStart c \<Longrightarrow> \<not> isSpace c \<and> c \<noteq> 47 \<and> c \<noteq> 39 \<and> c \<noteq> 34 \<and> c \<noteq> 61 \<and> \<not> isDigit c"
  by (auto simp: isIdentStart_def isSpace_def isDigit_def)

lemma reads_word:
  assumes "isIdentifierSpelling text" "bounded r"
  shows "reads text [word_kind text] r"
proof (rule reads_token)
  note parts = identifier_parts [OF assms(1)] and start = identStart_facts [of "hd text"]
  show "text \<noteq> []" "\<not> isSpace (hd text)" using parts start by auto
  show "tl (text @ r) = [] \<or> hd (tl (text @ r)) \<noteq> 47" if "hd text = 47" using that parts start by simp
  fix pos
  have r: "r = [] \<or> \<not> isIdentPart (hd r)" using assms(2) by (auto simp: bounded_def)
  have "list_all isIdentPart text" using parts by simp
  note word = takeWhile_word [OF this r]
  have "\<exists>t. readWord pos (text @ r) = Inr (t, r) \<and> kind t = word_kind text"
    using assms(2) unfolding readWord_def word Let_def bounded_def
    by (auto simp: word_kind_def split: option.split word_reading.split)
  moreover have "next_token pos (text @ r) = readWord pos (text @ r)"
    using parts start by (simp add: next_token_def Let_def)
  ultimately show "\<exists>t. next_token pos (text @ r) = Inr (t, r) \<and> kind t = word_kind text" by simp
qed

lemma reads_quoted:
  assumes "96 \<notin> set f" "10 \<notin> set f" "13 \<notin> set f"
  shows "reads ([96] @ f @ [96]) [KQuotedIdent f] r"
proof (rule reads_token)
  fix pos
  have f: "list_all (\<lambda>c. c \<noteq> 96) f" using assms(1) by (auto simp: list_all_iff)
  have w: "takeWhile (\<lambda>c. c \<noteq> 96) (f @ 96 # r) = f" "dropWhile (\<lambda>c. c \<noteq> 96) (f @ 96 # r) = 96 # r"
    using takeWhile_word [OF f, of "96 # r"] by simp_all
  have "\<not> list_ex isLineBreak f" using assms by (auto simp: list_ex_iff isLineBreak_def)
  then show "\<exists>t. next_token pos (([96] @ f @ [96]) @ r) = Inr (t, r) \<and> kind t = KQuotedIdent f"
    by (simp add: next_token_def readQuotedIdentifier_def w Let_def isIdentStart_def isDigit_def)
qed (simp_all add: isSpace_def)

section \<open>Numbers\<close>

lemma digit_facts: "isDigit c \<Longrightarrow> isIdentPart c \<and> c \<noteq> 46 \<and> c \<noteq> 39 \<and> c \<noteq> 34 \<and> c \<noteq> 47 \<and> c \<noteq> 61 \<and> c \<noteq> 101 \<and> c \<noteq> 69 \<and>
   \<not> isSpace c \<and> \<not> isIdentStart c \<and> c \<noteq> 120 \<and> c \<noteq> 88 \<and> c \<noteq> 43 \<and> c \<noteq> 45"
  by (auto simp: isIdentPart_def isDigit_def isSpace_def isIdentStart_def)

lemma bounded_facts:
  assumes "bounded r" "r \<noteq> []"
  shows "\<not> isDigit (hd r)" "hd r \<noteq> 101" "hd r \<noteq> 69" "hd r \<noteq> 117" "hd r \<noteq> 85" "hd r \<noteq> 120" "hd r \<noteq> 88"
    "\<not> isIdentPart (hd r)" "hd r = 46 \<Longrightarrow> tl r \<noteq> [] \<and> \<not> isDigit (hd (tl r))"
proof -
  have n: "\<not> isIdentPart (hd r)" using assms by (simp add: bounded_def)
  then show "\<not> isIdentPart (hd r)" "\<not> isDigit (hd r)" by (auto simp: isIdentPart_def)
  show "hd r \<noteq> 101" "hd r \<noteq> 69" "hd r \<noteq> 117" "hd r \<noteq> 85" "hd r \<noteq> 120" "hd r \<noteq> 88"
    using n by (auto simp: isIdentPart_def isIdentStart_def)
  show "hd r = 46 \<Longrightarrow> tl r \<noteq> [] \<and> \<not> isDigit (hd (tl r))" using assms by (simp add: bounded_def)
qed

lemma digits_then:
  assumes "list_all isDigit ds" "r = [] \<or> \<not> isDigit (hd r)"
  shows "takeWhile isDigit (ds @ r) = ds" "dropWhile isDigit (ds @ r) = r"
  using takeWhile_word [OF assms] by auto

text \<open>A whole number before a text that is bounded once a unit mark is passed.\<close>

lemma decimal_digits_whole:
  assumes "digit_text ds" "r = [] \<or> \<not> isDigit (hd r)" "r \<noteq> [] \<Longrightarrow> hd r \<noteq> 101 \<and> hd r \<noteq> 69"
    and "r \<noteq> [] \<Longrightarrow> hd r = 46 \<Longrightarrow> tl r \<noteq> [] \<and> \<not> isDigit (hd (tl r))"
  shows "decimal_digits (ds @ r) = (ds, False, r)"
proof -
  have d: "takeWhile isDigit (ds @ r) = ds" "dropWhile isDigit (ds @ r) = r"
    using digits_then [of ds r] assms(1,2) by (simp_all add: digit_text_def)
  have np: "(r \<noteq> [] \<and> hd r = 46 \<and> tl r \<noteq> [] \<and> isDigit (hd (tl r))) = False" using assms(4) by blast
  have nr: "(r \<noteq> [] \<and> (hd r = 101 \<or> hd r = 69) \<and> t) = False" for t using assms(3) by blast
  show ?thesis unfolding decimal_digits_def Let_def d np if_False nr by simp
qed

lemma radix_value_digits: "list_all isDigit ds \<Longrightarrow> radix_value 10 ds = value_of ds"
proof -
  have "list_all isDigit ds \<Longrightarrow> foldl (\<lambda>v c. 10 * v + hex_digit_value c) a ds = foldl (\<lambda>v c. 10 * v + (c - 48)) a ds" for a
    by (induction ds arbitrary: a) (auto simp: hex_digit_value_def isDigit_def)
  then show "list_all isDigit ds \<Longrightarrow> radix_value 10 ds = value_of ds"
    by (simp add: radix_value_def value_of_def)
qed

lemma digits_of_text [simp]: "digit_text (digits_of n)"
  by (simp add: digit_text_def digits_of_digits)

lemma digit_text_hd: "digit_text ds \<Longrightarrow> isDigit (hd ds)"
  by (cases ds) (auto simp: digit_text_def)

text \<open>The number of a text beginning with a digit is read as a decimal, not a hexadecimal.\<close>

lemma next_token_number:
  assumes ds: "digit_text ds" and r: "r \<noteq> [] \<Longrightarrow> hd r \<noteq> 120 \<and> hd r \<noteq> 88"
    and dd: "decimal_digits (ds @ r) = (digits, is_double, rest)"
  shows "next_token pos (ds @ r) = finish_number pos (pos + length digits) digits is_double 10 rest"
proof -
  obtain d ds' where d: "ds = d # ds'" "isDigit d" "list_all isDigit ds'"
    using ds by (cases ds) (auto simp: digit_text_def)
  have "\<not> (tl (ds @ r) \<noteq> [] \<and> (hd (tl (ds @ r)) = 120 \<or> hd (tl (ds @ r)) = 88))"
    using d r digit_facts by (cases ds') auto
  then have "\<not> (hd (ds @ r) = 48 \<and> tl (ds @ r) \<noteq> [] \<and> (hd (tl (ds @ r)) = 120 \<or> hd (tl (ds @ r)) = 88))"
    by blast
  then have "readNumber pos (ds @ r) = finish_number pos (pos + length digits) digits is_double 10 rest"
    unfolding readNumber_def by (simp only: if_not_P if_False dd prod.case Let_def)
  then show ?thesis using digit_facts [OF d(2)] d by (simp add: next_token_def Let_def)
qed

lemma reads_number_token:
  assumes ds: "digit_text ds" and "\<And>pos. \<exists>t. next_token pos ((ds @ u) @ r) = Inr (t, r) \<and> kind t = k"
  shows "reads (ds @ u) [k] r"
proof (rule reads_token [OF _ _ _ assms(2)])
  have "isDigit (hd (ds @ u))" "ds @ u \<noteq> []" using ds digit_text_hd by (auto simp: digit_text_def)
  with digit_facts show "ds @ u \<noteq> []" "\<not> isSpace (hd (ds @ u))"
    "hd (ds @ u) = 47 \<Longrightarrow> tl ((ds @ u) @ r) = [] \<or> hd (tl ((ds @ u) @ r)) \<noteq> 47" by blast+
qed

lemma reads_int:
  assumes "bounded r" "int n \<le> - MIN_INT"
  shows "reads (digits_of n) [KInt (int n) (int n = - MIN_INT)] r"
proof -
  have "decimal_digits (digits_of n @ r) = (digits_of n, False, r)"
    by (rule decimal_digits_whole) (use assms(1) bounded_facts in \<open>auto\<close>)
  note next_token_number [OF digits_of_text _ this]
  then have "\<exists>t. next_token pos ((digits_of n @ []) @ r) = Inr (t, r) \<and> kind t = KInt (int n) (int n = - MIN_INT)" for pos
    using assms bounded_facts [OF assms(1)]
    by (auto simp: finish_number_def radix_value_digits digits_of_digits Let_def)
  from reads_number_token [OF digits_of_text this] show ?thesis by simp
qed

lemma reads_uint:
  assumes "bounded r" "int n \<le> MAX_UINT"
  shows "reads (digits_of n @ [117]) [KUint (int n)] r"
proof -
  have "decimal_digits (digits_of n @ 117 # r) = (digits_of n, False, 117 # r)"
    by (rule decimal_digits_whole) (simp_all add: isDigit_def)
  note next_token_number [OF digits_of_text _ this]
  then have "\<exists>t. next_token pos ((digits_of n @ [117]) @ r) = Inr (t, r) \<and> kind t = KUint (int n)" for pos
    using assms bounded_facts [OF assms(1)]
    by (auto simp: finish_number_def radix_value_digits digits_of_digits Let_def)
  from reads_number_token [OF digits_of_text this] show ?thesis .
qed

text \<open>A double: a text of digits with a fraction, an exponent, or both.\<close>

lemma digits_bounded:
  assumes "list_all isDigit ds" "bounded r"
  shows "takeWhile isDigit (ds @ r) = ds" "dropWhile isDigit (ds @ r) = r"
proof -
  have "r = [] \<or> \<not> isDigit (hd r)" using bounded_facts(1) [OF assms(2)] by blast
  from digits_then [OF assms(1) this] show "takeWhile isDigit (ds @ r) = ds" "dropWhile isDigit (ds @ r) = r" .
qed

lemma decimal_digits_fraction:
  assumes ws: "digit_text ws" and fs: "digit_text fs" and r: "bounded r"
  shows "decimal_digits (ws @ 46 # fs @ r) = (ws @ 46 # fs, True, r)"
proof -
  have w: "takeWhile isDigit (ws @ 46 # fs @ r) = ws" "dropWhile isDigit (ws @ 46 # fs @ r) = 46 # fs @ r"
    using digits_then [of ws "46 # fs @ r"] ws by (simp_all add: digit_text_def isDigit_def)
  have f: "takeWhile isDigit (fs @ r) = fs" "dropWhile isDigit (fs @ r) = r"
    using digits_bounded fs r by (simp_all add: digit_text_def)
  have p: "46 # fs @ r \<noteq> [] \<and> hd (46 # fs @ r) = 46 \<and> tl (46 # fs @ r) \<noteq> [] \<and> isDigit (hd (tl (46 # fs @ r)))"
    using fs by (cases fs) (simp_all add: digit_text_def)
  have nr: "(r \<noteq> [] \<and> (hd r = 101 \<or> hd r = 69) \<and> x) = False" for x
    using bounded_facts(2,3) [OF r] by blast
  show ?thesis
    unfolding decimal_digits_def Let_def w
    unfolding eqTrueI [OF p] if_True
    unfolding list.sel f nr by simp
qed

lemma exponent_text_digits:
  obtains c d ds where "exponent_text e = 101 # c # d # ds" "c = 43 \<or> c = 45" "isDigit d" "list_all isDigit (d # ds)"
proof -
  have "digit_text (digits_of (nat \<bar>e\<bar>))" by simp
  then obtain d ds where "digits_of (nat \<bar>e\<bar>) = d # ds" "isDigit d" "list_all isDigit (d # ds)"
    by (cases "digits_of (nat \<bar>e\<bar>)") (auto simp: digit_text_def)
  then show ?thesis using that by (cases "e < 0") (auto simp: exponent_text_def)
qed

lemma decimal_digits_raised:
  assumes ws: "digit_text ws" and r: "bounded r"
  shows "decimal_digits (ws @ exponent_text e @ r) = (ws @ exponent_text e, True, r)"
proof -
  obtain c d ds where e: "exponent_text e = 101 # c # d # ds" "c = 43 \<or> c = 45" "isDigit d" "list_all isDigit (d # ds)"
    by (rule exponent_text_digits)
  have w: "takeWhile isDigit (ws @ 101 # c # d # ds @ r) = ws"
      "dropWhile isDigit (ws @ 101 # c # d # ds @ r) = 101 # c # d # ds @ r"
    using digits_then [of ws "101 # c # d # ds @ r"] ws by (simp_all add: digit_text_def isDigit_def)
  have f: "takeWhile isDigit (ds @ r) = ds" "dropWhile isDigit (ds @ r) = r"
    using digits_bounded e r by simp_all
  show ?thesis unfolding decimal_digits_def e append_Cons w Let_def using e by (auto simp: f)
qed

lemma decimal_digits_fraction_raised:
  assumes ws: "digit_text ws" and fs: "digit_text fs" and r: "bounded r"
  shows "decimal_digits (ws @ 46 # fs @ exponent_text e @ r) = (ws @ 46 # fs @ exponent_text e, True, r)"
proof -
  obtain c d ds where e: "exponent_text e = 101 # c # d # ds" "c = 43 \<or> c = 45" "isDigit d" "list_all isDigit (d # ds)"
    by (rule exponent_text_digits)
  let ?u = "101 # c # d # ds @ r"
  have w: "takeWhile isDigit (ws @ 46 # fs @ ?u) = ws" "dropWhile isDigit (ws @ 46 # fs @ ?u) = 46 # fs @ ?u"
    using digits_then [of ws "46 # fs @ ?u"] ws by (simp_all add: digit_text_def isDigit_def)
  have g: "takeWhile isDigit (fs @ ?u) = fs" "dropWhile isDigit (fs @ ?u) = ?u"
    using digits_then [of fs ?u] fs by (simp_all add: digit_text_def isDigit_def)
  have f: "takeWhile isDigit (ds @ r) = ds" "dropWhile isDigit (ds @ r) = r"
    using digits_bounded e r by simp_all
  have p: "46 # fs @ ?u \<noteq> [] \<and> hd (46 # fs @ ?u) = 46 \<and> tl (46 # fs @ ?u) \<noteq> [] \<and> isDigit (hd (tl (46 # fs @ ?u)))"
    using fs by (cases fs) (simp_all add: digit_text_def)
  show ?thesis
    unfolding decimal_digits_def e append_Cons append_assoc Let_def w
    unfolding eqTrueI [OF p] if_True
    unfolding list.sel g
    using e by (auto simp: f)
qed

text \<open>The texts that are doubles: what the lexer and the host read of them.\<close>

definition double_text :: "jstring \<Rightarrow> double \<Rightarrow> bool" where
  "double_text t d \<longleftrightarrow> number_of_text t = d \<and> (\<exists>ws u. t = ws @ u \<and> digit_text ws \<and> (u = [] \<or> hd u = 46 \<or> hd u = 101)) \<and>
     (\<forall>r. bounded r \<longrightarrow> decimal_digits (t @ r) = (t, True, r))"

lemma reads_double:
  assumes t: "double_text t d" and r: "bounded r"
  shows "reads t [KDouble d] r"
proof -
  from t obtain ws u where wu: "t = ws @ u" "digit_text ws" "u = [] \<or> hd u = 46 \<or> hd u = 101"
    and dd: "decimal_digits (t @ r) = (t, True, r)" and d: "number_of_text t = d"
    using r unfolding double_text_def by blast
  have x: "u @ r \<noteq> [] \<Longrightarrow> hd (u @ r) \<noteq> 120 \<and> hd (u @ r) \<noteq> 88"
    using wu(3) bounded_facts(6,7) [OF r] by (cases "u = []") auto
  have "decimal_digits (ws @ u @ r) = (t, True, r)" using dd wu(1) by simp
  from next_token_number [OF wu(2) _ this] x
  have nt: "next_token pos (ws @ u @ r) = finish_number pos (pos + length t) t True 10 r" for pos by blast
  have "finish_number p q t True 10 r = lexed (KDouble d) p q r" for p q
    using bounded_facts [OF r] d by (auto simp: finish_number_def Let_def)
  then have "\<exists>t. next_token pos ((ws @ u) @ r) = Inr (t, r) \<and> kind t = KDouble d" for pos
    unfolding append_assoc nt by simp
  from reads_number_token [OF wu(2) this] show ?thesis unfolding wu(1) .
qed

lemma double_textI:
  assumes "digit_text ws" "u = [] \<or> hd u = 46 \<or> hd u = 101" "number_of_text (ws @ u) = d"
    and "\<And>r. bounded r \<Longrightarrow> decimal_digits ((ws @ u) @ r) = (ws @ u, True, r)"
  shows "double_text (ws @ u) d"
  unfolding double_text_def using assms by blast

lemma double_text_fraction:
  "digit_text ws \<Longrightarrow> digit_text fs \<Longrightarrow> number_of_text (ws @ 46 # fs) = d \<Longrightarrow> double_text (ws @ 46 # fs) d"
  by (rule double_textI) (simp_all add: decimal_digits_fraction)

lemma hd_exponent_text: "hd (exponent_text e) = 101"
  by (simp add: exponent_text_def)

lemma double_text_raised:
  "digit_text ws \<Longrightarrow> number_of_text (ws @ exponent_text e) = d \<Longrightarrow> double_text (ws @ exponent_text e) d"
  by (rule double_textI) (simp_all add: decimal_digits_raised hd_exponent_text)

lemma double_text_fraction_raised:
  "digit_text ws \<Longrightarrow> digit_text fs \<Longrightarrow> number_of_text (ws @ 46 # fs @ exponent_text e) = d \<Longrightarrow>
     double_text (ws @ 46 # fs @ exponent_text e) d"
  by (rule double_textI) (simp_all add: decimal_digits_fraction_raised)

lemma whole_as_fraction:
  assumes "digit_text ds" "number_of_text ds = Finite False m e"
  shows "number_of_text (ds @ js ''.0'') = Finite False m e"
proof -
  have "number_of_text (ds @ 46 # [48]) =
      (let (p, q) = decimal_ratio (value_of (ds @ [48])) (- 1) in round_double False p q)"
    using assms(1) number_of_fraction [of ds "[48]"] by (simp add: digit_text_def isDigit_def)
  also have "\<dots> = (let (p, q) = decimal_ratio (value_of ds) 0 in round_double False p q)"
    unfolding Let_def case_prod_unfold
    by (rule round_double_ratio)
      (simp_all add: real_ratio_decimal value_of_append power_int_minus)
  also have "\<dots> = number_of_text ds"
    using assms(1) by (simp add: number_of_whole digit_text_def decimal_ratio_def)
  finally show ?thesis using assms(2) by simp
qed

text \<open>The text the serializer writes for the magnitude of a double.\<close>

lemma magnitude_text:
  assumes wf: "double_wf d" and d: "d \<noteq> NaN" "\<not> double_negative d" "d \<noteq> Infinity False"
  shows "double_text (if 46 \<in> set (string_of_double d) \<or> 101 \<in> set (string_of_double d)
    then string_of_double d else string_of_double d @ js ''.0'') d"
proof -
  obtain m e where de: "d = Finite False m e" and can: "double_canonical m e"
    using assms by (cases d) auto
  have no_mark: "46 \<notin> set ds \<and> 101 \<notin> set ds" if "digit_text ds" for ds
    using that by (auto simp: digit_text_def list_all_iff isDigit_def)
  have whole: "double_text (ds @ js ''.0'') d" if "digit_text ds" "number_of_text ds = d" for ds
    using double_text_fraction [of ds "[48]"] whole_as_fraction [of ds m e] that de
    by (simp add: digit_text_def isDigit_def)
  show ?thesis
  proof (cases "m = 0")
    case True
    with can have "e = -1074" by (auto simp: double_canonical_def)
    with True de have t: "string_of_double d = [48]" "number_of_text [48] = d"
      by (simp_all add: finite_text_def number_of_0)
    with whole [of "[48]"] show ?thesis by (simp add: digit_text_def isDigit_def)
  next
    case False
    define t where "t = string_of_double d"
    have t: "t = finite_text m e" by (simp add: t_def de)
    have rb: "number_of_text t = d" using finite_text_reads_back [OF can] False by (simp add: t de)
    obtain ds n where ds: "list_all isDigit ds" "ds \<noteq> []" "hd ds \<noteq> 48" "t = format_digits ds n"
      using finite_text_format [OF can] False t by (metis gr0I)
    from format_digits_shape [OF ds(1-3), of n, folded ds(4)]
    consider "digit_text t" | ws fs where "digit_text ws" "digit_text fs" "t = ws @ 46 # fs"
      | ws e where "digit_text ws" "t = ws @ exponent_text e"
      | ws fs e where "digit_text ws" "digit_text fs" "t = ws @ 46 # fs @ exponent_text e"
      by blast
    then have "double_text (if 46 \<in> set t \<or> 101 \<in> set t then t else t @ js ''.0'') d"
    proof cases
      case 1
      then show ?thesis using no_mark [OF 1] whole [OF 1 rb] by simp
    next
      case (2 ws fs)
      then show ?thesis using double_text_fraction [OF 2(1,2) rb [unfolded 2(3)]] by simp
    next
      case (3 ws e)
      have "101 \<in> set t" using 3 by (simp add: exponent_text_def)
      then show ?thesis using double_text_raised [OF 3(1) rb [unfolded 3(2)]] 3 by simp
    next
      case (4 ws fs e)
      then show ?thesis using double_text_fraction_raised [OF 4(1,2) rb [unfolded 4(3)]] by simp
    qed
    then show ?thesis unfolding t_def .
  qed
qed

lemma infinity_text: "double_text (js ''1e999'') (Infinity False)"
proof -
  have "decimal_digits (js ''1e999'' @ r) = (js ''1e999'', True, r)" if "bounded r" for r
    using bounded_facts(1) [OF that] that
    by (cases r) (simp_all add: decimal_digits_def isDigit_def Let_def)
  moreover have "number_of_text (js ''1e999'') = Infinity False"
  proof -
    have "(2::real) ^ 1024 \<le> 2 ^ (3 * 999)" by (rule power_increasing) simp_all
    also have "\<dots> = (2 ^ 3) ^ 999" by (rule power_mult)
    also have "\<dots> \<le> 10 ^ 999" by (rule power_mono) simp_all
    also have "\<dots> = 10 powi int 999" by (rule power_int_of_nat [symmetric])
    also have "\<dots> = real_ratio (decimal_ratio 1 999)" by (simp only: real_ratio_decimal of_nat_numeral of_nat_1 mult_1_left)
    finally have big: "2 ^ 1024 \<le> real_ratio (fst (decimal_ratio 1 999), snd (decimal_ratio 1 999))"
      by (simp only: prod.collapse)
    have "0 < fst (decimal_ratio 1 999)" by (rule fst_decimal_pos) simp
    from round_double_overflow [OF this snd_decimal_pos big]
    have "round_double False (fst (decimal_ratio 1 999)) (snd (decimal_ratio 1 999)) = Infinity False" .
    moreover have "number_of_text (js ''1e999'') =
        round_double False (fst (decimal_ratio 1 999)) (snd (decimal_ratio 1 999))"
      by (simp add: number_of_text_def span_digits_def read_exponent_def exponent_digits_def isDigit_def
          value_of_def case_prod_unfold Let_def)
    ultimately show ?thesis by simp
  qed
  ultimately show ?thesis
    using double_textI [of "[49]" "[101, 57, 57, 57]" "Infinity False"]
    by (simp add: digit_text_def isDigit_def)
qed

section \<open>Strings and bytes\<close>

lemma readEscape_simple:
  "map_of SIMPLE_ESCAPES c = Some u \<Longrightarrow> readEscape pos bytes (c # s) = Inr ([u], 2)"
  by (simp add: readEscape_def)

lemma hex_digit_facts:
  assumes "d < 16"
  shows "isHexDigit (hex_digit d)" "hex_digit_value (hex_digit d) = d"
  using assms by (auto simp: isHexDigit_def isDigit_def hex_digit_def hex_digit_value_def)

lemma readEscape_hex:
  assumes "c < 256"
  shows "readEscape pos bytes (120 # hex_digit (c div 16) # hex_digit (c mod 16) # s) = Inr ([c], 4)"
proof -
  define a where "a = hex_digit (c div 16)"
  define b where "b = hex_digit (c mod 16)"
  have "c div 16 < 16" "c mod 16 < 16" using assms by simp_all
  then have a: "isHexDigit a" "hex_digit_value a = c div 16" and b: "isHexDigit b" "hex_digit_value b = c mod 16"
    unfolding a_def b_def by (simp_all add: hex_digit_facts)
  have v: "radix_value 16 [a, b] = c" by (simp add: radix_value_def a b)
  have "writtenDigits 2 isHexDigit (a # b # s) = [a, b]"
    using a b by (simp add: writtenDigits_def)
  then have "readHexEscape pos (120 # a # b # s) = Inr ([c], 4)"
    by (simp add: readHexEscape_def v)
  then show ?thesis unfolding a_def [symmetric] b_def [symmetric]
    by (simp add: readEscape_def SIMPLE_ESCAPES_def)
qed

text \<open>Scanning one written unit of a single-line literal in double quotes.\<close>

lemma scan_plain:
  assumes "c \<noteq> 34" "\<not> isLineBreak c" "c \<noteq> 92" "literalCharacter bytes (c # s) = ([u], 1)"
  shows "scanEscaped q [34] False bytes pos (c # s) = push_units [u] (scanEscaped q [34] False bytes (pos + 1) s)"
  using assms by (subst scanEscaped.simps) (simp add: starts_with_def)

lemma scan_escape:
  assumes "readEscape pos bytes (s @ r) = Inr ([u], Suc (length s))"
  shows "scanEscaped q [34] False bytes pos (92 # s @ r) =
    push_units [u] (scanEscaped q [34] False bytes (pos + Suc (length s)) r)"
  using assms by (subst scanEscaped.simps) (simp add: starts_with_def isLineBreak_def)

lemma scan_string_unit:
  "\<exists>pos'. scanEscaped q [34] False False pos (string_unit c @ r) =
     push_units [c] (scanEscaped q [34] False False pos' r)"
proof -
  consider "c = 92" | "c = 34" | "c = 10" | "c = 13" | "c = 9"
    | (hex) "c \<notin> {92, 34, 10, 13, 9}" "c < 32 \<or> c = 127" | (plain) "c \<notin> {92, 34, 10, 13, 9}" "\<not> (c < 32 \<or> c = 127)"
    by blast
  then show ?thesis
  proof cases
    case hex
    then have "string_unit c = 92 # [120, hex_digit (c div 16), hex_digit (c mod 16)]"
      by (simp add: string_unit_def hex_escape_def)
    moreover have "readEscape pos False ([120, hex_digit (c div 16), hex_digit (c mod 16)] @ r) = Inr ([c], 4)"
      using readEscape_hex [of c pos False r] hex by auto
    ultimately show ?thesis
      using scan_escape [of pos False "[120, hex_digit (c div 16), hex_digit (c mod 16)]" r c q] by auto
  next
    case plain
    then have "string_unit c = [c]" by (simp add: string_unit_def)
    moreover have "\<not> isLineBreak c" using plain by (simp add: isLineBreak_def)
    ultimately show ?thesis using plain scan_plain [of c False r c q pos]
      by (auto simp: literalCharacter_def)
  qed (use scan_escape [of pos False "[_]" r c q] in \<open>force simp: string_unit_def readEscape_def SIMPLE_ESCAPES_def\<close>)+
qed

lemma scan_byte_unit:
  assumes "c < 256"
  shows "\<exists>pos'. scanEscaped q [34] False True pos (byte_unit c @ r) =
     push_units [c] (scanEscaped q [34] False True pos' r)"
proof -
  consider "c = 92" | "c = 34" | (hex) "c \<notin> {92, 34}" "\<not> (32 \<le> c \<and> c \<le> 126)"
    | (plain) "c \<notin> {92, 34}" "32 \<le> c \<and> c \<le> 126"
    by blast
  then show ?thesis
  proof cases
    case hex
    then have "byte_unit c = 92 # [120, hex_digit (c div 16), hex_digit (c mod 16)]"
      by (auto simp: byte_unit_def hex_escape_def)
    moreover have "readEscape pos True ([120, hex_digit (c div 16), hex_digit (c mod 16)] @ r) = Inr ([c], 4)"
      using readEscape_hex [OF assms, of pos True r] by simp
    ultimately show ?thesis
      using scan_escape [of pos True "[120, hex_digit (c div 16), hex_digit (c mod 16)]" r c q] by auto
  next
    case plain
    then have "byte_unit c = [c]" by (simp add: byte_unit_def)
    moreover have "\<not> isLineBreak c" using plain by (simp add: isLineBreak_def)
    ultimately show ?thesis using plain scan_plain [of c True r c q pos]
      by (auto simp: literalCharacter_def code_point_at_def pushUtf8_def)
  qed (use scan_escape [of pos True "[_]" r c q] in \<open>force simp: byte_unit_def readEscape_def SIMPLE_ESCAPES_def\<close>)+
qed

lemma scan_end: "scanEscaped q [34] False bytes pos (34 # r) = Inr ([], pos + 1, r)"
  by (subst scanEscaped.simps) (simp add: starts_with_def)

lemma scan_string:
  "\<exists>e. scanEscaped q [34] False False pos (concat (map string_unit v) @ 34 # r) = Inr (v, e, r)"
proof (induction v arbitrary: pos)
  case (Cons c v)
  obtain pos' where p: "scanEscaped q [34] False False pos (string_unit c @ (concat (map string_unit v) @ 34 # r)) =
      push_units [c] (scanEscaped q [34] False False pos' (concat (map string_unit v) @ 34 # r))"
    using scan_string_unit by blast
  obtain e where "scanEscaped q [34] False False pos' (concat (map string_unit v) @ 34 # r) = Inr (v, e, r)"
    using Cons.IH by blast
  with p show ?case by simp
qed (simp add: scan_end)

lemma scan_bytes:
  "list_all (\<lambda>b. b < 256) v \<Longrightarrow>
     \<exists>e. scanEscaped q [34] False True pos (concat (map byte_unit v) @ 34 # r) = Inr (v, e, r)"
proof (induction v arbitrary: pos)
  case (Cons c v)
  then have c: "c < 256" by simp
  obtain pos' where p: "scanEscaped q [34] False True pos (byte_unit c @ (concat (map byte_unit v) @ 34 # r)) =
      push_units [c] (scanEscaped q [34] False True pos' (concat (map byte_unit v) @ 34 # r))"
    using scan_byte_unit [OF c] by blast
  obtain e where "scanEscaped q [34] False True pos' (concat (map byte_unit v) @ 34 # r) = Inr (v, e, r)"
    using Cons by auto
  with p show ?case by simp
qed (simp add: scan_end)

text \<open>The quote written is never the first of three.\<close>

lemma not_triple:
  assumes "\<And>c. c \<in> set v \<Longrightarrow> f c \<noteq> [] \<and> hd (f c) \<noteq> (34::nat)" "r = [] \<or> hd r \<noteq> 34"
  shows "take 3 (34 # concat (map f v) @ 34 # r) \<noteq> [34, 34, 34]"
proof (cases v)
  case Nil
  then show ?thesis using assms(2) by (cases r) auto
next
  case (Cons c v')
  with assms(1) [of c] show ?thesis by (cases "f c") auto
qed

lemma string_unit_hd: "string_unit c \<noteq> [] \<and> hd (string_unit c) \<noteq> 34"
  by (simp add: string_unit_def hex_escape_def)

lemma byte_unit_hd: "byte_unit c \<noteq> [] \<and> hd (byte_unit c) \<noteq> 34"
  by (simp add: byte_unit_def hex_escape_def)

lemma reads_string:
  assumes "bounded r"
  shows "reads (writeString v) [KString v] r"
proof (rule reads_token)
  fix pos
  have r: "r = [] \<or> hd r \<noteq> 34" using assms by (auto simp: bounded_def)
  have t: "take 3 (34 # concat (map string_unit v) @ 34 # r) \<noteq> [34, 34, 34]"
    by (rule not_triple [OF string_unit_hd r])
  obtain e where "scanEscaped pos [34] False False (pos + 1) (concat (map string_unit v) @ 34 # r) = Inr (v, e, r)"
    using scan_string by blast
  with t show "\<exists>t. next_token pos (writeString v @ r) = Inr (t, r) \<and> kind t = KString v"
    by (simp add: next_token_def readQuoted_def writeString_def Let_def)
qed (simp_all add: writeString_def isSpace_def)

lemma reads_bytes:
  assumes "bounded r" "list_all (\<lambda>b. b < 256) v"
  shows "reads (writeBytes v) [KBytes v] r"
proof (rule reads_token)
  fix pos
  have r: "r = [] \<or> hd r \<noteq> 34" using assms by (auto simp: bounded_def)
  have t: "take 3 (34 # concat (map byte_unit v) @ 34 # r) \<noteq> [34, 34, 34]"
    by (rule not_triple [OF byte_unit_hd r])
  obtain e where e: "scanEscaped (pos + 1) [34] False True (pos + 1 + 1) (concat (map byte_unit v) @ 34 # r) = Inr (v, e, r)"
    using scan_bytes [OF assms(2)] by blast
  have m: "map (\<lambda>u. u mod 256) v = v" using assms(2) by (auto simp: list_all_iff intro: map_idI)
  have w: "takeWhile isIdentPart (writeBytes v @ r) = [98]"
      "dropWhile isIdentPart (writeBytes v @ r) = 34 # concat (map byte_unit v) @ 34 # r"
    by (simp_all add: writeBytes_def isIdentPart_def isIdentStart_def isDigit_def)
  have "readWord pos (writeBytes v @ r) = lexed (KBytes v) pos e r"
    unfolding readWord_def w Let_def using t e m
    by (simp add: stringPrefix_def readQuoted_def Let_def)
  moreover have "next_token pos (writeBytes v @ r) = readWord pos (writeBytes v @ r)"
    by (simp add: next_token_def writeBytes_def isIdentStart_def)
  ultimately show "\<exists>t. next_token pos (writeBytes v @ r) = Inr (t, r) \<and> kind t = KBytes v" by simp
qed (simp_all add: writeBytes_def isSpace_def)

section \<open>The tokens of a tree\<close>

fun literal_kinds :: "literal \<Rightarrow> token_kind list" where
  "literal_kinds (LInt v) = (if v < 0 then [KPunct [45], KInt (- v) (v = MIN_INT)] else [KInt v False])"
| "literal_kinds (LUint v) = [KUint v]"
| "literal_kinds (LDouble d) = (if double_negative d then [KPunct [45], KDouble (double_neg d)] else [KDouble d])"
| "literal_kinds (LString v) = [KString v]"
| "literal_kinds (LBytes v) = [KBytes v]"
| "literal_kinds (LBool b) = [KIdent (if b then js ''true'' else js ''false'')]"
| "literal_kinds LNull = [KIdent (js ''null'')]"

text \<open>A value of its type: a canonical double, bytes below 256.\<close>

fun literal_wf :: "literal \<Rightarrow> bool" where
  "literal_wf (LDouble d) = double_wf d"
| "literal_wf (LBytes v) = list_all (\<lambda>b. b < 256) v"
| "literal_wf _ = True"

fun literal_node_wf :: "node \<Rightarrow> bool" where
  "literal_node_wf (NLiteral l _) = literal_wf l"
| "literal_node_wf _ = True"

definition in_parens :: "token_kind list \<Rightarrow> token_kind list" where
  "in_parens ks = KPunct [40] # ks @ [KPunct [41]]"

definition kinds_in :: "node \<Rightarrow> nat \<Rightarrow> bool \<Rightarrow> token_kind list \<Rightarrow> token_kind list" where
  "kinds_in node needs underMinus ks =
     (case node of
        NLiteral l _ \<Rightarrow>
          if underMinus \<and> isFoldedUnderMinus l then in_parens (literal_kinds l)
          else if precedenceOf node < needs then in_parens ks else ks
      | _ \<Rightarrow> if precedenceOf node < needs then in_parens ks else ks)"

definition mark_kinds :: "bool \<Rightarrow> token_kind list" where
  "mark_kinds optional = (if optional then [KPunct [63]] else [])"

definition comma_kinds :: "token_kind list list \<Rightarrow> token_kind list" where
  "comma_kinds kss = concat (separated [KPunct [44]] kss)"

definition field_kind :: "jstring \<Rightarrow> bool \<Rightarrow> token_kind" where
  "field_kind field quoted =
     (if \<not> quoted \<and> isIdentifierSpelling field then word_kind field else KQuotedIdent field)"

fun operator_kind :: "binary_op \<Rightarrow> token_kind" where
  "operator_kind OpIn = KKeyword (js ''in'')"
| "operator_kind operator = KPunct (operator_text operator)"

fun node_kinds :: "node \<Rightarrow> bool \<Rightarrow> token_kind list" where
  "node_kinds (NLiteral l _) _ = literal_kinds l"
| "node_kinds (NIdent text absolute _) _ = (if absolute then [KPunct [46]] else []) @ [KIdent text]"
| "node_kinds (NList elements _) _ =
     KPunct [91] # comma_kinds (map (\<lambda>(value, optional).
         mark_kinds optional @ kinds_in value 0 False (node_kinds value False)) elements) @ [KPunct [93]]"
| "node_kinds (NMap entries _) _ =
     KPunct [123] # comma_kinds (map (\<lambda>(key, value, optional).
         mark_kinds optional @ kinds_in key 0 False (node_kinds key False) @ [KPunct [58]] @
         kinds_in value 0 False (node_kinds value False)) entries) @ [KPunct [125]]"
| "node_kinds (NSelect operand field _ optional quoted _) underMinus =
     kinds_in operand 7 underMinus (node_kinds operand underMinus) @ [KPunct [46]] @
     mark_kinds optional @ [field_kind field quoted]"
| "node_kinds (NIndex operand index optional _) underMinus =
     kinds_in operand 7 underMinus (node_kinds operand underMinus) @ [KPunct [91]] @
     mark_kinds optional @ kinds_in index 0 False (node_kinds index False) @ [KPunct [93]]"
| "node_kinds (NCall text _ args _) _ =
     KIdent text # KPunct [40] #
     comma_kinds (map (\<lambda>a. kinds_in a 0 False (node_kinds a False)) args) @ [KPunct [41]]"
| "node_kinds (NReceiverCall receiver text _ args _) underMinus =
     kinds_in receiver 7 underMinus (node_kinds receiver underMinus) @ [KPunct [46], word_kind text, KPunct [40]] @
     comma_kinds (map (\<lambda>a. kinds_in a 0 False (node_kinds a False)) args) @ [KPunct [41]]"
| "node_kinds (NQCall namespace _ text _ args _) _ =
     [KIdent namespace, KPunct [46], word_kind text, KPunct [40]] @
     comma_kinds (map (\<lambda>a. kinds_in a 0 False (node_kinds a False)) args) @ [KPunct [41]]"
| "node_kinds (NUnary operator operand _) _ =
     KPunct (unary_text operator) #
     kinds_in operand 6 (operator = OpMinus) (node_kinds operand (operator = OpMinus))"
| "node_kinds (NBinary operator left right _) _ =
     kinds_in left (BINARY_PRECEDENCE operator) False (node_kinds left False) @ [operator_kind operator] @
     kinds_in right (BINARY_PRECEDENCE operator + 1) False (node_kinds right False)"
| "node_kinds (NConditional condition whenTrue whenFalse _) _ =
     kinds_in condition 1 False (node_kinds condition False) @ [KPunct [63]] @
     kinds_in whenTrue 0 False (node_kinds whenTrue False) @ [KPunct [58]] @
     kinds_in whenFalse 0 False (node_kinds whenFalse False)"
| "node_kinds (NUnparsed _) _ = []"

text \<open>A written expression: a text that reads as its tokens before every bounded text.\<close>

definition expression :: "jstring \<Rightarrow> token_kind list \<Rightarrow> bool" where
  "expression s ks \<longleftrightarrow> s \<noteq> [] \<and> hd s \<noteq> 61 \<and> (\<forall>r. bounded r \<longrightarrow> reads s ks r)"

lemma bounded_simps [simp]:
  "bounded []" "bounded (40 # r)" "bounded (41 # r)" "bounded (91 # r)" "bounded (93 # r)" "bounded (123 # r)" "bounded (125 # r)"
  "bounded (44 # r)" "bounded (58 # r)" "bounded (63 # r)" "bounded (32 # r)"
  "bounded (46 # r) \<longleftrightarrow> r \<noteq> [] \<and> \<not> isDigit (hd r)"
  by (simp_all add: bounded_def isIdentPart_def isIdentStart_def isDigit_def)

lemma reads_single: "c \<in> set (js ''()[]{},:?+-*%'') \<Longrightarrow> reads [c] [KPunct [c]] r"
  by (rule reads_punct) (simp add: single_punct_def)

lemmas reads_marks = reads_single [of 40] reads_single [of 41] reads_single [of 91] reads_single [of 93]
  reads_single [of 123] reads_single [of 125] reads_single [of 44] reads_single [of 58]
  reads_single [of 63] reads_single [of 45]

lemma reads_cons: "reads [c] ks (t @ r) \<Longrightarrow> reads t ls r \<Longrightarrow> reads (c # t) (ks @ ls) r"
  using reads_append [of "[c]" ks t r ls] by simp

lemma expression_bounded: "expression s ks \<Longrightarrow> bounded r \<Longrightarrow> reads s ks r"
  by (simp add: expression_def)

lemma expression_minus:
  assumes "expression s ks"
  shows "expression (45 # s) (KPunct [45] # ks)"
  using assms reads_cons [of 45 "[KPunct [45]]" s _ ks] reads_marks by (simp add: expression_def)

lemma expression_parens:
  assumes "expression s ks"
  shows "expression ([40] @ s @ [41]) (in_parens ks)"
proof -
  have "reads (40 # s @ [41]) ([KPunct [40]] @ ks @ [KPunct [41]]) r" for r
    by (intro reads_cons reads_append) (use assms expression_bounded reads_marks in auto)
  then show ?thesis by (simp add: expression_def in_parens_def)
qed

lemma digits_of_hd: "digits_of n @ u \<noteq> [] \<and> hd (digits_of n @ u) \<noteq> 61"
  using digit_text_hd [OF digits_of_text, of n] by (auto simp: isDigit_def)

lemma literal_expression:
  assumes "writeLiteral l = Inr s" "literal_wf l"
  shows "expression s (literal_kinds l)"
proof (cases l)
  case (LInt v)
  with assms have v: "MIN_INT \<le> v" "v \<le> MAX_INT" "s = int_text v" by (auto split: if_splits)
  show ?thesis
  proof (cases "v < 0")
    case True
    then have n: "int (nat (- v)) = - v" by simp
    have "expression (digits_of (nat (- v))) [KInt (- v) (v = MIN_INT)]"
      using reads_int [of _ "nat (- v)"] v(1) digits_of_hd [of "nat (- v)" "[]"]
      unfolding n expression_def by simp
    from expression_minus [OF this] True v show ?thesis by (simp add: LInt int_text_def)
  next
    case False
    then have n: "int (nat v) = v" by simp
    have "v \<noteq> - MIN_INT" "v \<le> - MIN_INT" using v(2) by (simp_all add: MAX_INT_def MIN_INT_def)
    then have "expression (digits_of (nat v)) [KInt v False]"
      using reads_int [of _ "nat v"] digits_of_hd [of "nat v" "[]"]
      unfolding n expression_def by simp
    with False v show ?thesis by (simp add: LInt int_text_def)
  qed
next
  case (LUint v)
  with assms have v: "0 \<le> v" "v \<le> MAX_UINT" "s = digits_of (nat v) @ [117]"
    by (auto simp: int_text_def split: if_splits)
  then show ?thesis using reads_uint [of _ "nat v"] digits_of_hd [of "nat v" "[117]"]
    by (simp add: expression_def LUint)
next
  case (LDouble d)
  define t where "t d = (if 46 \<in> set (string_of_double d) \<or> 101 \<in> set (string_of_double d)
    then string_of_double d else string_of_double d @ js ''.0'')" for d
  have dt: "expression t [KDouble d]" if "double_text t d" for t d
  proof -
    from that obtain ws u where "t = ws @ u" "digit_text ws" unfolding double_text_def by blast
    then have "t \<noteq> []" "isDigit (hd t)" using digit_text_hd by (auto simp: digit_text_def)
    then show ?thesis using reads_double [OF that] by (auto simp: expression_def isDigit_def)
  qed
  have mag: "expression (t d) [KDouble d]" if "double_wf d" "d \<noteq> NaN" "\<not> double_negative d" "d \<noteq> Infinity False" for d
    using dt [OF magnitude_text [OF that]] by (simp only: t_def)
  show ?thesis
  proof (cases "d = Infinity False \<or> d = Infinity True")
    case True
    with assms LDouble dt [OF infinity_text] expression_minus [OF dt [OF infinity_text]] show ?thesis
      by (auto simp: writeDouble_def)
  next
    case False
    with assms LDouble have d: "d \<noteq> NaN" and wf: "double_wf d"
      and s: "s = (if double_negative d then js ''-'' else []) @ t (double_abs d)"
      by (auto simp: writeDouble_def t_def Let_def split: if_splits)
    have abs: "double_abs d \<noteq> NaN" "\<not> double_negative (double_abs d)" "double_abs d \<noteq> Infinity False"
      using False d by (cases d; auto simp: double_abs_def)+
    have "double_wf (double_abs d)" using wf by simp
    from mag [OF this abs] expression_minus [OF mag [OF this abs]] show ?thesis
      by (cases "double_negative d") (simp_all add: LDouble s double_abs_def)
  qed
next
  case (LString v)
  with assms reads_string [of _ v] show ?thesis by (auto simp: expression_def writeString_def)
next
  case (LBytes v)
  with assms reads_bytes [of _ v] show ?thesis by (auto simp: expression_def writeBytes_def)
next
  case (LBool b)
  with assms reads_word [of "js ''true''"] reads_word [of "js ''false''"] show ?thesis
    by (cases b) (auto simp: expression_def word_kind_def wordReading_def LITERAL_WORDS_def isIdentStart_def
        isIdentPart_def isDigit_def)
next
  case LNull
  with assms reads_word [of "js ''null''"] show ?thesis
    by (auto simp: expression_def word_kind_def wordReading_def LITERAL_WORDS_def isIdentStart_def
        isIdentPart_def isDigit_def)
qed

lemma expression_in:
  assumes node: "\<And>t. writeNode n um = Inr t \<Longrightarrow> expression t (node_kinds n um)"
    and wf: "literal_node_wf n" and s: "write_in n needs um (writeNode n um) = Inr s"
  shows "expression s (kinds_in n needs um (node_kinds n um))"
proof (cases "\<exists>l r. n = NLiteral l r \<and> um \<and> isFoldedUnderMinus l")
  case True
  then obtain l r where l: "n = NLiteral l r" "um" "isFoldedUnderMinus l" by blast
  then obtain t where "writeLiteral l = Inr t" "s = [40] @ t @ [41]"
    using s by (auto simp: write_in_def)
  with expression_parens [OF literal_expression, of l t] wf l show ?thesis by (simp add: kinds_in_def)
next
  case False
  then have w: "write_in n needs um (writeNode n um) =
      (if precedenceOf n < needs then pieces [Inr [40], writeNode n um, Inr [41]] else writeNode n um)"
    and k: "kinds_in n needs um (node_kinds n um) =
      (if precedenceOf n < needs then in_parens (node_kinds n um) else node_kinds n um)"
    by (auto simp: write_in_def kinds_in_def split: node.splits)
  from s w obtain t where t: "writeNode n um = Inr t" "s = (if precedenceOf n < needs then [40] @ t @ [41] else t)"
    by (auto split: if_splits)
  with node [OF t(1)] expression_parens show ?thesis unfolding k by simp
qed

lemma comma_reads:
  assumes "list_all2 (\<lambda>w ks. \<forall>t. w = Inr t \<longrightarrow> (\<forall>r. bounded r \<longrightarrow> reads t ks r)) ws kss"
    and "comma_joined ws = Inr s" "bounded r"
  shows "reads s (comma_kinds kss) r"
  using assms(1,2)
proof (induction ws arbitrary: kss s)
  case Nil
  then show ?case by (simp add: comma_joined_def comma_kinds_def)
next
  case (Cons w ws)
  then obtain k ks where kss: "kss = k # ks" by (cases kss) auto
  show ?case
  proof (cases ws)
    case Nil
    with Cons.prems kss show ?thesis using assms(3) by (auto simp: comma_joined_def comma_kinds_def)
  next
    case (Cons w' ws')
    with Cons.prems kss obtain k' ks' where ks: "ks = k' # ks'" by (cases ks) auto
    from Cons.prems(2) Cons obtain t u where t: "w = Inr t" and u: "comma_joined ws = Inr u"
      and s: "s = t @ 44 # 32 # u"
      by (auto simp: comma_joined_def)
    have "reads u (comma_kinds ks) r" using Cons.IH [OF _ u] Cons.prems(1) kss by simp
    then have "reads (44 # 32 # u) ([KPunct [44]] @ [] @ comma_kinds ks) r"
      by (intro reads_cons reads_marks reads_space) simp_all
    moreover have "reads t k (44 # 32 # u @ r)" using Cons.prems(1) kss t by simp
    ultimately have "reads (t @ 44 # 32 # u) (k @ [KPunct [44]] @ [] @ comma_kinds ks) r"
      by (intro reads_append) simp_all
    then show ?thesis by (simp add: s kss ks comma_kinds_def)
  qed
qed

lemma mark_reads:
  "mark optional = Inr m \<Longrightarrow> reads m (mark_kinds optional) r"
  using reads_marks(9) by (auto simp: mark_def mark_kinds_def)

lemma name_reads:
  assumes "write_name t = Inr s" "bounded r"
  shows "reads s [KIdent t] r" and "isIdentStart (hd s) \<and> s \<noteq> []"
proof -
  from assms(1) have t: "isIdentifierSpelling t" "\<not> isReservedWord t" "s = t"
    by (auto simp: write_name_def split: if_splits)
  then have "word_kind t = KIdent t" by (simp add: word_kind_def flip: wordReading_name_iff)
  with reads_word [OF t(1) assms(2)] t show "reads s [KIdent t] r" by simp
  from identifier_parts [OF t(1)] t show "isIdentStart (hd s) \<and> s \<noteq> []" by simp
qed

lemma member_reads:
  assumes "memberName t = Inr s" "bounded r"
  shows "reads s [word_kind t] r" and "s \<noteq> [] \<and> \<not> isDigit (hd s)"
proof -
  from assms(1) have t: "isIdentifierSpelling t" "s = t" by (auto simp: memberName_def split: if_splits)
  with reads_word [OF t(1) assms(2)] show "reads s [word_kind t] r" by simp
  from identifier_parts [OF t(1)] identStart_facts t show "s \<noteq> [] \<and> \<not> isDigit (hd s)" by blast
qed

lemma field_reads:
  assumes "fieldName f quoted = Inr s" "bounded r"
  shows "reads s [field_kind f quoted] r" and "s \<noteq> [] \<and> \<not> isDigit (hd s)"
proof -
  show "reads s [field_kind f quoted] r"
    using assms reads_word [of f r] reads_quoted [of f r]
    by (auto simp: fieldName_def field_kind_def split: if_splits)
  show "s \<noteq> [] \<and> \<not> isDigit (hd s)"
    using assms(1) identifier_parts [of f] identStart_facts [of "hd f"]
    by (auto simp: fieldName_def isDigit_def split: if_splits)
qed

lemma operator_reads:
  assumes "hd r = 32" "r \<noteq> []"
  shows "reads (operator_text operator) [operator_kind operator] r"
proof -
  have b: "bounded r" using assms by (cases r) auto
  have w: "isIdentifierSpelling (js ''in'')" by (simp add: isIdentStart_def isIdentPart_def isDigit_def)
  have k: "word_kind (js ''in'') = KKeyword (js ''in'')"
    by (simp add: word_kind_def wordReading_def LITERAL_WORDS_def OPERATOR_WORDS_def)
  have one: "reads [c] [KPunct [c]] r" if "c \<in> {60, 62, 43, 45, 42, 47, 37}" for c
    by (rule reads_punct) (use assms that in \<open>auto simp: single_punct_def\<close>)
  have two: "reads [a, c] [KPunct [a, c]] r"
    if "[a, c] \<in> {[61, 61], [33, 61], [60, 61], [62, 61], [38, 38], [124, 124]}" for a c
    by (rule reads_pair) (use that in simp)
  show ?thesis
    by (cases operator) (simp_all add: one two reads_word [OF w b, unfolded k, simplified])
qed

text \<open>The induction: a node is written as an expression where its children are.\<close>

definition written_ok :: "node \<Rightarrow> bool" where
  "written_ok n \<longleftrightarrow> everywhere literal_node_wf n \<and>
     (\<forall>um s. writeNode n um = Inr s \<longrightarrow> expression s (node_kinds n um))"

lemma slot_expression:
  assumes "written_ok n" "write_in n needs um (writeNode n um) = Inr s"
  shows "expression s (kinds_in n needs um (node_kinds n um))"
proof (rule expression_in [OF _ _ assms(2)])
  show "literal_node_wf n" using assms(1) everywhere_rec [of literal_node_wf n] by (simp add: written_ok_def)
qed (use assms(1) in \<open>simp add: written_ok_def\<close>)

lemma comma_map_reads:
  assumes "\<And>x t r. x \<in> set xs \<Longrightarrow> w x = Inr t \<Longrightarrow> bounded r \<Longrightarrow> reads t (k x) r"
    and "comma_joined (map w xs) = Inr s" "bounded r"
  shows "reads s (comma_kinds (map k xs)) r"
proof (rule comma_reads [OF _ assms(2,3)])
  show "list_all2 (\<lambda>w ks. \<forall>t. w = Inr t \<longrightarrow> (\<forall>r. bounded r \<longrightarrow> reads t ks r)) (map w xs) (map k xs)"
    unfolding list_all2_map1 list_all2_map2 by (rule list.rel_refl_strong) (use assms(1) in blast)
qed

lemma arguments_read:
  assumes "\<forall>a \<in> set args. written_ok a"
    and "comma_joined (map (\<lambda>a. write_in a 0 False (writeNode a False)) args) = Inr s" "bounded r"
  shows "reads s (comma_kinds (map (\<lambda>a. kinds_in a 0 False (node_kinds a False)) args)) r"
  by (rule comma_map_reads [OF _ assms(2,3)]) (use assms(1) slot_expression expression_bounded in blast)

text \<open>A call's brackets and arguments, after whatever names it.\<close>

lemma call_reads_tail:
  assumes "\<forall>a \<in> set args. written_ok a"
    and "comma_joined (map (\<lambda>a. write_in a 0 False (writeNode a False)) args) = Inr s"
  shows "reads (40 # s @ [41]) (KPunct [40] # comma_kinds (map (\<lambda>a. kinds_in a 0 False (node_kinds a False)) args)
    @ [KPunct [41]]) r"
proof -
  have "reads (40 # s @ [41]) ([KPunct [40]] @ comma_kinds (map (\<lambda>a. kinds_in a 0 False (node_kinds a False)) args)
      @ [KPunct [41]]) r"
    by (intro reads_cons reads_append arguments_read [OF assms] reads_marks) simp_all
  then show ?thesis by simp
qed

lemma expression_append:
  assumes "expression s ks" "\<And>r. bounded r \<Longrightarrow> bounded (t @ r)" "\<And>r. bounded r \<Longrightarrow> reads t ls r"
  shows "expression (s @ t) (ks @ ls)"
  using assms by (simp add: expression_def reads_append)

lemma expression_name: "write_name t = Inr s \<Longrightarrow> expression s [KIdent t]"
  using name_reads [of t s] name_reads(2) [of t s "[]"] identStart_facts [of "hd s"]
  by (auto simp: expression_def)

lemma dot_reads: "r \<noteq> [] \<and> \<not> isDigit (hd r) \<Longrightarrow> reads [46] [KPunct [46]] r"
  by (rule reads_punct) (simp add: single_punct_def)

lemma everywhere_child: "everywhere P n \<Longrightarrow> c \<in> set (childNodes n) \<Longrightarrow> everywhere P c"
  using everywhere_rec [of P n] by blast

lemma writeNode_expression:
  "everywhere literal_node_wf n \<Longrightarrow> written_ok n"
proof (induction n rule: node_child_induct)
  case (child n)
  have kid: "written_ok c" if "c \<in> set (childNodes n)" for c
    using child everywhere_child [OF child.prems that] that by blast
  have "expression s (node_kinds n um)" if w: "writeNode n um = Inr s" for um s
  proof (cases n)
    case (NLiteral l r)
    then show ?thesis using w child.prems literal_expression by simp
  next
    case (NIdent t absolute r)
    with w obtain u where u: "write_name t = Inr u" "s = (if absolute then [46] else []) @ u" by auto
    have start: "u \<noteq> [] \<and> \<not> isDigit (hd u)"
      using name_reads(2) [OF u(1), of "[]"] identStart_facts [of "hd u"] by simp
    have "reads (46 # u) ([KPunct [46]] @ [KIdent t]) q" if "bounded q" for q
      using name_reads(1) [OF u(1) that] dot_reads start by (intro reads_cons) auto
    then show ?thesis
      using expression_name [OF u(1)] u(2) NIdent by (auto simp: expression_def)
  next
    case (NList elements r)
    let ?w = "\<lambda>(value, optional). pieces [mark optional, write_in value PRECEDENCE_conditional False (writeNode value False)]"
    let ?k = "\<lambda>(value, optional). mark_kinds optional @ kinds_in value 0 False (node_kinds value False)"
    from w NList obtain u where u: "comma_joined (map ?w elements) = Inr u" "s = [91] @ u @ [93]" by auto
    have "reads t (?k x) q" if x: "x \<in> set elements" "?w x = Inr t" "bounded q" for x t q
    proof -
      obtain v opt where v: "x = (v, opt)" by (cases x)
      with x obtain m y where my: "mark opt = Inr m" "write_in v PRECEDENCE_conditional False (writeNode v False) = Inr y"
        "t = m @ y" by auto
      have "written_ok v" using kid x(1) v NList by force
      from slot_expression [OF this my(2)] x(3) show ?thesis
        by (simp add: v my(3) reads_append mark_reads [OF my(1)] expression_bounded PRECEDENCE)
    qed
    note inner = comma_map_reads [OF this u(1)]
    have "reads (91 # u @ [93]) ([KPunct [91]] @ comma_kinds (map ?k elements) @ [KPunct [93]]) q" for q
      by (intro reads_cons reads_append inner reads_marks) simp_all
    with u(2) NList show ?thesis by (simp add: expression_def)
  next
    case (NMap entries r)
    let ?w = "\<lambda>(key, value, optional). pieces [mark optional, write_in key PRECEDENCE_conditional False (writeNode key False),
      Inr (js '': ''), write_in value PRECEDENCE_conditional False (writeNode value False)]"
    let ?k = "\<lambda>(key, value, optional). mark_kinds optional @ kinds_in key 0 False (node_kinds key False) @ [KPunct [58]] @
         kinds_in value 0 False (node_kinds value False)"
    from w NMap obtain u where u: "comma_joined (map ?w entries) = Inr u" "s = [123] @ u @ [125]" by auto
    have "reads t (?k x) q" if x: "x \<in> set entries" "?w x = Inr t" "bounded q" for x t q
    proof -
      obtain a v opt where v: "x = (a, v, opt)" by (cases x)
      with x obtain m y z where my: "mark opt = Inr m" "write_in a PRECEDENCE_conditional False (writeNode a False) = Inr y"
        "write_in v PRECEDENCE_conditional False (writeNode v False) = Inr z" "t = m @ y @ 58 # 32 # z" by auto
      have "written_ok a" "written_ok v" using kid x(1) unfolding v NMap NMap_children by force+
      note e = slot_expression [OF this(1) my(2)] slot_expression [OF this(2) my(3)]
      have "reads (58 # 32 # z) ([KPunct [58]] @ [] @ kinds_in v 0 False (node_kinds v False)) q"
        using e(2) x(3) by (intro reads_cons reads_marks reads_space) (simp_all add: expression_bounded PRECEDENCE)
      then have "reads (m @ y @ 58 # 32 # z) (mark_kinds opt @ kinds_in a 0 False (node_kinds a False) @ [KPunct [58]] @ [] @
          kinds_in v 0 False (node_kinds v False)) q"
        using e(1) x(3) by (intro reads_append mark_reads [OF my(1)]) (simp_all add: expression_bounded PRECEDENCE)
      then show ?thesis by (simp add: v my(4))
    qed
    note inner = comma_map_reads [OF this u(1)]
    have "reads (123 # u @ [125]) ([KPunct [123]] @ comma_kinds (map ?k entries) @ [KPunct [125]]) q" for q
      by (intro reads_cons reads_append inner reads_marks) simp_all
    with u(2) NMap show ?thesis by (simp add: expression_def)
  next
    case (NSelect operand f fr optional quoted r)
    with w obtain a m b where a: "write_in operand PRECEDENCE_postfix um (writeNode operand um) = Inr a"
      and m: "mark optional = Inr m" and b: "fieldName f quoted = Inr b" and s: "s = a @ 46 # m @ b" by auto
    have mb: "m @ b @ q \<noteq> [] \<and> \<not> isDigit (hd (m @ b @ q))" for q
      using m field_reads(2) [OF b, of "[]"] by (cases optional) (auto simp: mark_def isDigit_def)
    have "expression a (kinds_in operand 7 um (node_kinds operand um))"
      using slot_expression [OF kid a] NSelect by (simp add: PRECEDENCE)
    then have "expression (a @ 46 # m @ b) (kinds_in operand 7 um (node_kinds operand um) @
        [KPunct [46]] @ mark_kinds optional @ [field_kind f quoted])"
      using mb by (intro expression_append reads_cons reads_append mark_reads [OF m] field_reads(1) [OF b] dot_reads)
        auto
    then show ?thesis by (simp add: s NSelect)
  next
    case (NIndex operand index optional r)
    with w obtain a m b where a: "write_in operand PRECEDENCE_postfix um (writeNode operand um) = Inr a"
      and m: "mark optional = Inr m" and b: "write_in index PRECEDENCE_conditional False (writeNode index False) = Inr b"
      and s: "s = a @ 91 # m @ b @ [93]" by auto
    have e: "expression a (kinds_in operand 7 um (node_kinds operand um))"
      "expression b (kinds_in index 0 False (node_kinds index False))"
      using slot_expression [OF kid a] slot_expression [OF kid b] NIndex by (simp_all add: PRECEDENCE)
    then have "expression (a @ 91 # m @ b @ [93]) (kinds_in operand 7 um (node_kinds operand um) @
        [KPunct [91]] @ mark_kinds optional @ kinds_in index 0 False (node_kinds index False) @ [KPunct [93]])"
      by (intro expression_append reads_cons reads_append mark_reads [OF m] reads_marks)
        (simp_all add: expression_bounded)
    then show ?thesis by (simp add: s NIndex)
  next
    case (NCall t nr args r)
    with w obtain a u where a: "write_name t = Inr a"
      and u: "comma_joined (map (\<lambda>a. write_in a 0 False (writeNode a False)) args) = Inr u" and s: "s = a @ 40 # u @ [41]"
      by (auto simp: PRECEDENCE)
    have "\<forall>a \<in> set args. written_ok a" using kid NCall by simp
    then have "expression (a @ 40 # u @ [41]) ([KIdent t] @ KPunct [40] #
        comma_kinds (map (\<lambda>a. kinds_in a 0 False (node_kinds a False)) args) @ [KPunct [41]])"
      by (intro expression_append expression_name [OF a] call_reads_tail [OF _ u]) simp_all
    then show ?thesis by (simp add: s NCall)
  next
    case (NReceiverCall receiver t nr args r)
    with w obtain a b u where a: "write_in receiver PRECEDENCE_postfix um (writeNode receiver um) = Inr a"
      and b: "memberName t = Inr b"
      and u: "comma_joined (map (\<lambda>a. write_in a 0 False (writeNode a False)) args) = Inr u"
      and s: "s = a @ 46 # b @ 40 # u @ [41]"
      by (auto simp: PRECEDENCE)
    have e: "expression a (kinds_in receiver 7 um (node_kinds receiver um))"
      using slot_expression [OF kid a] NReceiverCall by (simp add: PRECEDENCE)
    have "\<forall>a \<in> set args. written_ok a" using kid NReceiverCall by simp
    then have "expression (a @ 46 # b @ 40 # u @ [41]) (kinds_in receiver 7 um (node_kinds receiver um) @ [KPunct [46]] @
        [word_kind t] @ KPunct [40] # comma_kinds (map (\<lambda>a. kinds_in a 0 False (node_kinds a False)) args) @ [KPunct [41]])"
      using member_reads(2) [OF b, of "[]"]
      by (intro expression_append e reads_cons reads_append member_reads(1) [OF b] dot_reads call_reads_tail [OF _ u]) auto
    then show ?thesis by (simp add: s NReceiverCall)
  next
    case (NQCall namespace nsr t nr args r)
    with w obtain a b u where a: "write_name namespace = Inr a" and b: "memberName t = Inr b"
      and u: "comma_joined (map (\<lambda>a. write_in a 0 False (writeNode a False)) args) = Inr u"
      and s: "s = a @ 46 # b @ 40 # u @ [41]"
      by (auto simp: PRECEDENCE)
    have "\<forall>a \<in> set args. written_ok a" using kid NQCall by simp
    then have "expression (a @ 46 # b @ 40 # u @ [41]) ([KIdent namespace] @ [KPunct [46]] @
        [word_kind t] @ KPunct [40] # comma_kinds (map (\<lambda>a. kinds_in a 0 False (node_kinds a False)) args) @ [KPunct [41]])"
      using member_reads(2) [OF b, of "[]"]
      by (intro expression_append expression_name [OF a] reads_cons reads_append member_reads(1) [OF b] dot_reads
          call_reads_tail [OF _ u]) auto
    then show ?thesis by (simp add: s NQCall)
  next
    case (NUnary operator operand r)
    with w obtain a where a: "write_in operand PRECEDENCE_unary (operator = OpMinus) (writeNode operand (operator = OpMinus)) = Inr a"
      and s: "s = unary_text operator @ a" by auto
    have e: "expression a (kinds_in operand 6 (operator = OpMinus) (node_kinds operand (operator = OpMinus)))"
      using slot_expression [OF kid a] NUnary by (simp add: PRECEDENCE)
    then have "reads (unary_text operator) [KPunct (unary_text operator)] (a @ q)" for q
      by (cases operator) (auto intro!: reads_punct simp: single_punct_def expression_def)
    with e show ?thesis by (cases operator) (simp_all add: s NUnary expression_def, (metis append_Cons append_Nil reads_append)+)
  next
    case (NBinary operator left right r)
    with w obtain a b where a: "write_in left (BINARY_PRECEDENCE operator) False (writeNode left False) = Inr a"
      and b: "write_in right (BINARY_PRECEDENCE operator + 1) False (writeNode right False) = Inr b"
      and s: "s = a @ [32] @ operator_text operator @ [32] @ b" by auto
    have e: "expression a (kinds_in left (BINARY_PRECEDENCE operator) False (node_kinds left False))"
      "expression b (kinds_in right (BINARY_PRECEDENCE operator + 1) False (node_kinds right False))"
      using slot_expression [OF kid a] slot_expression [OF kid b] NBinary by simp_all
    then have "expression (a @ [32] @ operator_text operator @ [32] @ b)
        (kinds_in left (BINARY_PRECEDENCE operator) False (node_kinds left False) @ [] @ [operator_kind operator] @ [] @
         kinds_in right (BINARY_PRECEDENCE operator + 1) False (node_kinds right False))"
      by (intro expression_append reads_append reads_space operator_reads) (simp_all add: expression_bounded)
    then show ?thesis by (simp add: s NBinary)
  next
    case (NConditional c t f r)
    with w obtain x y z where x: "write_in c PRECEDENCE_or False (writeNode c False) = Inr x"
      and y: "write_in t PRECEDENCE_conditional False (writeNode t False) = Inr y"
      and z: "write_in f PRECEDENCE_conditional False (writeNode f False) = Inr z"
      and s: "s = x @ [32] @ [63] @ [32] @ y @ [32] @ [58] @ [32] @ z" by auto
    have e: "expression x (kinds_in c 1 False (node_kinds c False))" "expression y (kinds_in t 0 False (node_kinds t False))"
      "expression z (kinds_in f 0 False (node_kinds f False))"
      using slot_expression [OF kid x] slot_expression [OF kid y] slot_expression [OF kid z] NConditional
      by (simp_all add: PRECEDENCE)
    then have "expression (x @ [32] @ [63] @ [32] @ y @ [32] @ [58] @ [32] @ z)
        (kinds_in c 1 False (node_kinds c False) @ [] @ [KPunct [63]] @ [] @ kinds_in t 0 False (node_kinds t False) @
         [] @ [KPunct [58]] @ [] @ kinds_in f 0 False (node_kinds f False))"
      by (intro expression_append reads_append reads_space reads_marks) (simp_all add: expression_bounded)
    then show ?thesis by (simp add: s NConditional)
  next
    case (NUnparsed r)
    then show ?thesis using w by simp
  qed
  with child.prems show ?case by (simp add: written_ok_def)
qed

end
