(* ===== verification/Cel_Parser.thy ===== *)
theory Cel_Parser
  imports Cel_Lexer
begin

text \<open>
  The grammar of the expression engine, read by recursive descent with one diagnostic and no
  loss of what was read (\<open>cel/nodejs/src/parser.ts\<close>, \<open>parse-limits.ts\<close>).

  A parser's state is the tokens left, with the end of the token before them, the nodes built,
  the depth of the descent, whether it has stopped and the diagnostic it holds. The table of
  heights the code keeps per node is the height of the tree: every node with a child is
  measured as it is built.

  The methods of the grammar call each other. Each is a body over the record of them all, and
  \<open>grammar_at\<close> ties the knot with a fuel, \<open>None\<close> being its exhaustion; \<open>parseSyntax\<close> gives a
  fuel that is always enough.
\<close>

section \<open>Limits\<close>

record parse_limits =
  maxNodes :: nat
  maxDepth :: nat
  maxListElements :: nat
  maxMapEntries :: nat
  maxCallArguments :: nat

definition DEFAULT_PARSE_LIMITS :: parse_limits where
  "DEFAULT_PARSE_LIMITS = \<lparr>maxNodes = 100000, maxDepth = 250, maxListElements = 1000,
     maxMapEntries = 1000, maxCallArguments = 32\<rparr>"

record parse_options =
  limits :: parse_limits
  optionalSyntax :: bool

section \<open>The state\<close>

record pstate =
  left_tokens :: "token list"
  before_end :: nat
  nodes :: nat
  depth :: nat
  stopped :: bool
  diag :: "syntax_diagnostic option"

definition peek :: "nat \<Rightarrow> pstate \<Rightarrow> token" where
  "peek ahead st = left_tokens st ! min ahead (length (left_tokens st) - 1)"

definition advance :: "pstate \<Rightarrow> pstate" where
  "advance st =
     (if 1 < length (left_tokens st)
      then st\<lparr>left_tokens := tl (left_tokens st), before_end := tend (peek 0 st)\<rparr> else st)"

definition isPunct :: "jstring \<Rightarrow> pstate \<Rightarrow> bool" where
  "isPunct text st \<longleftrightarrow> kind (peek 0 st) = KPunct text"

definition takePunct :: "jstring \<Rightarrow> pstate \<Rightarrow> bool \<times> pstate" where
  "takePunct text st = (if isPunct text st then (True, advance st) else (False, st))"

definition stop_with :: "syntax_code \<Rightarrow> nat \<Rightarrow> nat \<Rightarrow> pstate \<Rightarrow> pstate" where
  "stop_with c from_at to_at st = st\<lparr>diag := report (diagnostic c from_at to_at) (diag st), stopped := True\<rparr>"

definition unexpected :: "token \<Rightarrow> pstate \<Rightarrow> pstate" where
  "unexpected t = stop_with (if kind t = KEof then UnexpectedEnd else UnexpectedToken) (tstart t) (tend t)"

definition expectPunct :: "jstring \<Rightarrow> pstate \<Rightarrow> bool \<times> pstate" where
  "expectPunct text st =
     (if isPunct text st then (True, advance st) else (False, unexpected (peek 0 st) st))"

definition limit :: "nat \<Rightarrow> nat \<Rightarrow> pstate \<Rightarrow> pstate" where
  "limit = stop_with LimitExceeded"

function tree_height :: "node \<Rightarrow> nat" where
  "tree_height n = (if childNodes n = [] then 1 else Suc (fold max (map tree_height (childNodes n)) 0))"
  by pat_completeness auto
termination
  by (relation "measure size") (auto intro: size_childNodes)

declare tree_height.simps [simp del]

definition keep :: "parse_options \<Rightarrow> node \<Rightarrow> pstate \<Rightarrow> node \<times> pstate" where
  "keep opts node st =
     (let (from_at, to_at) = range_of node;
          st1 = st\<lparr>nodes := nodes st + 1\<rparr>;
          st2 = (if nodes st1 > maxNodes (limits opts) \<and> \<not> stopped st1 then limit from_at to_at st1 else st1);
          st3 = (if childNodes node \<noteq> [] \<and> tree_height node > maxDepth (limits opts) \<and> \<not> stopped st2
                 then limit from_at to_at st2 else st2)
      in (node, st3))"

definition enter :: "parse_options \<Rightarrow> nat \<Rightarrow> pstate \<Rightarrow> bool \<times> pstate" where
  "enter opts start st =
     (let st1 = st\<lparr>depth := depth st + 1\<rparr> in
      if depth st1 \<le> maxDepth (limits opts) then (True, st1)
      else (False, if stopped st1 then st1 else limit start start st1))"

definition leave :: "pstate \<Rightarrow> pstate" where
  "leave st = st\<lparr>depth := depth st - 1\<rparr>"

definition unparsed :: "parse_options \<Rightarrow> nat \<Rightarrow> nat \<Rightarrow> pstate \<Rightarrow> node \<times> pstate" where
  "unparsed opts start end_at = keep opts (NUnparsed (start, end_at))"

definition spanning :: "node \<Rightarrow> node \<Rightarrow> source_range" where
  "spanning l r = (fst (range_of l), snd (range_of r))"

section \<open>Names and literals\<close>

definition operators_at :: "nat \<Rightarrow> (jstring \<times> binary_op) list" where
  "operators_at level =
     (if level = 0 then [(js ''||'', OpOr)]
      else if level = 1 then [(js ''&&'', OpAnd)]
      else if level = 2 then
        [(js ''=='', OpEq), (js ''!='', OpNe), (js ''<'', OpLt), (js ''<='', OpLe), (js ''>'', OpGt),
         (js ''>='', OpGe)]
      else if level = 3 then [(js ''+'', OpAdd), (js ''-'', OpSub)]
      else [(js ''*'', OpMul), (js ''/'', OpDiv), (js ''%'', OpMod)])"

definition binaryOperatorAt :: "nat \<Rightarrow> pstate \<Rightarrow> binary_op option" where
  "binaryOperatorAt level st =
     (case kind (peek 0 st) of
        KKeyword text \<Rightarrow> if level = 2 \<and> text = js ''in'' then Some OpIn else None
      | KPunct text \<Rightarrow> map_of (operators_at level) text
      | _ \<Rightarrow> None)"

text \<open>A name, where no reserved word is one, the three read as literals included.\<close>

definition expectIdentifier :: "token \<Rightarrow> pstate \<Rightarrow> bool \<times> pstate" where
  "expectIdentifier t st =
     (case kind t of
        KIdent text \<Rightarrow>
          if wordReading text = WordLiteral then (False, stop_with ReservedIdentifier (tstart t) (tend t) st)
          else (True, st)
      | KReserved text \<Rightarrow> (False, stop_with ReservedIdentifier (tstart t) (tend t) st)
      | _ \<Rightarrow> (False, unexpected t st))"

definition expectMemberName :: "token \<Rightarrow> pstate \<Rightarrow> bool \<times> pstate" where
  "expectMemberName t st =
     (case kind t of
        KIdent _ \<Rightarrow> (True, st)
      | KReserved _ \<Rightarrow> (True, st)
      | KKeyword _ \<Rightarrow> (True, st)
      | KQuotedIdent text \<Rightarrow> if text \<noteq> [] then (True, st) else (False, unexpected t st)
      | _ \<Rightarrow> expectIdentifier t st)"

fun token_text :: "token_kind \<Rightarrow> jstring" where
  "token_text (KIdent text) = text"
| "token_text (KQuotedIdent text) = text"
| "token_text (KReserved text) = text"
| "token_text (KKeyword text) = text"
| "token_text (KPunct text) = text"
| "token_text _ = []"

fun is_quoted :: "token_kind \<Rightarrow> bool" where
  "is_quoted (KQuotedIdent _) = True"
| "is_quoted _ = False"

definition token_range :: "token \<Rightarrow> source_range" where
  "token_range t = (tstart t, tend t)"

text \<open>\<open>-\<close> directly on an int or double literal is part of the literal.\<close>

definition foldedNumber :: "parse_options \<Rightarrow> token \<Rightarrow> pstate \<Rightarrow> (node \<times> pstate) option" where
  "foldedNumber opts minus_token st =
     (let number = peek 1 st; st2 = advance (advance st); r = (tstart minus_token, tend number) in
      case kind number of
        KInt v _ \<Rightarrow> Some (keep opts (NLiteral (LInt (- v)) r) st2)
      | KDouble v \<Rightarrow> Some (keep opts (NLiteral (LDouble (double_neg v)) r) st2)
      | _ \<Rightarrow> None)"

definition absoluteName :: "parse_options \<Rightarrow> token \<Rightarrow> pstate \<Rightarrow> node \<times> pstate" where
  "absoluteName opts dot st =
     (let st1 = advance st; name = peek 0 st1; (ok, st2) = expectIdentifier name st1 in
      if \<not> ok then unparsed opts (tstart dot) (tstart name) st2
      else keep opts (NIdent (token_text (kind name)) True (tstart dot, tend name)) (advance st2))"

text \<open>Where an aggregate ends: at its closing bracket, or at what it did read.\<close>

definition closingEnd :: "jstring \<Rightarrow> token \<Rightarrow> nat option \<Rightarrow> pstate \<Rightarrow> nat \<times> pstate" where
  "closingEnd bracket opening lastRead st =
     (let otherwise = (case lastRead of Some e \<Rightarrow> e | None \<Rightarrow> tend opening) in
      if stopped st then (otherwise, st)
      else let (ok, st1) = expectPunct bracket st in
        if ok then (before_end st1, st1) else (otherwise, st1))"

definition last_end :: "node list \<Rightarrow> nat option" where
  "last_end ns = (if ns = [] then None else Some (snd (range_of (last ns))))"

section \<open>The grammar\<close>

type_synonym 'a parsed = "('a \<times> pstate) option"

record grammar =
  g_conditional :: "pstate \<Rightarrow> node parsed"
  g_binary :: "nat \<Rightarrow> pstate \<Rightarrow> node parsed"
  g_binary_loop :: "nat \<Rightarrow> node \<Rightarrow> pstate \<Rightarrow> node parsed"
  g_unary :: "pstate \<Rightarrow> node parsed"
  g_postfix :: "node \<Rightarrow> pstate \<Rightarrow> node parsed"
  g_primary :: "pstate \<Rightarrow> node parsed"
  g_callArguments :: "pstate \<Rightarrow> (node list \<times> nat) parsed"
  g_arguments_loop :: "token \<Rightarrow> node list \<Rightarrow> pstate \<Rightarrow> node list parsed"
  g_list_loop :: "token \<Rightarrow> (node \<times> bool) list \<Rightarrow> pstate \<Rightarrow> (node \<times> bool) list parsed"
  g_map_loop :: "token \<Rightarrow> (node \<times> node \<times> bool) list \<Rightarrow> pstate \<Rightarrow> (node \<times> node \<times> bool) list parsed"

definition conditional_body ::
  "parse_options \<Rightarrow> grammar \<Rightarrow> pstate \<Rightarrow> node parsed"
where
  "conditional_body opts g st =
     (let start = tstart (peek 0 st); (entered, st1) = enter opts start st in
      if \<not> entered then Some (unparsed opts start start st1)
      else do {
        (condition, st2) \<leftarrow> g_binary g 0 st1;
        if stopped st2 \<or> \<not> isPunct (js ''?'') st2 then Some (condition, leave st2)
        else do {
          (whenTrue, st3) \<leftarrow> g_conditional g (advance st2);
          let hole = snd (range_of whenTrue);
          (whenFalse, st4) \<leftarrow>
            (if stopped st3 then Some (unparsed opts hole hole st3)
             else let (ok, st') = expectPunct (js '':'') st3 in
               if \<not> ok then Some (unparsed opts hole hole st') else g_conditional g st');
          let (node, st5) = keep opts
            (NConditional condition whenTrue whenFalse (spanning condition whenFalse)) st4;
          Some (node, leave st5)
        }
      })"

definition binary_body ::
  "parse_options \<Rightarrow> grammar \<Rightarrow> nat \<Rightarrow> pstate \<Rightarrow> node parsed"
where
  "binary_body opts g level st =
     (if 5 \<le> level then g_unary g st
      else do {
        (left, st1) \<leftarrow> g_binary g (level + 1) st;
        g_binary_loop g level left st1
      })"

definition binary_loop_body ::
  "parse_options \<Rightarrow> grammar \<Rightarrow> nat \<Rightarrow> node \<Rightarrow> pstate \<Rightarrow> node parsed"
where
  "binary_loop_body opts g level left st =
     (if stopped st then Some (left, st)
      else (case binaryOperatorAt level st of
              None \<Rightarrow> Some (left, st)
            | Some operator \<Rightarrow> do {
                (right, st1) \<leftarrow> g_binary g (level + 1) (advance st);
                let (node, st2) = keep opts (NBinary operator left right (spanning left right)) st1;
                if is_unparsed right then Some (node, st2) else g_binary_loop g level node st2
              }))"

definition unary_body ::
  "parse_options \<Rightarrow> grammar \<Rightarrow> pstate \<Rightarrow> node parsed"
where
  "unary_body opts g st =
     (let token = peek 0 st in
      if kind token = KPunct (js ''!'') \<or> kind token = KPunct (js ''-'') then
        (case (if kind token = KPunct (js ''-'') then foldedNumber opts token st else None) of
           Some (folded, st1) \<Rightarrow> g_postfix g folded st1
         | None \<Rightarrow>
             (let (entered, st1) = enter opts (tstart token) st in
              if \<not> entered then Some (unparsed opts (tstart token) (tstart token) st1)
              else do {
                (operand, st2) \<leftarrow> g_unary g (advance st1);
                let (node, st3) = keep opts
                  (NUnary (if kind token = KPunct (js ''!'') then OpNot else OpMinus) operand
                    (tstart token, snd (range_of operand))) st2;
                Some (node, leave st3)
              }))
      else do {
        (operand, st1) \<leftarrow> g_primary g st;
        g_postfix g operand st1
      })"

definition postfix_body ::
  "parse_options \<Rightarrow> grammar \<Rightarrow> node \<Rightarrow> pstate \<Rightarrow> node parsed"
where
  "postfix_body opts g node st =
     (if stopped st then Some (node, st)
      else if isPunct (js ''.'') st then
        (let (optional, st1) = takePunct (js ''?'') (advance st);
             name = peek 0 st1; quoted = is_quoted (kind name); text = token_text (kind name);
             (named, st2) = expectMemberName name st1 in
         if \<not> named then
           Some (keep opts (NSelect node [] (tstart name, tstart name) optional False
             (fst (range_of node), tstart name)) st2)
         else
           (let st3 = advance st2; fieldRange = token_range name;
                select = NSelect node text fieldRange optional quoted (fst (range_of node), tend name) in
            if quoted \<and> isPunct (js ''('') st3 then Some (keep opts select (unexpected (peek 0 st3) st3))
            else if isPunct (js ''('') st3 then do {
              ((args, end_at), st4) \<leftarrow> g_callArguments g st3;
              let (call, st5) = keep opts
                (NReceiverCall node text fieldRange args (fst (range_of node), end_at)) st4;
              g_postfix g call st5
            }
            else (let (node', st4) = keep opts select st3 in g_postfix g node' st4)))
      else if isPunct (js ''['') st then
        (let (optional, st1) = takePunct (js ''?'') (advance st) in
         do {
           (index, st2) \<leftarrow> g_conditional g st1;
           let (closed, st3) = (if stopped st2 then (False, st2) else expectPunct (js '']'') st2);
           let end_at = (if closed then before_end st3 else snd (range_of index));
           let (node', st4) = keep opts (NIndex node index optional (fst (range_of node), end_at)) st3;
           if \<not> closed then Some (node', st4) else g_postfix g node' st4
         })
      else Some (node, st))"

definition primary_body ::
  "parse_options \<Rightarrow> grammar \<Rightarrow> pstate \<Rightarrow> node parsed"
where
  "primary_body opts g st =
     (let token = peek 0 st; range_here = token_range token;
          whole = unparsed opts (tstart token) (tend token) in
      case kind token of
        KInt v atIntBoundary \<Rightarrow>
          if atIntBoundary then
            Some (whole (stop_with InvalidInteger (tstart token) (tend token) (advance st)))
          else Some (keep opts (NLiteral (LInt v) range_here) (advance st))
      | KUint v \<Rightarrow> Some (keep opts (NLiteral (LUint v) range_here) (advance st))
      | KDouble v \<Rightarrow> Some (keep opts (NLiteral (LDouble v) range_here) (advance st))
      | KString v \<Rightarrow> Some (keep opts (NLiteral (LString v) range_here) (advance st))
      | KBytes v \<Rightarrow> Some (keep opts (NLiteral (LBytes v) range_here) (advance st))
      | KReserved _ \<Rightarrow> Some (whole (snd (expectIdentifier token st)))
      | KKeyword _ \<Rightarrow> Some (whole (unexpected token st))
      | KQuotedIdent _ \<Rightarrow> Some (whole (unexpected token st))
      | KEof \<Rightarrow> Some (whole (unexpected token st))
      | KIdent text \<Rightarrow>
          (let st1 = advance st in
           if text = js ''true'' \<or> text = js ''false'' then
             Some (keep opts (NLiteral (LBool (text = js ''true'')) range_here) st1)
           else if text = js ''null'' then Some (keep opts (NLiteral LNull range_here) st1)
           else if \<not> isPunct (js ''('') st1 then Some (keep opts (NIdent text False range_here) st1)
           else do {
             ((args, end_at), st2) \<leftarrow> g_callArguments g st1;
             Some (keep opts (NCall text range_here args (tstart token, end_at)) st2)
           })
      | KPunct text \<Rightarrow>
          if text = js ''('' then do {
            (inner, st1) \<leftarrow> g_conditional g (advance st);
            Some (inner, if stopped st1 then st1 else snd (expectPunct (js '')'') st1))
          }
          else if text = js ''['' then do {
            (elements, st1) \<leftarrow> g_list_loop g token [] (advance st);
            let (end_at, st2) = closingEnd (js '']'') token (last_end (map fst elements)) st1;
            Some (keep opts (NList elements (tstart token, end_at)) st2)
          }
          else if text = js ''{'' then do {
            (entries, st1) \<leftarrow> g_map_loop g token [] (advance st);
            let (end_at, st2) = closingEnd (js ''}'') token (last_end (map (fst \<circ> snd) entries)) st1;
            Some (keep opts (NMap entries (tstart token, end_at)) st2)
          }
          else if text = js ''.'' then Some (absoluteName opts token st)
          else Some (whole (unexpected token st)))"

definition callArguments_body ::
  "parse_options \<Rightarrow> grammar \<Rightarrow> pstate \<Rightarrow> (node list \<times> nat) parsed"
where
  "callArguments_body opts g st =
     (let opening = peek 0 st in
      do {
        (args, st1) \<leftarrow> g_arguments_loop g opening [] (advance st);
        if stopped st1 then Some ((args, case last_end args of Some e \<Rightarrow> e | None \<Rightarrow> tend opening), st1)
        else Some ((args, tend (peek 0 st1)), snd (expectPunct (js '')'') st1))
      })"

definition arguments_loop_body ::
  "parse_options \<Rightarrow> grammar \<Rightarrow> token \<Rightarrow> node list \<Rightarrow> pstate \<Rightarrow> node list parsed"
where
  "arguments_loop_body opts g opening args st =
     (if stopped st \<or> isPunct (js '')'') st then Some (args, st)
      else do {
        (argument, st1) \<leftarrow> g_conditional g st;
        let args' = args @ [argument];
        if length args' > maxCallArguments (limits opts) then
          Some (args', limit (tstart opening) (snd (range_of argument)) st1)
        else (let (more, st2) = takePunct (js '','') st1 in
          if more then g_arguments_loop g opening args' st2 else Some (args', st2))
      })"

definition list_loop_body ::
  "parse_options \<Rightarrow> grammar \<Rightarrow> token \<Rightarrow> (node \<times> bool) list \<Rightarrow> pstate \<Rightarrow> (node \<times> bool) list parsed"
where
  "list_loop_body opts g opening elements st =
     (if stopped st \<or> isPunct (js '']'') st then Some (elements, st)
      else
        (let (optional, st1) = (if optionalSyntax opts then takePunct (js ''?'') st else (False, st)) in
         do {
           (element, st2) \<leftarrow> g_conditional g st1;
           let elements' = elements @ [(element, optional)];
           if length elements' > maxListElements (limits opts) then
             Some (elements', limit (tstart opening) (snd (range_of element)) st2)
           else (let (more, st3) = takePunct (js '','') st2 in
             if more then g_list_loop g opening elements' st3 else Some (elements', st3))
         }))"

definition map_loop_body ::
  "parse_options \<Rightarrow> grammar \<Rightarrow> token \<Rightarrow> (node \<times> node \<times> bool) list \<Rightarrow> pstate \<Rightarrow> (node \<times> node \<times> bool) list parsed"
where
  "map_loop_body opts g opening entries st =
     (if stopped st \<or> isPunct (js ''}'') st then Some (entries, st)
      else
        (let (optional, st1) = (if optionalSyntax opts then takePunct (js ''?'') st else (False, st)) in
         do {
           (key, st2) \<leftarrow> g_conditional g st1;
           let hole = snd (range_of key);
           let (colon, st3) = (if stopped st2 then (False, st2) else expectPunct (js '':'') st2);
           if \<not> colon then
             (let (value, st4) = unparsed opts hole hole st3 in Some (entries @ [(key, value, optional)], st4))
           else do {
             (value, st4) \<leftarrow> g_conditional g st3;
             let entries' = entries @ [(key, value, optional)];
             if length entries' > maxMapEntries (limits opts) then
               Some (entries', limit (tstart opening) (snd (range_of value)) st4)
             else (let (more, st5) = takePunct (js '','') st4 in
               if more then g_map_loop g opening entries' st5 else Some (entries', st5))
           }
         }))"

text \<open>The grammar at a fuel: with none left no function answers.\<close>

primrec grammar_at :: "parse_options \<Rightarrow> nat \<Rightarrow> grammar" where
  "grammar_at opts 0 =
     \<lparr>g_conditional = (\<lambda>_. None),
       g_binary = (\<lambda>_ _. None),
       g_binary_loop = (\<lambda>_ _ _. None),
       g_unary = (\<lambda>_. None),
       g_postfix = (\<lambda>_ _. None),
       g_primary = (\<lambda>_. None),
       g_callArguments = (\<lambda>_. None),
       g_arguments_loop = (\<lambda>_ _ _. None),
       g_list_loop = (\<lambda>_ _ _. None),
       g_map_loop = (\<lambda>_ _ _. None)\<rparr>"
| "grammar_at opts (Suc n) =
     (let g = grammar_at opts n in
     \<lparr>g_conditional = conditional_body opts g,
       g_binary = binary_body opts g,
       g_binary_loop = binary_loop_body opts g,
       g_unary = unary_body opts g,
       g_postfix = postfix_body opts g,
       g_primary = primary_body opts g,
       g_callArguments = callArguments_body opts g,
       g_arguments_loop = arguments_loop_body opts g,
       g_list_loop = list_loop_body opts g,
       g_map_loop = map_loop_body opts g\<rparr>)"

definition parse_tokens :: "nat \<Rightarrow> parse_options \<Rightarrow> token list \<Rightarrow> node parsed" where
  "parse_tokens fuel opts tokens =
     do {
       (tree, st) \<leftarrow> g_conditional (grammar_at opts fuel)
         \<lparr>left_tokens = tokens, before_end = 0, nodes = 0, depth = 0, stopped = False, diag = None\<rparr>;
       Some (tree, if \<not> stopped st \<and> kind (peek 0 st) \<noteq> KEof then unexpected (peek 0 st) st else st)
     }"

definition parse_fuel :: "token list \<Rightarrow> nat" where
  "parse_fuel tokens = 16 * length tokens + 16"

definition parseSyntax :: "jstring \<Rightarrow> parse_options \<Rightarrow> (node \<times> syntax_diagnostic list) option" where
  "parseSyntax source opts =
     (let (tokens, lexed_first) = tokenize source in
      do {
        (tree, st) \<leftarrow> parse_tokens (parse_fuel tokens) opts tokens;
        Some (tree, firstInSourceOrder lexed_first (diag st) (tstart (last tokens)))
      })"

end
