(* ===== verification/Cel_Parse_Total.thy ===== *)
theory Cel_Parse_Total
  imports Cel_Parser
begin

text \<open>
  The parser always answers, and what it answers without a diagnostic is within the limits: a
  tree with no hole, no taller than the depth limit and with no more nodes than the node limit.

  The proof is one induction on the tokens left and the level of the grammar. \<open>settles b f Q\<close>
  says that from the fuel \<open>b\<close> on, \<open>f\<close> answers one and the same value, of which \<open>Q\<close> holds.
\<close>

section \<open>Settling\<close>

definition settles :: "nat \<Rightarrow> (nat \<Rightarrow> 'a option) \<Rightarrow> ('a \<Rightarrow> bool) \<Rightarrow> bool" where
  "settles b f q \<longleftrightarrow> (\<exists>r. q r \<and> (\<forall>n \<ge> b. f n = Some r))"

lemma settles_Some: "q r \<Longrightarrow> settles b (\<lambda>_. Some r) q"
  by (auto simp: settles_def)

lemma settles_bind:
  assumes "settles b f p" "\<And>x. p x \<Longrightarrow> settles b (\<lambda>n. g n x) q"
  shows "settles b (\<lambda>n. f n \<bind> g n) q"
proof -
  from assms(1) obtain x where x: "p x" "\<And>n. b \<le> n \<Longrightarrow> f n = Some x" by (auto simp: settles_def)
  from assms(2) [OF x(1)] obtain r where "q r" "\<And>n. b \<le> n \<Longrightarrow> g n x = Some r" by (auto simp: settles_def)
  with x(2) show ?thesis unfolding settles_def by (intro exI [of _ r]) simp
qed

lemma settles_weaken:
  "settles b f p \<Longrightarrow> b \<le> c \<Longrightarrow> (\<And>x. p x \<Longrightarrow> q x) \<Longrightarrow> settles c f q"
  unfolding settles_def by (meson order_trans)

lemma settles_Suc:
  assumes "settles b f q" "\<And>n. h (Suc n) = f n"
  shows "settles (Suc b) h q"
proof -
  from assms(1) obtain r where r: "q r" "\<And>n. b \<le> n \<Longrightarrow> f n = Some r" by (auto simp: settles_def)
  have "h n = Some r" if "Suc b \<le> n" for n
    using that assms(2) r(2) by (cases n) auto
  with r(1) show ?thesis by (auto simp: settles_def)
qed

lemma settles_unique:
  assumes "settles b f p" "settles c f q"
  obtains r where "p r" "q r" "\<And>n. b \<le> n \<Longrightarrow> f n = Some r" "\<And>n. c \<le> n \<Longrightarrow> f n = Some r"
proof -
  from assms obtain r s where r: "p r" "\<And>n. b \<le> n \<Longrightarrow> f n = Some r"
    and s: "q s" "\<And>n. c \<le> n \<Longrightarrow> f n = Some s"
    by (auto simp: settles_def)
  from r(2) [of "max b c"] s(2) [of "max b c"] have "r = s" by simp
  with r s that show ?thesis by blast
qed

section \<open>States and moves\<close>

definition left_count :: "pstate \<Rightarrow> nat" where
  "left_count st = length (left_tokens st)"

definition inv :: "parse_options \<Rightarrow> pstate \<Rightarrow> bool" where
  "inv opts st \<longleftrightarrow> left_tokens st \<noteq> [] \<and> kind (last (left_tokens st)) = KEof \<and>
     (stopped st \<longleftrightarrow> diag st \<noteq> None) \<and> (\<not> stopped st \<longrightarrow> nodes st \<le> maxNodes (limits opts))"

text \<open>A move builds no node: it drops tokens or stops.\<close>

definition moves :: "parse_options \<Rightarrow> pstate \<Rightarrow> pstate \<Rightarrow> bool" where
  "moves opts st st' \<longleftrightarrow> inv opts st' \<and> left_count st' \<le> left_count st \<and>
     (stopped st \<longrightarrow> stopped st') \<and> (\<not> stopped st' \<longrightarrow> nodes st' = nodes st)"

lemma moves_refl: "inv opts st \<Longrightarrow> moves opts st st"
  by (simp add: moves_def)

lemma moves_trans: "moves opts st st' \<Longrightarrow> moves opts st' st'' \<Longrightarrow> moves opts st st''"
  by (auto simp: moves_def)

lemma peek_0: "inv opts st \<Longrightarrow> peek 0 st = hd (left_tokens st)"
  by (simp add: peek_def inv_def hd_conv_nth)

lemma moves_advance: "inv opts st \<Longrightarrow> moves opts st (advance st)"
  by (cases "left_tokens st") (auto simp: moves_def inv_def advance_def left_count_def)

lemma advance_shrinks:
  assumes "inv opts st" "kind (peek 0 st) \<noteq> KEof"
  shows "left_count (advance st) < left_count st"
proof -
  obtain t ts where t: "left_tokens st = t # ts" using assms(1) by (cases "left_tokens st") (auto simp: inv_def)
  with assms have "ts \<noteq> []" by (auto simp: inv_def peek_def)
  with t show ?thesis by (simp add: advance_def left_count_def)
qed

lemma moves_stop: "inv opts st \<Longrightarrow> moves opts st (stop_with c a b st)"
  by (auto simp: moves_def inv_def stop_with_def left_count_def report_def split: option.splits)

lemma stopped_stop_with [simp]: "stopped (stop_with c a b st)"
  by (simp add: stop_with_def)

lemma stopped_unexpected [simp]: "stopped (unexpected t st)"
  by (simp add: unexpected_def)

lemma stopped_limit [simp]: "stopped (limit a b st)"
  by (simp add: limit_def)

lemma moves_unexpected: "inv opts st \<Longrightarrow> moves opts st (unexpected t st)"
  by (simp add: unexpected_def moves_stop)

lemma moves_limit: "inv opts st \<Longrightarrow> moves opts st (limit a b st)"
  by (simp add: limit_def moves_stop)

lemma takePunct_moves:
  assumes "takePunct t st = (took, st')" "inv opts st"
  shows "moves opts st st'" and "took \<Longrightarrow> left_count st' < left_count st"
  using assms moves_advance moves_refl advance_shrinks [of opts st]
  by (auto simp: takePunct_def isPunct_def split: if_splits)

lemma expectPunct_moves:
  assumes "expectPunct t st = (took, st')" "inv opts st"
  shows "moves opts st st'" and "took \<Longrightarrow> left_count st' < left_count st" and "\<not> took \<Longrightarrow> stopped st'"
  using assms moves_advance moves_unexpected advance_shrinks [of opts st]
  by (auto simp: expectPunct_def isPunct_def split: if_splits)

lemma enter_moves:
  assumes "enter opts a st = (ok, st')" "inv opts st"
  shows "moves opts st st'" and "\<not> ok \<Longrightarrow> stopped st'" and "ok \<Longrightarrow> 1 \<le> maxDepth (limits opts)"
proof -
  have "inv opts (st\<lparr>depth := d\<rparr>)" "left_count (st\<lparr>depth := d\<rparr>) = left_count st" for d
    using assms(2) by (simp_all add: inv_def left_count_def)
  with assms moves_limit [of opts "st\<lparr>depth := Suc (depth st)\<rparr>" a a]
  show "moves opts st st'" and "\<not> ok \<Longrightarrow> stopped st'" and "ok \<Longrightarrow> 1 \<le> maxDepth (limits opts)"
    by (auto simp: enter_def Let_def moves_def split: if_splits)
qed

lemma moves_leave: "inv opts st \<Longrightarrow> moves opts st (leave st)"
  by (simp add: leave_def moves_def inv_def left_count_def)

lemma expectIdentifier_moves:
  assumes "expectIdentifier t st = (ok, st')" "inv opts st"
  shows "moves opts st st'" and "\<not> ok \<Longrightarrow> stopped st'" and "ok \<Longrightarrow> st' = st"
  using assms moves_refl [OF assms(2)] moves_stop [OF assms(2)] moves_unexpected [OF assms(2)]
  by (auto simp: expectIdentifier_def split: token_kind.splits if_splits)

lemma expectMemberName_moves:
  assumes "expectMemberName t st = (ok, st')" "inv opts st"
  shows "moves opts st st'" and "\<not> ok \<Longrightarrow> stopped st'" and "ok \<Longrightarrow> st' = st"
  using assms moves_refl [OF assms(2)] moves_unexpected [OF assms(2)] expectIdentifier_moves [of t st ok st' opts]
  by (auto simp: expectMemberName_def split: token_kind.splits if_splits)

section \<open>Building\<close>

definition node_count :: "node \<Rightarrow> nat" where
  "node_count n = length (walkTree n)"

definition counts :: "node list \<Rightarrow> nat" where
  "counts ns = sum_list (map node_count ns)"

lemma counts_simps [simp]: "counts [] = 0" "counts (n # ns) = node_count n + counts ns"
  "counts (ns @ ms) = counts ns + counts ms"
  by (simp_all add: counts_def)

lemma node_count_children: "node_count n = Suc (counts (childNodes n))"
  by (simp add: node_count_def [abs_def] counts_def walkTree.simps [of n] length_concat comp_def)

definition fine :: "parse_options \<Rightarrow> node \<Rightarrow> bool" where
  "fine opts n \<longleftrightarrow> \<not> hasUnparsed n \<and> tree_height n \<le> max 1 (maxDepth (limits opts))"

lemma tree_height_leaf: "childNodes n = [] \<Longrightarrow> tree_height n = 1"
  by (simp add: tree_height.simps)

lemma fine_children:
  assumes "\<not> is_unparsed n" "list_all (fine opts) (childNodes n)"
    and "childNodes n \<noteq> [] \<Longrightarrow> tree_height n \<le> maxDepth (limits opts)"
  shows "fine opts n"
  using assms tree_height_leaf [of n]
  by (cases "childNodes n = []") (auto simp: fine_def hasUnparsed_rec [of n] list_all_iff)

text \<open>
  What a function of the grammar answers from \<open>st\<close>: nodes over an amount \<open>acc\<close> already
  counted. Nodes are a list, so that one notion serves the loops over arguments and entries.
\<close>

definition builds :: "parse_options \<Rightarrow> nat \<Rightarrow> pstate \<Rightarrow> node list \<Rightarrow> pstate \<Rightarrow> bool" where
  "builds opts acc st ns st' \<longleftrightarrow> inv opts st' \<and> left_count st' \<le> left_count st \<and> (stopped st \<longrightarrow> stopped st') \<and>
     (\<not> stopped st' \<longrightarrow> list_all (fine opts) ns \<and> nodes st' + acc = nodes st + counts ns)"

abbreviation builds1 :: "parse_options \<Rightarrow> nat \<Rightarrow> pstate \<Rightarrow> node \<times> pstate \<Rightarrow> bool" where
  "builds1 opts acc st r \<equiv> builds opts acc st [fst r] (snd r)"

lemma builds_moves: "builds opts acc st ns st' \<Longrightarrow> moves opts st' st'' \<Longrightarrow> builds opts acc st ns st''"
  by (auto simp: builds_def moves_def)

lemma moves_builds: "moves opts st st' \<Longrightarrow> builds opts acc st' ns st'' \<Longrightarrow> builds opts acc st ns st''"
  by (auto simp: builds_def moves_def)

text \<open>Keeping a node built from the nodes counted.\<close>

lemma keep_snd:
  assumes "inv opts st"
  shows "fst (keep opts n st) = n" and "inv opts (snd (keep opts n st))"
    and "left_tokens (snd (keep opts n st)) = left_tokens st"
    and "stopped st \<Longrightarrow> stopped (snd (keep opts n st))"
    and "\<not> stopped (snd (keep opts n st)) \<Longrightarrow> \<not> stopped st \<and> nodes (snd (keep opts n st)) = Suc (nodes st) \<and>
      (childNodes n \<noteq> [] \<longrightarrow> tree_height n \<le> maxDepth (limits opts))"
  using assms
  by (auto simp: keep_def inv_def limit_def stop_with_def report_def Let_def split: prod.splits option.splits)

lemma keep_builds:
  assumes "builds opts acc st ns st'" "childNodes n = ns" "\<not> is_unparsed n"
  shows "builds1 opts acc st (keep opts n st')"
proof -
  have i: "inv opts st'" using assms(1) by (simp add: builds_def)
  note k = keep_snd [OF i, of n]
  show ?thesis
    using assms k fine_children [of n opts]
    by (auto simp: builds_def left_count_def node_count_children)
qed

lemma keep_leaf:
  assumes "moves opts st st'" "childNodes n = []" "\<not> is_unparsed n"
  shows "builds1 opts 0 st (keep opts n st')"
proof -
  have "builds opts 0 st [] st'" using assms(1) by (auto simp: builds_def moves_def)
  from keep_builds [OF this assms(2,3)] show ?thesis .
qed

text \<open>Stopped, whatever was built stands.\<close>

lemma stopped_builds:
  "moves opts st st' \<Longrightarrow> stopped st' \<Longrightarrow> builds opts acc st ns st'"
  by (auto simp: builds_def moves_def)

lemma keep_stopped:
  assumes "moves opts st st'" "stopped st'"
  shows "builds1 opts acc st (keep opts n st')" "builds1 opts acc st (unparsed opts a b st')"
proof -
  have i: "inv opts st'" using assms(1) by (simp add: moves_def)
  show "builds1 opts acc st (keep opts n st')" "builds1 opts acc st (unparsed opts a b st')"
    using keep_snd [OF i] assms by (auto simp: builds_def moves_def left_count_def unparsed_def)
qed

lemma builds_stop_moves: "builds opts acc st ns st' \<Longrightarrow> stopped st' \<Longrightarrow> moves opts st st'"
  by (auto simp: builds_def moves_def)

lemma builds_seq:
  "builds opts acc st ns st' \<Longrightarrow> moves opts st' st'' \<Longrightarrow> builds opts 0 st'' ms st''' \<Longrightarrow>
     builds opts acc st (ns @ ms) st'''"
  by (auto simp: builds_def moves_def)

lemma builds_seq0: "builds opts acc st ns st' \<Longrightarrow> builds opts 0 st' ms st'' \<Longrightarrow> builds opts acc st (ns @ ms) st''"
  by (auto simp: builds_def)

lemma builds_inv: "builds opts acc st ns st' \<Longrightarrow> inv opts st'"
  by (simp add: builds_def)

lemma builds_count: "builds opts acc st ns st' \<Longrightarrow> left_count st' \<le> left_count st"
  by (simp add: builds_def)

lemma moves_inv: "moves opts st st' \<Longrightarrow> inv opts st'"
  by (simp add: moves_def)

lemma moves_count: "moves opts st st' \<Longrightarrow> left_count st' \<le> left_count st"
  by (simp add: moves_def)

lemma isPunct_not_eof: "isPunct t st \<Longrightarrow> kind (peek 0 st) \<noteq> KEof"
  by (simp add: isPunct_def)

lemma grammar_Suc:
  "g_conditional (grammar_at opts (Suc n)) = conditional_body opts (grammar_at opts n)"
  "g_binary (grammar_at opts (Suc n)) = binary_body opts (grammar_at opts n)"
  "g_binary_loop (grammar_at opts (Suc n)) = binary_loop_body opts (grammar_at opts n)"
  "g_unary (grammar_at opts (Suc n)) = unary_body opts (grammar_at opts n)"
  "g_postfix (grammar_at opts (Suc n)) = postfix_body opts (grammar_at opts n)"
  "g_primary (grammar_at opts (Suc n)) = primary_body opts (grammar_at opts n)"
  "g_callArguments (grammar_at opts (Suc n)) = callArguments_body opts (grammar_at opts n)"
  "g_arguments_loop (grammar_at opts (Suc n)) = arguments_loop_body opts (grammar_at opts n)"
  "g_list_loop (grammar_at opts (Suc n)) = list_loop_body opts (grammar_at opts n)"
  "g_map_loop (grammar_at opts (Suc n)) = map_loop_body opts (grammar_at opts n)"
  by (simp_all add: Let_def)

declare grammar_at.simps [simp del]

section \<open>The induction\<close>

abbreviation G :: "parse_options \<Rightarrow> nat \<Rightarrow> grammar" where "G \<equiv> grammar_at"

definition entry_nodes :: "(node \<times> node \<times> bool) list \<Rightarrow> node list" where
  "entry_nodes es = concat (map (\<lambda>(k, v, _). [k, v]) es)"

lemma entry_nodes_simps [simp]:
  "entry_nodes [] = []" "entry_nodes (es @ fs) = entry_nodes es @ entry_nodes fs"
  "entry_nodes [(k, v, b)] = [k, v]"
  by (simp_all add: entry_nodes_def)

text \<open>Every function settles at every state whose measure is below \<open>k\<close>.\<close>

definition total_below :: "parse_options \<Rightarrow> nat \<Rightarrow> bool" where
  "total_below opts k \<longleftrightarrow> (\<forall>st. inv opts st \<longrightarrow>
     (16 * left_count st + 9 < k \<longrightarrow> settles k (\<lambda>n. g_conditional (G opts n) st) (builds1 opts 0 st)) \<and>
     (\<forall>level. 16 * left_count st + 8 - min level 5 < k \<longrightarrow>
        settles k (\<lambda>n. g_binary (G opts n) level st) (builds1 opts 0 st)) \<and>
     (\<forall>level l. (\<not> stopped st \<longrightarrow> fine opts l) \<longrightarrow> 16 * left_count st + 1 < k \<longrightarrow>
        settles k (\<lambda>n. g_binary_loop (G opts n) level l st) (builds1 opts (node_count l) st)) \<and>
     (16 * left_count st + 2 < k \<longrightarrow> settles k (\<lambda>n. g_unary (G opts n) st) (builds1 opts 0 st)) \<and>
     (\<forall>l. (\<not> stopped st \<longrightarrow> fine opts l) \<longrightarrow> 16 * left_count st + 1 < k \<longrightarrow>
        settles k (\<lambda>n. g_postfix (G opts n) l st) (builds1 opts (node_count l) st)) \<and>
     (16 * left_count st + 1 < k \<longrightarrow> settles k (\<lambda>n. g_primary (G opts n) st) (builds1 opts 0 st)) \<and>
     (16 * left_count st + 14 < k \<longrightarrow> settles k (\<lambda>n. g_callArguments (G opts n) st)
        (\<lambda>r. builds opts 0 st (fst (fst r)) (snd r))) \<and>
     (\<forall>opening args. (\<not> stopped st \<longrightarrow> list_all (fine opts) args) \<longrightarrow> 16 * left_count st + 13 < k \<longrightarrow>
        settles k (\<lambda>n. g_arguments_loop (G opts n) opening args st)
          (\<lambda>r. builds opts (counts args) st (fst r) (snd r))) \<and>
     (\<forall>opening es. (\<not> stopped st \<longrightarrow> list_all (fine opts) (map fst es)) \<longrightarrow> 16 * left_count st + 13 < k \<longrightarrow>
        settles k (\<lambda>n. g_list_loop (G opts n) opening es st)
          (\<lambda>r. builds opts (counts (map fst es)) st (map fst (fst r)) (snd r))) \<and>
     (\<forall>opening es. (\<not> stopped st \<longrightarrow> list_all (fine opts) (entry_nodes es)) \<longrightarrow> 16 * left_count st + 13 < k \<longrightarrow>
        settles k (\<lambda>n. g_map_loop (G opts n) opening es st)
          (\<lambda>r. builds opts (counts (entry_nodes es)) st (entry_nodes (fst r)) (snd r))))"

lemma total_belowD:
  assumes "total_below opts k" "inv opts st"
  shows "16 * left_count st + 9 < k \<Longrightarrow> settles k (\<lambda>n. g_conditional (G opts n) st) (builds1 opts 0 st)"
    and "16 * left_count st + 8 - min level 5 < k \<Longrightarrow>
      settles k (\<lambda>n. g_binary (G opts n) level st) (builds1 opts 0 st)"
    and "(\<not> stopped st \<Longrightarrow> fine opts l) \<Longrightarrow> 16 * left_count st + 1 < k \<Longrightarrow>
      settles k (\<lambda>n. g_binary_loop (G opts n) level l st) (builds1 opts (node_count l) st)"
    and "16 * left_count st + 2 < k \<Longrightarrow> settles k (\<lambda>n. g_unary (G opts n) st) (builds1 opts 0 st)"
    and "(\<not> stopped st \<Longrightarrow> fine opts l) \<Longrightarrow> 16 * left_count st + 1 < k \<Longrightarrow>
      settles k (\<lambda>n. g_postfix (G opts n) l st) (builds1 opts (node_count l) st)"
    and "16 * left_count st + 1 < k \<Longrightarrow> settles k (\<lambda>n. g_primary (G opts n) st) (builds1 opts 0 st)"
    and "16 * left_count st + 14 < k \<Longrightarrow> settles k (\<lambda>n. g_callArguments (G opts n) st)
      (\<lambda>r. builds opts 0 st (fst (fst r)) (snd r))"
    and "(\<not> stopped st \<Longrightarrow> list_all (fine opts) args) \<Longrightarrow> 16 * left_count st + 13 < k \<Longrightarrow>
      settles k (\<lambda>n. g_arguments_loop (G opts n) opening args st) (\<lambda>r. builds opts (counts args) st (fst r) (snd r))"
    and "(\<not> stopped st \<Longrightarrow> list_all (fine opts) (map fst es)) \<Longrightarrow> 16 * left_count st + 13 < k \<Longrightarrow>
      settles k (\<lambda>n. g_list_loop (G opts n) opening es st)
        (\<lambda>r. builds opts (counts (map fst es)) st (map fst (fst r)) (snd r))"
    and "(\<not> stopped st \<Longrightarrow> list_all (fine opts) (entry_nodes ms)) \<Longrightarrow> 16 * left_count st + 13 < k \<Longrightarrow>
      settles k (\<lambda>n. g_map_loop (G opts n) opening ms st)
        (\<lambda>r. builds opts (counts (entry_nodes ms)) st (entry_nodes (fst r)) (snd r))"
  using assms unfolding total_below_def by blast+


text \<open>Rules that follow the shape of a body.\<close>


text \<open>Rules that follow the shape of a body.\<close>


text \<open>Rules that follow the shape of a body.\<close>


text \<open>Rules that follow the shape of a body.\<close>


text \<open>Rules that follow the shape of a body.\<close>


text \<open>Rules that follow the shape of a body.\<close>


text \<open>Rules that follow the shape of a body.\<close>


text \<open>Rules that follow the shape of a body.\<close>


text \<open>Rules that follow the shape of a body.\<close>


text \<open>Rules that follow the shape of a body.\<close>


text \<open>Rules that follow the shape of a body.\<close>


text \<open>Rules that follow the shape of a body.\<close>


text \<open>Rules that follow the shape of a body.\<close>


text \<open>Rules that follow the shape of a body.\<close>


text \<open>Rules that follow the shape of a body.\<close>


text \<open>Rules that follow the shape of a body.\<close>


text \<open>Rules that follow the shape of a body.\<close>


text \<open>Rules that follow the shape of a body.\<close>


text \<open>Rules that follow the shape of a body.\<close>


text \<open>Rules that follow the shape of a body.\<close>

lemma settles_if:
  "(c \<Longrightarrow> settles b f q) \<Longrightarrow> (\<not> c \<Longrightarrow> settles b g q) \<Longrightarrow> settles b (\<lambda>n. if c then f n else g n) q"
  by (cases c) simp_all

lemma settles_pair:
  "(\<And>x y. e = (x, y) \<Longrightarrow> settles b (\<lambda>n. f n x y) q) \<Longrightarrow> settles b (\<lambda>n. case e of (x, y) \<Rightarrow> f n x y) q"
  by (cases e) simp

lemma settles_then:
  assumes "settles b f p" "\<And>x st. p (x, st) \<Longrightarrow> settles b (\<lambda>n. g n x st) q"
  shows "settles b (\<lambda>n. f n \<bind> (\<lambda>(x, st). g n x st)) q"
  by (rule settles_bind [OF assms(1)]) (auto intro: assms(2))

lemma builds_any:
  "builds opts acc st ns st' \<Longrightarrow> stopped st' \<Longrightarrow> builds opts acc' st ms st'"
  by (auto simp: builds_def)

lemma builds_hole:
  assumes "builds opts acc st ns st'" "stopped st'"
  shows "builds opts acc' st ms (snd (unparsed opts a b st'))"
    and "builds opts acc' st ms (snd (keep opts n st'))"
  using assms keep_snd [OF builds_inv [OF assms(1)]]
  by (auto simp: builds_def left_count_def unparsed_def)

lemma keep_is:
  assumes "builds opts acc st ns st'" "keep opts n st' = (m, st'')" "childNodes n = ns" "\<not> is_unparsed n"
  shows "m = n" and "builds opts acc st [n] st''"
  using keep_builds [OF assms(1,3,4)] keep_snd(1) [OF builds_inv [OF assms(1)], of n] assms(2) by auto

lemma builds_start: "moves opts st st' \<Longrightarrow> builds opts 0 st [] st'"
  by (auto simp: builds_def moves_def)

lemma builds_next:
  "builds opts acc st ns st' \<Longrightarrow> moves opts st' st'' \<Longrightarrow> builds1 opts 0 st'' q \<Longrightarrow>
     builds opts acc st (ns @ [fst q]) (snd q)"
  using builds_seq by blast

section \<open>The conditional\<close>

text \<open>Past \<open>? whenTrue\<close>: the colon and the other branch, or a hole.\<close>

lemma else_branch_total:
  assumes IH: "total_below opts k" and b: "builds opts 0 st ns st3" and m: "16 * left_count st3 + 9 < k"
  shows "settles k (\<lambda>n. if stopped st3 then Some (unparsed opts h h st3)
     else case expectPunct (js '':'') st3 of (ok, st') \<Rightarrow>
       if \<not> ok then Some (unparsed opts h h st') else g_conditional (G opts n) st')
     (\<lambda>q. builds opts 0 st (ns @ [fst q]) (snd q))"
proof (intro settles_if settles_pair)
  assume "stopped st3"
  then show "settles k (\<lambda>n. Some (unparsed opts h h st3)) (\<lambda>q. builds opts 0 st (ns @ [fst q]) (snd q))"
    by (intro settles_Some builds_hole(1) [OF b])
next
  fix ok st'
  assume x: "expectPunct (js '':'') st3 = (ok, st')" and "\<not> ok"
  note xm = expectPunct_moves [OF x builds_inv [OF b]]
  then show "settles k (\<lambda>n. Some (unparsed opts h h st')) (\<lambda>q. builds opts 0 st (ns @ [fst q]) (snd q))"
    using \<open>\<not> ok\<close> by (intro settles_Some builds_hole(1) [OF builds_moves [OF b xm(1)]]) simp
next
  fix ok st'
  assume x: "expectPunct (js '':'') st3 = (ok, st')" and "\<not> \<not> ok"
  note xm = expectPunct_moves [OF x builds_inv [OF b]]
  have "16 * left_count st' + 9 < k" using m moves_count [OF xm(1)] by simp
  from total_belowD(1) [OF IH moves_inv [OF xm(1)] this]
  show "settles k (\<lambda>n. g_conditional (G opts n) st') (\<lambda>q. builds opts 0 st (ns @ [fst q]) (snd q))"
    by (rule settles_weaken) (simp_all add: builds_next [OF b xm(1)])
qed

lemma conditional_total:
  assumes IH: "total_below opts k" and i: "inv opts st" and m: "16 * left_count st + 9 \<le> k"
  shows "settles k (\<lambda>n. conditional_body opts (G opts n) st) (builds1 opts 0 st)"
  unfolding conditional_body_def Let_def
proof (intro settles_pair settles_if)
  fix ok st1
  assume e: "enter opts (tstart (peek 0 st)) st = (ok, st1)"
  note em = enter_moves [OF e i]
  show "settles k (\<lambda>n. Some (unparsed opts (tstart (peek 0 st)) (tstart (peek 0 st)) st1)) (builds1 opts 0 st)"
    if "\<not> ok" using keep_stopped(2) [OF em(1) em(2) [OF that]] by (rule settles_Some)
  note i1 = moves_inv [OF em(1)] and c1 = moves_count [OF em(1)]
  have "16 * left_count st1 + 8 - min 0 5 < k" using m c1 by simp
  note first = total_belowD(2) [OF IH i1 this]
  show "settles k (\<lambda>n. g_binary (G opts n) 0 st1 \<bind> (\<lambda>(condition, st2).
      if stopped st2 \<or> \<not> isPunct (js ''?'') st2 then Some (condition, leave st2)
      else g_conditional (G opts n) (advance st2) \<bind> (\<lambda>(whenTrue, st3).
        (if stopped st3 then Some (unparsed opts (snd (range_of whenTrue)) (snd (range_of whenTrue)) st3)
         else case expectPunct (js '':'') st3 of (ok, st') \<Rightarrow>
           if \<not> ok then Some (unparsed opts (snd (range_of whenTrue)) (snd (range_of whenTrue)) st')
           else g_conditional (G opts n) st') \<bind> (\<lambda>(whenFalse, st4).
        case keep opts (NConditional condition whenTrue whenFalse (spanning condition whenFalse)) st4 of
          (node, st5) \<Rightarrow> Some (node, leave st5))))) (builds1 opts 0 st)"
  proof (intro settles_then [OF first] settles_if)
    fix c st2
    assume "builds1 opts 0 st1 (c, st2)"
    with moves_builds [OF em(1)] have b2: "builds opts 0 st [c] st2" by simp
    note i2 = builds_inv [OF b2] and c2 = builds_count [OF b2]
    show "settles k (\<lambda>n. Some (c, leave st2)) (builds1 opts 0 st)"
      by (rule settles_Some) (simp add: builds_moves [OF b2 moves_leave [OF i2]])
    assume "\<not> (stopped st2 \<or> \<not> isPunct (js ''?'') st2)"
    then have lt: "left_count (advance st2) < left_count st2"
      using advance_shrinks [OF i2] isPunct_not_eof by blast
    note mv = moves_advance [OF i2]
    have "16 * left_count (advance st2) + 9 < k" using m c2 lt by simp
    from total_belowD(1) [OF IH moves_inv [OF mv] this]
    show "settles k (\<lambda>n. g_conditional (G opts n) (advance st2) \<bind> (\<lambda>(whenTrue, st3).
        (if stopped st3 then Some (unparsed opts (snd (range_of whenTrue)) (snd (range_of whenTrue)) st3)
         else case expectPunct (js '':'') st3 of (ok, st') \<Rightarrow>
           if \<not> ok then Some (unparsed opts (snd (range_of whenTrue)) (snd (range_of whenTrue)) st')
           else g_conditional (G opts n) st') \<bind> (\<lambda>(whenFalse, st4).
        case keep opts (NConditional c whenTrue whenFalse (spanning c whenFalse)) st4 of
          (node, st5) \<Rightarrow> Some (node, leave st5)))) (builds1 opts 0 st)"
    proof (rule settles_then)
      fix t st3
      assume "builds1 opts 0 (advance st2) (t, st3)"
      with builds_next [OF b2 mv] have b3: "builds opts 0 st [c, t] st3" by fastforce
      have "16 * left_count st3 + 9 < k" using m lt c2 \<open>builds1 opts 0 (advance st2) (t, st3)\<close>
        by (auto dest: builds_count)
      from else_branch_total [OF IH b3 this]
      show "settles k (\<lambda>n. (if stopped st3 then Some (unparsed opts (snd (range_of t)) (snd (range_of t)) st3)
         else case expectPunct (js '':'') st3 of (ok, st') \<Rightarrow>
           if \<not> ok then Some (unparsed opts (snd (range_of t)) (snd (range_of t)) st')
           else g_conditional (G opts n) st') \<bind> (\<lambda>(whenFalse, st4).
        case keep opts (NConditional c t whenFalse (spanning c whenFalse)) st4 of
          (node, st5) \<Rightarrow> Some (node, leave st5))) (builds1 opts 0 st)"
      proof (rule settles_then, intro settles_pair settles_Some)
        fix f st4 node st5
        assume "builds opts 0 st ([c, t] @ [fst (f, st4)]) (snd (f, st4))"
          and kp: "keep opts (NConditional c t f (spanning c f)) st4 = (node, st5)"
        then have "builds opts 0 st [c, t, f] st4" by simp
        from keep_is [OF this kp] have b5: "builds opts 0 st [node] st5" by simp
        from builds_moves [OF b5 moves_leave [OF builds_inv [OF b5]]]
        show "builds1 opts 0 st (node, leave st5)" by simp
      qed
    qed
  qed
qed

section \<open>Operators\<close>

text \<open>Nodes counted before, taken over by what is built on them.\<close>

lemma builds_over:
  "builds opts acc st ls st' \<Longrightarrow> builds opts (counts ls) st' ms st'' \<Longrightarrow> builds opts acc st ms st''"
  by (auto simp: builds_def)

lemma builds_over1:
  assumes "builds opts acc st [l] st'" "builds1 opts (node_count l) st' q"
  shows "builds1 opts acc st q"
  using builds_over [of opts acc st "[l]" st'] assms by simp

lemma builds_held:
  "inv opts st \<Longrightarrow> (\<not> stopped st \<Longrightarrow> list_all (fine opts) ls) \<Longrightarrow> builds opts (counts ls) st ls st"
  by (auto simp: builds_def)

lemma builds_held1:
  "inv opts st \<Longrightarrow> (\<not> stopped st \<Longrightarrow> fine opts l) \<Longrightarrow> builds opts (node_count l) st [l] st"
  using builds_held [of opts st "[l]"] by simp

lemma builds_fine:
  "builds opts acc st [l] st' \<Longrightarrow> \<not> stopped st' \<Longrightarrow> fine opts l"
  by (simp add: builds_def)

lemma keep_count:
  "keep opts n st = (m, st') \<Longrightarrow> inv opts st \<Longrightarrow> left_count st' = left_count st"
  using keep_snd(3) [of opts st n] by (simp add: left_count_def)

lemma binary_total:
  assumes IH: "total_below opts k" and i: "inv opts st" and m: "16 * left_count st + 8 - min level 5 \<le> k"
  shows "settles k (\<lambda>n. binary_body opts (G opts n) level st) (builds1 opts 0 st)"
  unfolding binary_body_def
proof (rule settles_if, goal_cases)
  case 1
  then have "16 * left_count st + 2 < k" using m by simp
  from total_belowD(4) [OF IH i this] show ?case .
next
  case 2
  then have "16 * left_count st + 8 - min (level + 1) 5 < k" using m by simp
  from total_belowD(2) [OF IH i this] show ?case
  proof (rule settles_then)
    fix l st1
    assume "builds1 opts 0 st (l, st1)"
    then have b: "builds opts 0 st [l] st1" by simp
    have "16 * left_count st1 + 1 < k" using m 2 builds_count [OF b] by simp
    from total_belowD(3) [OF IH builds_inv [OF b] builds_fine [OF b] this]
    show "settles k (\<lambda>n. g_binary_loop (G opts n) level l st1) (builds1 opts 0 st)"
      by (rule settles_weaken) (simp_all add: builds_over1 [OF b])
  qed
qed

lemma binary_loop_total:
  assumes IH: "total_below opts k" and i: "inv opts st" and f: "\<not> stopped st \<Longrightarrow> fine opts l"
    and m: "16 * left_count st + 1 \<le> k"
  shows "settles k (\<lambda>n. binary_loop_body opts (G opts n) level l st) (builds1 opts (node_count l) st)"
  unfolding binary_loop_body_def Let_def
proof (rule settles_if, goal_cases)
  case 1
  show ?case by (rule settles_Some) (simp add: builds_held1 [OF i f])
next
  case 2
  show ?case
  proof (cases "binaryOperatorAt level st")
    case None
    show ?thesis unfolding None option.case by (rule settles_Some) (simp add: builds_held1 [OF i f])
  next
    case (Some op)
    then have "kind (peek 0 st) \<noteq> KEof" by (auto simp: binaryOperatorAt_def)
    note lt = advance_shrinks [OF i this] and mv = moves_advance [OF i]
    then have "16 * left_count (advance st) + 8 - min (level + 1) 5 < k" using m by simp
    from total_belowD(2) [OF IH moves_inv [OF mv] this]
    show ?thesis unfolding Some option.case
    proof (rule settles_then, intro settles_pair settles_if)
      fix r st1 node st2
      assume r: "builds1 opts 0 (advance st) (r, st1)"
        and kp: "keep opts (NBinary op l r (spanning l r)) st1 = (node, st2)"
      have b1: "builds opts (node_count l) st [l, r] st1"
        using builds_next [OF builds_held1 [OF i f] mv r] by simp
      from keep_is [OF b1 kp] have b2: "builds opts (node_count l) st [node] st2" by simp
      show "settles k (\<lambda>n. Some (node, st2)) (builds1 opts (node_count l) st)"
        by (rule settles_Some) (simp add: b2)
      have "left_count st2 \<le> left_count (advance st)"
        using keep_count [OF kp builds_inv [OF b1]] builds_count [OF r] by simp
      then have "16 * left_count st2 + 1 < k" using lt m by simp
      from total_belowD(3) [OF IH builds_inv [OF b2] builds_fine [OF b2] this]
      show "settles k (\<lambda>n. g_binary_loop (G opts n) level node st2) (builds1 opts (node_count l) st)"
        by (rule settles_weaken) (simp_all add: builds_over1 [OF b2])
    qed
  qed
qed

lemma foldedNumber_builds:
  assumes "foldedNumber opts t st = Some (n, st')" "inv opts st" "kind (peek 0 st) \<noteq> KEof"
  shows "builds opts 0 st [n] st'" and "left_count st' < left_count st"
proof -
  have mv: "moves opts st (advance (advance st))"
    using moves_trans [OF moves_advance moves_advance] moves_inv [OF moves_advance] assms(2) by blast
  have kp: "\<exists>m. keep opts m (advance (advance st)) = (n, st') \<and> childNodes m = [] \<and> \<not> is_unparsed m"
    using assms(1) by (auto simp: foldedNumber_def Let_def split: token_kind.splits)
  then obtain m where m: "keep opts m (advance (advance st)) = (n, st')" "childNodes m = []" "\<not> is_unparsed m"
    by blast
  from keep_is(2) [OF builds_start [OF mv] m] keep_is(1) [OF builds_start [OF mv] m]
  show "builds opts 0 st [n] st'" by simp
  have "left_count st' = left_count (advance (advance st))"
    by (rule keep_count [OF m(1) moves_inv [OF mv]])
  also have "\<dots> \<le> left_count (advance st)"
    by (rule moves_count [OF moves_advance [OF moves_inv [OF moves_advance [OF assms(2)]]]])
  also have "\<dots> < left_count st" by (rule advance_shrinks [OF assms(2,3)])
  finally show "left_count st' < left_count st" .
qed


text \<open>A node kept past an amount, and what is read from it on.\<close>

lemma continue_total:
  assumes b: "builds opts acc st [l] st'" and s: "settles k f (builds1 opts (node_count l) st')"
  shows "settles k f (builds1 opts acc st)"
  using s by (rule settles_weaken) (simp_all add: builds_over1 [OF b])

lemma settles_then2:
  assumes "settles b f p" "\<And>x y st. p ((x, y), st) \<Longrightarrow> settles b (\<lambda>n. g n x y st) q"
  shows "settles b (\<lambda>n. f n \<bind> (\<lambda>((x, y), st). g n x y st)) q"
  by (rule settles_bind [OF assms(1)]) (auto intro: assms(2))

lemma unary_total:
  assumes IH: "total_below opts k" and i: "inv opts st" and m: "16 * left_count st + 2 \<le> k"
  shows "settles k (\<lambda>n. unary_body opts (G opts n) st) (builds1 opts 0 st)"
  unfolding unary_body_def Let_def
proof (rule settles_if, goal_cases)
  case 1
  then have eof: "kind (peek 0 st) \<noteq> KEof" by auto
  let ?folded = "if kind (peek 0 st) = KPunct (js ''-'') then foldedNumber opts (peek 0 st) st else None"
  show ?case
  proof (cases ?folded)
    case (Some q)
    obtain l st1 where q: "q = (l, st1)" by (cases q)
    with Some have "foldedNumber opts (peek 0 st) st = Some (l, st1)" by (simp split: if_splits)
    note b = foldedNumber_builds [OF this i eof]
    then have "16 * left_count st1 + 1 < k" using m by simp
    from continue_total [OF b(1) total_belowD(5) [OF IH builds_inv [OF b(1)] builds_fine [OF b(1)] this]]
    show ?thesis unfolding Some q option.case prod.case .
  next
    case None
    show ?thesis unfolding None option.case
    proof (intro settles_pair settles_if)
      fix ok st1
      assume e: "enter opts (tstart (peek 0 st)) st = (ok, st1)"
      note em = enter_moves [OF e i]
      show "settles k (\<lambda>n. Some (unparsed opts (tstart (peek 0 st)) (tstart (peek 0 st)) st1)) (builds1 opts 0 st)"
        if "\<not> ok" using keep_stopped(2) [OF em(1) em(2) [OF that]] by (rule settles_Some)
      have same: "left_tokens st1 = left_tokens st"
        using e by (auto simp: enter_def Let_def limit_def stop_with_def split: if_splits)
      have mv: "moves opts st (advance st1)" using moves_trans [OF em(1) moves_advance] moves_inv [OF em(1)] .
      have lt: "left_count (advance st1) < left_count st"
        using advance_shrinks [OF moves_inv [OF em(1)]] eof same by (simp add: peek_def left_count_def)
      then have "16 * left_count (advance st1) + 2 < k" using m by simp
      note operand = total_belowD(4) [OF IH moves_inv [OF mv] this]
      show "settles k (\<lambda>n. g_unary (G opts n) (advance st1) \<bind> (\<lambda>(operand, st2).
          case keep opts (NUnary (if kind (peek 0 st) = KPunct (js ''!'') then OpNot else OpMinus) operand
            (tstart (peek 0 st), snd (range_of operand))) st2 of (node, st3) \<Rightarrow> Some (node, leave st3)))
        (builds1 opts 0 st)"
      proof (rule settles_then [OF operand], intro settles_pair settles_Some, goal_cases)
        case (1 l st2 node st3)
        then have "builds opts 0 st [l] st2" using moves_builds [OF mv] by simp
        from keep_is(2) [OF this 1(2)] keep_is(1) [OF this 1(2)] have b: "builds opts 0 st [node] st3" by simp
        from builds_moves [OF b moves_leave [OF builds_inv [OF b]]] show ?case by simp
      qed
    qed
  qed
next
  case 2
  have "16 * left_count st + 1 < k" using m by simp
  from total_belowD(6) [OF IH i this] show ?case
  proof (rule settles_then)
    fix l st1
    assume "builds1 opts 0 st (l, st1)"
    then have b: "builds opts 0 st [l] st1" by simp
    have "16 * left_count st1 + 1 < k" using m builds_count [OF b] by simp
    from continue_total [OF b total_belowD(5) [OF IH builds_inv [OF b] builds_fine [OF b] this]]
    show "settles k (\<lambda>n. g_postfix (G opts n) l st1) (builds1 opts 0 st)" .
  qed
qed

section \<open>Members, elements and calls\<close>

text \<open>Past the dot: the name, and a call where an argument list follows it.\<close>

lemma member_total:
  assumes IH: "total_below opts k" and i: "inv opts st" and f: "\<not> stopped st \<Longrightarrow> fine opts l"
    and mv: "moves opts st st3" and lt: "left_count st3 < left_count st" and m: "16 * left_count st + 1 \<le> k"
  shows "settles k (\<lambda>n. if quoted \<and> isPunct (js ''('') st3
       then Some (keep opts (NSelect l text r optional quoted r') (unexpected (peek 0 st3) st3))
     else if isPunct (js ''('') st3 then g_callArguments (G opts n) st3 \<bind> (\<lambda>((args, end_at), st4).
       case keep opts (NReceiverCall l text r args (fst (range_of l), end_at)) st4 of
         (call, st5) \<Rightarrow> g_postfix (G opts n) call st5)
     else case keep opts (NSelect l text r optional quoted r') st3 of
         (node', st4) \<Rightarrow> g_postfix (G opts n) node' st4) (builds1 opts (node_count l) st)"
proof (intro settles_if settles_pair)
  note held = builds_moves [OF builds_held1 [OF i f] mv]
  note i3 = moves_inv [OF mv]
  show "settles k (\<lambda>n. Some (keep opts (NSelect l text r optional quoted r') (unexpected (peek 0 st3) st3)))
    (builds1 opts (node_count l) st)"
  proof (rule settles_Some)
    have "builds opts (node_count l) st [l] (unexpected (peek 0 st3) st3)"
      using builds_moves [OF held moves_unexpected [OF i3]] .
    from keep_builds [OF this] show "builds1 opts (node_count l) st
      (keep opts (NSelect l text r optional quoted r') (unexpected (peek 0 st3) st3))" by simp
  qed
  have "16 * left_count st3 + 14 < k" using lt m by simp
  from total_belowD(7) [OF IH i3 this]
  show "settles k (\<lambda>n. g_callArguments (G opts n) st3 \<bind> (\<lambda>((args, end_at), st4).
       case keep opts (NReceiverCall l text r args (fst (range_of l), end_at)) st4 of
         (call, st5) \<Rightarrow> g_postfix (G opts n) call st5)) (builds1 opts (node_count l) st)"
  proof (rule settles_then2, intro settles_pair)
    fix args end_at st4 call st5
    assume "builds opts 0 st3 (fst (fst ((args, end_at), st4))) (snd ((args, end_at), st4))"
      and kp: "keep opts (NReceiverCall l text r args (fst (range_of l), end_at)) st4 = (call, st5)"
    then have a: "builds opts 0 st3 args st4" by simp
    from builds_seq0 [OF held this] have b4: "builds opts (node_count l) st (l # args) st4" by simp
    from keep_is [OF b4 kp] have b5: "builds opts (node_count l) st [call] st5" by simp
    have "16 * left_count st5 + 1 < k" using keep_count [OF kp builds_inv [OF b4]] builds_count [OF a] lt m by simp
    from continue_total [OF b5 total_belowD(5) [OF IH builds_inv [OF b5] builds_fine [OF b5] this]]
    show "settles k (\<lambda>n. g_postfix (G opts n) call st5) (builds1 opts (node_count l) st)" .
  qed
  fix node' st4
  assume kp: "keep opts (NSelect l text r optional quoted r') st3 = (node', st4)"
  from keep_is [OF held kp] have b4: "builds opts (node_count l) st [node'] st4" by simp
  have "16 * left_count st4 + 1 < k" using keep_count [OF kp i3] lt m by simp
  from continue_total [OF b4 total_belowD(5) [OF IH builds_inv [OF b4] builds_fine [OF b4] this]]
  show "settles k (\<lambda>n. g_postfix (G opts n) node' st4) (builds1 opts (node_count l) st)" .
qed

lemma index_total:
  assumes IH: "total_below opts k" and i: "inv opts st" and f: "\<not> stopped st \<Longrightarrow> fine opts l"
    and mv: "moves opts st st1" and lt: "left_count st1 < left_count st" and m: "16 * left_count st + 1 \<le> k"
  shows "settles k (\<lambda>n. g_conditional (G opts n) st1 \<bind> (\<lambda>(index, st2).
       case (if stopped st2 then (False, st2) else expectPunct (js '']'') st2) of (shut, st3) \<Rightarrow>
       case keep opts (NIndex l index optional
         (fst (range_of l), if shut then before_end st3 else snd (range_of index))) st3 of (node', st4) \<Rightarrow>
       if \<not> shut then Some (node', st4) else g_postfix (G opts n) node' st4)) (builds1 opts (node_count l) st)"
proof -
  note held = builds_held1 [OF i f]
  have "16 * left_count st1 + 9 < k" using lt m by simp
  from total_belowD(1) [OF IH moves_inv [OF mv] this] show ?thesis
  proof (rule settles_then, intro settles_pair settles_if)
    fix e st2 shut st3 node' st4
    assume e: "builds1 opts 0 st1 (e, st2)"
      and x: "(if stopped st2 then (False, st2) else expectPunct (js '']'') st2) = (shut, st3)"
      and kp: "keep opts (NIndex l e optional
         (fst (range_of l), if shut then before_end st3 else snd (range_of e))) st3 = (node', st4)"
    have b2: "builds opts (node_count l) st [l, e] st2" using builds_next [OF held mv e] by simp
    note i2 = builds_inv [OF b2]
    have mv3: "moves opts st2 st3" using x expectPunct_moves(1) [OF _ i2] moves_refl [OF i2] by (auto split: if_splits)
    from keep_is [OF builds_moves [OF b2 mv3] kp] have b4: "builds opts (node_count l) st [node'] st4" by simp
    show "settles k (\<lambda>n. Some (node', st4)) (builds1 opts (node_count l) st)"
      by (rule settles_Some) (simp add: b4)
    have "16 * left_count st4 + 1 < k"
      using keep_count [OF kp moves_inv [OF mv3]] moves_count [OF mv3] builds_count [OF e] lt m by simp
    from continue_total [OF b4 total_belowD(5) [OF IH builds_inv [OF b4] builds_fine [OF b4] this]]
    show "settles k (\<lambda>n. g_postfix (G opts n) node' st4) (builds1 opts (node_count l) st)" .
  qed
qed

lemma postfix_total:
  assumes IH: "total_below opts k" and i: "inv opts st" and f: "\<not> stopped st \<Longrightarrow> fine opts l"
    and m: "16 * left_count st + 1 \<le> k"
  shows "settles k (\<lambda>n. postfix_body opts (G opts n) l st) (builds1 opts (node_count l) st)"
  unfolding postfix_body_def Let_def
proof (rule settles_if, goal_cases stop go)
  case stop
  show ?case by (rule settles_Some) (simp add: builds_held1 [OF i f])
next
  case go
  have mv: "moves opts st (advance st)" by (rule moves_advance [OF i])
  show ?case
  proof (rule settles_if, goal_cases dot other)
    case dot
    show ?case
    proof (intro settles_pair, rule settles_if, goal_cases)
      case (1 optional st1 named st2)
      note t = takePunct_moves [OF 1(1) moves_inv [OF mv]]
      note n = expectMemberName_moves [OF 1(2) moves_inv [OF t(1)]]
      have "builds opts (node_count l) st [l] st2"
        using builds_moves [OF builds_moves [OF builds_moves [OF builds_held1 [OF i f] mv] t(1)] n(1)] .
      from keep_builds [OF this] show ?case by (intro settles_Some) simp
    next
      case (2 optional st1 named st2)
      note t = takePunct_moves [OF 2(1) moves_inv [OF mv]]
      note n = expectMemberName_moves [OF 2(2) moves_inv [OF t(1)]]
      note last = moves_advance [OF moves_inv [OF n(1)]]
      have mv3: "moves opts st (advance st2)"
        using moves_trans [OF mv moves_trans [OF t(1) moves_trans [OF n(1) last]]] .
      have "left_count (advance st2) < left_count st"
        using advance_shrinks [OF i isPunct_not_eof [OF dot]] moves_count [OF t(1)] moves_count [OF n(1)]
          moves_count [OF last] by simp
      from member_total [OF IH i f mv3 this m] show ?case by simp
    qed
  next
    case other
    show ?case
    proof (rule settles_if, goal_cases)
      case 1
      show ?case
      proof (rule settles_pair)
        fix optional st1
        assume "takePunct (js ''?'') (advance st) = (optional, st1)"
        note t = takePunct_moves [OF this moves_inv [OF mv]]
        have "left_count st1 < left_count st"
          using advance_shrinks [OF i isPunct_not_eof [OF 1]] moves_count [OF t(1)] by simp
        note index = index_total [OF IH i f moves_trans [OF mv t(1)] this m]
        show "settles k (\<lambda>n. g_conditional (G opts n) st1 \<bind> (\<lambda>(index, st2).
          case (if stopped st2 then (False, st2) else expectPunct (js '']'') st2) of (shut, st3) \<Rightarrow>
          case keep opts (NIndex l index optional
            (fst (range_of l), if shut then before_end st3 else snd (range_of index))) st3 of (node', st4) \<Rightarrow>
          if \<not> shut then Some (node', st4) else g_postfix (G opts n) node' st4)) (builds1 opts (node_count l) st)"
          by (rule index) simp
      qed
    next
      case 2
      show ?case by (rule settles_Some) (simp add: builds_held1 [OF i f])
    qed
  qed
qed


section \<open>Loops\<close>

lemma arguments_loop_total:
  assumes IH: "total_below opts k" and i: "inv opts st" and f: "\<not> stopped st \<Longrightarrow> list_all (fine opts) args"
    and m: "16 * left_count st + 13 \<le> k"
  shows "settles k (\<lambda>n. arguments_loop_body opts (G opts n) opening args st)
    (\<lambda>r. builds opts (counts args) st (fst r) (snd r))"
  unfolding arguments_loop_body_def Let_def
proof (rule settles_if, goal_cases)
  case 1
  show ?case by (rule settles_Some) (simp add: builds_held [OF i f])
next
  case 2
  have "16 * left_count st + 9 < k" using m by simp
  from total_belowD(1) [OF IH i this] show ?case
  proof (rule settles_then, intro settles_if settles_pair)
    fix a st1
    assume a: "builds1 opts 0 st (a, st1)"
    have b1: "builds opts (counts args) st (args @ [a]) st1"
      using builds_next [OF builds_held [OF i f] moves_refl [OF i] a] by simp
    note i1 = builds_inv [OF b1]
    show "settles k (\<lambda>n. Some (args @ [a], limit (tstart opening) (snd (range_of a)) st1))
      (\<lambda>r. builds opts (counts args) st (fst r) (snd r))"
      by (rule settles_Some) (simp add: builds_moves [OF b1 moves_limit [OF i1]])
    fix comma st2
    assume t: "takePunct (js '','') st1 = (comma, st2)"
    note tm = takePunct_moves [OF t i1]
    note b2 = builds_moves [OF b1 tm(1)]
    show "settles k (\<lambda>n. Some (args @ [a], st2)) (\<lambda>r. builds opts (counts args) st (fst r) (snd r))"
      by (rule settles_Some) (simp add: b2)
    assume comma
    have "16 * left_count st2 + 13 < k" using tm(2) [OF \<open>comma\<close>] builds_count [OF a] m by simp
    note rest = total_belowD(8) [OF IH builds_inv [OF b2] _ this]
    show "settles k (\<lambda>n. g_arguments_loop (G opts n) opening (args @ [a]) st2)
      (\<lambda>r. builds opts (counts args) st (fst r) (snd r))"
    proof (rule settles_weaken [OF rest])
      show "list_all (fine opts) (args @ [a])" if "\<not> stopped st2" using b2 that by (simp add: builds_def)
      show "builds opts (counts args) st (fst r) (snd r)" if "builds opts (counts (args @ [a])) st2 (fst r) (snd r)"
        for r using builds_over [OF b2 that] .
    qed simp
  qed
qed

text \<open>The mark before an element or an entry.\<close>

lemma mark_moves:
  assumes "(if optionalSyntax opts then takePunct (js ''?'') st else (False, st)) = (optional, st1)" "inv opts st"
  shows "moves opts st st1"
  using assms takePunct_moves(1) moves_refl by (auto split: if_splits)

lemma list_loop_total:
  assumes IH: "total_below opts k" and i: "inv opts st"
    and f: "\<not> stopped st \<Longrightarrow> list_all (fine opts) (map fst es)" and m: "16 * left_count st + 13 \<le> k"
  shows "settles k (\<lambda>n. list_loop_body opts (G opts n) opening es st)
    (\<lambda>r. builds opts (counts (map fst es)) st (map fst (fst r)) (snd r))"
  unfolding list_loop_body_def Let_def
proof (rule settles_if, goal_cases)
  case 1
  show ?case by (rule settles_Some) (simp add: builds_held [OF i f])
next
  case 2
  show ?case
  proof (rule settles_pair)
    fix optional st1
    assume "(if optionalSyntax opts then takePunct (js ''?'') st else (False, st)) = (optional, st1)"
    note mv = mark_moves [OF this i]
    have "16 * left_count st1 + 9 < k" using m moves_count [OF mv] by simp
    from total_belowD(1) [OF IH moves_inv [OF mv] this]
    show "settles k (\<lambda>n. g_conditional (G opts n) st1 \<bind> (\<lambda>(element, st2).
        if length (es @ [(element, optional)]) > maxListElements (limits opts) then
          Some (es @ [(element, optional)], limit (tstart opening) (snd (range_of element)) st2)
        else case takePunct (js '','') st2 of (comma, st3) \<Rightarrow>
          if comma then g_list_loop (G opts n) opening (es @ [(element, optional)]) st3
          else Some (es @ [(element, optional)], st3)))
      (\<lambda>r. builds opts (counts (map fst es)) st (map fst (fst r)) (snd r))"
    proof (rule settles_then, intro settles_if settles_pair)
      fix e st2
      let ?es = "es @ [(e, optional)]"
      assume e: "builds1 opts 0 st1 (e, st2)"
      have b2: "builds opts (counts (map fst es)) st (map fst ?es) st2"
        using builds_next [OF builds_held [OF i f] mv e] by simp
      note i2 = builds_inv [OF b2]
      show "settles k (\<lambda>n. Some (?es, limit (tstart opening) (snd (range_of e)) st2))
        (\<lambda>r. builds opts (counts (map fst es)) st (map fst (fst r)) (snd r))"
        by (rule settles_Some) (use builds_moves [OF b2 moves_limit [OF i2]] in simp)
      fix comma st3
      assume t: "takePunct (js '','') st2 = (comma, st3)"
      note tm = takePunct_moves [OF t i2]
      note b3 = builds_moves [OF b2 tm(1)]
      show "settles k (\<lambda>n. Some (?es, st3)) (\<lambda>r. builds opts (counts (map fst es)) st (map fst (fst r)) (snd r))"
        by (rule settles_Some) (use b3 in simp)
      assume comma
      have "16 * left_count st3 + 13 < k"
        using tm(2) [OF \<open>comma\<close>] builds_count [OF e] moves_count [OF mv] m by simp
      note rest = total_belowD(9) [OF IH builds_inv [OF b3] _ this]
      show "settles k (\<lambda>n. g_list_loop (G opts n) opening ?es st3)
        (\<lambda>r. builds opts (counts (map fst es)) st (map fst (fst r)) (snd r))"
      proof (rule settles_weaken [OF rest])
        show "list_all (fine opts) (map fst ?es)" if "\<not> stopped st3" using b3 that by (simp add: builds_def)
        show "builds opts (counts (map fst es)) st (map fst (fst r)) (snd r)"
          if "builds opts (counts (map fst ?es)) st3 (map fst (fst r)) (snd r)" for r
          using builds_over [OF b3 that] .
      qed simp
    qed
  qed
qed

text \<open>Past a key: the colon and the value, or a hole.\<close>

lemma entry_total:
  assumes IH: "total_below opts k" and b: "builds opts acc st (entry_nodes es @ [key]) st2"
    and m: "16 * left_count st2 + 13 \<le> k"
  shows "settles k (\<lambda>n. case (if stopped st2 then (False, st2) else expectPunct (js '':'') st2) of (colon, st3) \<Rightarrow>
     if \<not> colon then (case unparsed opts hole hole st3 of (value, st4) \<Rightarrow> Some (es @ [(key, value, optional)], st4))
     else g_conditional (G opts n) st3 \<bind> (\<lambda>(value, st4).
       if length (es @ [(key, value, optional)]) > maxMapEntries (limits opts) then
         Some (es @ [(key, value, optional)], limit (tstart opening) (snd (range_of value)) st4)
       else case takePunct (js '','') st4 of (comma, st5) \<Rightarrow>
         if comma then g_map_loop (G opts n) opening (es @ [(key, value, optional)]) st5
         else Some (es @ [(key, value, optional)], st5)))
     (\<lambda>r. builds opts acc st (entry_nodes (fst r)) (snd r))"
proof (rule settles_pair, rule settles_if, goal_cases)
  case (1 colon st3)
  note i2 = builds_inv [OF b]
  have mv: "moves opts st2 st3" and s: "stopped st3"
    using 1 expectPunct_moves(1,3) [OF _ i2] moves_refl [OF i2] by (auto split: if_splits)
  show ?case
  proof (intro settles_pair settles_Some)
    fix v st4
    assume "unparsed opts hole hole st3 = (v, st4)"
    with builds_hole(1) [OF builds_moves [OF b mv] s, of acc "entry_nodes (es @ [(key, v, optional)])" hole hole]
    show "builds opts acc st (entry_nodes (fst (es @ [(key, v, optional)], st4))) (snd (es @ [(key, v, optional)], st4))"
      by simp
  qed
next
  case (2 colon st3)
  note i2 = builds_inv [OF b]
  have mv: "moves opts st2 st3" and lt: "left_count st3 < left_count st2"
    using 2 expectPunct_moves(1,2) [OF _ i2] by (auto split: if_splits)
  have "16 * left_count st3 + 9 < k" using lt m by simp
  from total_belowD(1) [OF IH moves_inv [OF mv] this] show ?case
  proof (rule settles_then, intro settles_if settles_pair)
    fix v st4
    let ?es = "es @ [(key, v, optional)]"
    assume v: "builds1 opts 0 st3 (v, st4)"
    have b4: "builds opts acc st (entry_nodes ?es) st4" using builds_next [OF b mv v] by simp
    note i4 = builds_inv [OF b4]
    show "settles k (\<lambda>n. Some (?es, limit (tstart opening) (snd (range_of v)) st4))
      (\<lambda>r. builds opts acc st (entry_nodes (fst r)) (snd r))"
      by (rule settles_Some) (use builds_moves [OF b4 moves_limit [OF i4]] in simp)
    fix comma st5
    assume t: "takePunct (js '','') st4 = (comma, st5)"
    note tm = takePunct_moves [OF t i4]
    note b5 = builds_moves [OF b4 tm(1)]
    show "settles k (\<lambda>n. Some (?es, st5)) (\<lambda>r. builds opts acc st (entry_nodes (fst r)) (snd r))"
      by (rule settles_Some) (use b5 in simp)
    have "16 * left_count st5 + 13 < k"
      using moves_count [OF tm(1)] builds_count [OF v] lt m by simp
    note rest = total_belowD(10) [OF IH builds_inv [OF b5] _ this]
    show "settles k (\<lambda>n. g_map_loop (G opts n) opening ?es st5) (\<lambda>r. builds opts acc st (entry_nodes (fst r)) (snd r))"
    proof (rule settles_weaken [OF rest])
      show "list_all (fine opts) (entry_nodes ?es)" if "\<not> stopped st5" using b5 that by (simp add: builds_def)
      show "builds opts acc st (entry_nodes (fst r)) (snd r)"
        if "builds opts (counts (entry_nodes ?es)) st5 (entry_nodes (fst r)) (snd r)" for r
        using builds_over [OF b5 that] .
    qed simp
  qed
qed

lemma map_loop_total:
  assumes IH: "total_below opts k" and i: "inv opts st"
    and f: "\<not> stopped st \<Longrightarrow> list_all (fine opts) (entry_nodes es)" and m: "16 * left_count st + 13 \<le> k"
  shows "settles k (\<lambda>n. map_loop_body opts (G opts n) opening es st)
    (\<lambda>r. builds opts (counts (entry_nodes es)) st (entry_nodes (fst r)) (snd r))"
  unfolding map_loop_body_def Let_def
proof (rule settles_if, goal_cases)
  case 1
  show ?case by (rule settles_Some) (simp add: builds_held [OF i f])
next
  case 2
  show ?case
  proof (rule settles_pair, goal_cases)
    case (1 optional st1)
    note mv = mark_moves [OF this i]
    have "16 * left_count st1 + 9 < k" using m moves_count [OF mv] by simp
    from total_belowD(1) [OF IH moves_inv [OF mv] this] show ?case
    proof (rule settles_then)
      fix key st2
      assume key: "builds1 opts 0 st1 (key, st2)"
      have b2: "builds opts (counts (entry_nodes es)) st (entry_nodes es @ [key]) st2"
        using builds_next [OF builds_held [OF i f] mv key] by simp
      have "16 * left_count st2 + 13 \<le> k" using builds_count [OF key] moves_count [OF mv] m by simp
      from entry_total [OF IH b2 this]
      show "settles k (\<lambda>n. case (if stopped st2 then (False, st2) else expectPunct (js '':'') st2) of (colon, st3) \<Rightarrow>
         if \<not> colon then (case unparsed opts (snd (range_of key)) (snd (range_of key)) st3 of (value, st4) \<Rightarrow>
           Some (es @ [(key, value, optional)], st4))
         else g_conditional (G opts n) st3 \<bind> (\<lambda>(value, st4).
           if length (es @ [(key, value, optional)]) > maxMapEntries (limits opts) then
             Some (es @ [(key, value, optional)], limit (tstart opening) (snd (range_of value)) st4)
           else case takePunct (js '','') st4 of (comma, st5) \<Rightarrow>
             if comma then g_map_loop (G opts n) opening (es @ [(key, value, optional)]) st5
             else Some (es @ [(key, value, optional)], st5)))
         (\<lambda>r. builds opts (counts (entry_nodes es)) st (entry_nodes (fst r)) (snd r))" .
    qed
  qed
qed

lemma callArguments_total:
  assumes IH: "total_below opts k" and i: "inv opts st" and m: "16 * left_count st + 14 \<le> k"
  shows "settles k (\<lambda>n. callArguments_body opts (G opts n) st) (\<lambda>r. builds opts 0 st (fst (fst r)) (snd r))"
  unfolding callArguments_body_def Let_def
proof -
  note mv = moves_advance [OF i]
  have "16 * left_count (advance st) + 13 < k" using moves_count [OF mv] m by simp
  note loop = total_belowD(8) [OF IH moves_inv [OF mv] _ this, of "[]"]
  show "settles k (\<lambda>n. g_arguments_loop (G opts n) (peek 0 st) [] (advance st) \<bind> (\<lambda>(args, st1).
      if stopped st1 then Some ((args, case last_end args of Some e \<Rightarrow> e | None \<Rightarrow> tend (peek 0 st)), st1)
      else Some ((args, tend (peek 0 st1)), snd (expectPunct (js '')'') st1))))
    (\<lambda>r. builds opts 0 st (fst (fst r)) (snd r))"
  proof (rule settles_then [OF loop], simp, intro settles_if settles_Some)
    fix args st1
    assume "builds opts (counts []) (advance st) (fst (args, st1)) (snd (args, st1))"
    then have b: "builds opts 0 st args st1" using moves_builds [OF mv] by simp
    show "builds opts 0 st (fst (fst ((args, case last_end args of Some e \<Rightarrow> e | None \<Rightarrow> tend (peek 0 st)), st1)))
      (snd ((args, case last_end args of Some e \<Rightarrow> e | None \<Rightarrow> tend (peek 0 st)), st1))"
      using b by simp
    obtain ok st2 where x: "expectPunct (js '')'') st1 = (ok, st2)" by fastforce
    from builds_moves [OF b expectPunct_moves(1) [OF x builds_inv [OF b]]]
    show "builds opts 0 st (fst (fst ((args, tend (peek 0 st1)), snd (expectPunct (js '')'') st1))))
      (snd ((args, tend (peek 0 st1)), snd (expectPunct (js '')'') st1)))"
      unfolding x by simp
  qed
qed


section \<open>Primaries\<close>

text \<open>Taking the token off leaves fewer, and every loop below it has room.\<close>

lemma closingEnd_moves:
  assumes "closingEnd bracket opening e st = (end_at, st')" "inv opts st"
  shows "moves opts st st'"
  using assms expectPunct_moves(1) moves_refl
  by (auto simp: closingEnd_def Let_def split: if_splits prod.splits)

lemma absoluteName_builds:
  assumes "inv opts st"
  shows "builds1 opts 0 st (absoluteName opts dot st)"
proof -
  obtain ok st2 where e: "expectIdentifier (peek 0 (advance st)) (advance st) = (ok, st2)" by fastforce
  note mv = moves_advance [OF assms]
  note em = expectIdentifier_moves [OF e moves_inv [OF mv]]
  note to2 = moves_trans [OF mv em(1)]
  show ?thesis
  proof (cases ok)
    case True
    from keep_leaf [OF moves_trans [OF to2 moves_advance [OF moves_inv [OF to2]]]] True
    show ?thesis by (simp add: absoluteName_def e Let_def)
  next
    case False
    from keep_stopped(2) [OF to2 em(2) [OF False]] False show ?thesis
      by (simp add: absoluteName_def e Let_def)
  qed
qed

lemma parenthesis_total:
  assumes IH: "total_below opts k" and i: "inv opts st" and lt: "left_count (advance st) < left_count st"
    and m: "16 * left_count st + 1 \<le> k"
  shows "settles k (\<lambda>n. g_conditional (G opts n) (advance st) \<bind> (\<lambda>(inner, st1).
     Some (inner, if stopped st1 then st1 else snd (expectPunct (js '')'') st1)))) (builds1 opts 0 st)"
proof -
  note mv = moves_advance [OF i]
  have "16 * left_count (advance st) + 9 < k" using lt m by simp
  from total_belowD(1) [OF IH moves_inv [OF mv] this] show ?thesis
  proof (rule settles_then, intro settles_Some)
    fix l st1
    assume "builds1 opts 0 (advance st) (l, st1)"
    then have b: "builds opts 0 st [l] st1" using moves_builds [OF mv] by simp
    obtain ok st2 where x: "expectPunct (js '')'') st1 = (ok, st2)" by fastforce
    from b builds_moves [OF b expectPunct_moves(1) [OF x builds_inv [OF b]]]
    show "builds1 opts 0 st (l, if stopped st1 then st1 else snd (expectPunct (js '')'') st1))"
      unfolding x by simp
  qed
qed

lemma list_total:
  assumes IH: "total_below opts k" and i: "inv opts st" and lt: "left_count (advance st) < left_count st"
    and m: "16 * left_count st + 1 \<le> k"
  shows "settles k (\<lambda>n. g_list_loop (G opts n) token [] (advance st) \<bind> (\<lambda>(elements, st1).
     case closingEnd (js '']'') token (last_end (map fst elements)) st1 of (end_at, st2) \<Rightarrow>
       Some (keep opts (NList elements (tstart token, end_at)) st2))) (builds1 opts 0 st)"
proof -
  note mv = moves_advance [OF i]
  have "16 * left_count (advance st) + 13 < k" using lt m by simp
  note loop = total_belowD(9) [OF IH moves_inv [OF mv] _ this, of "[]"]
  show ?thesis
  proof (rule settles_then [OF loop], simp, intro settles_pair settles_Some)
    fix es :: "(node \<times> bool) list" and st1 end_at st2
    assume l: "builds opts (counts (map fst [])) (advance st) (map fst (fst (es, st1))) (snd (es, st1))"
      and c: "closingEnd (js '']'') token (last_end (map fst es)) st1 = (end_at, st2)"
    have b: "builds opts 0 st (map fst es) st1" using moves_builds [OF mv] l by simp
    from keep_builds [OF builds_moves [OF b closingEnd_moves [OF c builds_inv [OF b]]]]
    show "builds1 opts 0 st (keep opts (NList es (tstart token, end_at)) st2)" by simp
  qed
qed

lemma map_total:
  assumes IH: "total_below opts k" and i: "inv opts st" and lt: "left_count (advance st) < left_count st"
    and m: "16 * left_count st + 1 \<le> k"
  shows "settles k (\<lambda>n. g_map_loop (G opts n) token [] (advance st) \<bind> (\<lambda>(entries, st1).
     case closingEnd (js ''}'') token (last_end (map (fst \<circ> snd) entries)) st1 of (end_at, st2) \<Rightarrow>
       Some (keep opts (NMap entries (tstart token, end_at)) st2))) (builds1 opts 0 st)"
proof -
  note mv = moves_advance [OF i]
  have "16 * left_count (advance st) + 13 < k" using lt m by simp
  note loop = total_belowD(10) [OF IH moves_inv [OF mv] _ this, of "[]"]
  show ?thesis
  proof (rule settles_then [OF loop], simp, intro settles_pair settles_Some)
    fix es :: "(node \<times> node \<times> bool) list" and st1 end_at st2
    assume l: "builds opts (counts (entry_nodes [])) (advance st) (entry_nodes (fst (es, st1))) (snd (es, st1))"
      and c: "closingEnd (js ''}'') token (last_end (map (fst \<circ> snd) es)) st1 = (end_at, st2)"
    have b: "builds opts 0 st (entry_nodes es) st1" using moves_builds [OF mv] l by simp
    from keep_builds [OF builds_moves [OF b closingEnd_moves [OF c builds_inv [OF b]]]]
    show "builds1 opts 0 st (keep opts (NMap es (tstart token, end_at)) st2)"
      by (simp add: entry_nodes_def)
  qed
qed

lemma call_total:
  assumes IH: "total_below opts k" and i: "inv opts st" and lt: "left_count (advance st) < left_count st"
    and m: "16 * left_count st + 1 \<le> k"
  shows "settles k (\<lambda>n. g_callArguments (G opts n) (advance st) \<bind> (\<lambda>((args, end_at), st2).
     Some (keep opts (NCall text r args (tstart token, end_at)) st2))) (builds1 opts 0 st)"
proof -
  note mv = moves_advance [OF i]
  have "16 * left_count (advance st) + 14 < k" using lt m by simp
  from total_belowD(7) [OF IH moves_inv [OF mv] this] show ?thesis
  proof (rule settles_then2, intro settles_Some)
    fix args :: "node list" and end_at :: nat and st2
    assume "builds opts 0 (advance st) (fst (fst ((args, end_at), st2))) (snd ((args, end_at), st2))"
    then have "builds opts 0 st args st2" using moves_builds [OF mv] by simp
    from keep_builds [OF this]
    show "builds1 opts 0 st (keep opts (NCall text r args (tstart token, end_at)) st2)" by simp
  qed
qed

lemma whole_builds:
  assumes "inv opts st"
  shows "builds1 opts 0 st (unparsed opts a b (unexpected token st))"
    and "kind token = KReserved text \<Longrightarrow> builds1 opts 0 st (unparsed opts a b (snd (expectIdentifier token st)))"
  using keep_stopped(2) [OF moves_unexpected [OF assms(1)]] keep_stopped(2) [OF moves_stop [OF assms(1)]]
  by (simp_all add: expectIdentifier_def)

lemma primary_total:
  assumes IH: "total_below opts k" and i: "inv opts st" and m: "16 * left_count st + 1 \<le> k"
  shows "settles k (\<lambda>n. primary_body opts (G opts n) st) (builds1 opts 0 st)"
proof -
  note mv = moves_advance [OF i] and leaf = keep_leaf [OF moves_advance [OF i]]
  note room = advance_shrinks [OF i]
  show ?thesis
  proof (cases "kind (peek 0 st)")
    case (KIdent w)
    then have lt: "left_count (advance st) < left_count st" by (simp add: room)
    show ?thesis unfolding primary_body_def Let_def KIdent token_kind.case
    proof (intro settles_if)
      show "settles k (\<lambda>n. g_callArguments (G opts n) (advance st) \<bind> (\<lambda>((args, end_at), st2).
        Some (keep opts (NCall w (token_range (peek 0 st)) args (tstart (peek 0 st), end_at)) st2)))
        (builds1 opts 0 st)" by (rule call_total [OF IH i lt m])
    qed (rule settles_Some, rule leaf, simp_all)+
  next
    case (KPunct w)
    then have lt: "left_count (advance st) < left_count st" by (simp add: room)
    show ?thesis unfolding primary_body_def Let_def KPunct token_kind.case
      by (intro settles_if parenthesis_total [OF IH i lt m] list_total [OF IH i lt m] map_total [OF IH i lt m]
          settles_Some absoluteName_builds [OF i] whole_builds(1) [OF i])
  next
    case (KInt v b)
    show ?thesis unfolding primary_body_def Let_def KInt token_kind.case
    proof (intro settles_if settles_Some)
      show "builds1 opts 0 st (unparsed opts (tstart (peek 0 st)) (tend (peek 0 st))
        (stop_with InvalidInteger (tstart (peek 0 st)) (tend (peek 0 st)) (advance st)))"
        using keep_stopped(2) [OF moves_trans [OF mv moves_stop [OF moves_inv [OF mv]]]] by simp
    qed (rule leaf, simp_all)
  qed (auto simp: primary_body_def Let_def intro!: settles_Some leaf whole_builds [OF i])
qed

section \<open>Every function settles\<close>

lemma total_Suc:
  assumes "total_below opts k"
  shows "total_below opts (Suc k)"
  unfolding total_below_def
proof (intro allI impI conjI, goal_cases)
  case (1 st) then show ?case
    by (intro settles_Suc [OF conditional_total [OF assms] grammar_Suc(1) [THEN fun_cong]]) simp_all
next
  case (2 st level) then show ?case
    by (intro settles_Suc [OF binary_total [OF assms]]) (simp_all add: grammar_Suc)
next
  case (3 st level l) then show ?case
    by (intro settles_Suc [OF binary_loop_total [OF assms]]) (simp_all add: grammar_Suc)
next
  case (4 st) then show ?case
    by (intro settles_Suc [OF unary_total [OF assms]]) (simp_all add: grammar_Suc)
next
  case (5 st l) then show ?case
    by (intro settles_Suc [OF postfix_total [OF assms]]) (simp_all add: grammar_Suc)
next
  case (6 st) then show ?case
    by (intro settles_Suc [OF primary_total [OF assms]]) (simp_all add: grammar_Suc)
next
  case (7 st) then show ?case
    by (intro settles_Suc [OF callArguments_total [OF assms]]) (simp_all add: grammar_Suc)
next
  case (8 st op args) then show ?case
    by (intro settles_Suc [OF arguments_loop_total [OF assms]]) (simp_all add: grammar_Suc)
next
  case (9 st op es) then show ?case
    by (intro settles_Suc [OF list_loop_total [OF assms]]) (simp_all add: grammar_Suc)
next
  case (10 st op es) then show ?case
    by (intro settles_Suc [OF map_loop_total [OF assms]]) (simp_all add: grammar_Suc)
qed

lemma total_everywhere: "total_below opts k"
  by (induction k) (simp_all add: total_below_def [of _ 0] total_Suc)


section \<open>The parser\<close>

lemma tokens_from_last:
  "fst (tokens_from pos s) \<noteq> [] \<and> kind (last (fst (tokens_from pos s))) = KEof"
proof (induction pos s rule: tokens_from.induct)
  case (1 pos s)
  obtain start s' where k: "skipIgnored pos s = (start, s')" by fastforce
  show ?case
  proof (cases "s' = [] \<or> (\<exists>d. next_token start s' = Inl d)")
    case True
    then show ?thesis by (auto simp: tokens_from.simps [of pos s] k Let_def)
  next
    case False
    then obtain t rest where n: "next_token start s' = Inr (t, rest)" by (cases "next_token start s'") auto
    with 1 [of "(start, s')" start s' _ "(t, rest)" t rest] k False show ?thesis
      by (auto simp: tokens_from.simps [of pos s] k Let_def split: prod.splits)
  qed
qed

lemma parse_tokens_settles:
  assumes "tokens \<noteq> []" "kind (last tokens) = KEof" "parse_fuel tokens \<le> fuel"
  shows "\<exists>tree st. parse_tokens fuel opts tokens = Some (tree, st) \<and>
    (diag st = None \<longrightarrow> fine opts tree \<and> node_count tree \<le> maxNodes (limits opts))"
proof -
  let ?st = "\<lparr>left_tokens = tokens, before_end = 0, nodes = 0, depth = 0, stopped = False, diag = None\<rparr>"
  have i: "inv opts ?st" using assms by (simp add: inv_def)
  have "settles (parse_fuel tokens) (\<lambda>n. g_conditional (G opts n) ?st) (builds1 opts 0 ?st)"
    by (rule total_belowD(1) [OF total_everywhere i]) (simp add: parse_fuel_def left_count_def)
  then obtain tree st where b: "builds opts 0 ?st [tree] st" and g: "g_conditional (G opts fuel) ?st = Some (tree, st)"
    using assms(3) unfolding settles_def by (metis prod.collapse)
  define st' where "st' = (if \<not> stopped st \<and> kind (peek 0 st) \<noteq> KEof then unexpected (peek 0 st) st else st)"
  have b': "builds opts 0 ?st [tree] st'"
    using b builds_moves [OF b moves_unexpected [OF builds_inv [OF b]]] by (simp add: st'_def)
  have "fine opts tree \<and> node_count tree \<le> maxNodes (limits opts)" if "diag st' = None"
    using b' that by (auto simp: builds_def inv_def)
  moreover have "parse_tokens fuel opts tokens = Some (tree, st')"
    by (simp add: parse_tokens_def g st'_def)
  ultimately show ?thesis by auto
qed

lemma parseSyntax_settles:
  "\<exists>tree ds. parseSyntax source opts = Some (tree, ds) \<and> length ds \<le> 1 \<and>
     (ds = [] \<longrightarrow> fine opts tree \<and> node_count tree \<le> maxNodes (limits opts))"
proof -
  obtain tokens d where t: "tokenize source = (tokens, d)" by fastforce
  then have "tokens \<noteq> []" "kind (last tokens) = KEof"
    using tokens_from_last [of 0 source] by (simp_all add: tokenize_def)
  from parse_tokens_settles [OF this order_refl, of opts] obtain tree st
    where "parse_tokens (parse_fuel tokens) opts tokens = Some (tree, st)"
    and "diag st = None \<longrightarrow> fine opts tree \<and> node_count tree \<le> maxNodes (limits opts)" by auto
  then show ?thesis
    by (auto simp: parseSyntax_def t firstInSourceOrder_def split: option.splits)
qed

text \<open>C19. The parser answers on every source, with one diagnostic at most: the recursive
  descent terminates within the fuel it is given, whatever the source and the limits are.\<close>

theorem parseSyntax_answers:
  "\<exists>tree ds. parseSyntax source opts = Some (tree, ds) \<and> length ds \<le> 1"
  using parseSyntax_settles by blast

text \<open>C20. What the parser answers without a diagnostic is a whole tree within the limits: no node
  of it is unparsed, it is no taller than the depth limit (a single node is one tall), and it has no more nodes
  than the node limit, counted over the whole tree.\<close>

theorem parseSyntax_clean_within_limits:
  assumes "parseSyntax source opts = Some (tree, [])"
  shows "\<not> hasUnparsed tree \<and> tree_height tree \<le> max 1 (maxDepth (limits opts)) \<and>
    length (walkTree tree) \<le> maxNodes (limits opts)"
  using parseSyntax_settles [of source opts] assms by (auto simp: fine_def node_count_def)

text \<open>Evaluating the grammar by its fuel, one level at a time.\<close>

lemmas grammar_numeral = grammar_Suc [where n = "pred_numeral k" for k, folded numeral_eq_Suc]

lemmas grammar_eval = grammar_numeral conditional_body_def binary_body_def binary_loop_body_def unary_body_def
  postfix_body_def primary_body_def Let_def
  enter_def leave_def peek_def advance_def isPunct_def binaryOperatorAt_def operators_at_def keep_def token_range_def

theorem parseSyntax_clean_within_limits_witness:
  "parseSyntax (js ''a'') \<lparr>limits = DEFAULT_PARSE_LIMITS, optionalSyntax = False\<rparr> =
     Some (NIdent (js ''a'') False (0, 1), []) \<and> \<not> hasUnparsed (NIdent (js ''a'') False (0, 1))"
proof -
  have t: "tokenize (js ''a'') = ([\<lparr>kind = KIdent (js ''a''), tstart = 0, tend = 1\<rparr>, \<lparr>kind = KEof, tstart = 1, tend = 1\<rparr>], None)"
    by code_simp
  have "parseSyntax (js ''a'') \<lparr>limits = DEFAULT_PARSE_LIMITS, optionalSyntax = False\<rparr> =
     Some (NIdent (js ''a'') False (0, 1), [])"
    unfolding parseSyntax_def t parse_tokens_def parse_fuel_def
    by (simp add: grammar_eval DEFAULT_PARSE_LIMITS_def firstInSourceOrder_def)
  from this parseSyntax_clean_within_limits [OF this] show ?thesis by simp
qed

end
