(* ===== verification/Durable_Journal.thy ===== *)
theory Durable_Journal
  imports Telo_Prelude Complex_Main
begin

text \<open>
  What a journal of durable runs provides (\<open>modules/durable-local/nodejs/src/journal.ts\<close>): the
  records it keeps, its operations as the record of functions the engine calls, and the
  contract those operations promise, as the locale \<open>durable_journal\<close>.

  The type variable \<open>'f\<close> is the value as it was written down: a journal keeps it and never
  looks inside. The type variable \<open>'s\<close> is what a store is made of. The clock is an argument and counts whole
  milliseconds; a deadline is a number of milliseconds and may be a fraction, as a wait with jitter computes one.
\<close>

section \<open>Records\<close>

datatype entry_kind = StepEntry | DecisionEntry

datatype decision_kind = DInputs | DPredicate | DCondition | DCollection | DSwitch | DValue

record recorded_target =
  t_kind :: jstring
  t_name :: jstring
  t_module :: "jstring option"

record 'f journal_entry =
  epath :: jstring
  ekind :: entry_kind
  edecision :: "decision_kind option"
  etarget :: "recorded_target option"
  eversion :: "nat option"
  evalue :: "'f option"

record park_record =
  p_path :: jstring
  p_resource :: jstring
  p_at :: "rat option"
  p_token :: "jstring option"

datatype run_status = Scheduled | Running | Parked | Completed | Failed | Cancelled

record 'f run_record =
  r_status :: run_status
  r_due_at :: "rat option"
  r_parked :: "park_record option"
  r_inputs :: "'f option"
  r_inputs_version :: "nat option"
  r_result :: "'f option"
  r_result_version :: "nat option"
  r_error :: "(jstring \<times> jstring) option"
  r_collapsed_regions :: "nat option"
  r_collapse_reasons :: "jstring list option"
  r_replayed_steps :: "nat option"

definition blank_record :: "run_status \<Rightarrow> 'f run_record" where
  "blank_record st = \<lparr>r_status = st, r_due_at = None, r_parked = None, r_inputs = None, r_inputs_version = None,
     r_result = None, r_result_version = None, r_error = None, r_collapsed_regions = None,
     r_collapse_reasons = None, r_replayed_steps = None\<rparr>"

lemma blank_record_simps [simp]:
  "r_status (blank_record st) = st" "r_due_at (blank_record st) = None" "r_parked (blank_record st) = None"
  "r_result (blank_record st) = None"
  by (simp_all add: blank_record_def)

fun terminal :: "run_status \<Rightarrow> bool" where
  "terminal Completed = True"
| "terminal Failed = True"
| "terminal Cancelled = True"
| "terminal _ = False"

text \<open>Who takes a run, and until when.\<close>

type_synonym claim = "jstring \<times> int"

record 'f admission =
  a_status :: run_status
  a_due_at :: "rat option"
  a_inputs :: "'f option"
  a_inputs_version :: "nat option"
  a_claim :: "(jstring \<times> int) option"

text \<open>A claim another holder has and that has not lapsed.\<close>

definition held_by_other :: "claim option \<Rightarrow> jstring \<Rightarrow> int \<Rightarrow> bool" where
  "held_by_other c holder now \<longleftrightarrow> (case c of None \<Rightarrow> False | Some (h, until) \<Rightarrow> now < until \<and> h \<noteq> holder)"

definition live_claim :: "claim option \<Rightarrow> int \<Rightarrow> bool" where
  "live_claim c now \<longleftrightarrow> (case c of None \<Rightarrow> False | Some (_, until) \<Rightarrow> now < until)"

section \<open>Operations\<close>

text \<open>What a journal cannot read, and what its store refuses to write, with the code of the store's refusal.\<close>

datatype journal_error = JournalCorrupt | StoreRefused jstring

type_synonym ('s, 'a) journal_op = "'s \<Rightarrow> (journal_error + 'a) \<times> 's"

record ('s, 'f) journal =
  j_admit :: "jstring \<Rightarrow> 'f admission \<Rightarrow> int \<Rightarrow> ('s, bool \<times> 'f run_record option) journal_op"
  j_read :: "jstring \<Rightarrow> 's \<Rightarrow> journal_error + 'f run_record option"
  j_entries :: "jstring \<Rightarrow> 's \<Rightarrow> journal_error + 'f journal_entry list"
  j_append :: "jstring \<Rightarrow> 'f journal_entry \<Rightarrow> ('s, 'f journal_entry) journal_op"
  j_complete :: "jstring \<Rightarrow> 'f run_record \<Rightarrow> ('s, unit) journal_op"
  j_park :: "jstring \<Rightarrow> park_record \<Rightarrow> ('s, unit) journal_op"
  j_unpark :: "jstring \<Rightarrow> ('s, unit) journal_op"
  j_parked_on :: "jstring \<Rightarrow> 's \<Rightarrow> journal_error + (jstring \<times> park_record) option"
  j_due :: "int \<Rightarrow> nat \<Rightarrow> 's \<Rightarrow> journal_error + jstring list"
  j_claim :: "jstring \<Rightarrow> jstring \<Rightarrow> int \<Rightarrow> int \<Rightarrow> ('s, bool) journal_op"

section \<open>The contract\<close>

text \<open>First writer wins at a path.\<close>

definition entry_at :: "jstring \<Rightarrow> 'f journal_entry list \<Rightarrow> 'f journal_entry option" where
  "entry_at p es = find (\<lambda>e. epath e = p) es"

definition stored_entry :: "'f journal_entry list \<Rightarrow> 'f journal_entry \<Rightarrow> 'f journal_entry" where
  "stored_entry es e = (case entry_at (epath e) es of Some w \<Rightarrow> w | None \<Rightarrow> e)"

definition with_entry :: "'f journal_entry list \<Rightarrow> 'f journal_entry \<Rightarrow> 'f journal_entry list" where
  "with_entry es e = (if entry_at (epath e) es = None then es @ [e] else es)"

lemma entry_at_Nil [simp]: "entry_at p [] = None"
  by (simp add: entry_at_def)

lemma entry_at_None: "entry_at p es = None \<longleftrightarrow> p \<notin> epath ` set es"
  by (auto simp: entry_at_def find_None_iff)

lemma entry_at_append:
  "entry_at p (es @ fs) = (case entry_at p es of Some e \<Rightarrow> Some e | None \<Rightarrow> entry_at p fs)"
  by (induction es) (auto simp: entry_at_def)

lemma entry_at_path: "entry_at p es = Some e \<Longrightarrow> epath e = p \<and> e \<in> set es"
  by (auto simp: entry_at_def find_Some_iff)

lemma entry_at_single: "entry_at p [e] = (if epath e = p then Some e else None)"
  by (simp add: entry_at_def)

lemma stored_path [simp]: "epath (stored_entry es e) = epath e"
  by (auto simp: stored_entry_def split: option.splits dest: entry_at_path)

lemma with_entry_at:
  "entry_at p (with_entry es e) = (if p = epath e then Some (stored_entry es e) else entry_at p es)"
  by (auto simp: with_entry_def stored_entry_def entry_at_append entry_at_single split: option.splits)

lemma with_entry_keeps: "entry_at p es = Some w \<Longrightarrow> entry_at p (with_entry es e) = Some w"
  by (auto simp: with_entry_at stored_entry_def)

lemma with_entry_distinct: "distinct (map epath es) \<Longrightarrow> distinct (map epath (with_entry es e))"
  by (auto simp: with_entry_def entry_at_None)

text \<open>What a poller should work on now.\<close>

definition time_reached :: "rat option \<Rightarrow> int \<Rightarrow> bool" where
  "time_reached due now \<longleftrightarrow> (case due of None \<Rightarrow> False | Some t \<Rightarrow> t \<le> of_int now)"

definition is_due :: "'f run_record \<Rightarrow> bool \<Rightarrow> int \<Rightarrow> bool" where
  "is_due r answered now \<longleftrightarrow>
     (case r_status r of
        Running \<Rightarrow> True
      | Scheduled \<Rightarrow> time_reached (r_due_at r) now
      | Parked \<Rightarrow> answered \<or> time_reached (r_due_at r) now
      | _ \<Rightarrow> False)"

lemma terminal_not_due: "terminal (r_status r) \<Longrightarrow> \<not> is_due r answered now"
  by (cases "r_status r") (simp_all add: is_due_def)

definition answered :: "'f run_record \<Rightarrow> 'f journal_entry list \<Rightarrow> bool" where
  "answered r es \<longleftrightarrow> (case r_parked r of None \<Rightarrow> False | Some p \<Rightarrow> entry_at (p_path p) es \<noteq> None)"

text \<open>
  The journals differ in three ways, which are parameters of the contract: \<open>stores_time\<close> says of a deadline whether the
  store can write it; \<open>due_after r p\<close> when a run with the record \<open>r\<close> is due once it is parked by \<open>p\<close>; and \<open>wakes r\<close>
  whether a run with the record \<open>r\<close> is set running by a wake. What \<open>journal.ts\<close> asks for is \<open>guarded_journal\<close> below.
\<close>

locale durable_journal =
  fixes J :: "('s, 'f) journal" and ok :: "'s \<Rightarrow> bool"
    and entries_of :: "'s \<Rightarrow> jstring \<Rightarrow> 'f journal_entry list"
    and record_of :: "'s \<Rightarrow> jstring \<Rightarrow> 'f run_record option"
    and claim_of :: "'s \<Rightarrow> jstring \<Rightarrow> claim option"
    and stores_time :: "rat \<Rightarrow> bool"
    and due_after :: "'f run_record \<Rightarrow> park_record \<Rightarrow> rat option"
    and wakes :: "'f run_record \<Rightarrow> bool"
  assumes read_law: "ok s \<Longrightarrow> j_read J run s = Inr (record_of s run)"
    and entries_law: "ok s \<Longrightarrow> j_entries J run s = Inr (entries_of s run)"
    and distinct_law: "ok s \<Longrightarrow> distinct (map epath (entries_of s run))"
    and append_law: "ok s \<Longrightarrow> \<exists>s'. j_append J run e s = (Inr (stored_entry (entries_of s run) e), s') \<and> ok s' \<and>
      entries_of s' = (entries_of s)(run := with_entry (entries_of s run) e) \<and> record_of s' = record_of s \<and>
      claim_of s' = claim_of s"
    and admit_law: "ok s \<Longrightarrow> pred_option stores_time (a_due_at a) \<Longrightarrow> \<exists>admitted existing s'. j_admit J run a now s = (Inr (admitted, existing), s') \<and> ok s' \<and>
      entries_of s' = entries_of s \<and>
      (if admitted then record_of s run = None \<and>
         (\<exists>r. record_of s' = (record_of s)(run \<mapsto> r) \<and> r_status r = a_status a \<and> r_due_at r = a_due_at a \<and>
            r_inputs r = a_inputs a \<and> r_inputs_version r = a_inputs_version a \<and> r_parked r = None) \<and>
         (\<forall>h ttl. a_claim a = Some (h, ttl) \<longrightarrow> claim_of s' run = Some (h, now + ttl))
       else record_of s' = record_of s \<and> claim_of s' = claim_of s \<and>
         (\<forall>r. record_of s run = Some r \<longrightarrow> existing = Some r))"
    and admit_refused: "ok s \<Longrightarrow> \<not> pred_option stores_time (a_due_at a) \<Longrightarrow> \<exists>e. j_admit J run a now s = (Inl e, s)"
    and complete_law: "ok s \<Longrightarrow> record_of s run = Some r \<Longrightarrow> r_due_at out = None \<Longrightarrow> r_parked out = None \<Longrightarrow>
      \<exists>r' s'. j_complete J run out s = (Inr (), s') \<and> ok s' \<and> entries_of s' = entries_of s \<and>
        record_of s' = (record_of s)(run \<mapsto> r') \<and> r_status r' = r_status out \<and> r_result r' = r_result out \<and> r_result_version r' = r_result_version out \<and>
        r_error r' = r_error out \<and> r_due_at r' = None \<and> r_parked r' = None \<and>
        claim_of s' = (claim_of s)(run := None)"
    and park_law: "ok s \<Longrightarrow> record_of s run = Some r \<Longrightarrow> p_path p \<noteq> [] \<Longrightarrow> pred_option stores_time (p_at p) \<Longrightarrow>
      \<exists>r' s'. j_park J run p s = (Inr (), s') \<and> ok s' \<and> entries_of s' = entries_of s \<and>
        record_of s' = (record_of s)(run \<mapsto> r') \<and> r_status r' = Parked \<and>
        (\<exists>p'. r_parked r' = Some p' \<and> p_path p' = p_path p \<and> p_token p' = p_token p) \<and>
        r_due_at r' = due_after r p \<and> claim_of s' = (claim_of s)(run := None)"
    and park_refused: "ok s \<Longrightarrow> record_of s run = Some r \<Longrightarrow> p_path p \<noteq> [] \<Longrightarrow> \<not> pred_option stores_time (p_at p) \<Longrightarrow>
      \<exists>e. j_park J run p s = (Inl e, s)"
    and unpark_law: "ok s \<Longrightarrow> record_of s run = Some r \<Longrightarrow>
      \<exists>s'. j_unpark J run s = (Inr (), s') \<and> ok s' \<and> entries_of s' = entries_of s \<and> claim_of s' = claim_of s \<and>
        (if wakes r then \<exists>r'. record_of s' = (record_of s)(run \<mapsto> r') \<and> r_status r' = Running \<and> r_parked r' = None \<and> r_due_at r' = None
         else record_of s' = record_of s)"
    and wakes_parked: "r_status r = Parked \<Longrightarrow> wakes r"
    and parked_on_law: "ok s \<Longrightarrow> j_parked_on J token s = Inr found \<Longrightarrow> 
      (case found of
         None \<Rightarrow> \<not> (\<exists>run r p. record_of s run = Some r \<and> r_status r = Parked \<and> r_parked r = Some p \<and>
           p_token p = Some token)
       | Some (run, p) \<Rightarrow> \<exists>r. record_of s run = Some r \<and> r_status r = Parked \<and> r_parked r = Some p \<and>
           p_token p = Some token)"
    and due_law: "ok s \<Longrightarrow> 0 < limit \<Longrightarrow> \<exists>runs. j_due J now limit s = Inr runs \<and> length runs \<le> limit \<and>
      (\<forall>run \<in> set runs. \<not> live_claim (claim_of s run) now \<and>
         (\<exists>r. record_of s run = Some r \<and> is_due r (answered r (entries_of s run)) now)) \<and>
      (length runs < limit \<longrightarrow> (\<forall>run r. record_of s run = Some r \<longrightarrow> is_due r (answered r (entries_of s run)) now \<longrightarrow>
         \<not> live_claim (claim_of s run) now \<longrightarrow> run \<in> set runs))"
    and claim_law: "ok s \<Longrightarrow> record_of s run = Some r \<Longrightarrow>
      \<exists>s'. j_claim J run holder ttl now s = (Inr (\<not> held_by_other (claim_of s run) holder now), s') \<and> ok s' \<and>
        entries_of s' = entries_of s \<and> record_of s' = record_of s \<and>
        claim_of s' = (if held_by_other (claim_of s run) holder now then claim_of s
                       else (claim_of s)(run \<mapsto> (holder, now + ttl)))"
begin

lemma append_read:
  assumes "ok s" "j_append J run e s = (out, s')"
  shows "ok s'" and "out = Inr (stored_entry (entries_of s run) e)"
    and "entries_of s' run = with_entry (entries_of s run) e"
    and "other \<noteq> run \<Longrightarrow> entries_of s' other = entries_of s other"
    and "record_of s' = record_of s"
  using append_law [OF assms(1), of run e] assms(2) by auto

text \<open>An entry, once recorded, is what every later append at its path answers.\<close>

lemma append_first_writer:
  assumes "ok s" "j_append J run e s = (Inr w, s')" "j_append J run e' s' = (out, s'')" "epath e' = epath e"
  shows "out = Inr w" and "entries_of s'' run = entries_of s' run"
proof -
  note first = append_read [OF assms(1,2)]
  note second = append_read [OF first(1) assms(3)]
  have at: "entry_at (epath e') (entries_of s' run) = Some w"
    using first(2,3) assms(4) by (simp add: with_entry_at)
  then show "out = Inr w" using second(2) by (simp add: stored_entry_def)
  show "entries_of s'' run = entries_of s' run" using second(3) at by (simp add: with_entry_def)
qed

text \<open>Two holders never both take a run within the time of a claim.\<close>

lemma claim_excludes:
  assumes "ok s" "record_of s run = Some r" "j_claim J run h ttl now s = (Inr True, s')"
    and "now' < now + ttl" "h' \<noteq> h"
  shows "fst (j_claim J run h' ttl' now' s') = Inr False"
proof -
  from claim_law [OF assms(1,2), of h ttl now] assms(3)
  have s': "ok s'" "record_of s' run = Some r" "claim_of s' run = Some (h, now + ttl)" using assms(2) by auto
  from claim_law [OF s'(1,2), of h' ttl' now'] s'(3) assms(4,5) show ?thesis by (auto simp: held_by_other_def)
qed

text \<open>A run taken is not due to anyone until the claim lapses.\<close>

lemma claimed_not_due:
  assumes "ok s" "record_of s run = Some r" "j_claim J run h ttl now s = (Inr True, s')"
    and "now' < now + ttl" "0 < limit" "j_due J now' limit s' = Inr runs"
  shows "run \<notin> set runs"
proof -
  from claim_law [OF assms(1,2), of h ttl now] assms(3)
  have s': "ok s'" "claim_of s' run = Some (h, now + ttl)" by auto
  then show ?thesis using due_law [OF s'(1) assms(5), of now'] assms(4,6) by (auto simp: live_claim_def)
qed

text \<open>A settled run is due to no poller.\<close>

lemma settled_not_due:
  assumes "ok s" "record_of s run = Some r" "terminal (r_status r)" "0 < limit" "j_due J now limit s = Inr runs"
  shows "run \<notin> set runs"
  using due_law [OF assms(1,4), of now] assms terminal_not_due [of r] by fastforce

text \<open>A delivery at the place a run is parked makes it due, whatever its deadline says.\<close>

lemma delivered_is_due:
  assumes "ok s" "record_of s run = Some r" "r_status r = Parked" "r_parked r = Some p"
    and "j_append J run e s = (Inr w, s')" "epath e = p_path p" "\<not> live_claim (claim_of s run) now"
    and "j_due J now limit s' = Inr runs" "length runs < limit"
  shows "run \<in> set runs"
proof -
  from append_law [OF assms(1), of run e] assms(5)
  have s': "ok s'" "record_of s' = record_of s" "claim_of s' = claim_of s"
    "entries_of s' run = with_entry (entries_of s run) e" by auto
  have "answered r (entries_of s' run)"
    using assms(4,6) by (simp add: answered_def s'(4) with_entry_at)
  then have "is_due r (answered r (entries_of s' run)) now" using assms(3) by (simp add: is_due_def)
  moreover have "record_of s' run = Some r" "\<not> live_claim (claim_of s' run) now" using assms(2,7) s'(2,3) by simp_all
  moreover have "0 < limit" using assms(9) by simp
  from due_law [OF s'(1) this, of now] obtain runs'
    where r: "j_due J now limit s' = Inr runs'" and all: "length runs' < limit \<longrightarrow>
      (\<forall>run r. record_of s' run = Some r \<longrightarrow> is_due r (answered r (entries_of s' run)) now \<longrightarrow>
      \<not> live_claim (claim_of s' run) now \<longrightarrow> run \<in> set runs')" by metis
  have "runs' = runs" using r assms(8) by simp
  ultimately show ?thesis using all assms(9) by blast
qed

end

text \<open>
  What \<open>journal.ts\<close> asks of a store: after a park the run is due at the deadline the park names and at no other time, and a
  wake clears a park, so a run that is not parked is left as it is.
\<close>

locale guarded_journal = durable_journal J ok entries_of record_of claim_of stores_time "\<lambda>r p. p_at p" "\<lambda>r. r_status r = Parked"
  for J :: "('s, 'f) journal" and ok entries_of record_of claim_of stores_time
begin

text \<open>A park without a deadline is due only to a delivery.\<close>

lemma parked_waits_for_its_deadline:
  assumes "ok s" "record_of s run = Some r" "p_path p \<noteq> []" "j_park J run p s = (Inr (), s')"
    and "\<not> time_reached (p_at p) now" "entry_at (p_path p) (entries_of s run) = None" "0 < limit" "j_due J now limit s' = Inr runs"
  shows "run \<notin> set runs"
proof -
  have "pred_option stores_time (p_at p)" using park_refused [OF assms(1-3)] assms(4) by auto
  from park_law [OF assms(1-3) this] assms(4) obtain r' p' where s': "ok s'" "entries_of s' = entries_of s" "record_of s' run = Some r'"
    "r_status r' = Parked" "r_parked r' = Some p'" "p_path p' = p_path p" "r_due_at r' = p_at p" by auto
  have "\<not> is_due r' (answered r' (entries_of s' run)) now" using s' assms(5,6) by (simp add: is_due_def answered_def)
  with due_law [OF s'(1) assms(7), of now] assms(8) s'(3) show ?thesis by auto
qed

text \<open>Waking settles nothing and revives nothing.\<close>

lemma unpark_keeps_terminal:
  assumes "ok s" "record_of s run = Some r" "terminal (r_status r)" "j_unpark J run s = (out, s')"
  shows "record_of s' run = Some r"
proof -
  have "r_status r \<noteq> Parked" using assms(3) by (cases "r_status r") simp_all
  with unpark_law [OF assms(1,2)] assms(2,4) show ?thesis by auto
qed

end

end
