(* ===== verification/Durable_Handle.thy ===== *)
theory Durable_Handle
  imports Cel_Value Durable_Journal
begin

text \<open>
  The replay seam of a durable run: \<open>sdk/nodejs/src/durable-run.ts\<close>, \<open>durable-suspension.ts\<close> and the
  handle of the local backend, \<open>modules/durable-local/nodejs/src/run-handle.ts\<close> with
  \<open>journal-codec.ts\<close>.

  A handle holds what the journal answered when the run was opened, in memory, and writes through to
  the journal. A computation of a run takes the state of the run and answers a failure or a value with the
  state it leaves; the state holds the handle, the store of the journal and, as \<open>world\<close>, everything
  else a computation can read or change. The type variable \<open>'f\<close> is the recorded form of a value: the
  codec (\<open>recorded-value.ts\<close>) writes into it and reads from it.
\<close>

section \<open>Failures\<close>

record park_signal =
  s_path :: jstring
  s_resource :: jstring
  s_at :: "rat option"
  s_token :: "jstring option"

text \<open>
  What a computation throws: whether it is an \<open>InvokeError\<close>, its code, message and data, the text it
  carries for a person, and for a suspension where the run waits.
\<close>

record failure =
  f_invoke :: bool
  f_code :: "jstring option"
  f_message :: jstring
  f_data :: cel_value
  f_display :: "cel_value option"
  f_signal :: "park_signal option"

definition ERR_DURABLE_SUSPENDED :: jstring where
  "ERR_DURABLE_SUSPENDED = js ''ERR_DURABLE_SUSPENDED''"

definition ERR_INVOKE_CANCELLED :: jstring where
  "ERR_INVOKE_CANCELLED = js ''ERR_INVOKE_CANCELLED''"

definition isSuspension :: "failure \<Rightarrow> bool" where
  "isSuspension err \<longleftrightarrow> f_code err = Some ERR_DURABLE_SUSPENDED"

definition isCancellationError :: "failure \<Rightarrow> bool" where
  "isCancellationError err \<longleftrightarrow> f_code err = Some ERR_INVOKE_CANCELLED"

definition invokeError :: "jstring \<Rightarrow> jstring \<Rightarrow> cel_value \<Rightarrow> failure" where
  "invokeError c text v = \<lparr>f_invoke = True, f_code = Some c, f_message = text, f_data = v,
     f_display = None, f_signal = None\<rparr>"

definition suspension :: "park_signal \<Rightarrow> failure" where
  "suspension signal = \<lparr>f_invoke = False, f_code = Some ERR_DURABLE_SUSPENDED, f_message = [], f_data = VUndefined,
     f_display = None, f_signal = Some signal\<rparr>"

section \<open>The state of a run\<close>

record replayed_entry =
  re_target :: "recorded_target option"
  re_value :: cel_value

record ('s, 'w) run =
  store :: 's
  recorded :: "jstring \<Rightarrow> replayed_entry option"
  replayed_steps :: nat
  collapsed_regions :: nat
  collapse_reasons :: "jstring list"
  resolved_zones :: "jstring list"
  latched :: "park_signal option"
  world :: 'w

type_synonym ('st, 'a) act = "'st \<Rightarrow> (failure + 'a) \<times> 'st"

text \<open>The zones open around a computation, outermost first, with what each says of its contents.\<close>

record open_zone =
  z_kind :: jstring
  z_idempotent :: "jstring option"
  z_atomic :: "jstring option"
  z_no_suspend :: "jstring option"
  z_entry :: nat

record ('s, 'f) backend =
  b_journal :: "('s, 'f) journal"
  b_run :: jstring
  b_write :: "jstring \<Rightarrow> cel_value \<Rightarrow> failure + 'f option"
  b_read :: "jstring \<Rightarrow> nat option \<Rightarrow> 'f option \<Rightarrow> failure + cel_value"
  b_version :: nat
  b_writes_inside :: "nat \<Rightarrow> bool"
  b_wording :: "jstring \<Rightarrow> jstring \<Rightarrow> jstring"

section \<open>Targets and paths\<close>

record durable_target =
  d_kind :: jstring
  d_name :: jstring
  d_module :: "jstring option"

definition sameTarget :: "recorded_target \<Rightarrow> durable_target \<Rightarrow> bool" where
  "sameTarget a b \<longleftrightarrow> t_kind a = d_kind b \<and> t_name a = d_name b \<and>
     (case (t_module a, d_module b) of (Some m, Some n) \<Rightarrow> m = n | _ \<Rightarrow> True)"

datatype segment = Word jstring | Index nat | Key jstring

definition indexLiteral :: "jstring \<Rightarrow> jstring" where
  "indexLiteral key = js ''['' @ [39] @
     concat (map (\<lambda>c. if c = 92 then [92, 92] else if c = 39 then [92, 39] else if c = 10 then [92, 110]
       else if c = 13 then [92, 114] else [c]) key) @ [39] @ js '']''"

fun segment_text :: "segment \<Rightarrow> jstring" where
  "segment_text (Word w) = w"
| "segment_text (Index n) = js ''['' @ digits_of n @ js '']''"
| "segment_text (Key k) = indexLiteral k"

text \<open>\<open>.replace(/\/\[/g, "[")\<close>\<close>

fun join_qualifiers :: "jstring \<Rightarrow> jstring" where
  "join_qualifiers (a # b # cs) =
     (if a = 47 \<and> b = 91 then 91 # join_qualifiers cs else a # join_qualifiers (b # cs))"
| "join_qualifiers cs = cs"

fun join_segments :: "jstring list \<Rightarrow> jstring" where
  "join_segments [] = []"
| "join_segments [s] = s"
| "join_segments (s # ss) = s @ [47] @ join_segments ss"

definition stepPath :: "segment list \<Rightarrow> jstring" where
  "stepPath segments = join_qualifiers (join_segments (map segment_text segments))"

definition GUARD_DECISION_SEGMENT :: jstring where
  "GUARD_DECISION_SEGMENT = js ''@when''"

section \<open>The handle\<close>

definition recordEntry :: "('s, 'f) backend \<Rightarrow> jstring \<Rightarrow> entry_kind \<Rightarrow> decision_kind option \<Rightarrow>
    durable_target option \<Rightarrow> 'f option \<Rightarrow> 'f journal_entry" where
  "recordEntry B path which decision target frame =
     \<lparr>epath = path, ekind = which, edecision = decision,
      etarget = map_option (\<lambda>t. \<lparr>t_kind = d_kind t, t_name = d_name t, t_module = d_module t\<rparr>) target,
      eversion = Some (b_version B), evalue = frame\<rparr>"

definition recordedValue :: "('s, 'f) backend \<Rightarrow> 'f journal_entry \<Rightarrow> failure + cel_value" where
  "recordedValue B entry = b_read B (epath entry) (eversion entry) (evalue entry)"

text \<open>A refusal of the seam, with its wording, which the backend chooses by the code and the place.\<close>

definition refusal :: "('s, 'f) backend \<Rightarrow> jstring \<Rightarrow> jstring \<Rightarrow> failure" where
  "refusal B c path = invokeError c (b_wording B c path)
     (VRecord [(js ''run'', VString (b_run B)), (js ''path'', VString path)])"

definition journal_failure :: "('s, 'f) backend \<Rightarrow> journal_error \<Rightarrow> failure" where
  "journal_failure B e =
     (case e of
        JournalCorrupt \<Rightarrow> refusal B (js ''ERR_DURABLE_JOURNAL_CORRUPT'') []
      | StoreRefused c \<Rightarrow> (invokeError c (b_wording B c []) VUndefined)\<lparr>f_invoke := False\<rparr>)"

definition replayed_of :: "('s, 'f) backend \<Rightarrow> 'f journal_entry \<Rightarrow> failure + replayed_entry" where
  "replayed_of B entry = map_sum id (\<lambda>v. \<lparr>re_target = etarget entry, re_value = v\<rparr>) (recordedValue B entry)"

fun read_recorded :: "('s, 'f) backend \<Rightarrow> 'f journal_entry list \<Rightarrow> (jstring \<Rightarrow> replayed_entry option) \<Rightarrow>
    failure + (jstring \<Rightarrow> replayed_entry option)" where
  "read_recorded B [] m = Inr m"
| "read_recorded B (entry # es) m =
     (if m (epath entry) \<noteq> None then read_recorded B es m
      else case replayed_of B entry of Inl e \<Rightarrow> Inl e | Inr r \<Rightarrow> read_recorded B es (m(epath entry \<mapsto> r)))"

definition open_run :: "('s, 'f) backend \<Rightarrow> 's \<Rightarrow> 'w \<Rightarrow> failure + ('s, 'w) run" where
  "open_run B s w =
     (case j_entries (b_journal B) (b_run B) s of
        Inl e \<Rightarrow> Inl (journal_failure B e)
      | Inr es \<Rightarrow> map_sum id (\<lambda>m. \<lparr>store = s, recorded = m, replayed_steps = 0, collapsed_regions = 0,
          collapse_reasons = [], resolved_zones = [], latched = None, world = w\<rparr>) (read_recorded B es Map.empty))"

definition write_entry :: "('s, 'f) backend \<Rightarrow> jstring \<Rightarrow> entry_kind \<Rightarrow> decision_kind option \<Rightarrow>
    durable_target option \<Rightarrow> cel_value \<Rightarrow> (('s, 'w) run, cel_value) act" where
  "write_entry B path which decision target v st =
     (case b_write B path v of
        Inl e \<Rightarrow> (Inl e, st)
      | Inr frame \<Rightarrow>
          (case j_append (b_journal B) (b_run B) (recordEntry B path which decision target frame) (store st) of
             (Inl e, s) \<Rightarrow> (Inl (journal_failure B e), st\<lparr>store := s\<rparr>)
           | (Inr stored, s) \<Rightarrow>
               (case replayed_of B stored of
                  Inl e \<Rightarrow> (Inl e, st\<lparr>store := s\<rparr>)
                | Inr r \<Rightarrow> (Inr (re_value r), st\<lparr>store := s, recorded := (recorded st)(path \<mapsto> r)\<rparr>))))"

definition mismatch :: "replayed_entry \<Rightarrow> durable_target option \<Rightarrow> bool" where
  "mismatch entry target \<longleftrightarrow>
     (case (re_target entry, target) of (Some a, Some b) \<Rightarrow> \<not> sameTarget a b | _ \<Rightarrow> False)"

definition handle_step :: "('s, 'f) backend \<Rightarrow> jstring \<Rightarrow> durable_target option \<Rightarrow> (('s, 'w) run, cel_value) act \<Rightarrow>
    (('s, 'w) run, cel_value) act" where
  "handle_step B path target execute st =
     (case recorded st path of
        Some entry \<Rightarrow>
          if mismatch entry target then (Inl (refusal B (js ''ERR_JOURNAL_ENTRY_MISMATCH'') path), st)
          else (Inr (re_value entry), st\<lparr>replayed_steps := replayed_steps st + 1\<rparr>)
      | None \<Rightarrow>
          (case execute st of
             (Inl e, st') \<Rightarrow> (Inl e, st')
           | (Inr v, st') \<Rightarrow> write_entry B path StepEntry None target v st'))"

definition handle_decide :: "('s, 'f) backend \<Rightarrow> jstring \<Rightarrow> decision_kind \<Rightarrow> (('s, 'w) run, cel_value) act \<Rightarrow>
    (('s, 'w) run, cel_value) act" where
  "handle_decide B path which compute st =
     (case recorded st path of
        Some entry \<Rightarrow> (Inr (re_value entry), st)
      | None \<Rightarrow>
          (case compute st of
             (Inl e, st') \<Rightarrow> (Inl e, st')
           | (Inr v, st') \<Rightarrow> write_entry B path DecisionEntry (Some which) None v st'))"

definition handle_park :: "('s, 'f) backend \<Rightarrow> park_signal \<Rightarrow> (('s, 'w) run, 'a) act" where
  "handle_park B signal st =
     (case j_park (b_journal B) (b_run B)
        \<lparr>p_path = s_path signal, p_resource = s_resource signal, p_at = s_at signal, p_token = s_token signal\<rparr> (store st) of
        (Inl e, s) \<Rightarrow> (Inl (journal_failure B e), st\<lparr>store := s\<rparr>)
      | (Inr _, s) \<Rightarrow> (Inl (suspension signal), st\<lparr>store := s\<rparr>))"

text \<open>Latched first, so that a park that was swallowed is found at the boundary of the run.\<close>

definition parkRun :: "('s, 'f) backend \<Rightarrow> park_signal \<Rightarrow> (('s, 'w) run, 'a) act" where
  "parkRun B signal st = handle_park B signal (st\<lparr>latched := Some signal\<rparr>)"

definition assertNotSwallowed :: "('s, 'f) backend \<Rightarrow> (('s, 'w) run, unit) act" where
  "assertNotSwallowed B st =
     (case latched st of
        None \<Rightarrow> (Inr (), st)
      | Some signal \<Rightarrow> (Inl (refusal B (js ''ERR_DURABLE_SUSPENSION_SWALLOWED'') (s_path signal)), st))"

definition assertMaySuspend :: "('s, 'f) backend \<Rightarrow> open_zone list \<Rightarrow> jstring \<Rightarrow> failure option" where
  "assertMaySuspend B zones resource =
     (case find (\<lambda>z. case z_no_suspend z of Some reason \<Rightarrow> reason \<noteq> [] | None \<Rightarrow> False) zones of
        Some _ \<Rightarrow> Some (refusal B (js ''ERR_DURABLE_SUSPEND_FORBIDDEN'') resource)
      | None \<Rightarrow> None)"

section \<open>Regions that re-run whole\<close>

datatype zone_attribute = Idempotent | Atomic

datatype zone_mode = CollapsedMode | PerStep

record zone_journaling =
  zj_zone :: jstring
  zj_attribute :: zone_attribute
  zj_mode :: zone_mode
  zj_reason :: jstring

fun truthy_text :: "jstring option \<Rightarrow> bool" where
  "truthy_text (Some s) = (s \<noteq> [])"
| "truthy_text None = False"

fun collapsesJournalEntries :: "(nat \<Rightarrow> bool) \<Rightarrow> open_zone list \<Rightarrow> bool \<times> zone_journaling list" where
  "collapsesJournalEntries writes [] = (False, [])"
| "collapsesJournalEntries writes (z # zones) =
     (if truthy_text (z_idempotent z) then
        (True, [\<lparr>zj_zone = z_kind z, zj_attribute = Idempotent, zj_mode = CollapsedMode, zj_reason = the (z_idempotent z)\<rparr>])
      else if truthy_text (z_atomic z) then
        (if writes (z_entry z) then
           (let (collapsed, rest) = collapsesJournalEntries writes zones
            in (collapsed, \<lparr>zj_zone = z_kind z, zj_attribute = Atomic, zj_mode = PerStep, zj_reason = the (z_atomic z)\<rparr> # rest))
         else (True, [\<lparr>zj_zone = z_kind z, zj_attribute = Atomic, zj_mode = CollapsedMode, zj_reason = the (z_atomic z)\<rparr>]))
      else collapsesJournalEntries writes zones)"

fun zone_attribute_text :: "zone_attribute \<Rightarrow> jstring" where
  "zone_attribute_text Idempotent = js ''idempotent''"
| "zone_attribute_text Atomic = js ''atomic''"

definition noteZoneMode :: "zone_journaling \<Rightarrow> ('s, 'w) run \<Rightarrow> ('s, 'w) run" where
  "noteZoneMode info st =
     (if zj_zone info \<in> set (resolved_zones st) then st
      else (let st' = st\<lparr>resolved_zones := zj_zone info # resolved_zones st\<rparr>
            in if zj_mode info = CollapsedMode then
                 st'\<lparr>collapsed_regions := collapsed_regions st' + 1,
                     collapse_reasons := collapse_reasons st' @
                       [zj_zone info @ js '' ('' @ zone_attribute_text (zj_attribute info) @ js ''): '' @ zj_reason info]\<rparr>
               else st'))"

definition journalingSuppressed :: "('s, 'f) backend \<Rightarrow> open_zone list \<Rightarrow> ('s, 'w) run \<Rightarrow> bool \<times> ('s, 'w) run" where
  "journalingSuppressed B zones st =
     (let (collapsed, resolutions) = collapsesJournalEntries (b_writes_inside B) zones
      in (collapsed, fold noteZoneMode resolutions st))"

definition decideValue :: "('s, 'f) backend option \<Rightarrow> open_zone list \<Rightarrow> jstring \<Rightarrow> decision_kind \<Rightarrow>
    (('s, 'w) run, cel_value) act \<Rightarrow> (('s, 'w) run, cel_value) act" where
  "decideValue durable zones path which compute st =
     (case durable of
        None \<Rightarrow> compute st
      | Some B \<Rightarrow>
          (let (suppressed, st') = journalingSuppressed B zones st
           in if suppressed then compute st' else handle_decide B path which compute st'))"

section \<open>A handle in step with its journal\<close>

text \<open>What a handle holds at a path when it has read these entries over what it held.\<close>

definition read_at :: "('s, 'f) backend \<Rightarrow> 'f journal_entry list \<Rightarrow> (jstring \<Rightarrow> replayed_entry option) \<Rightarrow> jstring \<Rightarrow>
    failure + replayed_entry option" where
  "read_at B es m path =
     (case m path of
        Some r \<Rightarrow> Inr (Some r)
      | None \<Rightarrow> (case entry_at path es of None \<Rightarrow> Inr None | Some e \<Rightarrow> map_sum id Some (replayed_of B e)))"

lemma entry_at_Cons: "entry_at path (e # es) = (if epath e = path then Some e else entry_at path es)"
  by (simp add: entry_at_def)

lemma read_recorded_iff: "read_recorded B es m = Inr m' \<longleftrightarrow> (\<forall>path. read_at B es m path = Inr (m' path))"
proof (induction es arbitrary: m)
  case Nil
  have "read_at B [] m path = Inr (m path)" for path by (simp add: read_at_def split: option.splits)
  then show ?case by (simp add: fun_eq_iff)
next
  case (Cons e es)
  show ?case
  proof (cases "m (epath e)")
    case (Some r)
    then have "read_at B (e # es) m = read_at B es m" by (auto simp: read_at_def entry_at_Cons fun_eq_iff split: option.splits)
    with Some Cons.IH show ?thesis by simp
  next
    case None
    show ?thesis
    proof (cases "replayed_of B e")
      case (Inl err)
      then have "read_at B (e # es) m (epath e) = Inl err" using None by (simp add: read_at_def entry_at_Cons)
      then show ?thesis using None Inl by (auto intro!: exI [of _ "epath e"])
    next
      case (Inr r)
      then have "read_at B (e # es) m = read_at B es (m(epath e \<mapsto> r))"
        using None by (auto simp: read_at_def entry_at_Cons fun_eq_iff split: option.splits)
      moreover have "read_recorded B (e # es) m = read_recorded B es (m(epath e \<mapsto> r))" using None Inr by simp
      ultimately show ?thesis using Cons.IH by (simp only:)
    qed
  qed
qed

text \<open>The handle holds what can be read of the entries, and nothing else.\<close>

definition exact :: "('s, 'f) backend \<Rightarrow> 'f journal_entry list \<Rightarrow> (jstring \<Rightarrow> replayed_entry option) \<Rightarrow> bool" where
  "exact B es m \<longleftrightarrow> (\<forall>path. m path = (case read_at B es Map.empty path of Inl _ \<Rightarrow> None | Inr r \<Rightarrow> r))"

text \<open>Every entry that answers at its path can be read; an entry that cannot keeps the run from being opened.\<close>

definition legible :: "('s, 'f) backend \<Rightarrow> 'f journal_entry list \<Rightarrow> bool" where
  "legible B es \<longleftrightarrow> (\<forall>path e. entry_at path es = Some e \<longrightarrow> \<not> isl (replayed_of B e))"

lemma exact_at:
  assumes "exact B es m"
  shows "entry_at path es = None \<Longrightarrow> m path = None"
    and "entry_at path es = Some e \<Longrightarrow> m path = (case replayed_of B e of Inl _ \<Rightarrow> None | Inr r \<Rightarrow> Some r)"
    and "m path = Some r \<Longrightarrow> \<exists>e. entry_at path es = Some e \<and> replayed_of B e = Inr r"
proof -
  have *: "m path = (case read_at B es Map.empty path of Inl _ \<Rightarrow> None | Inr r \<Rightarrow> r)" using assms by (simp add: exact_def)
  show "entry_at path es = None \<Longrightarrow> m path = None"
    "entry_at path es = Some e \<Longrightarrow> m path = (case replayed_of B e of Inl _ \<Rightarrow> None | Inr r \<Rightarrow> Some r)"
    "m path = Some r \<Longrightarrow> \<exists>e. entry_at path es = Some e \<and> replayed_of B e = Inr r"
    unfolding * by (auto simp: read_at_def map_sum_def split: option.splits sum.splits)
qed

lemma read_recorded_exact: "read_recorded B es Map.empty = Inr m \<longleftrightarrow> legible B es \<and> exact B es m"
proof
  assume "read_recorded B es Map.empty = Inr m"
  then have *: "read_at B es Map.empty path = Inr (m path)" for path by (simp add: read_recorded_iff)
  have "\<not> isl (replayed_of B e)" if "entry_at path es = Some e" for path e
    using * [of path] that by (cases "replayed_of B e") (simp_all add: read_at_def)
  with * show "legible B es \<and> exact B es m" by (auto simp: legible_def exact_def)
next
  assume both: "legible B es \<and> exact B es m"
  have "read_at B es Map.empty path = Inr (m path)" for path
  proof (cases "entry_at path es")
    case None
    with both exact_at(1) [of B es m path] show ?thesis by (simp add: read_at_def)
  next
    case (Some e)
    then obtain r where "replayed_of B e = Inr r" using both unfolding legible_def by (metis sum.collapse(2))
    with Some both exact_at(2) [of B es m path] show ?thesis by (simp add: read_at_def)
  qed
  then show "read_recorded B es Map.empty = Inr m" by (simp add: read_recorded_iff)
qed

lemma legible_opens: "legible B es \<Longrightarrow> \<exists>m. read_recorded B es Map.empty = Inr m"
  using read_recorded_exact [of B es "\<lambda>path. case read_at B es Map.empty path of Inl _ \<Rightarrow> None | Inr r \<Rightarrow> r"]
  by (auto simp: exact_def)

lemma exact_with_entry:
  assumes "exact B es m" "epath e = path"
  shows "replayed_of B (stored_entry es e) = Inr r \<Longrightarrow> exact B (with_entry es e) (m(path \<mapsto> r))"
    and "replayed_of B (stored_entry es e) = Inl err \<Longrightarrow> exact B (with_entry es e) m"
proof -
  show "replayed_of B (stored_entry es e) = Inr r \<Longrightarrow> exact B (with_entry es e) (m(path \<mapsto> r))"
    using assms unfolding exact_def by (auto simp: read_at_def with_entry_at)
  assume err: "replayed_of B (stored_entry es e) = Inl err"
  have "m path = None"
    using err exact_at(1,2) [OF assms(1), of path] assms(2) by (cases "entry_at path es") (auto simp: stored_entry_def)
  with err assms show "exact B (with_entry es e) m" unfolding exact_def by (auto simp: read_at_def with_entry_at)
qed

lemma legible_with_entry: "legible B es \<Longrightarrow> replayed_of B (stored_entry es e) = Inr r \<Longrightarrow> legible B (with_entry es e)"
  by (auto simp: legible_def with_entry_at split: if_splits)

text \<open>
  The run is known to a store in order, and the handle holds exactly what can be read of its journal: no
  other process writes to the journal of a run while this one holds its claim.
\<close>

definition in_step :: "('s \<Rightarrow> bool) \<Rightarrow> ('s \<Rightarrow> jstring \<Rightarrow> 'f journal_entry list) \<Rightarrow>
    ('s \<Rightarrow> jstring \<Rightarrow> 'f run_record option) \<Rightarrow> ('s, 'f) backend \<Rightarrow> ('s, 'w) run \<Rightarrow> bool" where
  "in_step ok entries_of record_of B st \<longleftrightarrow>
     ok (store st) \<and> record_of (store st) (b_run B) \<noteq> None \<and> exact B (entries_of (store st) (b_run B)) (recorded st)"

definition goes_on :: "('s \<Rightarrow> bool) \<Rightarrow> ('s \<Rightarrow> jstring \<Rightarrow> 'f journal_entry list) \<Rightarrow>
    ('s \<Rightarrow> jstring \<Rightarrow> 'f run_record option) \<Rightarrow> ('s, 'f) backend \<Rightarrow> ('s, 'w) run \<Rightarrow> ('s, 'w) run \<Rightarrow> bool" where
  "goes_on ok entries_of record_of B st st' \<longleftrightarrow>
     in_step ok entries_of record_of B st' \<and> recorded st \<subseteq>\<^sub>m recorded st'"

text \<open>A computation that keeps the handle in step and forgets nothing recorded.\<close>

definition keeps :: "('s \<Rightarrow> bool) \<Rightarrow> ('s \<Rightarrow> jstring \<Rightarrow> 'f journal_entry list) \<Rightarrow>
    ('s \<Rightarrow> jstring \<Rightarrow> 'f run_record option) \<Rightarrow> ('s, 'f) backend \<Rightarrow> (('s, 'w) run, 'a) act \<Rightarrow> bool" where
  "keeps ok entries_of record_of B f \<longleftrightarrow>
     (\<forall>st out st'. in_step ok entries_of record_of B st \<longrightarrow> f st = (out, st') \<longrightarrow> goes_on ok entries_of record_of B st st')"

text \<open>Two states that differ at most in what the run has observed about itself.\<close>

definition undisturbed :: "('s, 'w) run \<Rightarrow> ('s, 'w) run \<Rightarrow> bool" where
  "undisturbed st st' \<longleftrightarrow> store st' = store st \<and> recorded st' = recorded st \<and> latched st' = latched st \<and> world st' = world st"

lemma undisturbed_refl [simp]: "undisturbed st st"
  by (simp add: undisturbed_def)

lemma undisturbed_trans: "undisturbed st st' \<Longrightarrow> undisturbed st' st'' \<Longrightarrow> undisturbed st st''"
  by (simp add: undisturbed_def)

lemma noteZoneMode_undisturbed: "undisturbed st (noteZoneMode z st)"
  by (simp add: noteZoneMode_def undisturbed_def Let_def)

lemma fold_noteZoneMode_undisturbed: "undisturbed st (fold noteZoneMode zs st)"
  by (induction zs arbitrary: st) (auto intro: undisturbed_trans noteZoneMode_undisturbed)

lemma journalingSuppressed_is:
  "journalingSuppressed B zones st = (fst (collapsesJournalEntries (b_writes_inside B) zones), snd (journalingSuppressed B zones st))"
  "undisturbed st (snd (journalingSuppressed B zones st))"
  by (simp_all add: journalingSuppressed_def split_def Let_def fold_noteZoneMode_undisturbed)

context durable_journal
begin

abbreviation safe :: "('s, 'f) backend \<Rightarrow> (('s, 'w) run, 'a) act \<Rightarrow> bool" where
  "safe \<equiv> keeps ok entries_of record_of"

abbreviation sound :: "('s, 'f) backend \<Rightarrow> ('s, 'w) run \<Rightarrow> bool" where
  "sound \<equiv> in_step ok entries_of record_of"

abbreviation onward :: "('s, 'f) backend \<Rightarrow> ('s, 'w) run \<Rightarrow> ('s, 'w) run \<Rightarrow> bool" where
  "onward \<equiv> goes_on ok entries_of record_of"

lemma onward_trans: "onward B st st' \<Longrightarrow> onward B st' st'' \<Longrightarrow> onward B st st''"
  by (auto simp: goes_on_def intro: map_le_trans)

lemma onward_refl: "sound B st \<Longrightarrow> onward B st st"
  by (simp add: goes_on_def)

abbreviation clear :: "('s, 'f) backend \<Rightarrow> ('s, 'w) run \<Rightarrow> bool" where
  "clear B st \<equiv> legible B (entries_of (store st) (b_run B))"

lemma sound_open:
  assumes "b_journal B = J" "ok s" "record_of s (b_run B) \<noteq> None" "open_run B s w = Inr st"
  shows "sound B st" and "clear B st" and "store st = s" and "world st = w"
proof -
  obtain m where "read_recorded B (entries_of s (b_run B)) Map.empty = Inr m" "store st = s" "recorded st = m" "world st = w"
    using assms(1,4) entries_law [OF assms(2)]
    by (auto simp: open_run_def map_sum_def split: sum.splits)
  then show "sound B st" "clear B st" "store st = s" "world st = w"
    using assms by (auto simp: in_step_def read_recorded_exact)
qed

text \<open>The run can be opened again when every entry can be read, and holds then what the handle held.\<close>

lemma reopens:
  assumes "b_journal B = J" "sound B st"
  shows "open_run B (store st) w = Inr st' \<Longrightarrow> recorded st' = recorded st"
    and "clear B st \<longleftrightarrow> (\<exists>st'. open_run B (store st) w = Inr st')"
proof -
  have es: "j_entries (b_journal B) (b_run B) (store st) = Inr (entries_of (store st) (b_run B))"
    using assms entries_law by (simp add: in_step_def)
  show "recorded st' = recorded st" if "open_run B (store st) w = Inr st'"
  proof -
    have "exact B (entries_of (store st) (b_run B)) (recorded st')"
      using that es by (auto simp: open_run_def map_sum_def read_recorded_exact split: sum.splits)
    with assms(2) show ?thesis by (simp add: in_step_def exact_def fun_eq_iff)
  qed
  show "clear B st \<longleftrightarrow> (\<exists>st'. open_run B (store st) w = Inr st')"
  proof
    assume "clear B st"
    from legible_opens [OF this] show "\<exists>st'. open_run B (store st) w = Inr st'" using es by (auto simp: open_run_def)
  next
    assume "\<exists>st'. open_run B (store st) w = Inr st'"
    then show "clear B st" using es by (auto simp: open_run_def map_sum_def read_recorded_exact split: sum.splits)
  qed
qed

text \<open>
  A write that answers was read back, so the handle holds it. One whose entry cannot be read back fails, and leaves the entry in
  the journal and out of the handle.
\<close>

lemma write_entry_onward:
  assumes "b_journal B = J" "sound B st" "write_entry B path which decision target v st = (out, st')"
  shows "onward B st st'" and "out = Inr v' \<Longrightarrow> \<exists>r. recorded st' path = Some r \<and> re_value r = v'"
    and "out = Inr v' \<Longrightarrow> recorded st path = None \<Longrightarrow> \<exists>r. recorded st' path = Some r \<and>
      re_target r = map_option (\<lambda>t. \<lparr>t_kind = d_kind t, t_name = d_name t, t_module = d_module t\<rparr>) target"
    and "world st' = world st" and "latched st' = latched st"
    and "other \<noteq> path \<Longrightarrow> recorded st' other = recorded st other"
    and "out = Inr v' \<Longrightarrow> clear B st \<Longrightarrow> clear B st'"
proof -
  let ?own = "map_option (\<lambda>t. \<lparr>t_kind = d_kind t, t_name = d_name t, t_module = d_module t\<rparr>) target"
  have all: "onward B st st' \<and> (\<forall>v'. out = Inr v' \<longrightarrow> (\<exists>r. recorded st' path = Some r \<and> re_value r = v') \<and>
      (recorded st path = None \<longrightarrow> (\<exists>r. recorded st' path = Some r \<and> re_target r = ?own)) \<and>
      (clear B st \<longrightarrow> clear B st')) \<and>
    world st' = world st \<and> latched st' = latched st \<and> (\<forall>other. other \<noteq> path \<longrightarrow> recorded st' other = recorded st other)"
  proof (cases "b_write B path v")
    case (Inl e)
    then show ?thesis using assms(2,3) by (auto simp: write_entry_def onward_refl)
  next
    case (Inr frame)
    let ?es = "entries_of (store st) (b_run B)" and ?e = "recordEntry B path which decision target frame"
    have st: "ok (store st)" "exact B ?es (recorded st)" using assms(2) by (simp_all add: in_step_def)
    have path: "epath ?e = path" by (simp add: recordEntry_def)
    obtain s' where s': "j_append J (b_run B) ?e (store st) = (Inr (stored_entry ?es ?e), s')" "ok s'"
      "entries_of s' = (entries_of (store st))(b_run B := with_entry ?es ?e)" "record_of s' = record_of (store st)"
      using append_law [OF st(1), of "b_run B" ?e] by blast
    show ?thesis
    proof (cases "replayed_of B (stored_entry ?es ?e)")
      case (Inl err)
      then have "out = Inl err" "st' = st\<lparr>store := s'\<rparr>" using assms(1,3) Inr s'(1) by (simp_all add: write_entry_def)
      moreover have "exact B (with_entry ?es ?e) (recorded st)" by (rule exact_with_entry(2) [OF st(2) path Inl])
      ultimately show ?thesis using assms(2) s'(2-4) by (simp add: goes_on_def in_step_def)
    next
      case r: (Inr r)
      have st': "out = Inr (re_value r)" "st' = st\<lparr>store := s', recorded := (recorded st)(path \<mapsto> r)\<rparr>"
        using assms(1,3) Inr s'(1) r by (simp_all add: write_entry_def)
      have "recorded st path = Some r" if "recorded st path \<noteq> None"
        using that exact_at(3) [OF st(2), of path] r by (auto simp: stored_entry_def path)
      then have "recorded st \<subseteq>\<^sub>m recorded st'" by (auto simp: st' map_le_def)
      moreover have "sound B st'"
        using assms(2) s'(2-4) exact_with_entry(1) [OF st(2) path r] by (simp add: in_step_def st')
      moreover have "re_target r = ?own" if "recorded st path = None"
      proof -
        have "entry_at path ?es = None"
          using that r exact_at(2) [OF st(2), of path] by (cases "entry_at path ?es") (auto simp: stored_entry_def path)
        then show ?thesis using r by (auto simp: stored_entry_def path replayed_of_def recordEntry_def map_sum_def split: sum.splits)
      qed
      moreover have "clear B st'" if "clear B st" using legible_with_entry [OF that r] s'(3) by (simp add: st')
      ultimately show ?thesis by (auto simp: goes_on_def st')
    qed
  qed
  then show "onward B st st'" "world st' = world st" "latched st' = latched st"
    "out = Inr v' \<Longrightarrow> \<exists>r. recorded st' path = Some r \<and> re_value r = v'"
    "out = Inr v' \<Longrightarrow> recorded st path = None \<Longrightarrow> \<exists>r. recorded st' path = Some r \<and> re_target r = ?own"
    "other \<noteq> path \<Longrightarrow> recorded st' other = recorded st other"
    "out = Inr v' \<Longrightarrow> clear B st \<Longrightarrow> clear B st'" by blast+
qed

lemma sound_undisturbed: "sound B st \<Longrightarrow> undisturbed st st' \<Longrightarrow> sound B st' \<and> onward B st st'"
  by (simp add: in_step_def goes_on_def undisturbed_def)

lemma decide_onward:
  assumes "b_journal B = J" "safe B compute" "sound B st" "handle_decide B path which compute st = (out, st')"
  shows "onward B st st'" and "out = Inr v \<Longrightarrow> \<exists>r. recorded st' path = Some r \<and> re_value r = v"
    and "out = Inr v \<Longrightarrow> clear B st \<Longrightarrow> (\<And>u st1. compute st = (Inr u, st1) \<Longrightarrow> clear B st1) \<Longrightarrow> clear B st'"
proof -
  have all: "onward B st st' \<and> (\<forall>v. out = Inr v \<longrightarrow> (\<exists>r. recorded st' path = Some r \<and> re_value r = v) \<and>
    (clear B st \<longrightarrow> (\<forall>u st1. compute st = (Inr u, st1) \<longrightarrow> clear B st1) \<longrightarrow> clear B st'))"
  proof (cases "recorded st path")
    case (Some r)
    then show ?thesis using assms(3,4) by (auto simp: handle_decide_def onward_refl)
  next
    case None
    obtain out1 st1 where run: "compute st = (out1, st1)" by (cases "compute st")
    then have on: "onward B st st1" using assms(2,3) by (simp add: keeps_def)
    show ?thesis
    proof (cases out1)
      case (Inl e)
      then show ?thesis using assms(4) None run on by (auto simp: handle_decide_def)
    next
      case (Inr u)
      then have w: "write_entry B path DecisionEntry (Some which) None u st1 = (out, st')"
        using assms(4) None run by (simp add: handle_decide_def)
      have "sound B st1" using on by (simp add: goes_on_def)
      from write_entry_onward(1,2,7) [OF assms(1) this w] on run Inr show ?thesis by (blast intro: onward_trans)
    qed
  qed
  then show "onward B st st'" "out = Inr v \<Longrightarrow> \<exists>r. recorded st' path = Some r \<and> re_value r = v"
    "out = Inr v \<Longrightarrow> clear B st \<Longrightarrow> (\<And>u st1. compute st = (Inr u, st1) \<Longrightarrow> clear B st1) \<Longrightarrow> clear B st'" by blast+
qed

lemma own_target_matches:
  "\<not> mismatch \<lparr>re_target = map_option (\<lambda>t. \<lparr>t_kind = d_kind t, t_name = d_name t, t_module = d_module t\<rparr>) target, re_value = v\<rparr> target"
  by (cases target) (auto simp: mismatch_def sameTarget_def split: option.splits)

lemma step_onward:
  assumes "b_journal B = J" "safe B execute" "sound B st" "handle_step B path target execute st = (out, st')"
    and below: "\<And>out1 st1. recorded st path = None \<Longrightarrow> execute st = (out1, st1) \<Longrightarrow> recorded st1 path = None"
  shows "onward B st st'"
    and "out = Inr v \<Longrightarrow> \<exists>r. recorded st' path = Some r \<and> re_value r = v \<and> \<not> mismatch r target"
    and "out = Inr v \<Longrightarrow> clear B st \<Longrightarrow> (\<And>u st1. execute st = (Inr u, st1) \<Longrightarrow> clear B st1) \<Longrightarrow> clear B st'"
proof -
  have all: "onward B st st' \<and>
    (\<forall>v. out = Inr v \<longrightarrow> (\<exists>r. recorded st' path = Some r \<and> re_value r = v \<and> \<not> mismatch r target) \<and>
      (clear B st \<longrightarrow> (\<forall>u st1. execute st = (Inr u, st1) \<longrightarrow> clear B st1) \<longrightarrow> clear B st'))"
  proof (cases "recorded st path")
    case (Some r)
    moreover have "undisturbed st (st\<lparr>replayed_steps := n\<rparr>)" for n by (simp add: undisturbed_def)
    ultimately show ?thesis using assms(3,4) sound_undisturbed
      by (auto simp: handle_step_def onward_refl split: if_splits)
  next
    case None
    obtain out1 st1 where run: "execute st = (out1, st1)" by (cases "execute st")
    then have on: "onward B st st1" using assms(2,3) by (simp add: keeps_def)
    show ?thesis
    proof (cases out1)
      case (Inl e)
      then show ?thesis using assms(4) None run on by (auto simp: handle_step_def)
    next
      case (Inr u)
      then have w: "write_entry B path StepEntry None target u st1 = (out, st')"
        using assms(4) None run by (simp add: handle_step_def)
      have "sound B st1" using on by (simp add: goes_on_def)
      note written = write_entry_onward(1-3,7) [OF assms(1) this w]
      have "\<exists>r. recorded st' path = Some r \<and> re_value r = v \<and> \<not> mismatch r target" if answer: "out = Inr v" for v
      proof -
        obtain r where r: "recorded st' path = Some r" "re_value r = v"
          "re_target r = map_option (\<lambda>t. \<lparr>t_kind = d_kind t, t_name = d_name t, t_module = d_module t\<rparr>) target"
          using written(2) [OF answer] written(3) [OF answer below [OF None run]] by auto
        then show ?thesis using own_target_matches [of target v] by (cases r) (auto simp: mismatch_def)
      qed
      with written(1,4) on run Inr show ?thesis by (blast intro: onward_trans)
    qed
  qed
  then show "onward B st st'"
    "out = Inr v \<Longrightarrow> \<exists>r. recorded st' path = Some r \<and> re_value r = v \<and> \<not> mismatch r target"
    "out = Inr v \<Longrightarrow> clear B st \<Longrightarrow> (\<And>u st1. execute st = (Inr u, st1) \<Longrightarrow> clear B st1) \<Longrightarrow> clear B st'" by blast+
qed

lemma park_onward:
  assumes "b_journal B = J" "s_path signal \<noteq> []" "sound B st" "parkRun B signal st = (out, st')"
  shows "onward B st st'" and "recorded st' = recorded st"
proof -
  have s: "ok (store st)" using assms(3) by (simp add: in_step_def)
  obtain r where r: "record_of (store st) (b_run B) = Some r" using assms(3) by (auto simp: in_step_def)
  let ?p = "\<lparr>p_path = s_path signal, p_resource = s_resource signal, p_at = s_at signal, p_token = s_token signal\<rparr>"
  have "onward B st st' \<and> recorded st' = recorded st"
  proof (cases "pred_option stores_time (s_at signal)")
    case True
    with park_law [OF s r, of ?p] obtain r' s' where
      "j_park J (b_run B) ?p (store st) = (Inr (), s')" "ok s'" "entries_of s' = entries_of (store st)"
      "record_of s' = (record_of (store st))(b_run B \<mapsto> r')" using assms(2) by auto
    then show ?thesis using assms(1,3,4) by (auto simp: parkRun_def handle_park_def in_step_def goes_on_def)
  next
    case False
    with park_refused [OF s r, of ?p] assms(2) obtain e where "j_park J (b_run B) ?p (store st) = (Inl e, store st)" by auto
    then show ?thesis using assms(1,3,4) by (auto simp: parkRun_def handle_park_def in_step_def goes_on_def)
  qed
  then show "onward B st st'" "recorded st' = recorded st" by blast+
qed

end

text \<open>
  Once recorded, a decision and a step answer what was recorded, whatever the world has become, and
  neither evaluates nor calls anything.
\<close>

lemma decide_replays:
  assumes "recorded st path = Some r"
  shows "handle_decide B path which compute st = (Inr (re_value r), st)"
  using assms by (simp add: handle_decide_def)

lemma step_replays:
  assumes "recorded st path = Some r" "\<not> mismatch r target"
  shows "\<exists>st'. handle_step B path target execute st = (Inr (re_value r), st') \<and> undisturbed st st'"
  using assms by (simp add: handle_step_def undisturbed_def)

end
