(* ===== verification/Js_Object.thy ===== *)
theory Js_Object
  imports Js_Number
begin

text \<open>
  The members of a plain host object. An object walks the names that are array indices first, in ascending
  order, then the others in the order they were first set.
\<close>

definition array_index :: "jstring \<Rightarrow> nat option" where
  "array_index name =
     (if name \<noteq> [] \<and> (\<forall>c \<in> set name. isDigit c) \<and> digits_of (value_of name) = name \<and> value_of name < 4294967295
      then Some (value_of name) else None)"

fun before_member :: "jstring \<Rightarrow> jstring \<Rightarrow> bool" where
  "before_member name other =
     (case array_index name of
        None \<Rightarrow> False
      | Some i \<Rightarrow> (case array_index other of None \<Rightarrow> True | Some k \<Rightarrow> i < k))"

fun set_member :: "jstring \<Rightarrow> 'a \<Rightarrow> (jstring \<times> 'a) list \<Rightarrow> (jstring \<times> 'a) list" where
  "set_member name v [] = [(name, v)]"
| "set_member name v ((other, w) # ms) =
     (if other = name then (name, v) # ms
      else if before_member name other \<and> name \<notin> fst ` set ms then (name, v) # (other, w) # ms
      else (other, w) # set_member name v ms)"

text \<open>An object built by setting members one after the other.\<close>

definition host_members :: "(jstring \<times> 'a) list \<Rightarrow> (jstring \<times> 'a) list" where
  "host_members ms = fold (\<lambda>m. set_member (fst m) (snd m)) ms []"

lemma set_member_new: "name \<notin> fst ` set ms \<Longrightarrow> set (set_member name v ms) = insert (name, v) (set ms)"
  by (induction name v ms rule: set_member.induct) auto

lemma set_member_names: "fst ` set (set_member name v ms) = insert name (fst ` set ms)"
  by (induction name v ms rule: set_member.induct) (auto simp: image_iff)

lemma set_member_distinct: "distinct (map fst ms) \<Longrightarrow> distinct (map fst (set_member name v ms))"
proof (induction name v ms rule: set_member.induct)
  case (2 name v other w ms)
  then show ?case using set_member_names [of name v ms] by (auto simp: image_iff)
qed simp

lemma set_member_map: "set_member name (f v) (map (\<lambda>m. (fst m, f (snd m))) ms) = map (\<lambda>m. (fst m, f (snd m))) (set_member name v ms)"
  by (induction name v ms rule: set_member.induct) (auto simp: image_image)

lemma fold_set_member:
  assumes "distinct (map fst ms)" "fst ` set ms \<inter> fst ` set acc = {}" "distinct (map fst acc)"
  shows "set (fold (\<lambda>m. set_member (fst m) (snd m)) ms acc) = set ms \<union> set acc \<and>
    distinct (map fst (fold (\<lambda>m. set_member (fst m) (snd m)) ms acc))"
  using assms
proof (induction ms arbitrary: acc)
  case (Cons m ms)
  have "fst m \<notin> fst ` set acc" using Cons.prems(2) by auto
  note acc = set_member_new [OF this, of "snd m"] set_member_names [of "fst m" "snd m" acc]
  have "fst ` set ms \<inter> fst ` set (set_member (fst m) (snd m) acc) = {}" using Cons.prems acc(2) by auto
  from Cons.IH [OF _ this set_member_distinct [OF Cons.prems(3)]] Cons.prems(1) acc(1) show ?case by auto
qed simp

lemma host_members_set: "distinct (map fst ms) \<Longrightarrow> set (host_members ms) = set ms"
  and host_members_distinct: "distinct (map fst ms) \<Longrightarrow> distinct (map fst (host_members ms))"
  using fold_set_member [of ms "[]"] by (simp_all add: host_members_def)

lemma host_members_map: "host_members (map (\<lambda>m. (fst m, f (snd m))) ms) = map (\<lambda>m. (fst m, f (snd m))) (host_members ms)"
proof -
  have "fold (\<lambda>m. set_member (fst m) (snd m)) (map (\<lambda>m. (fst m, f (snd m))) ms) (map (\<lambda>m. (fst m, f (snd m))) acc) =
      map (\<lambda>m. (fst m, f (snd m))) (fold (\<lambda>m. set_member (fst m) (snd m)) ms acc)" for acc
    by (induction ms arbitrary: acc) (simp_all add: set_member_map)
  from this [of "[]"] show ?thesis by (simp add: host_members_def)
qed

end
