(* ===== verification/Step_Engine.thy ===== *)
theory Step_Engine
  imports Durable_Handle Js_Object
begin

text \<open>
  The step grammar and its execution: \<open>sdk/nodejs/src/step-engine.ts\<close> with the leaf of
  \<open>invoke-step.ts\<close>, \<open>step-predicate.ts\<close> and \<open>emitted-step.ts\<close>.

  The engine is given a context, as the code is: how an expression is evaluated, how a target is called
  under the bound of one attempt, the clock, and the handle of the run when there is one. The type variable
  \<open>'e\<close> is an expression of the manifest and \<open>'t\<close> what a step calls. Executing a list
  mutates the members published as \<open>steps\<close> and the state of the run.
\<close>

section \<open>Values\<close>

fun member_of :: "cel_value \<Rightarrow> jstring \<Rightarrow> cel_value" where
  "member_of (VRecord ms) name = (case map_of ms name of Some v \<Rightarrow> v | None \<Rightarrow> VUndefined)"
| "member_of _ _ = VUndefined"

fun truthy :: "cel_value \<Rightarrow> bool" where
  "truthy (VBool b) = b"
| "truthy VNull = False"
| "truthy VUndefined = False"
| "truthy (VString s) = (s \<noteq> [])"
| "truthy (VInt i) = (i \<noteq> 0)"
| "truthy (VDouble d) = (case d of Finite _ m _ \<Rightarrow> m \<noteq> 0 | NaN \<Rightarrow> False | _ \<Rightarrow> True)"
| "truthy _ = True"

section \<open>Steps\<close>

text \<open>A step's name, or the identity a template repeat gives a step it emits.\<close>

datatype step_identity = Named jstring | Repeated jstring segment | Sited jstring "segment list" | Unnamed

record 'e retry_policy =
  rp_attempts :: nat
  rp_backoff :: "nat \<Rightarrow> rat"
  rp_max_delay :: rat
  rp_jitter :: bool
  rp_non_retryable :: "jstring list"
  rp_retry_after :: "'e option"

datatype ('e, 't) step =
    InvokeStep step_identity "'e option" 't 'e "'e retry_policy option"
  | IfStep step_identity 'e "('e, 't) step list" "('e \<times> ('e, 't) step list) list" "('e, 't) step list option"
  | WhileStep step_identity 'e "('e, 't) step list"
  | SwitchStep step_identity 'e "(jstring \<times> ('e, 't) step list) list" "('e, 't) step list option"
  | TryStep step_identity "'e option" "('e, 't) step list" "('e, 't) step list option" "('e, 't) step list option"
  | ThrowStep step_identity 'e
  | RethrowStep step_identity
  | ValueStep step_identity 'e

fun identity_of :: "('e, 't) step \<Rightarrow> step_identity" where
  "identity_of (InvokeStep i _ _ _ _) = i"
| "identity_of (IfStep i _ _ _ _) = i"
| "identity_of (WhileStep i _ _) = i"
| "identity_of (SwitchStep i _ _ _) = i"
| "identity_of (TryStep i _ _ _ _) = i"
| "identity_of (ThrowStep i _) = i"
| "identity_of (RethrowStep i) = i"
| "identity_of (ValueStep i _) = i"

fun key_text :: "segment \<Rightarrow> jstring" where
  "key_text (Word w) = indexLiteral w"
| "key_text (Index n) = js ''['' @ digits_of n @ js '']''"
| "key_text (Key k) = indexLiteral k"

fun stepLabel :: "step_identity \<Rightarrow> jstring" where
  "stepLabel (Named n) = n"
| "stepLabel (Repeated r k) = r @ key_text k"
| "stepLabel (Sited s ks) = s @ concat (map key_text ks)"
| "stepLabel Unnamed = []"

fun stepJournalPath :: "jstring \<Rightarrow> step_identity \<Rightarrow> jstring option" where
  "stepJournalPath path (Named n) = (if n = [] then None else Some (stepPath [Word path, Word n]))"
| "stepJournalPath path (Repeated r k) = Some (stepPath [Word path, Word r, k])"
| "stepJournalPath path (Sited s ks) = Some (stepPath (Word path # Word s # ks))"
| "stepJournalPath path Unnamed = None"

definition result_member :: "cel_value \<Rightarrow> cel_value" where
  "result_member result = VRecord [(js ''result'', result)]"

fun fileStepResult :: "step_identity \<Rightarrow> cel_value \<Rightarrow> (jstring \<times> cel_value) list \<Rightarrow> (jstring \<times> cel_value) list" where
  "fileStepResult (Named n) result steps = set_member n (result_member result) steps"
| "fileStepResult (Repeated r (Index i)) result steps =
     (let existing = (case map_of steps r of Some (VMap es) \<Rightarrow>
              [(key, v). (_, key, v) \<leftarrow> es, key \<noteq> VInt (int i)] | _ \<Rightarrow> [])
      in set_member r (case celMapFromEntries (existing @ [(VInt (int i), result_member result)]) of
           Inr m \<Rightarrow> m | Inl (CarriedError e) \<Rightarrow> e | Inl (MapError c) \<Rightarrow> VError c 0) steps)"
| "fileStepResult (Repeated r k) result steps =
     (let existing = (case map_of steps r of Some (VRecord ms) \<Rightarrow> ms | _ \<Rightarrow> []);
          name = (case k of Key t \<Rightarrow> t | Word t \<Rightarrow> t | Index _ \<Rightarrow> [])
      in set_member r (VRecord (set_member name (result_member result) existing)) steps)"
| "fileStepResult _ result steps = steps"

section \<open>The context\<close>

record ('s, 'f, 'w, 'e, 't) step_context =
  c_durable :: "('s, 'f) backend option"
  c_zones :: "open_zone list"
  c_path :: "jstring option"
  c_expand :: "'e \<Rightarrow> (jstring \<times> cel_value) list \<Rightarrow> 'w \<Rightarrow> (failure + cel_value) \<times> 'w"
  c_attempt :: "'t \<Rightarrow> cel_value \<Rightarrow> jstring option \<Rightarrow> (('s, 'w) run, cel_value) act"
  c_identity :: "'t \<Rightarrow> durable_target option"
  c_cancelled :: "'w \<Rightarrow> bool"
  c_now :: "'w \<Rightarrow> int"
  c_jitter :: "rat \<Rightarrow> 'w \<Rightarrow> rat \<times> 'w"
  c_wait :: "rat \<Rightarrow> 'w \<Rightarrow> bool \<times> 'w"
  c_duration_ms :: "cel_value \<Rightarrow> rat option"
  c_string :: "cel_value \<Rightarrow> jstring"
  c_is_text :: "cel_value \<Rightarrow> bool"
  c_format :: "cel_value \<Rightarrow> cel_value \<Rightarrow> jstring"
  c_wording :: "jstring \<Rightarrow> jstring \<Rightarrow> jstring"

text \<open>The variables an expression reads beside \<open>steps\<close>, and the failure the \<open>error\<close> among them was
  built from.\<close>

record scope_extra =
  x_vars :: "(jstring \<times> cel_value) list"
  x_caught :: "failure option"

definition scope_of :: "(jstring \<times> cel_value) list \<Rightarrow> scope_extra \<Rightarrow> (jstring \<times> cel_value) list" where
  "scope_of steps x = fold (\<lambda>(name, v). set_member name v) (x_vars x) [(js ''steps'', VRecord steps)]"

definition with_error :: "scope_extra \<Rightarrow> cel_value \<Rightarrow> failure option \<Rightarrow> scope_extra" where
  "with_error x v caught = \<lparr>x_vars = set_member (js ''error'') v (x_vars x), x_caught = caught\<rparr>"

definition expand :: "('s, 'f, 'w, 'e, 't) step_context \<Rightarrow> 'e \<Rightarrow> (jstring \<times> cel_value) list \<Rightarrow>
    (('s, 'w) run, cel_value) act" where
  "expand ctx e scope st = (let (out, w) = c_expand ctx e scope (world st) in (out, st\<lparr>world := w\<rparr>))"

definition engine_refusal :: "('s, 'f, 'w, 'e, 't) step_context \<Rightarrow> jstring \<Rightarrow> jstring \<Rightarrow> failure" where
  "engine_refusal ctx c site = invokeError c (c_wording ctx c site) (VRecord [(js ''site'', VString site)])"

fun typeName :: "cel_value \<Rightarrow> jstring" where
  "typeName VNull = js ''null''"
| "typeName (VList _) = js ''list''"
| "typeName (VInt _) = js ''int''"
| "typeName (VString _) = js ''string''"
| "typeName (VDouble _) = js ''number''"
| "typeName (VBool _) = js ''boolean''"
| "typeName VUndefined = js ''undefined''"
| "typeName _ = js ''map''"

definition predicateResult :: "('s, 'f, 'w, 'e, 't) step_context \<Rightarrow> jstring \<Rightarrow> cel_value \<Rightarrow> failure + cel_value" where
  "predicateResult ctx site v =
     (case v of VBool b \<Rightarrow> Inr (VBool b)
      | _ \<Rightarrow> Inl (invokeError (js ''ERR_PREDICATE_NOT_BOOLEAN'') (c_wording ctx (js ''ERR_PREDICATE_NOT_BOOLEAN'') site)
          (VRecord [(js ''site'', VString site), (js ''produced'', VString (typeName v))])))"

definition predicate :: "('s, 'f, 'w, 'e, 't) step_context \<Rightarrow> 'e \<Rightarrow> (jstring \<times> cel_value) list \<Rightarrow> jstring \<Rightarrow>
    (('s, 'w) run, cel_value) act" where
  "predicate ctx e scope site st =
     (case expand ctx e scope st of
        (Inl err, st') \<Rightarrow> (Inl err, st')
      | (Inr v, st') \<Rightarrow> (predicateResult ctx site v, st'))"

section \<open>Caught failures\<close>

definition PLAIN_ERROR_CODE :: jstring where
  "PLAIN_ERROR_CODE = js ''INTERNAL_ERROR''"

definition nullish_to_null :: "cel_value \<Rightarrow> cel_value" where
  "nullish_to_null v = (if v = VUndefined then VNull else v)"

text \<open>The code, message and data a caught failure is read under.\<close>

definition seq_code :: "failure \<Rightarrow> jstring" where
  "seq_code err = (if f_invoke err \<and> truthy_text (f_code err) then the (f_code err) else PLAIN_ERROR_CODE)"

definition seq_message :: "failure \<Rightarrow> jstring" where
  "seq_message err =
     (if f_message err \<noteq> [] then f_message err else if f_invoke err then seq_code err else js ''Unknown error'')"

definition seq_data :: "failure \<Rightarrow> cel_value" where
  "seq_data err = (if f_invoke err then nullish_to_null (f_data err) else VNull)"

definition toSequenceError :: "failure \<Rightarrow> jstring \<Rightarrow> cel_value" where
  "toSequenceError err label = VRecord
     [(js ''message'', VString (seq_message err)), (js ''code'', VString (seq_code err)), (js ''data'', seq_data err),
      (js ''step'', VString label),
      (js ''displayMessage'', if f_invoke err then (case f_display err of Some d \<Rightarrow> nullish_to_null d | None \<Rightarrow> VNull) else VNull)]"

section \<open>Attempts\<close>

definition AMBIENT_CONTRACT_ERROR_CODES :: "jstring list" where
  "AMBIENT_CONTRACT_ERROR_CODES = [js ''ERR_INPUT_INVALID'', js ''ERR_OUTPUT_INVALID'', js ''ERR_CONTRACT_UNRESOLVABLE'',
     js ''ERR_SCHEMA_PROJECTION_UNRESOLVED'', js ''ERR_FUNCTION_FAILED'', js ''ERR_PREDICATE_NOT_BOOLEAN'']"

definition UNRETRYABLE_CODES :: "jstring list" where
  "UNRETRYABLE_CODES = [js ''ERR_RESOURCE_NOT_FOUND'', js ''ERR_RESOURCE_NOT_INVOKABLE'']"

definition isRetryable :: "failure \<Rightarrow> jstring list \<Rightarrow> bool" where
  "isRetryable err nonRetryable \<longleftrightarrow>
     \<not> isCancellationError err \<and> \<not> isSuspension err \<and>
     (case f_code err of None \<Rightarrow> True
      | Some c \<Rightarrow> c \<notin> set nonRetryable \<and> c \<notin> set AMBIENT_CONTRACT_ERROR_CODES \<and> c \<notin> set UNRETRYABLE_CODES)"

definition retryErrorView :: "failure \<Rightarrow> cel_value" where
  "retryErrorView err = VRecord
     [(js ''code'', VString (case f_code err of Some c \<Rightarrow> c | None \<Rightarrow> PLAIN_ERROR_CODE)),
      (js ''message'', VString (f_message err)), (js ''data'', nullish_to_null (f_data err))]"

definition retryAfterMs :: "('s, 'f, 'w, 'e, 't) step_context \<Rightarrow> 'e retry_policy \<Rightarrow> jstring \<Rightarrow>
    (jstring \<times> cel_value) list \<Rightarrow> failure \<Rightarrow> (('s, 'w) run, rat option) act" where
  "retryAfterMs ctx policy label scope err st =
     (case rp_retry_after policy of
        None \<Rightarrow> (Inr None, st)
      | Some e \<Rightarrow>
          (case expand ctx e (set_member (js ''error'') (retryErrorView err) scope) st of
             (Inl f, st') \<Rightarrow> (Inl f, st')
           | (Inr VNull, st') \<Rightarrow> (Inr None, st')
           | (Inr v, st') \<Rightarrow>
               (case (case v of VDuration _ \<Rightarrow> c_duration_ms ctx v | _ \<Rightarrow> None) of
                  Some ms \<Rightarrow> if ms < 0 then (Inl (engine_refusal ctx (js ''ERR_INVALID_VALUE'') label), st')
                             else (Inr (Some (min ms (rp_max_delay policy))), st')
                | None \<Rightarrow> (Inl (engine_refusal ctx (js ''ERR_INVALID_VALUE'') label), st'))))"

definition SUSPENDING_BACKOFF_MS :: rat where
  "SUSPENDING_BACKOFF_MS = 30000"

text \<open>
  A number of milliseconds is a fraction, \<open>Math.random() * backoff\<close>; as a value it is the double nearest to it, which is what
  the sum \<open>Date.now() + delay\<close> of two numbers is.
\<close>

definition double_of_rat :: "rat \<Rightarrow> double" where
  "double_of_rat r = (case quotient_of r of (p, q) \<Rightarrow> round_double (p < 0) (nat \<bar>p\<bar>) (nat q))"

fun rat_of_double :: "double \<Rightarrow> rat option" where
  "rat_of_double (Finite s m e) =
     Some ((if s then -1 else 1) * of_nat m * (if 0 \<le> e then 2 ^ nat e else 1 / 2 ^ nat (- e)))"
| "rat_of_double _ = None"

definition time_value :: "rat \<Rightarrow> cel_value" where
  "time_value ms = VDouble (double_of_rat ms)"

fun time_of :: "cel_value \<Rightarrow> rat option" where
  "time_of (VDouble d) = rat_of_double d"
| "time_of _ = None"

definition still_before :: "int \<Rightarrow> cel_value \<Rightarrow> bool" where
  "still_before now v = (case time_of v of Some t \<Rightarrow> of_int now < t | None \<Rightarrow> False)"

definition wait_out :: "('s, 'f, 'w, 'e, 't) step_context \<Rightarrow> jstring \<Rightarrow> rat \<Rightarrow> (('s, 'w) run, unit) act" where
  "wait_out ctx label delay st =
     (let (cancelled, w) = c_wait ctx delay (world st)
      in (if cancelled then Inl (engine_refusal ctx ERR_INVOKE_CANCELLED label) else Inr (), st\<lparr>world := w\<rparr>))"

text \<open>The wait before the next attempt; a suspension leaves the run instead of waiting.\<close>

definition between_attempts :: "('s, 'f, 'w, 'e, 't) step_context \<Rightarrow> 'e retry_policy \<Rightarrow> jstring \<Rightarrow> jstring \<Rightarrow>
    nat \<Rightarrow> rat option \<Rightarrow> (('s, 'w) run, unit) act" where
  "between_attempts ctx policy label path resend requested st =
     (let backoff = (case requested of Some ms \<Rightarrow> ms | None \<Rightarrow> rp_backoff policy resend);
          (delay, w) = (if requested = None \<and> rp_jitter policy then c_jitter ctx backoff (world st) else (backoff, world st));
          st0 = st\<lparr>world := w\<rparr>
      in case c_durable ctx of
           Some B \<Rightarrow>
             (if backoff \<ge> SUSPENDING_BACKOFF_MS then
                (let attemptPath = stepPath [Word path, Word (js ''retry''), Index resend];
                     resource = (if label = [] then path else label)
                 in case handle_decide B attemptPath DValue (\<lambda>st'. (Inr (time_value (of_int (c_now ctx (world st')) + delay)), st')) st0 of
                      (Inl e, st1) \<Rightarrow> (Inl e, st1)
                    | (Inr dueAt, st1) \<Rightarrow>
                        if still_before (c_now ctx (world st1)) dueAt then
                          (case assertMaySuspend B (c_zones ctx) resource of
                             Some e \<Rightarrow> (Inl e, st1)
                           | None \<Rightarrow> parkRun B \<lparr>s_path = attemptPath, s_resource = resource, s_at = time_of dueAt, s_token = None\<rparr> st1)
                        else (Inr (), st1))
              else wait_out ctx label delay st0)
         | None \<Rightarrow> wait_out ctx label delay st0)"

function attempts_from :: "('s, 'f, 'w, 'e, 't) step_context \<Rightarrow> 'e retry_policy \<Rightarrow> jstring \<Rightarrow> jstring \<Rightarrow>
    (jstring \<times> cel_value) list \<Rightarrow> (('s, 'w) run, cel_value) act \<Rightarrow> nat \<Rightarrow> (('s, 'w) run, cel_value) act" where
  "attempts_from ctx policy label path scope attempt resend st =
     (case attempt st of
        (Inr v, st1) \<Rightarrow> (Inr v, st1)
      | (Inl err, st1) \<Rightarrow>
          if resend \<ge> rp_attempts policy \<or> \<not> isRetryable err (rp_non_retryable policy) then (Inl err, st1)
          else (case retryAfterMs ctx policy label scope err st1 of
                  (Inl e, st2) \<Rightarrow> (Inl e, st2)
                | (Inr requested, st2) \<Rightarrow>
                    (case between_attempts ctx policy label path resend requested st2 of
                       (Inl e, st3) \<Rightarrow> (Inl e, st3)
                     | (Inr _, st3) \<Rightarrow> attempts_from ctx policy label path scope attempt (Suc resend) st3)))"
  by pat_completeness auto
termination by (relation "measure (\<lambda>(ctx, policy, label, path, scope, attempt, resend, st). rp_attempts policy - resend)") auto

definition withStepRetry :: "('s, 'f, 'w, 'e, 't) step_context \<Rightarrow> 'e retry_policy option \<Rightarrow> jstring \<Rightarrow> jstring \<Rightarrow>
    (jstring \<times> cel_value) list \<Rightarrow> (('s, 'w) run, cel_value) act \<Rightarrow> (('s, 'w) run, cel_value) act" where
  "withStepRetry ctx policy label path scope attempt st =
     (case policy of
        None \<Rightarrow> attempt st
      | Some p \<Rightarrow> if rp_attempts p = 0 then attempt st else attempts_from ctx p label path scope attempt 0 st)"

section \<open>Executing a body\<close>

text \<open>
  A computation over the members published as \<open>steps\<close> and the state of the run. It answers nothing only
  when the fuel of a loop is spent.
\<close>

type_synonym ('s, 'w) body = "(jstring \<times> cel_value) list \<times> ('s, 'w) run"

type_synonym ('s, 'w, 'a) comp = "('s, 'w) body \<Rightarrow> ((failure + 'a) \<times> ('s, 'w) body) option"

definition lift_act :: "((jstring \<times> cel_value) list \<Rightarrow> (('s, 'w) run, 'a) act) \<Rightarrow> ('s, 'w, 'a) comp" where
  "lift_act f b = (case b of (steps, st) \<Rightarrow> (case f steps st of (out, st') \<Rightarrow> Some (out, steps, st')))"

definition settle :: "('s, 'w, 'a) comp \<Rightarrow> (failure \<Rightarrow> ('s, 'w, 'b) comp) \<Rightarrow> ('a \<Rightarrow> ('s, 'w, 'b) comp) \<Rightarrow> ('s, 'w, 'b) comp" where
  "settle m on_failure on_success b =
     (case m b of
        None \<Rightarrow> None
      | Some (Inl e, b') \<Rightarrow> on_failure e b'
      | Some (Inr a, b') \<Rightarrow> on_success a b')"

definition raise :: "failure \<Rightarrow> ('s, 'w, 'a) comp" where
  "raise e b = Some (Inl e, b)"

definition andThen :: "('s, 'w, 'a) comp \<Rightarrow> ('a \<Rightarrow> ('s, 'w, 'b) comp) \<Rightarrow> ('s, 'w, 'b) comp" where
  "andThen m k = settle m raise k"

definition skip :: "('s, 'w, unit) comp" where
  "skip b = Some (Inr (), b)"

definition publish :: "step_identity \<Rightarrow> cel_value \<Rightarrow> ('s, 'w, unit) comp" where
  "publish i v b = Some (Inr (), fileStepResult i v (fst b), snd b)"

definition decide :: "('s, 'f, 'w, 'e, 't) step_context \<Rightarrow> jstring \<Rightarrow> decision_kind \<Rightarrow>
    ((jstring \<times> cel_value) list \<Rightarrow> (('s, 'w) run, cel_value) act) \<Rightarrow> ('s, 'w, cel_value) comp" where
  "decide ctx path which compute = lift_act (\<lambda>steps. decideValue (c_durable ctx) (c_zones ctx) path which (compute steps))"

definition decide_predicate :: "('s, 'f, 'w, 'e, 't) step_context \<Rightarrow> scope_extra \<Rightarrow> 'e \<Rightarrow> jstring \<Rightarrow> decision_kind \<Rightarrow>
    jstring \<Rightarrow> ('s, 'w, cel_value) comp" where
  "decide_predicate ctx x cond path which site =
     decide ctx path which (\<lambda>steps. predicate ctx cond (scope_of steps x) site)"

definition js_string :: "('s, 'f, 'w, 'e, 't) step_context \<Rightarrow> cel_value \<Rightarrow> jstring" where
  "js_string ctx v =
     (case v of VString s \<Rightarrow> s
      | VBool b \<Rightarrow> (if b then js ''true'' else js ''false'')
      | VNull \<Rightarrow> js ''null''
      | VUndefined \<Rightarrow> js ''undefined''
      | VInt i \<Rightarrow> (if i < 0 then 45 # digits_of (nat (- i)) else digits_of (nat i))
      | VDouble d \<Rightarrow> string_of_double d
      | _ \<Rightarrow> c_string ctx v)"

text \<open>
  The leaf. Inside a region that re-runs whole the engine records nothing of its own, and a step that is
  recorded is handed over with everything that performing it takes, its attempts included.
\<close>

definition leaf_backend :: "('s, 'f, 'w, 'e, 't) step_context \<Rightarrow> ('s, 'w) run \<Rightarrow> ('s, 'f) backend option \<times> ('s, 'w) run" where
  "leaf_backend ctx st =
     (case c_durable ctx of
        None \<Rightarrow> (None, st)
      | Some B \<Rightarrow> (let (suppressed, st') = journalingSuppressed B (c_zones ctx) st in (if suppressed then None else Some B, st')))"

definition decide_with :: "('s, 'f) backend option \<Rightarrow> jstring \<Rightarrow> decision_kind \<Rightarrow> (('s, 'w) run, cel_value) act \<Rightarrow>
    (('s, 'w) run, cel_value) act" where
  "decide_with H path which compute = (case H of None \<Rightarrow> compute | Some B \<Rightarrow> handle_decide B path which compute)"

definition step_with :: "('s, 'f) backend option \<Rightarrow> jstring \<Rightarrow> durable_target option \<Rightarrow> (('s, 'w) run, cel_value) act \<Rightarrow>
    (('s, 'w) run, cel_value) act" where
  "step_with H path target execute = (case H of None \<Rightarrow> execute | Some B \<Rightarrow> handle_step B path target execute)"

definition with_backend :: "('s, 'f, 'w, 'e, 't) step_context \<Rightarrow> (('s, 'f) backend option \<Rightarrow> ('s, 'w, 'a) comp) \<Rightarrow> ('s, 'w, 'a) comp" where
  "with_backend ctx k b = (case leaf_backend ctx (snd b) of (H, st) \<Rightarrow> k H (fst b, st))"

definition guard_step :: "('s, 'f, 'w, 'e, 't) step_context \<Rightarrow> ('s, 'f) backend option \<Rightarrow> scope_extra \<Rightarrow> 'e option \<Rightarrow> jstring \<Rightarrow>
    ('s, 'w, cel_value) comp" where
  "guard_step ctx H x cond path =
     (case cond of
        None \<Rightarrow> (\<lambda>b. Some (Inr (VBool True), b))
      | Some e \<Rightarrow> lift_act (\<lambda>steps. decide_with H (stepPath [Word path, Word GUARD_DECISION_SEGMENT]) DPredicate
          (predicate ctx e (scope_of steps x) (path @ js ''.when''))))"

definition executeInvokeStep :: "('s, 'f, 'w, 'e, 't) step_context \<Rightarrow> scope_extra \<Rightarrow> step_identity \<Rightarrow> 'e option \<Rightarrow> 't \<Rightarrow>
    'e \<Rightarrow> 'e retry_policy option \<Rightarrow> jstring \<Rightarrow> ('s, 'w, unit) comp" where
  "executeInvokeStep ctx x i cond target inputs retry path =
     with_backend ctx (\<lambda>H. andThen (guard_step ctx H x cond path)
       (\<lambda>go. if truthy go then
          andThen (lift_act (\<lambda>steps. decide_with H (stepPath [Word path, Word (js ''inputs'')]) DInputs
              (expand ctx inputs (scope_of steps x))))
            (\<lambda>given. andThen (lift_act (\<lambda>steps. step_with H path (c_identity ctx target)
                (withStepRetry ctx retry (stepLabel i) path (scope_of steps x)
                  (c_attempt ctx target given (if c_durable ctx = None then c_path ctx else Some path)))))
              (publish i))
        else skip))"

definition executeValueStep :: "('s, 'f, 'w, 'e, 't) step_context \<Rightarrow> scope_extra \<Rightarrow> step_identity \<Rightarrow> 'e \<Rightarrow> jstring \<Rightarrow>
    ('s, 'w, unit) comp" where
  "executeValueStep ctx x i e path =
     settle (decide ctx path DValue (\<lambda>steps. expand ctx e (scope_of steps x)))
       (\<lambda>err. raise
          (if isSuspension err then err
           else invokeError (seq_code err) (js ''Step '' @ [34] @ stepLabel i @ [34] @ js '': '' @ seq_message err)
             (VRecord [(js ''step'', VString (stepLabel i)), (js ''data'', seq_data err)])))
       (publish i)"

definition executeThrowStep :: "('s, 'f, 'w, 'e, 't) step_context \<Rightarrow> scope_extra \<Rightarrow> step_identity \<Rightarrow> 'e \<Rightarrow>
    ('s, 'w, unit) comp" where
  "executeThrowStep ctx x i e = andThen (lift_act (\<lambda>steps. expand ctx e (scope_of steps x)))
     (\<lambda>thrown. raise
        (case member_of thrown (js ''code'') of
           VString c \<Rightarrow>
             if c = [] then engine_refusal ctx (js ''INVALID_THROW_STEP'') (stepLabel i)
             else (let shown = member_of thrown (js ''displayMessage''); data = member_of thrown (js ''data'')
                   in if shown \<noteq> VUndefined \<and> shown \<noteq> VNull \<and> \<not> c_is_text ctx shown then
                        (engine_refusal ctx (js ''ERR_TEXT_ARGUMENT_COMPUTED'') (stepLabel i))\<lparr>f_invoke := False\<rparr>
                      else (invokeError c
                          (case member_of thrown (js ''message'') of VString m \<Rightarrow> m
                           | _ \<Rightarrow> if shown \<noteq> VUndefined \<and> shown \<noteq> VNull then c_format ctx shown data else c) data)
                        \<lparr>f_display := (if shown = VUndefined \<or> shown = VNull then None else Some shown)\<rparr>)
         | _ \<Rightarrow> engine_refusal ctx (js ''INVALID_THROW_STEP'') (stepLabel i)))"

definition executeRethrowStep :: "('s, 'f, 'w, 'e, 't) step_context \<Rightarrow> scope_extra \<Rightarrow> step_identity \<Rightarrow> ('s, 'w, unit) comp" where
  "executeRethrowStep ctx x i =
     raise (case x_caught x of
              Some err \<Rightarrow> err
            | None \<Rightarrow> (engine_refusal ctx (js ''ERR_RETHROW_WITHOUT_CAUGHT_ERROR'') (stepLabel i))\<lparr>f_invoke := False\<rparr>)"

text \<open>What is left to do of a body: a list, the turns of a loop, the branches after the first of a condition.\<close>

datatype ('e, 't) task =
    Steps "('e, 't) step list"
  | Turns 'e "('e, 't) step list" nat
  | Branches "('e \<times> ('e, 't) step list) list" "('e, 't) step list option" nat

type_synonym ('s, 'w, 'e, 't) runner = "('e, 't) task \<Rightarrow> scope_extra \<Rightarrow> jstring \<Rightarrow> ('s, 'w, unit) comp"

definition optional_steps :: "('s, 'w, 'e, 't) runner \<Rightarrow> ('e, 't) step list option \<Rightarrow> scope_extra \<Rightarrow> jstring \<Rightarrow>
    ('s, 'w, unit) comp" where
  "optional_steps rec body x path = (case body of None \<Rightarrow> skip | Some ss \<Rightarrow> rec (Steps ss) x path)"

definition executeSwitchStep :: "('s, 'f, 'w, 'e, 't) step_context \<Rightarrow> ('s, 'w, 'e, 't) runner \<Rightarrow> step_identity \<Rightarrow> 'e \<Rightarrow>
    (jstring \<times> ('e, 't) step list) list \<Rightarrow> ('e, 't) step list option \<Rightarrow> scope_extra \<Rightarrow> jstring \<Rightarrow> ('s, 'w, unit) comp" where
  "executeSwitchStep ctx rec i e cases others x path =
     andThen (decide ctx (stepPath [Word path, Word (js ''switch'')]) DSwitch (\<lambda>steps. expand ctx e (scope_of steps x)))
       (\<lambda>v. let key = js_string ctx v
            in case map_of cases key of
                 Some ss \<Rightarrow> rec (Steps ss) x (stepPath [Word path, Word (js ''cases''), Word key])
               | None \<Rightarrow>
                   (case others of
                      Some ss \<Rightarrow> rec (Steps ss) x (stepPath [Word path, Word (js ''default'')])
                    | None \<Rightarrow> raise ((engine_refusal ctx [] (stepLabel i))\<lparr>f_invoke := False, f_code := None\<rparr>)))"

definition passes_try :: "('s, 'f, 'w, 'e, 't) step_context \<Rightarrow> failure \<Rightarrow> ('s, 'w) body \<Rightarrow> bool" where
  "passes_try ctx err b \<longleftrightarrow> isSuspension err \<or> (isCancellationError err \<and> c_cancelled ctx (world (snd b)))"

definition executeTryBody :: "('s, 'f, 'w, 'e, 't) step_context \<Rightarrow> ('s, 'w, 'e, 't) runner \<Rightarrow> jstring \<Rightarrow>
    ('e, 't) step list \<Rightarrow> ('e, 't) step list option \<Rightarrow> ('e, 't) step list option \<Rightarrow> scope_extra \<Rightarrow> jstring \<Rightarrow>
    ('s, 'w, unit) comp" where
  "executeTryBody ctx rec label body catch_steps finally_steps x path =
     (let at_end = (\<lambda>v. optional_steps rec finally_steps (with_error x v None) (stepPath [Word path, Word (js ''finally'')]))
      in settle (rec (Steps body) x (stepPath [Word path, Word (js ''try'')]))
           (\<lambda>err b. if passes_try ctx err b then raise err b
             else (case catch_steps of
                     None \<Rightarrow> andThen (at_end (toSequenceError err label)) (\<lambda>_. raise err)
                   | Some ss \<Rightarrow>
                       settle (rec (Steps ss) (with_error x (toSequenceError err label) (Some err))
                           (stepPath [Word path, Word (js ''catch'')]))
                         (\<lambda>again. andThen (at_end (toSequenceError again label)) (\<lambda>_. raise again))
                         (\<lambda>_. at_end VNull)) b)
           (\<lambda>_. at_end VNull))"

definition executeTryStep :: "('s, 'f, 'w, 'e, 't) step_context \<Rightarrow> ('s, 'w, 'e, 't) runner \<Rightarrow> step_identity \<Rightarrow> 'e option \<Rightarrow>
    ('e, 't) step list \<Rightarrow> ('e, 't) step list option \<Rightarrow> ('e, 't) step list option \<Rightarrow> scope_extra \<Rightarrow> jstring \<Rightarrow>
    ('s, 'w, unit) comp" where
  "executeTryStep ctx rec i cond body catch_steps finally_steps x path =
     (let here = stepPath [Word path, Word (js ''when'')];
          go = executeTryBody ctx rec (stepLabel i) body catch_steps finally_steps x path
      in case cond of
           None \<Rightarrow> go
         | Some e \<Rightarrow> andThen (decide_predicate ctx x e here DPredicate here) (\<lambda>v. if truthy v then go else skip))"

definition executeIfStep :: "('s, 'f, 'w, 'e, 't) step_context \<Rightarrow> ('s, 'w, 'e, 't) runner \<Rightarrow> 'e \<Rightarrow> ('e, 't) step list \<Rightarrow>
    ('e \<times> ('e, 't) step list) list \<Rightarrow> ('e, 't) step list option \<Rightarrow> scope_extra \<Rightarrow> jstring \<Rightarrow> ('s, 'w, unit) comp" where
  "executeIfStep ctx rec cond body branches otherwise_steps x path =
     andThen (decide_predicate ctx x cond (stepPath [Word path, Word (js ''if'')]) DPredicate (stepPath [Word path, Word (js ''if'')]))
       (\<lambda>v. if truthy v then rec (Steps body) x (stepPath [Word path, Word (js ''then'')])
            else rec (Branches branches otherwise_steps 0) x path)"

definition pathOf :: "('s, 'f, 'w, 'e, 't) step_context \<Rightarrow> jstring \<Rightarrow> step_identity \<Rightarrow> failure + jstring" where
  "pathOf ctx path i =
     (case stepJournalPath path i of
        Some here \<Rightarrow> Inr here
      | None \<Rightarrow> Inl (engine_refusal ctx (js ''ERR_STEP_NAME_REQUIRED'') path))"

definition executeStep :: "('s, 'f, 'w, 'e, 't) step_context \<Rightarrow> ('s, 'w, 'e, 't) runner \<Rightarrow> ('e, 't) step \<Rightarrow> scope_extra \<Rightarrow>
    jstring \<Rightarrow> ('s, 'w, unit) comp" where
  "executeStep ctx rec s x path =
     (case pathOf ctx path (identity_of s) of
        Inl e \<Rightarrow> raise e
      | Inr here \<Rightarrow>
          (case s of
             InvokeStep i cond target inputs retry \<Rightarrow> executeInvokeStep ctx x i cond target inputs retry here
           | IfStep i cond body branches others \<Rightarrow> executeIfStep ctx rec cond body branches others x here
           | WhileStep i cond body \<Rightarrow> rec (Turns cond body 0) x here
           | SwitchStep i e cases others \<Rightarrow> executeSwitchStep ctx rec i e cases others x here
           | TryStep i cond body catch_steps finally_steps \<Rightarrow> executeTryStep ctx rec i cond body catch_steps finally_steps x here
           | ThrowStep i e \<Rightarrow> executeThrowStep ctx x i e
           | RethrowStep i \<Rightarrow> executeRethrowStep ctx x i
           | ValueStep i e \<Rightarrow> executeValueStep ctx x i e here))"

fun task_body :: "('s, 'f, 'w, 'e, 't) step_context \<Rightarrow> ('s, 'w, 'e, 't) runner \<Rightarrow> ('s, 'w, 'e, 't) runner" where
  "task_body ctx rec (Steps []) x path = skip"
| "task_body ctx rec (Steps (s # ss)) x path = andThen (executeStep ctx rec s x path) (\<lambda>_. rec (Steps ss) x path)"
| "task_body ctx rec (Turns cond body turn) x path =
     andThen (decide_predicate ctx x cond (stepPath [Word path, Word (js ''while''), Index turn]) DCondition
         (stepPath [Word path, Word (js ''while'')]))
       (\<lambda>v. if truthy v then
              andThen (rec (Steps body) x (stepPath [Word path, Word (js ''do''), Index turn]))
                (\<lambda>_. rec (Turns cond body (Suc turn)) x path)
            else skip)"
| "task_body ctx rec (Branches [] others k) x path = optional_steps rec others x (stepPath [Word path, Word (js ''else'')])"
| "task_body ctx rec (Branches ((cond, body) # branches) others k) x path =
     andThen (decide_predicate ctx x cond (stepPath [Word path, Word (js ''elseif''), Index k]) DPredicate
         (stepPath [Word path, Word (js ''elseif''), Index k, Word (js ''if'')]))
       (\<lambda>v. if truthy v then rec (Steps body) x (stepPath [Word path, Word (js ''elseif''), Index k, Word (js ''then'')])
            else rec (Branches branches others (Suc k)) x path)"

primrec run_task :: "('s, 'f, 'w, 'e, 't) step_context \<Rightarrow> nat \<Rightarrow> ('s, 'w, 'e, 't) runner" where
  "run_task ctx 0 = (\<lambda>task x path b. None)"
| "run_task ctx (Suc n) = task_body ctx (run_task ctx n)"

definition baseStepPath :: "('s, 'f, 'w, 'e, 't) step_context \<Rightarrow> jstring" where
  "baseStepPath ctx = (case c_path ctx of Some p \<Rightarrow> p | None \<Rightarrow> js ''steps'')"

definition executeSteps :: "('s, 'f, 'w, 'e, 't) step_context \<Rightarrow> nat \<Rightarrow> ('e, 't) step list \<Rightarrow> scope_extra \<Rightarrow>
    jstring option \<Rightarrow> ('s, 'w, unit) comp" where
  "executeSteps ctx fuel ss x path =
     run_task ctx fuel (Steps ss) x (case path of Some p \<Rightarrow> p | None \<Rightarrow> baseStepPath ctx)"

section \<open>Paths of attempts\<close>

lemma join_qualifiers_append:
  assumes "b = [] \<or> hd b \<noteq> 91"
  shows "join_qualifiers (a @ b) = join_qualifiers a @ join_qualifiers b"
  using assms by (induction a rule: join_qualifiers.induct) (cases b; auto)+

lemma digits_not_slash: "c \<in> set (digits_of n) \<Longrightarrow> c \<noteq> 47 \<and> c \<noteq> 91"
  using digits_of_digits [of n] by (auto simp: isDigit_def list_all_iff)

lemma join_qualifiers_plain: "47 \<notin> set cs \<Longrightarrow> join_qualifiers cs = cs"
  by (induction cs rule: join_qualifiers.induct) auto

lemma retry_path:
  "stepPath [Word p, Word (js ''retry''), Index n] = join_qualifiers p @ js ''/retry['' @ digits_of n @ js '']''"
proof -
  have plain: "join_qualifiers (91 # digits_of n @ [93]) = 91 # digits_of n @ [93]"
    by (rule join_qualifiers_plain) (auto dest: digits_not_slash)
  have "stepPath [Word p, Word (js ''retry''), Index n] = join_qualifiers (p @ (47 # js ''retry/['' @ digits_of n @ js '']''))"
    by (simp add: stepPath_def)
  also have "\<dots> = join_qualifiers p @ join_qualifiers (47 # js ''retry/['' @ digits_of n @ js '']'')"
    by (rule join_qualifiers_append) simp
  also have "join_qualifiers (47 # js ''retry/['' @ digits_of n @ js '']'') = js ''/retry['' @ digits_of n @ js '']''"
    using plain by (cases "digits_of n") auto
  finally show ?thesis .
qed

lemma retry_path_new: "stepPath [Word p, Word (js ''retry''), Index n] \<noteq> p"
proof -
  let ?R = "js ''/retry['' @ digits_of n @ js '']''"
  have R: "join_qualifiers ?R = ?R"
    using join_qualifiers_plain [of "js ''retry['' @ digits_of n @ js '']''"] by (auto dest: digits_not_slash)
  have "q \<noteq> join_qualifiers q @ ?R" for q
  proof (induction q rule: length_induct)
    case (1 q)
    show ?case
    proof
      assume q: "q = join_qualifiers q @ ?R"
      have "join_qualifiers (join_qualifiers q @ ?R) = join_qualifiers (join_qualifiers q) @ join_qualifiers ?R"
        by (rule join_qualifiers_append) simp
      then have "join_qualifiers q = join_qualifiers (join_qualifiers q) @ ?R" using q R by metis
      moreover have "length (join_qualifiers q) < length q" by (subst (2) q) simp
      ultimately show False using 1 by blast
    qed
  qed
  then show ?thesis unfolding retry_path by metis
qed

section \<open>Executing keeps the handle in step\<close>

text \<open>What a step calls keeps the handle in step, and records nothing at the path of the step itself.\<close>

definition calls_below :: "('s \<Rightarrow> bool) \<Rightarrow> ('s \<Rightarrow> jstring \<Rightarrow> 'f journal_entry list) \<Rightarrow>
    ('s \<Rightarrow> jstring \<Rightarrow> 'f run_record option) \<Rightarrow> ('s, 'f) backend \<Rightarrow> ('s, 'f, 'w, 'e, 't) step_context \<Rightarrow> bool" where
  "calls_below ok entries_of record_of B ctx \<longleftrightarrow>
     (\<forall>target given path st out st'. in_step ok entries_of record_of B st \<longrightarrow>
        c_attempt ctx target given (Some path) st = (out, st') \<longrightarrow>
        goes_on ok entries_of record_of B st st' \<and> (recorded st path = None \<longrightarrow> recorded st' path = None))"

text \<open>A context in which the engine records: there is a handle, and no region around it re-runs whole.\<close>

definition recording :: "('s, 'f, 'w, 'e, 't) step_context \<Rightarrow> ('s, 'f) backend \<Rightarrow> bool" where
  "recording ctx B \<longleftrightarrow> c_durable ctx = Some B \<and> \<not> fst (collapsesJournalEntries (b_writes_inside B) (c_zones ctx))"

lemma recording_decides:
  assumes "recording ctx B"
  obtains st0 where "undisturbed st st0" and "decideValue (c_durable ctx) (c_zones ctx) path which compute st = handle_decide B path which compute st0"
    and "leaf_backend ctx st = (Some B, st0)"
proof -
  have "decideValue (c_durable ctx) (c_zones ctx) path which compute st = handle_decide B path which compute (snd (journalingSuppressed B (c_zones ctx) st))"
    "leaf_backend ctx st = (Some B, snd (journalingSuppressed B (c_zones ctx) st))"
    using assms by (simp_all add: recording_def decideValue_def leaf_backend_def journalingSuppressed_def split_def Let_def)
  with that journalingSuppressed_is(2) show ?thesis by blast
qed

lemma expand_recorded: "expand ctx e scope st = (out, st') \<Longrightarrow> recorded st' = recorded st \<and> store st' = store st"
  by (auto simp: expand_def split: prod.splits)

context durable_journal
begin

lemma same_record_onward:
  "sound B st \<Longrightarrow> recorded st' = recorded st \<Longrightarrow> store st' = store st \<Longrightarrow> onward B st st'"
  by (simp add: in_step_def goes_on_def)

lemma expand_safe: "safe B (expand ctx e scope)"
  by (auto simp: keeps_def intro: same_record_onward dest: expand_recorded)

lemma predicate_safe: "safe B (predicate ctx e scope site)"
  by (auto simp: keeps_def predicate_def intro: same_record_onward dest: expand_recorded split: prod.splits sum.splits)

lemma retryAfter_keeps:
  assumes "retryAfterMs ctx policy label scope err st = (out, st')"
  shows "recorded st' = recorded st \<and> store st' = store st"
proof (cases "rp_retry_after policy")
  case (Some e)
  obtain o1 st1 where "expand ctx e (set_member (js ''error'') (retryErrorView err) scope) st = (o1, st1)" by fastforce
  with Some assms expand_recorded [OF this] show ?thesis
    by (cases o1; (cases "projr o1")?) (auto simp: retryAfterMs_def split: option.splits if_splits)
qed (use assms in \<open>simp add: retryAfterMs_def\<close>)

lemma wait_out_keeps: "wait_out ctx label delay st = (out, st') \<Longrightarrow> recorded st' = recorded st \<and> store st' = store st"
  by (auto simp: wait_out_def split: prod.splits)

lemma decide_other:
  assumes "b_journal B = J" "safe B compute" "sound B st" "handle_decide B path which compute st = (out, st')"
    and "other \<noteq> path" and "\<And>o1 st1. compute st = (o1, st1) \<Longrightarrow> recorded st1 = recorded st"
  shows "recorded st' other = recorded st other"
proof (cases "recorded st path")
  case None
  obtain o1 st1 where run: "compute st = (o1, st1)" by (cases "compute st")
  then have st1: "sound B st1" "recorded st1 = recorded st" using assms(2,3,6) by (auto simp: keeps_def goes_on_def)
  show ?thesis
  proof (cases o1)
    case (Inr u)
    then have "write_entry B path DecisionEntry (Some which) None u st1 = (out, st')"
      using assms(4) None run by (simp add: handle_decide_def)
    from write_entry_onward(6) [OF assms(1) st1(1) this assms(5)] st1(2) show ?thesis by simp
  qed (use assms(4) None run st1 in \<open>auto simp: handle_decide_def\<close>)
qed (use assms(4) in \<open>simp add: handle_decide_def\<close>)

lemma between_attempts_onward:
  assumes "b_journal B = J" "c_durable ctx = Some B" "sound B st"
    and run: "between_attempts ctx policy label path resend requested st = (out, st')"
  shows "onward B st st' \<and> (recorded st path = None \<longrightarrow> recorded st' path = None)"
proof -
  let ?backoff = "case requested of Some ms \<Rightarrow> ms | None \<Rightarrow> rp_backoff policy resend"
  obtain delay w where dw: "(if requested = None \<and> rp_jitter policy then c_jitter ctx ?backoff (world st) else (?backoff, world st)) = (delay, w)"
    by fastforce
  define st0 where "st0 = st\<lparr>world := w\<rparr>"
  have st0: "onward B st st0" "recorded st0 = recorded st" "sound B st0"
    using assms(3) by (auto simp: st0_def in_step_def goes_on_def)
  show ?thesis
  proof (cases "?backoff \<ge> SUSPENDING_BACKOFF_MS")
    case False
    then have "wait_out ctx label delay st0 = (out, st')"
      using run dw assms(2) by (simp add: between_attempts_def Let_def st0_def split_def)
    from wait_out_keeps [OF this] st0 show ?thesis by (auto simp: in_step_def goes_on_def)
  next
    case True
    let ?path = "stepPath [Word path, Word (js ''retry''), Index resend]"
    let ?compute = "\<lambda>st'. (Inr (time_value (of_int (c_now ctx (world st')) + delay)), st')"
    have safe: "safe B ?compute" by (auto simp: keeps_def intro: onward_refl)
    obtain o1 st1 where dec: "handle_decide B ?path DValue ?compute st0 = (o1, st1)" by fastforce
    have on1: "onward B st0 st1" by (rule decide_onward(1) [OF assms(1) safe st0(3) dec])
    have same: "recorded st1 path = recorded st path"
      using decide_other [OF assms(1) safe st0(3) dec, of path] retry_path_new [of path resend] st0(2) by fastforce
    have on: "onward B st st1" using st0(1) on1 by (rule onward_trans)
    have s1: "sound B st1" using on1 by (simp add: goes_on_def)
    let ?resource = "if label = [] then path else label"
    have cases: "(\<exists>e. (out, st') = (Inl e, st1)) \<or> (out, st') = (Inr (), st1) \<or>
        (\<exists>due. parkRun B \<lparr>s_path = ?path, s_resource = ?resource, s_at = due, s_token = None\<rparr> st1 = (out, st'))"
      using run dw assms(2) True dec
      by (auto simp: between_attempts_def Let_def st0_def split_def split: sum.splits option.splits if_splits)
    have ne: "?path \<noteq> []" unfolding retry_path by simp
    have parked: "onward B st st'' \<and> recorded st'' = recorded st1"
      if "parkRun B \<lparr>s_path = ?path, s_resource = ?resource, s_at = due, s_token = None\<rparr> st1 = (out, st'')" for due st''
      using park_onward [OF assms(1) _ s1 that] ne onward_trans [OF on] by simp
    show ?thesis using cases on same parked by auto
  qed
qed

lemma attempts_onward:
  assumes "b_journal B = J" "c_durable ctx = Some B"
    and "\<And>st out st'. sound B st \<Longrightarrow> attempt st = (out, st') \<Longrightarrow>
      onward B st st' \<and> (recorded st path = None \<longrightarrow> recorded st' path = None)"
  shows "sound B st \<Longrightarrow> attempts_from ctx policy label path scope attempt resend st = (out, st') \<Longrightarrow>
      onward B st st' \<and> (recorded st path = None \<longrightarrow> recorded st' path = None)"
proof (induction "rp_attempts policy - resend" arbitrary: resend st out st' rule: less_induct)
  case less
  obtain o1 st1 where a: "attempt st = (o1, st1)" by fastforce
  have on1: "onward B st st1" "recorded st path = None \<longrightarrow> recorded st1 path = None" using assms(3) [OF less.prems(1) a] by blast+
  show ?case
  proof (cases "\<exists>err. o1 = Inl err \<and> \<not> (resend \<ge> rp_attempts policy \<or> \<not> isRetryable err (rp_non_retryable policy))")
    case False
    then have "st' = st1" using less.prems(2) a by (cases o1) (auto simp: attempts_from.simps [of _ _ _ _ _ _ resend])
    with on1 show ?thesis by simp
  next
    case True
    then obtain err where err: "o1 = Inl err" "resend < rp_attempts policy" "isRetryable err (rp_non_retryable policy)" by auto
    obtain o2 st2 where r: "retryAfterMs ctx policy label scope err st1 = (o2, st2)" by fastforce
    have st2: "onward B st1 st2" "recorded st2 = recorded st1" "sound B st2"
      using retryAfter_keeps [OF r] on1(1) by (auto simp: goes_on_def in_step_def)
    show ?thesis
    proof (cases o2)
      case (Inl e)
      then have "st' = st2" using less.prems(2) a err r by (simp add: attempts_from.simps [of _ _ _ _ _ _ resend])
      with on1 st2 show ?thesis by (auto intro: onward_trans)
    next
      case (Inr requested)
      obtain o3 st3 where b: "between_attempts ctx policy label path resend requested st2 = (o3, st3)" by fastforce
      from between_attempts_onward [OF assms(1,2) st2(3) b] on1 st2
      have on3: "onward B st st3" "recorded st path = None \<longrightarrow> recorded st3 path = None" "sound B st3"
        using onward_trans [OF onward_trans [OF on1(1) st2(1)]] by (auto simp: goes_on_def)
      show ?thesis
      proof (cases o3)
        case (Inl e)
        then have "st' = st3" using less.prems(2) a err r Inr b by (simp add: attempts_from.simps [of _ _ _ _ _ _ resend])
        with on3 show ?thesis by simp
      next
        case (Inr u)
        then have "attempts_from ctx policy label path scope attempt (Suc resend) st3 = (out, st')"
          using less.prems(2) a err r \<open>o2 = Inr requested\<close> b by (simp add: attempts_from.simps [of _ _ _ _ _ _ resend])
        from less.hyps [OF _ on3(3) this] err(2) on3 show ?thesis by (auto intro: onward_trans)
      qed
    qed
  qed
qed

lemma withStepRetry_onward:
  assumes "b_journal B = J" "c_durable ctx = Some B" "calls_below ok entries_of record_of B ctx"
    and "sound B st" "withStepRetry ctx retry label path scope (c_attempt ctx target given (Some path)) st = (out, st')"
  shows "onward B st st'" and "recorded st path = None \<Longrightarrow> recorded st' path = None"
proof -
  have call: "onward B st st' \<and> (recorded st path = None \<longrightarrow> recorded st' path = None)"
    if "sound B st" "c_attempt ctx target given (Some path) st = (out, st')" for st out st'
    using assms(3) that by (auto simp: calls_below_def)
  have "onward B st st' \<and> (recorded st path = None \<longrightarrow> recorded st' path = None)"
    using assms(5) call [OF assms(4)] attempts_onward [OF assms(1,2) call assms(4)]
    by (auto simp: withStepRetry_def split: option.splits if_splits)
  then show "onward B st st'" "recorded st path = None \<Longrightarrow> recorded st' path = None" by blast+
qed

end

text \<open>The same of a computation over a body.\<close>

definition comp_keeps :: "('s \<Rightarrow> bool) \<Rightarrow> ('s \<Rightarrow> jstring \<Rightarrow> 'f journal_entry list) \<Rightarrow>
    ('s \<Rightarrow> jstring \<Rightarrow> 'f run_record option) \<Rightarrow> ('s, 'f) backend \<Rightarrow> ('s, 'w, 'a) comp \<Rightarrow> bool" where
  "comp_keeps ok entries_of record_of B m \<longleftrightarrow>
     (\<forall>b out b'. in_step ok entries_of record_of B (snd b) \<longrightarrow> m b = Some (out, b') \<longrightarrow>
        goes_on ok entries_of record_of B (snd b) (snd b'))"

context durable_journal
begin

abbreviation safe_comp :: "('s, 'f) backend \<Rightarrow> ('s, 'w, 'a) comp \<Rightarrow> bool" where
  "safe_comp \<equiv> comp_keeps ok entries_of record_of"

lemma safe_compD:
  "safe_comp B m \<Longrightarrow> sound B (snd b) \<Longrightarrow> m b = Some (out, b') \<Longrightarrow> onward B (snd b) (snd b') \<and> sound B (snd b')"
  unfolding comp_keeps_def goes_on_def by blast

lemma safe_comp_basic:
  "safe_comp B skip" "safe_comp B (raise e)" "safe_comp B (publish i v)"
  by (auto simp: comp_keeps_def skip_def raise_def publish_def intro: onward_refl)

lemma safe_comp_lift: "(\<And>steps. safe B (f steps)) \<Longrightarrow> safe_comp B (lift_act f)"
  by (fastforce simp: comp_keeps_def lift_act_def keeps_def split: prod.splits)

lemma safe_comp_settle:
  assumes "safe_comp B m" "\<And>e. safe_comp B (h e)" "\<And>a. safe_comp B (k a)"
  shows "safe_comp B (settle m h k)"
  unfolding comp_keeps_def
proof (intro allI impI)
  fix b out b'
  assume s: "sound B (snd b)" and run: "settle m h k b = Some (out, b')"
  obtain o1 b1 where m: "m b = Some (o1, b1)" using run by (auto simp: settle_def split: option.splits)
  note one = safe_compD [OF assms(1) s m]
  obtain next_comp where n: "next_comp b1 = Some (out, b')" "safe_comp B next_comp"
    using run m assms(2,3) by (cases o1) (auto simp: settle_def)
  from safe_compD [OF n(2) _ n(1)] one show "onward B (snd b) (snd b')" by (blast intro: onward_trans)
qed

lemma safe_comp_andThen: "safe_comp B m \<Longrightarrow> (\<And>a. safe_comp B (k a)) \<Longrightarrow> safe_comp B (andThen m k)"
  unfolding andThen_def by (rule safe_comp_settle) (simp_all add: safe_comp_basic)

lemma safe_comp_if: "safe_comp B m \<Longrightarrow> safe_comp B m' \<Longrightarrow> safe_comp B (\<lambda>b. if P b then m b else m' b)"
  by (auto simp: comp_keeps_def)

lemma decide_safe:
  assumes "b_journal B = J" "recording ctx B" "\<And>steps. safe B (compute steps)"
  shows "safe_comp B (decide ctx path which compute)"
  unfolding decide_def
proof (rule safe_comp_lift)
  fix steps
  show "safe B (decideValue (c_durable ctx) (c_zones ctx) path which (compute steps))"
    unfolding keeps_def
  proof (intro allI impI)
    fix st out st'
    assume s: "sound B st" and run: "decideValue (c_durable ctx) (c_zones ctx) path which (compute steps) st = (out, st')"
    obtain st0 where st0: "undisturbed st st0" "handle_decide B path which (compute steps) st0 = (out, st')"
      using recording_decides [OF assms(2)] run by metis
    have on: "sound B st0" "onward B st st0" using sound_undisturbed [OF s st0(1)] by blast+
    show "onward B st st'" using decide_onward(1) [OF assms(1,3) on(1) st0(2)] on(2) by (blast intro: onward_trans)
  qed
qed

lemma decide_predicate_safe:
  assumes "b_journal B = J" "recording ctx B"
  shows "safe_comp B (decide_predicate ctx x cond path which site)"
  unfolding decide_predicate_def by (rule decide_safe [OF assms predicate_safe])

lemma safe_act_chain: "safe B f \<Longrightarrow> sound B st \<Longrightarrow> f st = (out, st') \<Longrightarrow> onward B st st' \<and> sound B st'"
  by (auto simp: keeps_def goes_on_def)

lemma decide_with_safe:
  assumes "b_journal B = J" "safe B compute"
  shows "safe B (decide_with (Some B) path which compute)"
  using decide_onward(1) [OF assms] by (auto simp: keeps_def decide_with_def)

lemma step_with_safe:
  assumes "b_journal B = J" "recording ctx B" "calls_below ok entries_of record_of B ctx"
  shows "safe B (step_with (Some B) path target (withStepRetry ctx retry label path scope (c_attempt ctx t given (Some path))))"
proof -
  have d: "c_durable ctx = Some B" using assms(2) by (simp add: recording_def)
  note retry = withStepRetry_onward [OF assms(1) d assms(3)]
  have "safe B (withStepRetry ctx retry label path scope (c_attempt ctx t given (Some path)))"
    using retry(1) unfolding keeps_def by blast
  from step_onward(1) [OF assms(1) this] retry(2) show ?thesis by (fastforce simp: keeps_def step_with_def)
qed

lemma safe_with_backend:
  assumes "recording ctx B" "safe_comp B (k (Some B))"
  shows "safe_comp B (with_backend ctx k)"
  unfolding comp_keeps_def
proof (intro allI impI)
  fix b out b'
  assume s: "sound B (snd b)" and run: "with_backend ctx k b = Some (out, b')"
  obtain st0 where st0: "undisturbed (snd b) st0" "leaf_backend ctx (snd b) = (Some B, st0)"
    using recording_decides [OF assms(1)] by metis
  have on: "sound B st0" "onward B (snd b) st0" using sound_undisturbed [OF s st0(1)] by blast+
  have "k (Some B) (fst b, st0) = Some (out, b')" using run st0(2) by (simp add: with_backend_def)
  from safe_compD [OF assms(2) _ this] on show "onward B (snd b) (snd b')" by (auto intro: onward_trans)
qed

lemma guard_step_safe:
  assumes "b_journal B = J"
  shows "safe_comp B (guard_step ctx (Some B) x cond path)"
proof (cases cond)
  case None
  then show ?thesis by (simp add: guard_step_def comp_keeps_def onward_refl)
next
  case (Some e)
  show ?thesis unfolding guard_step_def Some option.case
    by (intro safe_comp_lift decide_with_safe [OF assms predicate_safe])
qed

lemma invoke_step_safe:
  assumes B: "b_journal B = J" "recording ctx B" "calls_below ok entries_of record_of B ctx"
  shows "safe_comp B (executeInvokeStep ctx x i cond target inputs retry path)"
proof -
  have "c_durable ctx \<noteq> None" using B(2) by (simp add: recording_def)
  then show ?thesis unfolding executeInvokeStep_def
    by (intro safe_with_backend [OF B(2)] safe_comp_andThen guard_step_safe [OF B(1)])
      (auto intro!: safe_comp_andThen safe_comp_lift safe_comp_basic decide_with_safe [OF B(1) expand_safe] step_with_safe [OF B])
qed

lemma value_step_safe:
  assumes "b_journal B = J" "recording ctx B"
  shows "safe_comp B (executeValueStep ctx x i e path)"
  unfolding executeValueStep_def by (intro safe_comp_settle decide_safe [OF assms expand_safe] safe_comp_basic)

lemma throw_step_safe: "safe_comp B (executeThrowStep ctx x i e)"
  unfolding executeThrowStep_def by (intro safe_comp_andThen safe_comp_lift expand_safe safe_comp_basic)

lemma optional_steps_safe:
  "(\<And>task x path. safe_comp B (rec task x path)) \<Longrightarrow> safe_comp B (optional_steps rec body x path)"
  by (cases body) (simp_all add: optional_steps_def safe_comp_basic)

lemma try_body_safe:
  assumes "\<And>task x path. safe_comp B (rec task x path)"
  shows "safe_comp B (executeTryBody ctx rec label body catch_steps finally_steps x path)"
  unfolding executeTryBody_def Let_def
  by (intro safe_comp_settle safe_comp_if safe_comp_andThen safe_comp_basic assms optional_steps_safe)
    (cases catch_steps; simp; intro safe_comp_settle safe_comp_andThen safe_comp_basic assms optional_steps_safe)

lemma step_safe:
  assumes B: "b_journal B = J" "recording ctx B" "calls_below ok entries_of record_of B ctx"
    and rec: "\<And>task x path. safe_comp B (rec task x path)"
  shows "safe_comp B (executeStep ctx rec s x path)"
proof (cases "pathOf ctx path (identity_of s)")
  case (Inl e)
  then show ?thesis by (simp add: executeStep_def safe_comp_basic)
next
  case (Inr here)
  note decides = decide_predicate_safe [OF B(1,2)] decide_safe [OF B(1,2) expand_safe]
  show ?thesis
  proof (cases s)
    case (SwitchStep i e cases others)
    then show ?thesis using Inr
      by (auto simp: executeStep_def executeSwitchStep_def Let_def
          intro!: safe_comp_andThen decides rec safe_comp_basic split: option.splits)
  next
    case (TryStep i cond body catch_steps finally_steps)
    then show ?thesis using Inr try_body_safe [of B rec, OF rec]
      by (auto simp: executeStep_def executeTryStep_def Let_def
          intro!: safe_comp_andThen decides safe_comp_basic split: option.splits)
  qed (use Inr in \<open>auto simp: executeStep_def executeIfStep_def executeRethrowStep_def
      intro!: invoke_step_safe [OF B] safe_comp_andThen decides rec safe_comp_basic throw_step_safe value_step_safe [OF B(1,2)]\<close>)
qed

lemma run_task_safe:
  assumes B: "b_journal B = J" "recording ctx B" "calls_below ok entries_of record_of B ctx"
  shows "safe_comp B (run_task ctx n task x path)"
proof (induction n arbitrary: task x path)
  case 0
  show ?case by (simp add: comp_keeps_def)
next
  case (Suc n)
  show ?case
  proof (cases "(ctx, run_task ctx n, task, x, path)" rule: task_body.cases)
    case (2 ctx' rec s ss x' path')
    then have task: "task = Steps (s # ss)" by simp
    show ?thesis unfolding task run_task.simps task_body.simps by (intro safe_comp_andThen step_safe [OF B] Suc.IH)
  qed (auto intro!: safe_comp_andThen decide_predicate_safe [OF B(1,2)] Suc.IH safe_comp_basic optional_steps_safe)
qed

end

section \<open>Replay\<close>

text \<open>Two contexts of one manifest: they differ in the world they read and call.\<close>

definition same_manifest :: "('s, 'f, 'w, 'e, 't) step_context \<Rightarrow> ('s, 'f, 'w, 'e, 't) step_context \<Rightarrow> bool" where
  "same_manifest ctx ctx' \<longleftrightarrow> c_durable ctx' = c_durable ctx \<and> c_zones ctx' = c_zones ctx \<and> c_path ctx' = c_path ctx \<and>
     c_identity ctx' = c_identity ctx \<and> c_string ctx' = c_string ctx"

text \<open>A body without a \<open>try\<close>: what fails in it fails the run.\<close>

fun without_try :: "('e, 't) step \<Rightarrow> bool" where
  "without_try (IfStep _ _ body branches others) =
     ((\<forall>s \<in> set body. without_try s) \<and> (\<forall>b \<in> set branches. \<forall>ss \<in> Basic_BNFs.snds b. \<forall>s \<in> set ss. without_try s) \<and>
      (\<forall>ss \<in> set_option others. \<forall>s \<in> set ss. without_try s))"
| "without_try (WhileStep _ _ body) = (\<forall>s \<in> set body. without_try s)"
| "without_try (SwitchStep _ _ cases others) =
     ((\<forall>b \<in> set cases. \<forall>ss \<in> Basic_BNFs.snds b. \<forall>s \<in> set ss. without_try s) \<and>
      (\<forall>ss \<in> set_option others. \<forall>s \<in> set ss. without_try s))"
| "without_try (TryStep _ _ _ _ _) = False"
| "without_try _ = True"

fun task_without_try :: "('e, 't) task \<Rightarrow> bool" where
  "task_without_try (Steps ss) = (\<forall>s \<in> set ss. without_try s)"
| "task_without_try (Turns _ body _) = (\<forall>s \<in> set body. without_try s)"
| "task_without_try (Branches branches others _) =
     ((\<forall>b \<in> set branches. \<forall>s \<in> set (snd b). without_try s) \<and> (\<forall>ss \<in> set_option others. \<forall>s \<in> set ss. without_try s))"

section \<open>What was recorded can be read\<close>

text \<open>What a step calls leaves every entry of the run readable, whatever comes of the call.\<close>

definition calls_legible :: "('s \<Rightarrow> bool) \<Rightarrow> ('s \<Rightarrow> jstring \<Rightarrow> 'f journal_entry list) \<Rightarrow>
    ('s \<Rightarrow> jstring \<Rightarrow> 'f run_record option) \<Rightarrow> ('s, 'f) backend \<Rightarrow> ('s, 'f, 'w, 'e, 't) step_context \<Rightarrow> bool" where
  "calls_legible ok entries_of record_of B ctx \<longleftrightarrow>
     (\<forall>target given path st out st'. in_step ok entries_of record_of B st \<longrightarrow> legible B (entries_of (store st) (b_run B)) \<longrightarrow>
        c_attempt ctx target given (Some path) st = (out, st') \<longrightarrow> legible B (entries_of (store st') (b_run B)))"

text \<open>A computation that, when it answers, leaves every entry readable.\<close>

definition answers_legibly :: "('s \<Rightarrow> bool) \<Rightarrow> ('s \<Rightarrow> jstring \<Rightarrow> 'f journal_entry list) \<Rightarrow>
    ('s \<Rightarrow> jstring \<Rightarrow> 'f run_record option) \<Rightarrow> ('s, 'f) backend \<Rightarrow> ('s, 'w, 'a) comp \<Rightarrow> bool" where
  "answers_legibly ok entries_of record_of B m \<longleftrightarrow>
     (\<forall>b a b'. in_step ok entries_of record_of B (snd b) \<longrightarrow> legible B (entries_of (store (snd b)) (b_run B)) \<longrightarrow>
        m b = Some (Inr a, b') \<longrightarrow> legible B (entries_of (store (snd b')) (b_run B)))"

definition act_legibly :: "('s \<Rightarrow> bool) \<Rightarrow> ('s \<Rightarrow> jstring \<Rightarrow> 'f journal_entry list) \<Rightarrow>
    ('s \<Rightarrow> jstring \<Rightarrow> 'f run_record option) \<Rightarrow> ('s, 'f) backend \<Rightarrow> (('s, 'w) run, 'a) act \<Rightarrow> bool" where
  "act_legibly ok entries_of record_of B f \<longleftrightarrow>
     (\<forall>st a st'. in_step ok entries_of record_of B st \<longrightarrow> legible B (entries_of (store st) (b_run B)) \<longrightarrow>
        f st = (Inr a, st') \<longrightarrow> legible B (entries_of (store st') (b_run B)))"

context durable_journal
begin

abbreviation clear_act :: "('s, 'f) backend \<Rightarrow> (('s, 'w) run, 'a) act \<Rightarrow> bool" where
  "clear_act \<equiv> act_legibly ok entries_of record_of"

abbreviation clear_comp :: "('s, 'f) backend \<Rightarrow> ('s, 'w, 'a) comp \<Rightarrow> bool" where
  "clear_comp \<equiv> answers_legibly ok entries_of record_of"

lemma clear_compD: "clear_comp B m \<Longrightarrow> sound B (snd b) \<Longrightarrow> clear B (snd b) \<Longrightarrow> m b = Some (Inr a, b') \<Longrightarrow> clear B (snd b')"
  unfolding answers_legibly_def by blast

lemma clear_actD: "clear_act B f \<Longrightarrow> sound B st \<Longrightarrow> clear B st \<Longrightarrow> f st = (Inr a, st') \<Longrightarrow> clear B st'"
  unfolding act_legibly_def by blast

lemma clear_act_expand: "clear_act B (expand ctx e scope)"
  by (auto simp: act_legibly_def dest!: expand_recorded)

lemma clear_act_predicate: "clear_act B (predicate ctx e scope site)"
  by (auto simp: act_legibly_def predicate_def dest!: expand_recorded split: prod.splits sum.splits)

lemma clear_act_decide:
  assumes "b_journal B = J" "safe B compute" "clear_act B compute"
  shows "clear_act B (handle_decide B path which compute)"
  unfolding act_legibly_def
  using decide_onward(3) [OF assms(1,2)] clear_actD [OF assms(3)] by blast

lemma clear_act_step:
  assumes "b_journal B = J" "safe B execute" "clear_act B execute"
    and "\<And>st out1 st1. sound B st \<Longrightarrow> execute st = (out1, st1) \<Longrightarrow> recorded st path = None \<Longrightarrow> recorded st1 path = None"
  shows "clear_act B (handle_step B path target execute)"
  unfolding act_legibly_def
proof (intro allI impI)
  fix st a st'
  assume st: "sound B st" "clear B st" and run: "handle_step B path target execute st = (Inr a, st')"
  show "clear B st'"
    by (rule step_onward(3) [OF assms(1,2) st(1) run _ refl st(2)]) (use assms(4) [OF st(1)] clear_actD [OF assms(3) st] in \<open>blast+\<close>)
qed

lemma clear_basic: "clear_comp B skip" "clear_comp B (publish i v)" "clear_comp B (raise e)"
  by (auto simp: answers_legibly_def skip_def publish_def raise_def)

lemma clear_lift: "(\<And>steps. clear_act B (f steps)) \<Longrightarrow> clear_comp B (lift_act f)"
  by (fastforce simp: answers_legibly_def lift_act_def act_legibly_def split: prod.splits)

lemma clear_settle:
  assumes "clear_comp B m" "safe_comp B m" "\<And>a. clear_comp B (k a)" "\<And>e. \<exists>e'. h e = raise e'"
  shows "clear_comp B (settle m h k)"
  unfolding answers_legibly_def
proof (intro allI impI)
  fix b a b'
  assume s: "sound B (snd b)" "clear B (snd b)" and run: "settle m h k b = Some (Inr a, b')"
  obtain o1 b1 where m: "m b = Some (o1, b1)" using run by (auto simp: settle_def split: option.splits)
  obtain c where c: "o1 = Inr c" "k c b1 = Some (Inr a, b')"
  proof (cases o1)
    case (Inl e)
    obtain e' where "h e = raise e'" using assms(4) by blast
    then show ?thesis using run m Inl by (simp add: settle_def raise_def)
  qed (use run m that in \<open>simp add: settle_def\<close>)
  have "sound B (snd b1)" "clear B (snd b1)"
    using safe_compD [OF assms(2) s(1) m] clear_compD [OF assms(1) s] m c(1) by simp_all
  then show "clear B (snd b')" by (rule clear_compD [OF assms(3) _ _ c(2)])
qed

lemma clear_andThen: "clear_comp B m \<Longrightarrow> safe_comp B m \<Longrightarrow> (\<And>a. clear_comp B (k a)) \<Longrightarrow> clear_comp B (andThen m k)"
  unfolding andThen_def by (rule clear_settle) auto

lemma clear_with_backend:
  assumes "recording ctx B" "clear_comp B (k (Some B))"
  shows "clear_comp B (with_backend ctx k)"
  unfolding answers_legibly_def
proof (intro allI impI)
  fix b a b'
  assume s: "sound B (snd b)" "clear B (snd b)" and run: "with_backend ctx k b = Some (Inr a, b')"
  obtain st0 where st0: "undisturbed (snd b) st0" "leaf_backend ctx (snd b) = (Some B, st0)"
    using recording_decides [OF assms(1)] by metis
  have "k (Some B) (fst b, st0) = Some (Inr a, b')" using run st0(2) by (simp add: with_backend_def)
  from clear_compD [OF assms(2) _ _ this] sound_undisturbed [OF s(1) st0(1)] s(2) st0(1) show "clear B (snd b')"
    by (simp add: undisturbed_def)
qed

lemma clear_decide:
  assumes "b_journal B = J" "recording ctx B" "\<And>steps. safe B (compute steps)" "\<And>steps. clear_act B (compute steps)"
  shows "clear_comp B (decide ctx path which compute)"
proof -
  have "decide ctx path which compute = with_backend ctx (\<lambda>H. lift_act (\<lambda>steps. decide_with H path which (compute steps)))"
    using assms(2) by (auto simp: fun_eq_iff decide_def with_backend_def lift_act_def decideValue_def leaf_backend_def
        recording_def decide_with_def split_def Let_def journalingSuppressed_def)
  then show ?thesis
    by (auto intro!: clear_with_backend [OF assms(2)] clear_lift simp: decide_with_def clear_act_decide [OF assms(1,3,4)])
qed

lemma clear_decide_predicate:
  assumes "b_journal B = J" "recording ctx B"
  shows "clear_comp B (decide_predicate ctx x cond path which site)"
  unfolding decide_predicate_def by (rule clear_decide [OF assms predicate_safe clear_act_predicate])

text \<open>A wait between attempts that goes on has written, at most, the time it was due.\<close>

lemma between_attempts_clear:
  assumes "b_journal B = J" "c_durable ctx = Some B" "sound B st" "clear B st"
    and run: "between_attempts ctx policy label path resend requested st = (Inr u, st')"
  shows "clear B st'"
proof -
  let ?backoff = "case requested of Some ms \<Rightarrow> ms | None \<Rightarrow> rp_backoff policy resend"
  obtain delay w where dw: "(if requested = None \<and> rp_jitter policy then c_jitter ctx ?backoff (world st) else (?backoff, world st)) = (delay, w)"
    by fastforce
  define st0 where "st0 = st\<lparr>world := w\<rparr>"
  have st0: "sound B st0" "clear B st0" using assms(3,4) by (auto simp: st0_def in_step_def)
  show ?thesis
  proof (cases "?backoff \<ge> SUSPENDING_BACKOFF_MS")
    case False
    then have "wait_out ctx label delay st0 = (Inr u, st')"
      using run dw assms(2) by (simp add: between_attempts_def Let_def st0_def split_def)
    from wait_out_keeps [OF this] st0 show ?thesis by simp
  next
    case True
    let ?path = "stepPath [Word path, Word (js ''retry''), Index resend]"
    let ?compute = "\<lambda>st'. (Inr (time_value (of_int (c_now ctx (world st')) + delay)), st')"
    have safe: "safe B ?compute" by (auto simp: keeps_def intro: onward_refl)
    obtain o1 st1 where dec: "handle_decide B ?path DValue ?compute st0 = (o1, st1)" by fastforce
    have "parkRun B signal st1 \<noteq> (Inr u, st')" for signal
      by (simp add: parkRun_def handle_park_def split: prod.split sum.split)
    then obtain due where "o1 = Inr due" "st' = st1"
      using run dw assms(2) True dec
      by (auto simp: between_attempts_def Let_def st0_def split_def split: sum.splits option.splits if_splits)
    with decide_onward(3) [OF assms(1) safe st0(1) dec] st0(2) show ?thesis by auto
  qed
qed

lemma attempts_clear:
  assumes "b_journal B = J" "c_durable ctx = Some B"
    and onward: "\<And>st out st'. sound B st \<Longrightarrow> attempt st = (out, st') \<Longrightarrow>
      onward B st st' \<and> (recorded st path = None \<longrightarrow> recorded st' path = None)"
    and clear: "\<And>st out st'. sound B st \<Longrightarrow> clear B st \<Longrightarrow> attempt st = (out, st') \<Longrightarrow> clear B st'"
  shows "sound B st \<Longrightarrow> clear B st \<Longrightarrow> attempts_from ctx policy label path scope attempt resend st = (Inr v, st') \<Longrightarrow> clear B st'"
proof (induction "rp_attempts policy - resend" arbitrary: resend st rule: less_induct)
  case less
  obtain o1 st1 where a: "attempt st = (o1, st1)" by fastforce
  have st1: "sound B st1" "clear B st1"
    using onward [OF less.prems(1) a] clear [OF less.prems(1,2) a] by (simp_all add: goes_on_def)
  show ?case
  proof (cases o1)
    case (Inr v')
    then show ?thesis using less.prems(3) a st1 by (simp add: attempts_from.simps [of _ _ _ _ _ _ resend])
  next
    case (Inl err)
    then have more: "resend < rp_attempts policy" "isRetryable err (rp_non_retryable policy)"
      using less.prems(3) a by (auto simp: attempts_from.simps [of _ _ _ _ _ _ resend] split: if_splits)
    obtain o2 st2 where r: "retryAfterMs ctx policy label scope err st1 = (o2, st2)" by fastforce
    have st2: "sound B st2" "clear B st2" using retryAfter_keeps [OF r] st1 by (simp_all add: in_step_def)
    obtain requested where o2: "o2 = Inr requested"
      using less.prems(3) a Inl more r by (cases o2) (simp_all add: attempts_from.simps [of _ _ _ _ _ _ resend])
    obtain o3 st3 where b: "between_attempts ctx policy label path resend requested st2 = (o3, st3)" by fastforce
    obtain u where o3: "o3 = Inr u"
      using less.prems(3) a Inl more r o2 b by (cases o3) (simp_all add: attempts_from.simps [of _ _ _ _ _ _ resend])
    have "sound B st3" using between_attempts_onward [OF assms(1,2) st2(1) b] by (simp add: goes_on_def)
    moreover have "clear B st3" by (rule between_attempts_clear [OF assms(1,2) st2 b [unfolded o3]])
    moreover have "attempts_from ctx policy label path scope attempt (Suc resend) st3 = (Inr v, st')"
      using less.prems(3) a Inl more r o2 b o3 by (simp add: attempts_from.simps [of _ _ _ _ _ _ resend])
    ultimately show ?thesis using less.hyps [of "Suc resend" st3] more(1) by simp
  qed
qed

lemma withStepRetry_clear:
  assumes "b_journal B = J" "c_durable ctx = Some B" "calls_below ok entries_of record_of B ctx"
    "calls_legible ok entries_of record_of B ctx"
  shows "clear_act B (withStepRetry ctx retry label path scope (c_attempt ctx target given (Some path)))"
proof -
  have call: "onward B st st' \<and> (recorded st path = None \<longrightarrow> recorded st' path = None)" "clear B st \<Longrightarrow> clear B st'"
    if "sound B st" "c_attempt ctx target given (Some path) st = (out, st')" for st out st'
    using assms(3,4) that unfolding calls_below_def calls_legible_def by blast+
  show ?thesis
    unfolding act_legibly_def
  proof (intro allI impI)
    fix st a st'
    assume st: "sound B st" "clear B st"
      and run: "withStepRetry ctx retry label path scope (c_attempt ctx target given (Some path)) st = (Inr a, st')"
    show "clear B st'"
      using run call(2) [OF st(1) _ st(2)] attempts_clear [OF assms(1,2) call(1) call(2) st]
      by (auto simp: withStepRetry_def split: option.splits if_splits)
  qed
qed

lemma clear_invoke:
  assumes B: "b_journal B = J" "recording ctx B" "calls_below ok entries_of record_of B ctx" "calls_legible ok entries_of record_of B ctx"
  shows "clear_comp B (executeInvokeStep ctx x i cond target inputs retry path)"
proof -
  have d: "c_durable ctx = Some B" using B(2) by (simp add: recording_def)
  note retry = withStepRetry_onward [OF B(1) d B(3)]
  have guard: "clear_comp B (guard_step ctx (Some B) x cond path)"
  proof (cases cond)
    case (Some e)
    show ?thesis unfolding guard_step_def Some option.case
      by (rule clear_lift) (simp add: decide_with_def clear_act_decide [OF B(1) predicate_safe clear_act_predicate])
  qed (simp add: guard_step_def answers_legibly_def)
  have step: "clear_act B (step_with (Some B) path t (withStepRetry ctx retry label path scope (c_attempt ctx target given (Some path))))"
    for t label scope given
  proof -
    have "safe B (withStepRetry ctx retry label path scope (c_attempt ctx target given (Some path)))"
      using retry(1) unfolding keeps_def by blast
    from clear_act_step [OF B(1) this withStepRetry_clear [OF B(1) d B(3,4)]] retry(2) show ?thesis by (auto simp: step_with_def)
  qed
  have given: "clear_act B (decide_with (Some B) p DInputs (expand ctx inputs scope))" for p scope
    by (simp add: decide_with_def clear_act_decide [OF B(1) expand_safe clear_act_expand])
  show ?thesis unfolding executeInvokeStep_def
    by (intro clear_with_backend [OF B(2)] clear_andThen guard guard_step_safe [OF B(1)])
      (auto simp: d intro!: clear_andThen clear_basic clear_lift safe_comp_lift given step
        decide_with_safe [OF B(1) expand_safe] step_with_safe [OF B(1-3)])
qed

lemma clear_optional:
  "(\<And>ss. body = Some ss \<Longrightarrow> clear_comp B (rec (Steps ss) x path)) \<Longrightarrow> clear_comp B (optional_steps rec body x path)"
  by (cases body) (simp_all add: optional_steps_def clear_basic)

lemma clear_step:
  assumes B: "b_journal B = J" "recording ctx B" "calls_below ok entries_of record_of B ctx" "calls_legible ok entries_of record_of B ctx"
    and IH: "\<And>task x path. task_without_try task \<Longrightarrow> clear_comp B (rec task x path)"
    and s: "without_try s"
  shows "clear_comp B (executeStep ctx rec s x path)"
proof (cases "pathOf ctx path (identity_of s)")
  case (Inl e)
  then show ?thesis by (simp add: executeStep_def clear_basic)
next
  case (Inr here)
  note clears = clear_decide_predicate [OF B(1,2)] clear_decide [OF B(1,2) expand_safe clear_act_expand]
  note safes = decide_predicate_safe [OF B(1,2)] decide_safe [OF B(1,2) expand_safe]
  show ?thesis
  proof (cases s)
    case (IfStep i cond body branches others)
    then show ?thesis using Inr s
      by (auto simp: executeStep_def executeIfStep_def intro!: clear_andThen clears safes IH snds.intros)
  next
    case (SwitchStep i e cases others)
    have "clear_comp B (rec (Steps ss) x p)" if "map_of cases key = Some ss" for key ss p
      by (rule IH) (use s SwitchStep map_of_SomeD [OF that] in \<open>force simp: snds.simps\<close>)
    then show ?thesis using Inr s SwitchStep
      by (auto simp: executeStep_def executeSwitchStep_def Let_def intro!: clear_andThen clears safes IH clear_basic split: option.splits)
  next
    case (ValueStep i e)
    then show ?thesis using Inr
      by (auto simp: executeStep_def executeValueStep_def intro!: clear_settle clears safes clear_basic)
  next
    case (ThrowStep i e)
    then show ?thesis using Inr
      by (auto simp: executeStep_def executeThrowStep_def intro!: clear_andThen clear_lift safe_comp_lift clear_act_expand expand_safe clear_basic)
  qed (use Inr s in \<open>auto simp: executeStep_def executeRethrowStep_def intro!: clear_invoke [OF B] clear_basic IH\<close>)
qed

lemma run_task_clear:
  assumes B: "b_journal B = J" "recording ctx B" "calls_below ok entries_of record_of B ctx" "calls_legible ok entries_of record_of B ctx"
    and "task_without_try task"
  shows "clear_comp B (run_task ctx n task x path)"
  using assms(5)
proof (induction n arbitrary: task x path)
  case 0
  show ?case by (simp add: answers_legibly_def)
next
  case (Suc n)
  note safe = run_task_safe [OF B(1-3)]
  note predicate = clear_decide_predicate [OF B(1,2)] decide_predicate_safe [OF B(1,2)]
  show ?case
  proof (cases "(ctx, run_task ctx n, task, x, path)" rule: task_body.cases)
    case (2 ctx' rec s ss x' path')
    then have task: "task = Steps (s # ss)" by simp
    show ?thesis using Suc.prems unfolding task run_task.simps task_body.simps
      by (intro clear_andThen clear_step [OF B] step_safe [OF B(1-3)] safe Suc.IH) auto
  next
    case (3 ctx' rec cond body turn x' path')
    then have task: "task = Turns cond body turn" by simp
    show ?thesis using Suc.prems unfolding task run_task.simps task_body.simps
      by (auto intro!: clear_andThen predicate safe Suc.IH clear_basic)
  next
    case (4 ctx' rec others k x' path')
    then have task: "task = Branches [] others k" by simp
    show ?thesis using Suc.prems unfolding task run_task.simps task_body.simps
      by (intro clear_optional Suc.IH) auto
  next
    case (5 ctx' rec cond body branches others k x' path')
    then have task: "task = Branches ((cond, body) # branches) others k" by simp
    show ?thesis using Suc.prems unfolding task run_task.simps task_body.simps
      by (auto intro!: clear_andThen predicate Suc.IH)
  qed (simp add: clear_basic)
qed

end

text \<open>
  The second computation answers what the first answered, from any state that holds what the first left
  recorded, and does nothing else.
\<close>

definition answers_again :: "('s \<Rightarrow> bool) \<Rightarrow> ('s \<Rightarrow> jstring \<Rightarrow> 'f journal_entry list) \<Rightarrow>
    ('s \<Rightarrow> jstring \<Rightarrow> 'f run_record option) \<Rightarrow> ('s, 'f) backend \<Rightarrow> ('s, 'w, 'a) comp \<Rightarrow> ('s, 'w, 'a) comp \<Rightarrow> bool" where
  "answers_again ok entries_of record_of B m m' \<longleftrightarrow>
     (\<forall>steps st a steps1 st1 st2. in_step ok entries_of record_of B st \<longrightarrow> m (steps, st) = Some (Inr a, steps1, st1) \<longrightarrow>
        recorded st1 \<subseteq>\<^sub>m recorded st2 \<longrightarrow>
        (\<exists>st3. m' (steps, st2) = Some (Inr a, steps1, st3) \<and> undisturbed st2 st3))"

context durable_journal
begin

abbreviation again :: "('s, 'f) backend \<Rightarrow> ('s, 'w, 'a) comp \<Rightarrow> ('s, 'w, 'a) comp \<Rightarrow> bool" where
  "again \<equiv> answers_again ok entries_of record_of"

lemma againD:
  assumes "again B m m'" "sound B st" "m (steps, st) = Some (Inr a, steps1, st1)" "recorded st1 \<subseteq>\<^sub>m recorded st2"
  shows "\<exists>st3. m' (steps, st2) = Some (Inr a, steps1, st3) \<and> undisturbed st2 st3"
  using assms unfolding answers_again_def by blast

lemma again_basic: "again B skip skip" "again B (publish i v) (publish i v)" "again B (raise e) m"
  by (auto simp: answers_again_def skip_def publish_def raise_def)

lemma again_andThen:
  fixes m m' :: "('s, 'w, 'c) comp"
  assumes m: "again B m m'" "safe_comp B m" and k: "\<And>a. again B (k a) (k' a)" "\<And>a. safe_comp B (k a)"
  shows "again B (andThen m k) (andThen m' k')"
  unfolding answers_again_def
proof (intro allI impI)
  fix steps a steps1 and st st1 st2 :: "('s, 'w) run"
  assume s: "sound B st" and run: "andThen m k (steps, st) = Some (Inr a, steps1, st1)" and le: "recorded st1 \<subseteq>\<^sub>m recorded st2"
  obtain c steps0 st0 where one: "m (steps, st) = Some (Inr c, steps0, st0)" and two: "k c (steps0, st0) = Some (Inr a, steps1, st1)"
    using run by (auto simp: andThen_def settle_def raise_def split: option.splits sum.splits)
  have s0: "sound B st0" using safe_compD [OF m(2) _ one] s by simp
  have "recorded st0 \<subseteq>\<^sub>m recorded st1" using safe_compD [OF k(2) _ two] s0 by (simp add: goes_on_def)
  then have "recorded st0 \<subseteq>\<^sub>m recorded st2" using le by (rule map_le_trans)
  from againD [OF m(1) s one this] obtain st3 where st3: "m' (steps, st2) = Some (Inr c, steps0, st3)" "undisturbed st2 st3" by blast
  from againD [OF k(1) s0 two, of st3] le st3(2) obtain st4
    where "k' c (steps0, st3) = Some (Inr a, steps1, st4)" "undisturbed st3 st4" by (auto simp: undisturbed_def)
  with st3 show "\<exists>st3. andThen m' k' (steps, st2) = Some (Inr a, steps1, st3) \<and> undisturbed st2 st3"
    by (auto simp: andThen_def settle_def intro: undisturbed_trans)
qed

text \<open>The same of computations over the run alone.\<close>

definition act_again :: "('s, 'f) backend \<Rightarrow> (('s, 'w) run, 'a) act \<Rightarrow> (('s, 'w) run, 'a) act \<Rightarrow> bool" where
  "act_again B f f' \<longleftrightarrow>
     (\<forall>st a st1 st2. sound B st \<longrightarrow> f st = (Inr a, st1) \<longrightarrow> recorded st1 \<subseteq>\<^sub>m recorded st2 \<longrightarrow>
        (\<exists>st3. f' st2 = (Inr a, st3) \<and> undisturbed st2 st3))"

lemma again_lift: "(\<And>steps. act_again B (f steps) (f' steps)) \<Longrightarrow> again B (lift_act f) (lift_act f')"
  unfolding answers_again_def act_again_def lift_act_def by (fastforce split: prod.splits)

lemma act_again_decide:
  assumes "b_journal B = J" "safe B compute"
  shows "act_again B (handle_decide B path which compute) (handle_decide B path which' compute')"
  unfolding act_again_def
proof (intro allI impI)
  fix a and st st1 st2 :: "('s, 'a) run"
  assume "sound B st" "handle_decide B path which compute st = (Inr a, st1)" and le: "recorded st1 \<subseteq>\<^sub>m recorded st2"
  from decide_onward(2) [OF assms this(1,2)] obtain r where "recorded st1 path = Some r" "re_value r = a" by auto
  with le have "recorded st2 path = Some r" "re_value r = a" by (auto simp: map_le_def dom_def)
  from decide_replays [OF this(1), of B which' compute'] this(2)
  show "\<exists>st3. handle_decide B path which' compute' st2 = (Inr a, st3) \<and> undisturbed st2 st3" by simp
qed

lemma act_again_step:
  assumes "b_journal B = J" "safe B execute"
    and "\<And>st out1 st1. sound B st \<Longrightarrow> execute st = (out1, st1) \<Longrightarrow> recorded st path = None \<Longrightarrow> recorded st1 path = None"
  shows "act_again B (handle_step B path target execute) (handle_step B path target execute')"
  unfolding act_again_def
proof (intro allI impI)
  fix a and st st1 st2 :: "('s, 'a) run"
  assume s: "sound B st" and run: "handle_step B path target execute st = (Inr a, st1)" and le: "recorded st1 \<subseteq>\<^sub>m recorded st2"
  have "\<exists>r. recorded st1 path = Some r \<and> re_value r = a \<and> \<not> mismatch r target"
    by (rule step_onward(2) [OF assms(1,2) s run]) (use assms(3) [OF s] in \<open>blast+\<close>)
  then obtain r where "recorded st1 path = Some r" "re_value r = a" "\<not> mismatch r target" by blast
  with le have "recorded st2 path = Some r" "re_value r = a" "\<not> mismatch r target" by (auto simp: map_le_def dom_def)
  from step_replays [OF this(1,3), of B execute'] this(2)
  show "\<exists>st3. handle_step B path target execute' st2 = (Inr a, st3) \<and> undisturbed st2 st3" by simp
qed

lemma again_with_backend:
  fixes ctx ctx' :: "('s, 'f, 'w, 'e, 't) step_context"
  assumes B: "recording ctx B" "same_manifest ctx ctx'" and k: "again B (k (Some B)) (k' (Some B))"
  shows "again B (with_backend ctx k) (with_backend ctx' k')"
  unfolding answers_again_def
proof (intro allI impI)
  fix steps a steps1 and st st1 st2 :: "('s, 'w) run"
  assume s: "sound B st" and run: "with_backend ctx k (steps, st) = Some (Inr a, steps1, st1)" and le: "recorded st1 \<subseteq>\<^sub>m recorded st2"
  have B': "recording ctx' B" using B by (simp add: recording_def same_manifest_def)
  obtain st0 where st0: "undisturbed st st0" "leaf_backend ctx st = (Some B, st0)" using recording_decides [OF B(1)] by metis
  obtain st20 where st20: "undisturbed st2 st20" "leaf_backend ctx' st2 = (Some B, st20)" using recording_decides [OF B'] by metis
  have "k (Some B) (steps, st0) = Some (Inr a, steps1, st1)" using run st0(2) by (simp add: with_backend_def)
  from againD [OF k _ this, of st20] sound_undisturbed [OF s st0(1)] le st20(1) obtain st3
    where "k' (Some B) (steps, st20) = Some (Inr a, steps1, st3)" "undisturbed st20 st3" by (auto simp: undisturbed_def)
  with st20 show "\<exists>st3. with_backend ctx' k' (steps, st2) = Some (Inr a, steps1, st3) \<and> undisturbed st2 st3"
    by (auto simp: with_backend_def intro: undisturbed_trans)
qed

lemma again_decide:
  fixes ctx ctx' :: "('s, 'f, 'w, 'e, 't) step_context"
  assumes B: "b_journal B = J" "recording ctx B" and man: "same_manifest ctx ctx'" and "\<And>steps. safe B (compute steps)"
  shows "again B (decide ctx path which compute) (decide ctx' path which' compute')"
proof -
  have B': "recording ctx' B" using B(2) man by (simp add: recording_def same_manifest_def)
  have "decide c path w f = with_backend c (\<lambda>H. lift_act (\<lambda>steps. decide_with H path w (f steps)))" if "recording c B"
    for c :: "('s, 'f, 'w, 'e, 't) step_context" and w f
    using that by (auto simp: fun_eq_iff decide_def with_backend_def lift_act_def decideValue_def leaf_backend_def
        recording_def decide_with_def split_def Let_def journalingSuppressed_def)
  then show ?thesis using B(2) B'
    by (auto intro!: again_with_backend [OF B(2) man] again_lift
        simp: decide_with_def act_again_decide [OF B(1) assms(4)])
qed

lemma again_invoke:
  fixes ctx ctx' :: "('s, 'f, 'w, 'e, 't) step_context"
  assumes B: "b_journal B = J" "recording ctx B" "calls_below ok entries_of record_of B ctx"
    and man: "same_manifest ctx ctx'"
  shows "again B (executeInvokeStep ctx x i cond target inputs retry path) (executeInvokeStep ctx' x i cond target inputs retry path)"
proof -
  have d: "c_durable ctx = Some B" "c_durable ctx' = Some B" "c_identity ctx' = c_identity ctx"
    using B(2) man by (simp_all add: recording_def same_manifest_def)
  note retry = withStepRetry_onward [OF B(1) d(1) B(3)]
  have guard: "again B (guard_step ctx (Some B) x cond path) (guard_step ctx' (Some B) x cond path)"
  proof (cases cond)
    case None
    then show ?thesis by (auto simp: guard_step_def answers_again_def)
  next
    case (Some e)
    show ?thesis unfolding guard_step_def Some option.case
      by (rule again_lift) (simp add: decide_with_def act_again_decide [OF B(1) predicate_safe])
  qed
  have step: "act_again B (step_with (Some B) path (c_identity ctx target) (withStepRetry ctx retry label path scope (c_attempt ctx target given (Some path))))
      (step_with (Some B) path (c_identity ctx target) execute')" for label scope given execute'
  proof -
    have "safe B (withStepRetry ctx retry label path scope (c_attempt ctx target given (Some path)))"
      using retry(1) unfolding keeps_def by blast
    from act_again_step [OF B(1) this] retry(2) show ?thesis by (auto simp: step_with_def)
  qed
  have given: "again B (lift_act (\<lambda>steps. decide_with (Some B) p DInputs (expand ctx inputs (scope_of steps x))))
      (lift_act (\<lambda>steps. decide_with (Some B) p DInputs (expand ctx' inputs (scope_of steps x))))" for p
    by (rule again_lift) (simp add: decide_with_def act_again_decide [OF B(1) expand_safe])
  show ?thesis unfolding executeInvokeStep_def
    by (intro again_with_backend [OF B(2) man] again_andThen guard guard_step_safe [OF B(1)])
      (auto simp: d intro!: again_andThen again_basic safe_comp_andThen safe_comp_lift safe_comp_basic given again_lift step
        decide_with_safe [OF B(1) expand_safe] step_with_safe [OF B])
qed

lemma again_optional:
  "(\<And>ss. body = Some ss \<Longrightarrow> again B (rec (Steps ss) x path) (rec' (Steps ss) x path)) \<Longrightarrow>
   again B (optional_steps rec body x path) (optional_steps rec' body x path)"
  by (cases body) (simp_all add: optional_steps_def again_basic)

lemma again_predicate:
  fixes ctx ctx' :: "('s, 'f, 'w, 'e, 't) step_context"
  assumes "b_journal B = J" "recording ctx B" "same_manifest ctx ctx'"
  shows "again B (decide_predicate ctx x cond path which site) (decide_predicate ctx' x cond path which site)"
  unfolding decide_predicate_def by (rule again_decide [OF assms predicate_safe])

lemma again_step:
  fixes ctx ctx' :: "('s, 'f, 'w, 'e, 't) step_context"
  assumes B: "b_journal B = J" "recording ctx B" "calls_below ok entries_of record_of B ctx"
    and man: "same_manifest ctx ctx'"
    and rec: "\<And>task x path. safe_comp B (rec task x path)"
    and IH: "\<And>task x path. task_without_try task \<Longrightarrow> again B (rec task x path) (rec' task x path)"
    and s: "without_try s"
  shows "again B (executeStep ctx rec s x path) (executeStep ctx' rec' s x path)"
proof (cases "stepJournalPath path (identity_of s)")
  case None
  then show ?thesis by (simp add: executeStep_def pathOf_def again_basic)
next
  case (Some here)
  note decides = again_predicate [OF B(1,2) man] again_decide [OF B(1,2) man expand_safe]
  note safes = decide_predicate_safe [OF B(1,2)] decide_safe [OF B(1,2) expand_safe]
  have strings: "js_string ctx' = js_string ctx" using man by (simp add: js_string_def same_manifest_def fun_eq_iff split: cel_value.split)
  show ?thesis
  proof (cases s)
    case (InvokeStep i cond target inputs retry)
    then show ?thesis using Some by (simp add: executeStep_def pathOf_def again_invoke [OF B man])
  next
    case (IfStep i cond body branches others)
    then show ?thesis using Some s
      by (auto simp: executeStep_def pathOf_def executeIfStep_def intro!: again_andThen decides safes rec IH snds.intros)
  next
    case (WhileStep i cond body)
    then show ?thesis using Some s by (auto simp: executeStep_def pathOf_def intro!: IH)
  next
    case (SwitchStep i e cases others)
    have "again B (rec (Steps ss) x p) (rec' (Steps ss) x p)" if "map_of cases key = Some ss" for key ss p
      by (rule IH) (use s SwitchStep map_of_SomeD [OF that] in \<open>force simp: snds.simps\<close>)
    then show ?thesis using Some s SwitchStep
      by (auto simp: executeStep_def pathOf_def executeSwitchStep_def Let_def strings
          intro!: again_andThen decides safes rec IH safe_comp_basic again_basic split: option.splits)
  next
    case (ValueStep i e)
    have "again B (andThen (decide ctx here DValue (\<lambda>steps. expand ctx e (scope_of steps x))) (publish i))
        (andThen (decide ctx' here DValue (\<lambda>steps. expand ctx' e (scope_of steps x))) (publish i))"
      by (intro again_andThen decides safes again_basic safe_comp_basic)
    then have "again B (executeValueStep ctx x i e here) (executeValueStep ctx' x i e here)"
      unfolding answers_again_def executeValueStep_def andThen_def settle_def raise_def
      by (fastforce split: option.splits sum.splits)
    then show ?thesis using Some ValueStep by (simp add: executeStep_def pathOf_def)
  next
    case (ThrowStep i e)
    then show ?thesis using Some
      by (auto simp: executeStep_def pathOf_def executeThrowStep_def andThen_def settle_def raise_def answers_again_def
          split: option.splits sum.splits)
  next
    case (RethrowStep i)
    then show ?thesis using Some by (simp add: executeStep_def pathOf_def executeRethrowStep_def again_basic)
  qed (use s in simp)
qed

lemma run_task_again:
  fixes ctx ctx' :: "('s, 'f, 'w, 'e, 't) step_context"
  assumes B: "b_journal B = J" "recording ctx B" "calls_below ok entries_of record_of B ctx"
    and man: "same_manifest ctx ctx'" and "task_without_try task"
  shows "again B (run_task ctx n task x path) (run_task ctx' n task x path)"
  using assms(5)
proof (induction n arbitrary: task x path)
  case 0
  show ?case by (simp add: answers_again_def)
next
  case (Suc n)
  note safe = run_task_safe [OF B]
  show ?case
  proof (cases task)
    case (Steps ss)
    show ?thesis
    proof (cases ss)
      case (Cons s rest)
      have s: "without_try s" "task_without_try (Steps rest)" using Suc.prems Steps Cons by simp_all
      show ?thesis unfolding Steps Cons run_task.simps task_body.simps
        by (intro again_andThen again_step [OF B man] step_safe [OF B] safe Suc.IH s)
    qed (simp add: Steps again_basic)
  next
    case (Turns cond body turn)
    have body: "task_without_try (Steps body)" "task_without_try (Turns cond body (Suc turn))" using Suc.prems Turns by simp_all
    show ?thesis unfolding Turns run_task.simps task_body.simps
      by (auto intro!: again_andThen again_predicate [OF B(1,2) man] decide_predicate_safe [OF B(1,2)] safe safe_comp_andThen
          Suc.IH body again_basic safe_comp_basic)
  next
    case (Branches branches others k)
    show ?thesis
    proof (cases branches)
      case Nil
      show ?thesis unfolding Branches Nil run_task.simps task_body.simps
        by (intro again_optional Suc.IH) (use Suc.prems Branches in simp)
    next
      case (Cons b rest)
      obtain cond body where b: "b = (cond, body)" by (cases b)
      have body: "task_without_try (Steps body)" "task_without_try (Branches rest others (Suc k))"
        using Suc.prems Branches Cons b by simp_all
      show ?thesis unfolding Branches Cons b run_task.simps task_body.simps
        by (auto intro!: again_andThen again_predicate [OF B(1,2) man] decide_predicate_safe [OF B(1,2)] safe Suc.IH body)
    qed
  qed
qed

end

end
