(* ===== verification/Journal_File.thy ===== *)
theory Journal_File
  imports Durable_Journal "HOL-Library.AList" "HOL-Library.Sublist"
begin

text \<open>
  The journal over a directory of append-only files, one per run
  (\<open>modules/durable-journal-file/nodejs/src/journal.ts\<close>).

  A file is its complete lines and whether an abrupt exit left an incomplete one after them; an
  append after such a tail would fuse with it, and a fused line is one no reader can parse. What a
  process holds in memory, the claims and the runs whose tail it has repaired, is part of the
  state; \<open>crash\<close> is what an exit in the middle of an append leaves. A line is the value JSON writes
  and reads back; the name of a run's file, an injective encoding of the run, is the run here.
\<close>

section \<open>The store\<close>

datatype 'f line = RunLine "'f run_record" | EntryLine "'f journal_entry" | FusedLine

record 'f run_file =
  file_lines :: "'f line list"
  torn_tail :: bool

record 'f file_store =
  files :: "(jstring \<times> 'f run_file) list"
  claims :: "jstring \<Rightarrow> claim option"
  repaired :: "jstring set"

section \<open>Reading\<close>

definition recordOf :: "'f line list \<Rightarrow> 'f run_record option" where
  "recordOf ls = foldl (\<lambda>r l. case l of RunLine x \<Rightarrow> Some x | _ \<Rightarrow> r) None ls"

text \<open>The first occurrence of a path is the entry.\<close>

definition entries_in :: "'f line list \<Rightarrow> 'f journal_entry list" where
  "entries_in ls = foldl (\<lambda>es l. case l of EntryLine e \<Rightarrow> with_entry es e | _ \<Rightarrow> es) [] ls"

definition hasEntryAt :: "'f line list \<Rightarrow> jstring option \<Rightarrow> bool" where
  "hasEntryAt ls path =
     (case path of None \<Rightarrow> False
      | Some p \<Rightarrow> p \<noteq> [] \<and> list_ex (\<lambda>l. case l of EntryLine e \<Rightarrow> epath e = p | _ \<Rightarrow> False) ls)"

definition isDue :: "'f run_record \<Rightarrow> int \<Rightarrow> bool \<Rightarrow> bool" where
  "isDue r now has_answer =
     (if r_status r = Running then True
      else if r_status r = Scheduled then time_reached (r_due_at r) now
      else if r_status r = Parked then
        (if has_answer then True else time_reached (r_due_at r) now)
      else False)"

fun is_fused :: "'f line \<Rightarrow> bool" where
  "is_fused FusedLine = True"
| "is_fused _ = False"

definition readLines :: "jstring \<Rightarrow> 'f file_store \<Rightarrow> journal_error + 'f line list" where
  "readLines run s =
     (case map_of (files s) run of
        None \<Rightarrow> Inr []
      | Some f \<Rightarrow> if list_ex is_fused (file_lines f) then Inl JournalCorrupt else Inr (file_lines f))"

definition file_readRun :: "jstring \<Rightarrow> 'f file_store \<Rightarrow> journal_error + 'f run_record option" where
  "file_readRun run s = map_sum id recordOf (readLines run s)"

definition file_readEntries :: "jstring \<Rightarrow> 'f file_store \<Rightarrow> journal_error + 'f journal_entry list" where
  "file_readEntries run s = map_sum id entries_in (readLines run s)"

section \<open>Appending\<close>

definition repairTornTail :: "jstring \<Rightarrow> 'f file_store \<Rightarrow> 'f file_store" where
  "repairTornTail run s =
     (case map_of (files s) run of
        None \<Rightarrow> s
      | Some f \<Rightarrow> s\<lparr>files := AList.update run (f\<lparr>torn_tail := False\<rparr>) (files s)\<rparr>)"

definition write_line :: "jstring \<Rightarrow> 'f line \<Rightarrow> 'f file_store \<Rightarrow> 'f file_store" where
  "write_line run l s =
     s\<lparr>files := AList.update run
         (case map_of (files s) run of
            None \<Rightarrow> \<lparr>file_lines = [l], torn_tail = False\<rparr>
          | Some f \<Rightarrow> \<lparr>file_lines = file_lines f @ [if torn_tail f then FusedLine else l], torn_tail = False\<rparr>)
         (files s)\<rparr>"

definition appendLine :: "jstring \<Rightarrow> 'f line \<Rightarrow> 'f file_store \<Rightarrow> 'f file_store" where
  "appendLine run l s =
     write_line run l
       (if run \<in> repaired s then s else (repairTornTail run s)\<lparr>repaired := insert run (repaired s)\<rparr>)"

section \<open>The operations\<close>

definition header_of :: "'f admission \<Rightarrow> 'f run_record" where
  "header_of a = (blank_record (a_status a))\<lparr>r_due_at := a_due_at a, r_inputs := a_inputs a,
     r_inputs_version := a_inputs_version a\<rparr>"

definition file_admitRun ::
  "jstring \<Rightarrow> 'f admission \<Rightarrow> int \<Rightarrow> ('f file_store, bool \<times> 'f run_record option) journal_op"
where
  "file_admitRun run a now s =
     (case map_of (files s) run of
        None \<Rightarrow>
          (Inr (True, None),
           s\<lparr>files := AList.update run \<lparr>file_lines = [RunLine (header_of a)], torn_tail = False\<rparr> (files s),
             claims := (case a_claim a of None \<Rightarrow> claims s | Some (h, ttl) \<Rightarrow> (claims s)(run \<mapsto> (h, now + ttl)))\<rparr>)
      | Some _ \<Rightarrow>
          (case file_readRun run s of
             Inl e \<Rightarrow> (Inl e, s)
           | Inr (Some r) \<Rightarrow> (Inr (False, Some r), s)
           | Inr None \<Rightarrow> (Inr (False, Some (header_of a)), s)))"

definition file_append :: "jstring \<Rightarrow> 'f journal_entry \<Rightarrow> ('f file_store, 'f journal_entry) journal_op" where
  "file_append run e s =
     (case file_readEntries run s of
        Inl err \<Rightarrow> (Inl err, s)
      | Inr es \<Rightarrow>
          (case entry_at (epath e) es of
             Some existing \<Rightarrow> (Inr existing, s)
           | None \<Rightarrow> (Inr e, appendLine run (EntryLine e) s)))"

definition file_completeRun :: "jstring \<Rightarrow> 'f run_record \<Rightarrow> ('f file_store, unit) journal_op" where
  "file_completeRun run outcome s =
     (let s1 = appendLine run (RunLine outcome) s in (Inr (), s1\<lparr>claims := (claims s1)(run := None)\<rparr>))"

definition file_parkRun :: "jstring \<Rightarrow> park_record \<Rightarrow> ('f file_store, unit) journal_op" where
  "file_parkRun run p s =
     (case file_readRun run s of
        Inl err \<Rightarrow> (Inl err, s)
      | Inr current \<Rightarrow>
          (let r = (case current of Some r \<Rightarrow> r | None \<Rightarrow> blank_record Parked);
               r1 = r\<lparr>r_status := Parked, r_parked := Some p,
                      r_due_at := (case p_at p of None \<Rightarrow> r_due_at r | Some t \<Rightarrow> Some t)\<rparr>;
               s1 = appendLine run (RunLine r1) s
           in (Inr (), s1\<lparr>claims := (claims s1)(run := None)\<rparr>)))"

definition file_unparkRun :: "jstring \<Rightarrow> ('f file_store, unit) journal_op" where
  "file_unparkRun run s =
     (case file_readRun run s of
        Inl err \<Rightarrow> (Inl err, s)
      | Inr None \<Rightarrow> (Inr (), s)
      | Inr (Some r) \<Rightarrow>
          (Inr (), appendLine run (RunLine (r\<lparr>r_parked := None, r_due_at := None, r_status := Running\<rparr>)) s))"

fun parked_on_loop :: "jstring \<Rightarrow> 'f file_store \<Rightarrow> jstring list \<Rightarrow> journal_error + (jstring \<times> park_record) option" where
  "parked_on_loop token s [] = Inr None"
| "parked_on_loop token s (run # runs) =
     (case file_readRun run s of
        Inl err \<Rightarrow> Inl err
      | Inr (Some r) \<Rightarrow>
          (case r_parked r of
             Some p \<Rightarrow> if r_status r = Parked \<and> p_token p = Some token then Inr (Some (run, p))
                       else parked_on_loop token s runs
           | None \<Rightarrow> parked_on_loop token s runs)
      | Inr None \<Rightarrow> parked_on_loop token s runs)"

definition file_runParkedOn ::
  "jstring \<Rightarrow> 'f file_store \<Rightarrow> journal_error + (jstring \<times> park_record) option"
where
  "file_runParkedOn token s = parked_on_loop token s (map fst (files s))"

fun due_loop ::
  "int \<Rightarrow> nat \<Rightarrow> 'f file_store \<Rightarrow> jstring list \<Rightarrow> jstring list \<Rightarrow> journal_error + jstring list"
where
  "due_loop now limit s [] out = Inr out"
| "due_loop now limit s (run # runs) out =
     (case readLines run s of
        Inl err \<Rightarrow> Inl err
      | Inr ls \<Rightarrow>
          (case recordOf ls of
             None \<Rightarrow> due_loop now limit s runs out
           | Some r \<Rightarrow>
               if \<not> isDue r now (hasEntryAt ls (map_option p_path (r_parked r))) then due_loop now limit s runs out
               else if live_claim (claims s run) now then due_loop now limit s runs out
               else if limit \<le> length (out @ [run]) then Inr (out @ [run])
               else due_loop now limit s runs (out @ [run])))"

definition file_dueRuns :: "int \<Rightarrow> nat \<Rightarrow> 'f file_store \<Rightarrow> journal_error + jstring list" where
  "file_dueRuns now limit s = due_loop now limit s (map fst (files s)) []"

definition file_claimRun :: "jstring \<Rightarrow> jstring \<Rightarrow> int \<Rightarrow> int \<Rightarrow> ('f file_store, bool) journal_op" where
  "file_claimRun run holder ttl now s =
     (if held_by_other (claims s run) holder now then (Inr False, s)
      else (Inr True, s\<lparr>claims := (claims s)(run \<mapsto> (holder, now + ttl))\<rparr>))"

definition file_journal :: "('f file_store, 'f) journal" where
  "file_journal = \<lparr>j_admit = file_admitRun, j_read = file_readRun, j_entries = file_readEntries,
     j_append = file_append, j_complete = file_completeRun, j_park = file_parkRun, j_unpark = file_unparkRun,
     j_parked_on = file_runParkedOn, j_due = file_dueRuns, j_claim = file_claimRun\<rparr>"

text \<open>An exit in the middle of an append, and the process that comes after it.\<close>

definition crash :: "jstring \<Rightarrow> 'f file_store \<Rightarrow> 'f file_store" where
  "crash run s = \<lparr>files = (case map_of (files s) run of
       None \<Rightarrow> AList.update run \<lparr>file_lines = [], torn_tail = True\<rparr> (files s)
     | Some f \<Rightarrow> AList.update run (f\<lparr>torn_tail := True\<rparr>) (files s)),
     claims = (\<lambda>_. None), repaired = {}\<rparr>"

section \<open>What a store stands for\<close>

definition lines_of :: "'f file_store \<Rightarrow> jstring \<Rightarrow> 'f line list" where
  "lines_of s run = (case map_of (files s) run of None \<Rightarrow> [] | Some f \<Rightarrow> file_lines f)"

definition file_entries :: "'f file_store \<Rightarrow> jstring \<Rightarrow> 'f journal_entry list" where
  "file_entries s run = entries_in (lines_of s run)"

definition file_record :: "'f file_store \<Rightarrow> jstring \<Rightarrow> 'f run_record option" where
  "file_record s run = recordOf (lines_of s run)"

fun sound_line :: "'f line \<Rightarrow> bool" where
  "sound_line FusedLine = False"
| "sound_line (RunLine r) = (\<forall>p. r_parked r = Some p \<longrightarrow> p_path p \<noteq> [])"
| "sound_line (EntryLine e) = True"

definition file_ok :: "'f file_store \<Rightarrow> bool" where
  "file_ok s \<longleftrightarrow> distinct (map fst (files s)) \<and>
     (\<forall>(run, f) \<in> set (files s). list_all sound_line (file_lines f) \<and> (torn_tail f \<longrightarrow> run \<notin> repaired s))"

lemma file_ok_lines: "file_ok s \<Longrightarrow> list_all sound_line (lines_of s run)"
  by (auto simp: file_ok_def lines_of_def split: option.splits dest: map_of_SomeD)

lemma recordOf_snoc [simp]:
  "recordOf (ls @ [RunLine r]) = Some r" "recordOf (ls @ [EntryLine e]) = recordOf ls" "recordOf [] = None"
  "recordOf [RunLine r] = Some r"
  by (simp_all add: recordOf_def)

lemma entries_in_snoc [simp]:
  "entries_in (ls @ [EntryLine e]) = with_entry (entries_in ls) e" "entries_in (ls @ [RunLine r]) = entries_in ls"
  "entries_in [] = []" "entries_in [RunLine r] = []"
  by (simp_all add: entries_in_def)

lemma entries_in_distinct: "distinct (map epath (entries_in ls))"
  by (induction ls rule: rev_induct) (auto simp: entries_in_def with_entry_distinct split: line.splits)

lemma entries_in_at:
  "entry_at p (entries_in ls) = None \<longleftrightarrow> \<not> list_ex (\<lambda>l. case l of EntryLine e \<Rightarrow> epath e = p | _ \<Rightarrow> False) ls"
proof (induction ls rule: rev_induct)
  case (snoc l ls)
  then show ?case by (cases l) (auto simp: entries_in_def with_entry_at split: if_splits)
qed simp

lemma recordOf_sound: "list_all sound_line ls \<Longrightarrow> recordOf ls = Some r \<Longrightarrow> r_parked r = Some p \<Longrightarrow> p_path p \<noteq> []"
proof (induction ls rule: rev_induct)
  case (snoc l ls)
  then show ?case by (cases l) (auto simp: recordOf_def)
qed simp

lemma hasEntryAt_answered:
  assumes "list_all sound_line ls" "recordOf ls = Some r"
  shows "hasEntryAt ls (map_option p_path (r_parked r)) = answered r (entries_in ls)"
proof (cases "r_parked r")
  case (Some p)
  with recordOf_sound [OF assms] entries_in_at [of "p_path p" ls] show ?thesis
    by (auto simp: hasEntryAt_def answered_def)
qed (simp add: hasEntryAt_def answered_def)

lemma isDue_is_due: "isDue r now a = is_due r a now"
  by (cases "r_status r") (simp_all add: isDue_def is_due_def)

lemma sound_not_fused: "list_all sound_line ls \<Longrightarrow> \<not> list_ex is_fused ls"
  by (induction ls) (auto elim: is_fused.elims)

lemma readLines_ok: "file_ok s \<Longrightarrow> readLines run s = Inr (lines_of s run)"
  using file_ok_lines [of s run] sound_not_fused by (auto simp: readLines_def lines_of_def split: option.splits)

lemma file_reads:
  assumes "file_ok s"
  shows "file_readRun run s = Inr (file_record s run)" and "file_readEntries run s = Inr (file_entries s run)"
  using readLines_ok [OF assms] by (simp_all add: file_readRun_def file_readEntries_def file_record_def file_entries_def)

section \<open>Appending keeps the store readable\<close>


lemma update_member: "(a, b) \<in> set (AList.update k v al) \<Longrightarrow> (a, b) = (k, v) \<or> (a, b) \<in> set al"
  by (induction al) (auto split: if_splits)

lemma update_member_key:
  "distinct (map fst al) \<Longrightarrow> (k, b) \<in> set (AList.update k v al) \<Longrightarrow> b = v"
  by (metis distinct_update map_of_eq_Some_iff update_Some_unfold)

lemma file_ok_update:
  assumes "file_ok s" "list_all sound_line (file_lines f)" "\<not> torn_tail f" "rep \<subseteq> insert run (repaired s)"
  shows "file_ok (s\<lparr>files := AList.update run f (files s), claims := c, repaired := rep\<rparr>)"
proof -
  have "list_all sound_line (file_lines g) \<and> (torn_tail g \<longrightarrow> other \<notin> rep)"
    if "(other, g) \<in> set (AList.update run f (files s))" for other g
  proof (cases "other = run")
    case True
    with that assms(1) have "g = f" by (auto simp: file_ok_def dest: update_member_key)
    with assms(2,3) show ?thesis by simp
  next
    case False
    with that have "(other, g) \<in> set (files s)" by (auto dest: update_member)
    with assms(1,4) False show ?thesis by (auto simp: file_ok_def)
  qed
  with assms(1) show ?thesis by (auto simp: file_ok_def distinct_update)
qed

lemma file_ok_claims: "file_ok s \<Longrightarrow> file_ok (s\<lparr>claims := c\<rparr>)"
  by (simp add: file_ok_def)

lemma lines_of_claims [simp]: "lines_of (s\<lparr>claims := c\<rparr>) = lines_of s"
  by (simp add: lines_of_def fun_eq_iff)

lemma lines_of_update [simp]:
  "lines_of (s\<lparr>repaired := rep\<rparr>) = lines_of s"
  "lines_of (s\<lparr>files := AList.update run f (files s), repaired := rep\<rparr>) = (lines_of s)(run := file_lines f)"
  "lines_of (s\<lparr>files := AList.update run f (files s)\<rparr>) = (lines_of s)(run := file_lines f)"
  "lines_of (s\<lparr>files := AList.update run f (files s), claims := c, repaired := rep\<rparr>) =
     (lines_of s)(run := file_lines f)"
  by (auto simp: lines_of_def fun_eq_iff update_conv')

lemma update_twice [simp]: "AList.update k v (AList.update k w al) = AList.update k v al"
  by (induction al) auto

lemma appendLine_files:
  assumes "file_ok s"
  shows "\<exists>rep f. appendLine run l s = s\<lparr>files := AList.update run f (files s), claims := claims s, repaired := rep\<rparr> \<and>
    rep \<subseteq> insert run (repaired s) \<and> file_lines f = lines_of s run @ [l] \<and> \<not> torn_tail f"
proof (cases "run \<in> repaired s")
  case True
  then have "torn_tail f \<Longrightarrow> map_of (files s) run \<noteq> Some f" for f
    using assms by (auto simp: file_ok_def dest!: map_of_SomeD)
  with True show ?thesis
    by (intro exI [of _ "repaired s"]) (auto simp: appendLine_def write_line_def lines_of_def split: option.splits)
next
  case False
  then show ?thesis
    by (intro exI [of _ "insert run (repaired s)"] exI [of _ "\<lparr>file_lines = lines_of s run @ [l], torn_tail = False\<rparr>"])
      (cases s, auto simp: appendLine_def write_line_def repairTornTail_def lines_of_def update_conv' split: option.splits)
qed

lemma appendLine_ok:
  assumes "file_ok s" "sound_line l"
  shows "file_ok (appendLine run l s)" and "lines_of (appendLine run l s) = (lines_of s)(run := lines_of s run @ [l])"
    and "claims (appendLine run l s) = claims s"
proof -
  from appendLine_files [OF assms(1), of run l] obtain rep f
    where a: "appendLine run l s = s\<lparr>files := AList.update run f (files s), claims := claims s, repaired := rep\<rparr>"
      and f: "rep \<subseteq> insert run (repaired s)" "file_lines f = lines_of s run @ [l]" "\<not> torn_tail f" by blast
  have "list_all sound_line (file_lines f)" using file_ok_lines [OF assms(1)] assms(2) f(2) by simp
  then show "file_ok (appendLine run l s)" unfolding a by (rule file_ok_update [OF assms(1) _ f(3,1)])
  show "lines_of (appendLine run l s) = (lines_of s)(run := lines_of s run @ [l])" unfolding a by (simp add: f(2))
  show "claims (appendLine run l s) = claims s" unfolding a by simp
qed

lemma append_run_line:
  assumes "file_ok s" "\<forall>p. r_parked r = Some p \<longrightarrow> p_path p \<noteq> []"
  shows "file_ok (appendLine run (RunLine r) s)"
    and "file_record (appendLine run (RunLine r) s) = (file_record s)(run \<mapsto> r)"
    and "file_entries (appendLine run (RunLine r) s) = file_entries s"
    and "claims (appendLine run (RunLine r) s) = claims s"
  using appendLine_ok [OF assms(1), of "RunLine r" run] assms(2)
  by (auto simp: file_record_def file_entries_def fun_eq_iff)

lemma append_entry_line:
  assumes "file_ok s"
  shows "file_ok (appendLine run (EntryLine e) s)"
    and "file_record (appendLine run (EntryLine e) s) = file_record s"
    and "file_entries (appendLine run (EntryLine e) s) = (file_entries s)(run := with_entry (file_entries s run) e)"
    and "claims (appendLine run (EntryLine e) s) = claims s"
  using appendLine_ok [OF assms, of "EntryLine e" run]
  by (auto simp: file_record_def file_entries_def fun_eq_iff)

lemma with_claims [simp]:
  "file_record (s\<lparr>claims := c\<rparr>) = file_record s" "file_entries (s\<lparr>claims := c\<rparr>) = file_entries s"
  by (simp_all add: file_record_def file_entries_def fun_eq_iff)


section \<open>The contract\<close>

lemma file_parked_on:
  assumes "file_ok s" "parked_on_loop token s runs = Inr found"
  shows "case found of
      None \<Rightarrow> \<forall>run r p. run \<in> set runs \<longrightarrow> file_record s run = Some r \<longrightarrow> r_status r = Parked \<longrightarrow> r_parked r = Some p \<longrightarrow>
        p_token p \<noteq> Some token
    | Some (run, p) \<Rightarrow> \<exists>r. file_record s run = Some r \<and> r_status r = Parked \<and> r_parked r = Some p \<and> p_token p = Some token"
  using assms(2)
proof (induction runs)
  case (Cons run runs)
  then show ?case
    by (auto simp: file_reads [OF assms(1)] split: option.splits if_splits)
qed simp

lemma due_loop_spec:
  assumes ok: "file_ok s"
    and wanted: "\<And>run. wanted run \<longleftrightarrow> \<not> live_claim (claims s run) now \<and>
      (\<exists>r. file_record s run = Some r \<and> is_due r (answered r (file_entries s run)) now)"
    and "length out < limit"
  shows "\<exists>more. due_loop now limit s runs out = Inr (out @ more) \<and> length (out @ more) \<le> limit \<and> 
    (\<forall>run \<in> set more. wanted run) \<and>
    (length (out @ more) < limit \<longrightarrow> (\<forall>run \<in> set runs. wanted run \<longrightarrow> run \<in> set more))"
  using assms(3)
proof (induction runs arbitrary: out)
  case (Cons run runs)
  let ?ls = "lines_of s run"
  have due: "isDue r now (hasEntryAt ?ls (map_option p_path (r_parked r))) \<longleftrightarrow> is_due r (answered r (file_entries s run)) now"
    if "recordOf ?ls = Some r" for r
    using that hasEntryAt_answered [OF file_ok_lines [OF ok]] by (simp add: isDue_is_due file_entries_def)
  show ?case
  proof (cases "wanted run")
    case False
    then have "due_loop now limit s (run # runs) out = due_loop now limit s runs out"
      using due by (auto simp: readLines_ok [OF ok] wanted file_record_def split: option.splits)
    with Cons.IH [OF Cons.prems] False show ?thesis by auto
  next
    case True
    then have step: "due_loop now limit s (run # runs) out =
        (if limit \<le> length (out @ [run]) then Inr (out @ [run]) else due_loop now limit s runs (out @ [run]))"
      using due by (auto simp: readLines_ok [OF ok] wanted file_record_def split: option.splits)
    show ?thesis
    proof (cases "limit \<le> length (out @ [run])")
      case True
      with step Cons.prems \<open>wanted run\<close> show ?thesis by (intro exI [of _ "[run]"]) simp
    next
      case False
      then have "length (out @ [run]) < limit" by simp
      from Cons.IH [OF this] obtain more where "due_loop now limit s runs (out @ [run]) = Inr ((out @ [run]) @ more)"
        "length ((out @ [run]) @ more) \<le> limit" "\<forall>run \<in> set more. wanted run"
        "length ((out @ [run]) @ more) < limit \<longrightarrow> (\<forall>run \<in> set runs. wanted run \<longrightarrow> run \<in> set more)" by blast
      with step False \<open>wanted run\<close> show ?thesis by (intro exI [of _ "run # more"]) simp
    qed
  qed
qed simp

lemma file_record_listed: "file_record s run = Some r \<Longrightarrow> run \<in> set (map fst (files s))"
  by (auto simp: file_record_def lines_of_def image_iff split: option.splits dest: map_of_SomeD)
    (metis map_of_SomeD fst_conv)

lemma file_admit_new:
  assumes "file_ok s" "map_of (files s) run = None"
  shows "\<exists>s'. file_admitRun run a now s = (Inr (True, None), s') \<and> file_ok s' \<and> file_entries s' = file_entries s \<and>
    file_record s' = (file_record s)(run \<mapsto> header_of a) \<and>
    claims s' = (case a_claim a of None \<Rightarrow> claims s | Some (h, ttl) \<Rightarrow> (claims s)(run \<mapsto> (h, now + ttl)))"
proof -
  let ?f = "\<lparr>file_lines = [RunLine (header_of a)], torn_tail = False\<rparr>"
  let ?c = "case a_claim a of None \<Rightarrow> claims s | Some (h, ttl) \<Rightarrow> (claims s)(run \<mapsto> (h, now + ttl))"
  let ?s' = "s\<lparr>files := AList.update run ?f (files s), claims := ?c, repaired := repaired s\<rparr>"
  have s': "file_admitRun run a now s = (Inr (True, None), ?s')"
    using assms(2) by (simp add: file_admitRun_def)
  have "lines_of s run = []" using assms(2) by (simp add: lines_of_def)
  moreover have "r_parked (header_of a) = None" by (simp add: header_of_def)
  moreover have "file_ok ?s'"
    by (rule file_ok_update [OF assms(1)]) (auto simp: header_of_def)
  ultimately show ?thesis
    unfolding s' by (auto simp: file_record_def file_entries_def fun_eq_iff)
qed


lemma file_journal_ops [simp]:
  "j_admit file_journal = file_admitRun" "j_read file_journal = file_readRun" "j_entries file_journal = file_readEntries"
  "j_append file_journal = file_append" "j_complete file_journal = file_completeRun" "j_park file_journal = file_parkRun"
  "j_unpark file_journal = file_unparkRun" "j_parked_on file_journal = file_runParkedOn"
  "j_due file_journal = file_dueRuns" "j_claim file_journal = file_claimRun"
  by (simp_all add: file_journal_def)

lemma file_append_law:
  assumes "file_ok s"
  shows "\<exists>s'. file_append run e s = (Inr (stored_entry (file_entries s run) e), s') \<and> file_ok s' \<and>
    file_entries s' = (file_entries s)(run := with_entry (file_entries s run) e) \<and> file_record s' = file_record s \<and>
    claims s' = claims s"
proof (cases "entry_at (epath e) (file_entries s run)")
  case None
  then show ?thesis
    using append_entry_line [OF assms, of run e] by (simp add: file_append_def file_reads [OF assms] stored_entry_def)
next
  case (Some w)
  then show ?thesis
    using assms by (simp add: file_append_def file_reads [OF assms] stored_entry_def with_entry_def fun_upd_idem)
qed

lemma file_admit_again:
  assumes "file_ok s" "map_of (files s) run = Some f"
  shows "\<exists>existing. file_admitRun run a now s = (Inr (False, existing), s) \<and>
    (\<forall>r. file_record s run = Some r \<longrightarrow> existing = Some r)"
  using assms by (auto simp: file_admitRun_def file_reads split: option.splits)

lemma file_admit_law:
  assumes "file_ok s"
  shows "\<exists>admitted existing s'. file_admitRun run a now s = (Inr (admitted, existing), s') \<and> file_ok s' \<and>
      file_entries s' = file_entries s \<and>
      (if admitted then file_record s run = None \<and>
         (\<exists>r. file_record s' = (file_record s)(run \<mapsto> r) \<and> r_status r = a_status a \<and> r_due_at r = a_due_at a \<and>
            r_inputs r = a_inputs a \<and> r_inputs_version r = a_inputs_version a \<and> r_parked r = None) \<and>
         (\<forall>h ttl. a_claim a = Some (h, ttl) \<longrightarrow> claims s' run = Some (h, now + ttl))
       else file_record s' = file_record s \<and> claims s' = claims s \<and>
         (\<forall>r. file_record s run = Some r \<longrightarrow> existing = Some r))"
proof (cases "map_of (files s) run")
  case None
  then have "file_record s run = None" by (simp add: file_record_def lines_of_def)
  moreover from file_admit_new [OF assms None, of a now] obtain s'
    where "file_admitRun run a now s = (Inr (True, None), s')" "file_ok s'" "file_entries s' = file_entries s"
      "file_record s' = (file_record s)(run \<mapsto> header_of a)"
      "claims s' = (case a_claim a of None \<Rightarrow> claims s | Some (h, ttl) \<Rightarrow> (claims s)(run \<mapsto> (h, now + ttl)))" by blast
  moreover have "r_status (header_of a) = a_status a" "r_due_at (header_of a) = a_due_at a"
    "r_inputs (header_of a) = a_inputs a" "r_inputs_version (header_of a) = a_inputs_version a" "r_parked (header_of a) = None" by (simp_all add: header_of_def)
  ultimately show ?thesis
    by (intro exI [of _ True] exI [of _ None] exI [of _ s']) auto
next
  case (Some f)
  from file_admit_again [OF assms Some, of a now] assms show ?thesis by auto
qed

text \<open>The spread of \<open>{ dueAt: park.at }\<close> over the record read: a park without a deadline leaves the one the record had.\<close>

definition file_due_after :: "'f run_record \<Rightarrow> park_record \<Rightarrow> rat option" where
  "file_due_after r p = (case p_at p of None \<Rightarrow> r_due_at r | Some t \<Rightarrow> Some t)"

lemma file_park_law:
  assumes "file_ok s" "file_record s run = Some r" "p_path p \<noteq> []"
  shows "\<exists>r' s'. file_parkRun run p s = (Inr (), s') \<and> file_ok s' \<and> file_entries s' = file_entries s \<and>
    file_record s' = (file_record s)(run \<mapsto> r') \<and> r_status r' = Parked \<and> r_parked r' = Some p \<and>
    r_due_at r' = file_due_after r p \<and> claims s' = (claims s)(run := None)"
proof -
  let ?r = "r\<lparr>r_status := Parked, r_parked := Some p, r_due_at := (case p_at p of None \<Rightarrow> r_due_at r | Some t \<Rightarrow> Some t)\<rparr>"
  have "\<forall>p'. r_parked ?r = Some p' \<longrightarrow> p_path p' \<noteq> []" using assms(3) by simp
  from append_run_line [OF assms(1) this, of run] show ?thesis
    by (auto simp: file_parkRun_def file_reads [OF assms(1)] assms(2) Let_def file_ok_claims file_due_after_def)
qed

lemma file_unpark_law:
  assumes "file_ok s" "file_record s run = Some r"
  shows "\<exists>r' s'. file_unparkRun run s = (Inr (), s') \<and> file_ok s' \<and> file_entries s' = file_entries s \<and>
    file_record s' = (file_record s)(run \<mapsto> r') \<and> r_status r' = Running \<and> r_parked r' = None \<and> r_due_at r' = None \<and>
    claims s' = claims s"
  using append_run_line [OF assms(1), of "r\<lparr>r_parked := None, r_due_at := None, r_status := Running\<rparr>" run]
  by (auto simp: file_unparkRun_def file_reads [OF assms(1)] assms(2))

lemma file_complete_law:
  assumes "file_ok s" "r_parked out = None"
  shows "\<exists>s'. file_completeRun run out s = (Inr (), s') \<and> file_ok s' \<and> file_entries s' = file_entries s \<and>
    file_record s' = (file_record s)(run \<mapsto> out) \<and> claims s' = (claims s)(run := None)"
  using append_run_line [OF assms(1), of out run] assms(2) by (auto simp: file_completeRun_def Let_def file_ok_claims)

lemma file_due_law:
  assumes "file_ok s" "0 < limit"
  shows "\<exists>runs. file_dueRuns now limit s = Inr runs \<and> length runs \<le> limit \<and>
      (\<forall>run \<in> set runs. \<not> live_claim (claims s run) now \<and>
         (\<exists>r. file_record s run = Some r \<and> is_due r (answered r (file_entries s run)) now)) \<and>
      (length runs < limit \<longrightarrow> (\<forall>run r. file_record s run = Some r \<longrightarrow> is_due r (answered r (file_entries s run)) now \<longrightarrow>
         \<not> live_claim (claims s run) now \<longrightarrow> run \<in> set runs))"
proof -
  have "length ([] :: jstring list) < limit" using assms(2) by simp
  from due_loop_spec [OF assms(1) refl this, of now "map fst (files s)"] obtain runs
    where runs: "due_loop now limit s (map fst (files s)) [] = Inr ([] @ runs)" "length ([] @ runs) \<le> limit"
      "\<forall>run \<in> set runs. \<not> live_claim (claims s run) now \<and>
        (\<exists>r. file_record s run = Some r \<and> is_due r (answered r (file_entries s run)) now)"
      "length ([] @ runs) < limit \<longrightarrow> (\<forall>run \<in> set (map fst (files s)). (\<not> live_claim (claims s run) now \<and>
        (\<exists>r. file_record s run = Some r \<and> is_due r (answered r (file_entries s run)) now)) \<longrightarrow> run \<in> set runs)"
    by blast
  then show ?thesis
    unfolding file_dueRuns_def append_Nil by (intro exI [of _ runs] conjI) (blast dest: file_record_listed)+
qed

lemma file_parked_on_law:
  assumes "file_ok s" "file_runParkedOn token s = Inr found"
  shows "case found of
      None \<Rightarrow> \<not> (\<exists>run r p. file_record s run = Some r \<and> r_status r = Parked \<and> r_parked r = Some p \<and> p_token p = Some token)
    | Some (run, p) \<Rightarrow> \<exists>r. file_record s run = Some r \<and> r_status r = Parked \<and> r_parked r = Some p \<and> p_token p = Some token"
proof -
  note found = file_parked_on [OF assms(1), of token "map fst (files s)" found] assms(2) [unfolded file_runParkedOn_def]
  show ?thesis
  proof (cases found)
    case None
    with found file_record_listed [of s] show ?thesis by (simp only: option.case) blast
  qed (use found in simp)
qed

lemma file_claim_law:
  "file_claimRun run holder ttl now s = (Inr (\<not> held_by_other (claims s run) holder now),
     if held_by_other (claims s run) holder now then s else s\<lparr>claims := (claims s)(run \<mapsto> (holder, now + ttl))\<rparr>)"
  by (simp add: file_claimRun_def)

interpretation fj: durable_journal file_journal file_ok file_entries file_record claims "\<lambda>t. True" file_due_after "\<lambda>r. True"
proof (unfold_locales, goal_cases)
  case (3 s run)
  show ?case by (simp add: file_entries_def entries_in_distinct)
next
  case (5 s a run now)
  then show ?case using file_admit_law [of s run a now] by simp
next
  case (6 s a run now)
  then show ?case by (simp add: option.pred_True)
next
  case (7 s run r out)
  from file_complete_law [OF 7(1,4), of run] 7(3,4) show ?case by auto
next
  case (8 s run r p)
  from file_park_law [OF 8(1-3)] show ?case by fastforce
next
  case (10 s run r)
  from file_unpark_law [OF 10] show ?case by auto
next
  case (12 s token found)
  then show ?case using file_parked_on_law [of s token found] by simp
next
  case (13 s limit now)
  then show ?case using file_due_law [of s limit now] by simp
qed (simp_all add: file_reads file_append_law file_claim_law file_ok_claims option.pred_True)

section \<open>Crashes\<close>

text \<open>
  An exit in the middle of an append loses only the line being written: what was recorded reads as
  before, and what the next process appends is a line of its own.
\<close>

lemma crash_lines: "lines_of (crash run s) = lines_of s"
  by (auto simp: crash_def lines_of_def fun_eq_iff update_conv' split: option.splits)

lemma crash_ok:
  assumes "file_ok s"
  shows "file_ok (crash run s)"
proof -
  have "list_all sound_line (file_lines f)" if "(other, f) \<in> set (files (crash run s))" for other f
    using that assms by (auto simp: crash_def file_ok_def split: option.splits dest!: update_member map_of_SomeD)
  with assms show ?thesis
    by (auto simp: crash_def file_ok_def distinct_update split: option.splits)
qed

inductive file_step :: "'f file_store \<Rightarrow> 'f file_store \<Rightarrow> bool" where
  file_admits: "file_step s (snd (file_admitRun run a now s))"
| file_appends: "file_step s (snd (file_append run e s))"
| file_completes: "r_parked out = None \<Longrightarrow> file_step s (snd (file_completeRun run out s))"
| file_parks: "p_path p \<noteq> [] \<Longrightarrow> file_step s (snd (file_parkRun run p s))"
| file_wakes: "file_step s (snd (file_unparkRun run s))"
| file_claims: "file_step s (snd (file_claimRun run holder ttl now s))"
| file_crashes: "file_step s (crash run s)"

definition empty_directory :: "'f file_store" where
  "empty_directory = \<lparr>files = [], claims = (\<lambda>_. None), repaired = {}\<rparr>"

lemma with_entry_prefix: "prefix es (with_entry es e)"
  by (simp add: with_entry_def)

lemma file_park_lines:
  assumes "file_ok s" "p_path p \<noteq> []"
  shows "file_ok (snd (file_parkRun run p s))" and "file_entries (snd (file_parkRun run p s)) = file_entries s"
proof -
  obtain r where park: "snd (file_parkRun run p s) =
      (let s1 = appendLine run (RunLine (r\<lparr>r_status := Parked, r_parked := Some p,
         r_due_at := (case p_at p of None \<Rightarrow> r_due_at r | Some t \<Rightarrow> Some t)\<rparr>)) s
       in s1\<lparr>claims := (claims s1)(run := None)\<rparr>)"
    by (auto simp: file_parkRun_def file_reads [OF assms(1)] Let_def split: option.splits)
  show "file_ok (snd (file_parkRun run p s))" and "file_entries (snd (file_parkRun run p s)) = file_entries s"
    unfolding park Let_def using append_run_line [OF assms(1)] assms(2) by (simp_all add: file_ok_claims)
qed

lemma file_step_keeps:
  assumes "file_step s s'" "file_ok s"
  shows "file_ok s' \<and> prefix (file_entries s run) (file_entries s' run)"
  using assms
proof cases
  case (file_admits run a now)
  with file_admit_law [OF assms(2), of run a now] show ?thesis by auto
next
  case (file_appends run e)
  with file_append_law [OF assms(2), of run e] show ?thesis by (auto simp: with_entry_prefix)
next
  case (file_completes out run)
  with file_complete_law [OF assms(2), of out run] show ?thesis by auto
next
  case (file_parks p run)
  with file_park_lines [OF assms(2), of p run] show ?thesis by simp
next
  case (file_wakes run)
  show ?thesis
  proof (cases "file_record s run")
    case None
    with file_wakes assms(2) show ?thesis by (simp add: file_unparkRun_def file_reads)
  next
    case (Some r)
    from file_unpark_law [OF assms(2) Some] file_wakes show ?thesis by auto
  qed
qed (use assms(2) in \<open>simp_all add: file_claim_law file_ok_claims crash_ok file_entries_def crash_lines\<close>)

lemma file_steps_keep:
  assumes "file_step\<^sup>*\<^sup>* s s'" "file_ok s"
  shows "file_ok s' \<and> prefix (file_entries s run) (file_entries s' run)"
  using assms
proof (induction rule: rtranclp_induct)
  case (step s' s'')
  then show ?case using file_step_keeps [of s' s'' run] prefix_order.trans by blast
qed simp

lemma empty_directory_ok: "file_ok empty_directory"
  by (simp add: file_ok_def empty_directory_def)

section \<open>Properties\<close>


text \<open>C9. No sequence of operations and of crashes in the middle of an append makes a journal unreadable, and
  what it holds of a run only grows: the entries read before are the first entries read after, in the same
  order, with no path twice.\<close>

theorem file_journal_only_grows:
  assumes "file_step\<^sup>*\<^sup>* empty_directory s" "file_step\<^sup>*\<^sup>* s s'"
  shows "\<exists>es es' r. file_readEntries run s = Inr es \<and> file_readEntries run s' = Inr es' \<and> file_readRun run s' = Inr r \<and>
    prefix es es' \<and> distinct (map epath es')"
proof -
  have ok: "file_ok s" using file_steps_keep [OF assms(1) empty_directory_ok] by blast
  with file_steps_keep [OF assms(2), of run] show ?thesis
    by (auto simp: file_reads file_entries_def entries_in_distinct)
qed

text \<open>A run of one step and a crash in the middle of the second.\<close>

definition sample_store :: "nat file_store" where
  "sample_store = snd (file_append [1] \<lparr>epath = [2], ekind = StepEntry, edecision = None, etarget = None,
     eversion = Some 1, evalue = Some 7\<rparr> (snd (file_admitRun [1] \<lparr>a_status = Running, a_due_at = None,
     a_inputs = None, a_inputs_version = None, a_claim = None\<rparr> 0 empty_directory)))"

lemma sample_store_reached: "file_step\<^sup>*\<^sup>* empty_directory sample_store"
  unfolding sample_store_def by (rule rtranclp.rtrancl_into_rtrancl [OF r_into_rtranclp]) (rule file_step.intros)+

theorem file_journal_only_grows_witness:
  "\<exists>es es' r. file_readEntries [1] sample_store = Inr es \<and>
     file_readEntries [1] (crash [1] sample_store) = Inr es' \<and>
     file_readRun [1] (crash [1] sample_store) = Inr r \<and> prefix es es' \<and> distinct (map epath es')"
  by (rule file_journal_only_grows [OF sample_store_reached r_into_rtranclp]) (rule file_crashes)

text \<open>C16. A delivery wakes a parked run: once an entry is at the place where the run is parked, a sweep with
  room for it and that sees no live claim answers the run, whatever deadline the park had.\<close>

theorem file_delivery_wakes:
  assumes "file_step\<^sup>*\<^sup>* empty_directory s" "file_readRun run s = Inr (Some r)" "r_status r = Parked" "r_parked r = Some p"
    and "epath e = p_path p" "\<not> live_claim (claims s run) now"
    and "file_dueRuns now limit (snd (file_append run e s)) = Inr runs" "length runs < limit"
  shows "run \<in> set runs"
proof -
  have ok: "file_ok s" using file_steps_keep [OF assms(1) empty_directory_ok] by blast
  then have "file_record s run = Some r" using assms(2) by (simp add: file_reads)
  from file_append_law [OF ok, of run e] obtain w s' where "file_append run e s = (Inr w, s')" by blast
  with fj.delivered_is_due [OF ok \<open>file_record s run = Some r\<close> assms(3,4), of e w s' now limit runs] assms(5-8)
  show ?thesis by simp
qed

definition sample_parked :: "nat file_store" where
  "sample_parked = snd (file_parkRun [1] \<lparr>p_path = [3], p_resource = [3], p_at = Some 100, p_token = Some [4]\<rparr>
     sample_store)"

definition sample_payload :: "nat journal_entry" where
  "sample_payload = \<lparr>epath = [3], ekind = StepEntry, edecision = None, etarget = None, eversion = None, evalue = None\<rparr>"

lemma sample_parked_reached: "file_step\<^sup>*\<^sup>* empty_directory sample_parked"
  unfolding sample_parked_def
  by (rule rtranclp.rtrancl_into_rtrancl [OF sample_store_reached]) (rule file_parks, simp)

lemmas file_eval = file_readRun_def readLines_def recordOf_def file_append_def file_readEntries_def entries_in_def
  file_parkRun_def file_admitRun_def appendLine_def write_line_def repairTornTail_def empty_directory_def
  header_of_def blank_record_def file_dueRuns_def with_entry_def entry_at_def hasEntryAt_def isDue_def live_claim_def time_reached_def

theorem file_delivery_wakes_witness:
  "file_dueRuns 0 5 (snd (file_append [1] sample_payload sample_parked)) = Inr [[1]] \<and> [1] \<in> set [[1]]"
proof -
  have run: "file_readRun [1] sample_parked =
      Inr (Some ((blank_record Parked)\<lparr>r_parked := Some \<lparr>p_path = [3], p_resource = [3], p_at = Some 100, p_token = Some [4]\<rparr>,
        r_due_at := Some 100\<rparr>))"
    by (simp add: sample_parked_def sample_store_def file_eval)
  have due: "file_dueRuns 0 5 (snd (file_append [1] sample_payload sample_parked)) = Inr [[1]]"
    by (simp add: sample_parked_def sample_store_def sample_payload_def file_eval)
  have "claims sample_parked [1] = None"
    by (simp add: sample_parked_def sample_store_def file_eval)
  with file_delivery_wakes [OF sample_parked_reached run _ _ _ _ due] due show ?thesis
    by (simp add: sample_payload_def live_claim_def)
qed

section \<open>Where the directory does less\<close>

text \<open>
  A park with no deadline keeps the time the run was scheduled for, so a scheduled run that parks with no deadline is
  due on every sweep.
\<close>

lemma parked_without_deadline_is_due:
  assumes "file_ok s" "file_record s run = Some r" "r_due_at r = Some t" "t \<le> of_int now" "p_path p \<noteq> []" "p_at p = None"
    and "file_dueRuns now limit (snd (file_parkRun run p s)) = Inr runs" "length runs < limit"
  shows "run \<in> set runs"
proof -
  from file_park_law [OF assms(1,2,5)] obtain r' s' where s': "file_parkRun run p s = (Inr (), s')" "file_ok s'"
    "file_record s' run = Some r'" "r_status r' = Parked" "r_due_at r' = Some t" "claims s' run = None"
    using assms(3,6) by (auto simp: file_due_after_def)
  have "is_due r' (answered r' (file_entries s' run)) now" using s'(4,5) assms(4) by (simp add: is_due_def time_reached_def)
  with file_due_law [OF s'(2), of limit now] assms(7,8) s' show ?thesis by (auto simp: live_claim_def)
qed

text \<open>A park and a wake revive a run that is settled.\<close>

lemma settled_run_parks:
  assumes "file_ok s" "file_record s run = Some r" "r_status r = Cancelled" "p_path p \<noteq> []"
  shows "\<exists>r'. file_record (snd (file_parkRun run p s)) run = Some r' \<and> r_status r' = Parked"
  using file_park_law [OF assms(1,2,4)] by auto

lemma settled_run_wakes:
  assumes "file_ok s" "file_record s run = Some r" "r_status r = Cancelled"
  shows "\<exists>r'. file_record (snd (file_unparkRun run s)) run = Some r' \<and> r_status r' = Running"
  using file_unpark_law [OF assms(1,2)] by auto

text \<open>
  An exit between the exclusive create and the header leaves a run that no start admits and no sweep sees, though the
  answer to a second start is a running record.
\<close>

lemma unfinished_admission_is_lost:
  assumes "map_of (files s) run = Some f" "file_lines f = []"
  shows "file_admitRun run a now s = (Inr (False, Some (header_of a)), s)" and "file_readRun run s = Inr None"
  using assms by (simp_all add: file_admitRun_def file_readRun_def readLines_def)

end
