(* ===== verification/Plain_Encoding.thy ===== *)
theory Plain_Encoding
  imports Cel_Time
begin

text \<open>
  The canonical text of bytes, of an instant and of a duration (\<open>sdk/nodejs/src/plain-encoding.ts\<close>):
  base64 of the URL alphabet without padding, RFC 3339, and seconds with a trimmed fraction. Each reads back what it
  wrote.
\<close>

section \<open>Bytes\<close>

definition base64_unit :: "nat \<Rightarrow> code_unit" where
  "base64_unit n =
     (if n < 26 then 65 + n else if n < 52 then 71 + n else if n < 62 then n - 4 else if n = 62 then 45 else 95)"

definition base64_value :: "code_unit \<Rightarrow> nat option" where
  "base64_value c =
     (if 65 \<le> c \<and> c \<le> 90 then Some (c - 65) else if 97 \<le> c \<and> c \<le> 122 then Some (c - 71)
      else if 48 \<le> c \<and> c \<le> 57 then Some (c + 4) else if c = 45 then Some 62 else if c = 95 then Some 63 else None)"

fun base64_encode :: "nat list \<Rightarrow> jstring" where
  "base64_encode (a # b # c # bs) =
     base64_unit (a div 4) # base64_unit (16 * (a mod 4) + b div 16) # base64_unit (4 * (b mod 16) + c div 64) #
     base64_unit (c mod 64) # base64_encode bs"
| "base64_encode [a, b] = [base64_unit (a div 4), base64_unit (16 * (a mod 4) + b div 16), base64_unit (4 * (b mod 16))]"
| "base64_encode [a] = [base64_unit (a div 4), base64_unit (16 * (a mod 4))]"
| "base64_encode [] = []"

text \<open>Bits past the last whole byte are dropped, as the host does.\<close>

fun base64_bytes :: "nat list \<Rightarrow> nat list" where
  "base64_bytes (w # x # y # z # r) = [4 * w + x div 16, 16 * (x mod 16) + y div 4, 64 * (y mod 4) + z] @ base64_bytes r"
| "base64_bytes [w, x, y] = [4 * w + x div 16, 16 * (x mod 16) + y div 4]"
| "base64_bytes [w, x] = [4 * w + x div 16]"
| "base64_bytes _ = []"

definition base64_decode :: "jstring \<Rightarrow> nat list option" where
  "base64_decode text =
     (if list_all (\<lambda>c. base64_value c \<noteq> None) text \<and> length text mod 4 \<noteq> 1
      then Some (base64_bytes (map (\<lambda>c. the (base64_value c)) text)) else None)"

lemma base64_unit_value [simp]: "n < 64 \<Longrightarrow> base64_value (base64_unit n) = Some n"
  by (auto simp: base64_unit_def base64_value_def)

lemma base64_reads_back: "list_all (\<lambda>b. b < 256) bs \<Longrightarrow> base64_decode (base64_encode bs) = Some bs"
proof -
  assume bs: "list_all (\<lambda>b. b < 256) bs"
  have byte: "a div 4 < 64" "16 * (a mod 4) < 64" "16 * (a mod 4) + b div 16 < 64" "4 * (b mod 16) < 64" "4 * (b mod 16) + b div 64 < 64"
    if "a < 256" "b < 256" for a b :: nat using that by auto
  have third: "4 * (b mod 16) + c div 64 < 64" "c mod 64 < 64" if "c < 256" for b c :: nat using that by auto
  have "list_all (\<lambda>c. base64_value c \<noteq> None) (base64_encode bs) \<and> length (base64_encode bs) mod 4 \<noteq> 1 \<and>
      base64_bytes (map (\<lambda>c. the (base64_value c)) (base64_encode bs)) = bs"
    using bs
  proof (induction bs rule: base64_encode.induct)
    case (1 a b c bs)
    have "(16 * (a mod 4) + b div 16) div 16 = a mod 4" "(16 * (a mod 4) + b div 16) mod 16 = b div 16"
      "(4 * (b mod 16) + c div 64) div 4 = b mod 16" "(4 * (b mod 16) + c div 64) mod 4 = c div 64"
      using 1(2) by auto
    with 1 byte third show ?case by auto
  next
    case (2 a b)
    have "(16 * (a mod 4) + b div 16) div 16 = a mod 4" "(16 * (a mod 4) + b div 16) mod 16 = b div 16" using 2 by auto
    with 2 byte third show ?case by auto
  next
    case (3 a)
    with byte show ?case by auto
  qed auto
  then show ?thesis by (simp add: base64_decode_def)
qed

section \<open>Instants\<close>

text \<open>The pattern of the encoding: a \<open>T\<close>, at most nine digits of a fraction, an offset within a day.\<close>

definition rfc3339_text :: "jstring \<Rightarrow> bool" where
  "rfc3339_text text =
     (case RFC_3339 text of
        None \<Rightarrow> False
      | Some (_, fraction, offset) \<Rightarrow>
          at_index text 10 \<in> {Some 84, Some 116} \<and>
          (case fraction of None \<Rightarrow> True | Some ds \<Rightarrow> length ds \<le> 9) \<and>
          (case offset of None \<Rightarrow> True | Some (_, hours, minutes) \<Rightarrow> hours \<le> 23 \<and> minutes \<le> 59))"

definition rfc3339_decode :: "jstring \<Rightarrow> cel_timestamp option" where
  "rfc3339_decode text =
     (if rfc3339_text text then (case parseTimestamp text of Inl _ \<Rightarrow> None | Inr t \<Rightarrow> Some t) else None)"

lemma formatTimestamp_separator:
  assumes "timestamp_ok t"
  shows "at_index (formatTimestamp t) 10 = Some 84"
proof -
  define f where "f = utcFields (ts_seconds t)"
  note ranges = utcFields_ranges [of "ts_seconds t", folded f_def] year_range [OF assms, folded f_def]
  have date: "1 \<le> f_month f" "f_month f \<le> 12" "1 \<le> f_day f" "f_day f \<le> daysInMonth (f_year f) (f_month f)"
    using ranges(1) by (auto simp: valid_date_def)
  have day: "f_day f \<le> 31"
    using date by (cases rule: month_cases [OF date(1,2)]) (auto simp: daysInMonth_def MONTH_DAYS_def split: if_splits)
  let ?p = "pad (nat (f_year f)) 4 @ [45] @ pad (nat (f_month f)) 2 @ [45] @ pad (nat (f_day f)) 2"
  have "length ?p = 10" using pad_length [of "nat (f_year f)" 4] pad_length [of "nat (f_month f)" 2] pad_length [of "nat (f_day f)" 2]
      ranges date day by auto
  moreover obtain rest where "formatTimestamp t = ?p @ 84 # rest"
    by (simp add: formatTimestamp_def Let_def f_def [symmetric])
  ultimately have "at_index (formatTimestamp t) (10 + 0) = at_index (84 # rest) 0" by (metis at_index_append)
  then show ?thesis by (simp add: at_index_def)
qed

lemma rfc3339_reads_back:
  assumes "timestamp_ok t"
  shows "rfc3339_decode (formatTimestamp t) = Some t"
proof -
  obtain fr where fr: "RFC_3339 (formatTimestamp t) = Some (utcFields (ts_seconds t), fr, None)" "\<And>ds. fr = Some ds \<Longrightarrow> length ds \<le> 9"
    using formatTimestamp_fields [OF assms] by metis
  then have "rfc3339_text (formatTimestamp t)"
    using formatTimestamp_separator [OF assms] by (simp add: rfc3339_text_def split: option.split)
  then show ?thesis using formatTimestamp_reads_back [OF assms] by (simp add: rfc3339_decode_def)
qed

text \<open>What an earlier writer wrote: three digits of a fraction, always.\<close>

definition millis_text :: "jstring \<Rightarrow> bool" where
  "millis_text text =
     (case RFC_3339 text of
        Some (_, Some ds, None) \<Rightarrow> length ds = 3 \<and> at_index text 10 = Some 84 \<and> last text = 90
      | _ \<Rightarrow> False)"

definition millis_decode :: "jstring \<Rightarrow> cel_timestamp option" where
  "millis_decode text = (if millis_text text then rfc3339_decode text else None)"

definition millis_encode :: "cel_timestamp \<Rightarrow> jstring" where
  "millis_encode t = butlast (formatTimestamp (Timestamp (ts_seconds t) 0)) @ 46 # pad (nat (ts_nanos t) div 1000000) 3 @ [90]"

section \<open>Durations\<close>

definition MAX_DURATION_SECONDS :: int where
  "MAX_DURATION_SECONDS = 315576000000"

definition duration_decode :: "jstring \<Rightarrow> cel_duration option" where
  "duration_decode text =
     (case durationNanosFromText text of
        Inl _ \<Rightarrow> None
      | Inr amount \<Rightarrow>
          (let seconds = trunc_div amount NANOS_PER_SECOND
           in if \<bar>seconds\<bar> > MAX_DURATION_SECONDS then None
              else Some (Duration seconds (trunc_mod amount NANOS_PER_SECOND))))"

definition duration_encode :: "cel_duration \<Rightarrow> jstring" where
  "duration_encode d =
     (let amount = d_seconds d * NANOS_PER_SECOND + d_nanos d;
          magnitude = nat \<bar>amount\<bar>
      in (if amount < 0 then [45] else []) @ digits_of (magnitude div 1000000000) @
         fraction_text (magnitude mod 1000000000) @ [115])"

text \<open>The same span, with seconds and nanoseconds of one sign.\<close>

definition whole_seconds :: "cel_duration \<Rightarrow> cel_duration" where
  "whole_seconds d = Duration (trunc_div (durationNanos d) NANOS_PER_SECOND) (trunc_mod (durationNanos d) NANOS_PER_SECOND)"

lemma duration_encode_format: "duration_encode d = formatDuration d"
  by (simp add: duration_encode_def formatDuration_def durationNanos_def)

lemma whole_seconds_nanos [simp]: "durationNanos (whole_seconds d) = durationNanos d"
  using trunc_div_mod [of "durationNanos d" NANOS_PER_SECOND] by (simp add: whole_seconds_def durationNanos_def)

lemma whole_seconds_text: "duration_encode (whole_seconds d) = duration_encode d"
  unfolding duration_encode_format formatDuration_def whole_seconds_nanos ..

lemma duration_reads_back:
  assumes "\<bar>trunc_div (durationNanos d) NANOS_PER_SECOND\<bar> \<le> MAX_DURATION_SECONDS"
  shows "duration_decode (duration_encode d) = Some (whole_seconds d)"
  using assms formatDuration_reads_back [of d]
  by (simp add: duration_decode_def duration_encode_format whole_seconds_def)

end
