(* ===== verification/Json_Text.thy ===== *)
theory Json_Text
  imports Js_Object
begin

text \<open>
  \<open>JSON.stringify\<close> and \<open>JSON.parse\<close> of the host, as the sources use them: without white space on
  the way out, with every form of the grammar on the way in. A tree keeps the members of an object as the
  text has them, repeated names included; \<open>host_tree\<close> makes of it the objects the host answers.
\<close>

datatype json =
    JNull
  | JBool bool
  | JNumber double
  | JString jstring
  | JArray "json list"
  | JObject "(jstring \<times> json) list"

section \<open>Writing\<close>

definition hex_digit :: "nat \<Rightarrow> code_unit" where
  "hex_digit n = (if n < 10 then 48 + n else 87 + n)"

text \<open>Strings without an unpaired surrogate; the host escapes those as well.\<close>

definition json_escape :: "code_unit \<Rightarrow> jstring" where
  "json_escape c =
     (if c = 34 \<or> c = 92 then [92, c]
      else if c = 8 then [92, 98] else if c = 9 then [92, 116] else if c = 10 then [92, 110]
      else if c = 12 then [92, 102] else if c = 13 then [92, 114]
      else if c < 32 then [92, 117, 48, 48, hex_digit (c div 16), hex_digit (c mod 16)]
      else [c])"

definition json_quote :: "jstring \<Rightarrow> jstring" where
  "json_quote s = 34 # concat (map json_escape s) @ [34]"

fun json_text :: "json \<Rightarrow> jstring" where
  "json_text JNull = js ''null''"
| "json_text (JBool b) = (if b then js ''true'' else js ''false'')"
| "json_text (JNumber d) = string_of_double d"
| "json_text (JString s) = json_quote s"
| "json_text (JArray xs) = 91 # join_with 44 (map json_text xs) @ [93]"
| "json_text (JObject ms) = 123 # join_with 44 (map (\<lambda>m. json_quote (fst m) @ 58 # json_text (snd m)) ms) @ [125]"

section \<open>Reading\<close>

definition json_space :: "code_unit \<Rightarrow> bool" where
  "json_space c \<longleftrightarrow> c = 32 \<or> c = 9 \<or> c = 10 \<or> c = 13"

definition json_skip :: "jstring \<Rightarrow> jstring" where
  "json_skip t = dropWhile json_space t"

definition hex_value :: "code_unit \<Rightarrow> nat option" where
  "hex_value c =
     (if 48 \<le> c \<and> c \<le> 57 then Some (c - 48) else if 97 \<le> c \<and> c \<le> 102 then Some (c - 87)
      else if 65 \<le> c \<and> c \<le> 70 then Some (c - 55) else None)"

fun hex_four :: "jstring \<Rightarrow> (code_unit \<times> jstring) option" where
  "hex_four (a # b # c # d # r) =
     (case (hex_value a, hex_value b, hex_value c, hex_value d) of
        (Some w, Some x, Some y, Some z) \<Rightarrow> Some (4096 * w + 256 * x + 16 * y + z, r)
      | _ \<Rightarrow> None)"
| "hex_four _ = None"

lemma hex_four_shorter: "hex_four t = Some (u, r) \<Longrightarrow> length r < length t"
  by (cases t rule: hex_four.cases) (auto split: option.splits)

definition json_simple_escape :: "code_unit \<Rightarrow> code_unit option" where
  "json_simple_escape c =
     (if c = 34 \<or> c = 92 \<or> c = 47 then Some c
      else if c = 98 then Some 8 else if c = 116 then Some 9 else if c = 110 then Some 10
      else if c = 102 then Some 12 else if c = 114 then Some 13 else None)"

text \<open>What follows an opening quote.\<close>

function json_chars :: "jstring \<Rightarrow> (jstring \<times> jstring) option" where
  "json_chars [] = None"
| "json_chars (c # cs) =
     (if c = 34 then Some ([], cs)
      else if c = 92 then
        (case cs of
           [] \<Rightarrow> None
         | e # r \<Rightarrow>
             (case (if e = 117 then hex_four r else map_option (\<lambda>u. (u, r)) (json_simple_escape e)) of
                None \<Rightarrow> None
              | Some (u, r') \<Rightarrow> map_option (\<lambda>(s, q). (u # s, q)) (json_chars r')))
      else if c < 32 then None
      else map_option (\<lambda>(s, q). (c # s, q)) (json_chars cs))"
  by pat_completeness auto
termination by (relation "measure length") (auto split: if_splits dest: hex_four_shorter)

text \<open>What follows an unsigned literal of the number grammar: no leading zero, digits in every part.\<close>

definition json_exponent_end :: "jstring \<Rightarrow> jstring option" where
  "json_exponent_end t =
     (if t \<noteq> [] \<and> (hd t = 101 \<or> hd t = 69) then
        (let t' = (if tl t \<noteq> [] \<and> (hd (tl t) = 43 \<or> hd (tl t) = 45) then tl (tl t) else tl t)
         in if fst (span_digits t') = [] then None else Some (snd (span_digits t')))
      else Some t)"

definition json_number_end :: "jstring \<Rightarrow> jstring option" where
  "json_number_end t =
     (let (whole, t') = span_digits t
      in if whole = [] \<or> (hd whole = 48 \<and> whole \<noteq> [48]) then None
         else if t' \<noteq> [] \<and> hd t' = 46 then
           (let (fraction, t'') = span_digits (tl t') in if fraction = [] then None else json_exponent_end t'')
         else json_exponent_end t')"

definition json_number :: "jstring \<Rightarrow> (double \<times> jstring) option" where
  "json_number t =
     (let negative = (t \<noteq> [] \<and> hd t = 45);
          t' = (if negative then tl t else t)
      in map_option (\<lambda>r. let d = number_of_text (take (length t' - length r) t')
           in (if negative then double_neg d else d, r)) (json_number_end t'))"

definition json_close :: "code_unit \<Rightarrow> jstring \<Rightarrow> jstring option" where
  "json_close c t = (case json_skip t of [] \<Rightarrow> None | x # r \<Rightarrow> if x = c then Some r else None)"

lemma json_close_shorter: "json_close c t = Some r \<Longrightarrow> length r < length t"
  using length_dropWhile_le [of json_space t] by (auto simp: json_close_def json_skip_def split: list.splits if_splits)

lemma json_chars_shorter: "json_chars t = Some (s, r) \<Longrightarrow> length r < length t"
proof (induction t arbitrary: s r rule: json_chars.induct)
  case (2 c cs)
  then show ?case by (fastforce split: if_splits list.splits option.splits dest: hex_four_shorter)
qed simp

lemma json_skip_shorter: "json_skip t = c # cs \<Longrightarrow> length cs < length t"
  using length_dropWhile_le [of json_space t] by (auto simp: json_skip_def)

text \<open>Nothing read gives back more than it was given, which the recursion over the rest of a list relies on.\<close>

function json_value :: "jstring \<Rightarrow> (json \<times> jstring) option"
  and json_elements :: "jstring \<Rightarrow> (json list \<times> jstring) option"
  and json_members :: "jstring \<Rightarrow> ((jstring \<times> json) list \<times> jstring) option" where
  "json_value t =
     (case json_skip t of
        [] \<Rightarrow> None
      | c # cs \<Rightarrow>
          if c = 34 then map_option (\<lambda>(s, r). (JString s, r)) (json_chars cs)
          else if c = 91 then
            (case json_close 93 cs of
               Some r \<Rightarrow> Some (JArray [], r)
             | None \<Rightarrow> map_option (\<lambda>(xs, r). (JArray xs, r)) (json_elements cs))
          else if c = 123 then
            (case json_close 125 cs of
               Some r \<Rightarrow> Some (JObject [], r)
             | None \<Rightarrow> map_option (\<lambda>(ms, r). (JObject ms, r)) (json_members cs))
          else if starts_with (c # cs) (js ''null'') then Some (JNull, drop 4 (c # cs))
          else if starts_with (c # cs) (js ''true'') then Some (JBool True, drop 4 (c # cs))
          else if starts_with (c # cs) (js ''false'') then Some (JBool False, drop 5 (c # cs))
          else map_option (\<lambda>(d, r). (JNumber d, r)) (json_number (c # cs)))"
| "json_elements t =
     (case json_value t of
        None \<Rightarrow> None
      | Some (v, r) \<Rightarrow>
          if length t < length r then None
          else (case json_close 93 r of
              Some r' \<Rightarrow> Some ([v], r')
            | None \<Rightarrow>
                (case json_close 44 r of
                   None \<Rightarrow> None
                 | Some r' \<Rightarrow> map_option (\<lambda>(vs, q). (v # vs, q)) (json_elements r'))))"
| "json_members t =
     (case json_close 34 t of
        None \<Rightarrow> None
      | Some t1 \<Rightarrow>
          (case json_chars t1 of
             None \<Rightarrow> None
           | Some (name, t2) \<Rightarrow>
               (case json_close 58 t2 of
                  None \<Rightarrow> None
                | Some t3 \<Rightarrow>
                    (case json_value t3 of
                       None \<Rightarrow> None
                     | Some (v, r) \<Rightarrow>
                         if length t3 < length r then None
                         else (case json_close 125 r of
                             Some r' \<Rightarrow> Some ([(name, v)], r')
                           | None \<Rightarrow>
                               (case json_close 44 r of
                                  None \<Rightarrow> None
                                | Some r' \<Rightarrow> map_option (\<lambda>(ms, q). ((name, v) # ms, q)) (json_members r')))))))"
  by pat_completeness auto
termination
  by (relation "measure (\<lambda>x. case x of Inl t \<Rightarrow> 2 * length t | Inr (Inl t) \<Rightarrow> 2 * length t + 1 | Inr (Inr t) \<Rightarrow> 2 * length t + 1)")
    (auto dest!: json_close_shorter json_chars_shorter json_skip_shorter)

declare json_value.simps [simp del] json_elements.simps [simp del] json_members.simps [simp del]

definition json_read :: "jstring \<Rightarrow> json option" where
  "json_read t = (case json_value t of Some (j, r) \<Rightarrow> (if json_skip r = [] then Some j else None) | None \<Rightarrow> None)"

fun host_tree :: "json \<Rightarrow> json" where
  "host_tree (JArray xs) = JArray (map host_tree xs)"
| "host_tree (JObject ms) = JObject (host_members (map (\<lambda>m. (fst m, host_tree (snd m))) ms))"
| "host_tree j = j"

section \<open>What is written reads back\<close>

lemma json_escape_reads: "json_chars (json_escape c @ t) = map_option (\<lambda>(s, q). (c # s, q)) (json_chars t)"
proof (cases "c = 34 \<or> c = 92 \<or> c \<in> {8, 9, 10, 12, 13} \<or> \<not> c < 32")
  case True
  then show ?thesis by (auto simp: json_escape_def json_simple_escape_def)
next
  case False
  have h: "hex_value (hex_digit n) = Some n" if "n < 16" for n
    using that by (auto simp: hex_value_def hex_digit_def)
  have zero: "hex_value 48 = Some 0" by (simp add: hex_value_def)
  have "c < 32" using False by simp
  then have "c div 16 < 16" "c mod 16 < 16" by auto
  then show ?thesis using False h zero by (simp add: json_escape_def)
qed

lemma json_quote_reads: "json_chars (concat (map json_escape s) @ 34 # t) = Some (s, t)"
  by (induction s) (simp_all add: json_escape_reads)

text \<open>What can come after a value.\<close>

definition json_follow :: "jstring \<Rightarrow> bool" where
  "json_follow t \<longleftrightarrow> t = [] \<or> hd t \<in> {44, 93, 125}"


lemma json_follow_digit: "json_follow t \<Longrightarrow> t = [] \<or> \<not> isDigit (hd t)"
  by (auto simp: json_follow_def isDigit_def)

lemma exponent_text_span:
  assumes "json_follow r"
  shows "span_digits (digits_of n @ r) = (digits_of n, r)"
  by (rule span_digits_append [OF digits_of_digits json_follow_digit [OF assms]])

lemma json_number_unsigned:
  assumes ws: "digit_text ws" "leading ws" and r: "json_follow r" and shape: "t = ws \<or>
    (\<exists>fs. digit_text fs \<and> t = ws @ 46 # fs) \<or> (\<exists>e. t = ws @ exponent_text e) \<or>
    (\<exists>fs e. digit_text fs \<and> t = ws @ 46 # fs @ exponent_text e)"
  shows "json_number (t @ r) = Some (number_of_text t, r)"
proof -
  obtain c cs where c: "ws = c # cs" "isDigit c" using ws(1) by (cases ws) (auto simp: digit_text_def)
  then have first: "c \<noteq> 45" by (auto simp: isDigit_def)
  have span: "span_digits (ws @ u) = (ws, u)" if "u = [] \<or> \<not> isDigit (hd u)" for u
    using ws(1) that by (auto simp: digit_text_def intro!: span_digits_append)
  have lead: "\<not> (hd ws = 48 \<and> ws \<noteq> [48])" using ws(2) by (auto simp: leading_def)
  have stop: "r = [] \<or> hd r = 44 \<or> hd r = 93 \<or> hd r = 125" using r by (auto simp: json_follow_def)
  have marks: "\<not> isDigit 46" "\<not> isDigit 101" by (simp_all add: isDigit_def)
  have expo: "span_digits (digits_of n @ r) = (digits_of n, r)" for n using exponent_text_span [OF r] .
  have ends: "json_exponent_end r = Some r" using stop by (auto simp: json_exponent_end_def)
  have ends_exponent: "json_exponent_end (exponent_text e @ r) = Some r" for e
    using expo by (simp add: json_exponent_end_def exponent_text_def)
  have "json_number_end (t @ r) = Some r"
    using shape
  proof (elim disjE exE conjE)
    assume "t = ws"
    then show ?thesis using span [of r] json_follow_digit [OF r] lead stop c ends by (auto simp: json_number_end_def)
  next
    fix fs assume t: "digit_text fs" "t = ws @ 46 # fs"
    have "span_digits (fs @ r) = (fs, r)" using t(1) json_follow_digit [OF r] by (simp add: digit_text_def span_digits_append)
    then show ?thesis using span [of "46 # fs @ r"] t marks lead c ends by (simp add: json_number_end_def digit_text_def)
  next
    fix e assume "t = ws @ exponent_text e"
    then show ?thesis using span [of "exponent_text e @ r"] marks lead c ends_exponent [of e]
      by (simp add: json_number_end_def exponent_text_def)
  next
    fix fs e assume t: "digit_text fs" "t = ws @ 46 # fs @ exponent_text e"
    have "span_digits (fs @ exponent_text e @ r) = (fs, exponent_text e @ r)"
      using t(1) marks by (simp add: digit_text_def span_digits_append exponent_text_def)
    then show ?thesis using span [of "46 # fs @ exponent_text e @ r"] t marks lead c ends_exponent [of e]
      by (simp add: json_number_end_def digit_text_def)
  qed
  moreover have "t @ r \<noteq> [] \<and> hd (t @ r) \<noteq> 45" using shape c first by auto
  ultimately show ?thesis by (simp add: json_number_def Let_def)
qed

lemma json_number_minus: "t \<noteq> [] \<Longrightarrow> hd t \<noteq> 45 \<Longrightarrow> json_number (45 # t) = map_option (\<lambda>(d, r). (double_neg d, r)) (json_number t)"
  by (simp add: json_number_def Let_def option.map_comp o_def)

lemma finite_text_shape:
  assumes "double_canonical m e"
  obtains ws where "digit_text ws" "leading ws" "finite_text m e = ws \<or> (\<exists>fs. digit_text fs \<and> finite_text m e = ws @ 46 # fs) \<or>
    (\<exists>x. finite_text m e = ws @ exponent_text x) \<or> (\<exists>fs x. digit_text fs \<and> finite_text m e = ws @ 46 # fs @ exponent_text x)"
proof (cases "m = 0")
  case True
  then have "finite_text m e = [48]" "digit_text [48]" "leading [48]" by (simp_all add: finite_text_def digit_text_def isDigit_def leading_def)
  then show ?thesis using that by blast
next
  case False
  then obtain ds n where ds: "list_all isDigit ds" "ds \<noteq> []" "hd ds \<noteq> 48" "finite_text m e = format_digits ds n"
    using finite_text_format [OF assms] by blast
  from format_digits_shape [OF ds(1-3), of n] that show ?thesis unfolding ds(4) by blast
qed

lemma finite_number_reads:
  assumes "double_canonical m e" "json_follow r"
  shows "json_number (finite_text m e @ r) = Some (Finite False m e, r)"
proof -
  obtain ws where ws: "digit_text ws" "leading ws" "finite_text m e = ws \<or> (\<exists>fs. digit_text fs \<and> finite_text m e = ws @ 46 # fs) \<or>
    (\<exists>x. finite_text m e = ws @ exponent_text x) \<or> (\<exists>fs x. digit_text fs \<and> finite_text m e = ws @ 46 # fs @ exponent_text x)"
    using finite_text_shape [OF assms(1)] by blast
  have "number_of_text (finite_text m e) = Finite False m e"
  proof (cases "m = 0")
    case True
    then have "e = -1074" using assms(1) by (auto simp: double_canonical_def)
    with True show ?thesis by (simp add: finite_text_def number_of_0)
  qed (simp add: finite_text_reads_back assms(1))
  with json_number_unsigned [OF ws(1,2) assms(2) ws(3)] show ?thesis by simp
qed

text \<open>A number JSON can carry: finite, and not a negative zero.\<close>

fun json_double :: "double \<Rightarrow> bool" where
  "json_double (Finite s m e) = (double_canonical m e \<and> \<not> (s \<and> m = 0))"
| "json_double _ = False"

fun json_ok :: "json \<Rightarrow> bool" where
  "json_ok (JNumber d) = json_double d"
| "json_ok (JArray xs) = (\<forall>x \<in> set xs. json_ok x)"
| "json_ok (JObject ms) = (\<forall>m \<in> set ms. json_ok (snd m))"
| "json_ok _ = True"

lemma finite_text_first:
  assumes "double_canonical m e"
  shows "finite_text m e \<noteq> []" "isDigit (hd (finite_text m e))"
proof -
  obtain ws t where "digit_text ws" "finite_text m e = ws @ t" using finite_text_shape [OF assms] by (metis append_Nil2)
  then show "finite_text m e \<noteq> []" "isDigit (hd (finite_text m e))" by (cases ws; simp add: digit_text_def)+
qed

lemma json_number_reads:
  assumes "json_double d" "json_follow r"
  shows "json_number (string_of_double d @ r) = Some (d, r)"
proof (cases d)
  case (Finite s m e)
  then have can: "double_canonical m e" using assms(1) by simp
  note first = finite_text_first [OF can]
  then have "hd (finite_text m e @ r) \<noteq> 45" by (cases "finite_text m e") (auto simp: isDigit_def)
  with Finite assms first finite_number_reads [OF can assms(2)] show ?thesis
    by (cases s) (auto simp: json_number_minus)
qed (use assms(1) in simp_all)

lemma json_skip_plain [simp]: "\<not> json_space c \<Longrightarrow> json_skip (c # t) = c # t"
  by (simp add: json_skip_def)

lemma json_close_plain [simp]: "\<not> json_space c \<Longrightarrow> json_close x (c # t) = (if c = x then Some t else None)"
  by (simp add: json_close_def)

lemma json_space_marks [simp]: "\<not> json_space 34" "\<not> json_space 44" "\<not> json_space 58" "\<not> json_space 91" "\<not> json_space 93"
  "\<not> json_space 123" "\<not> json_space 125" "\<not> json_space 110" "\<not> json_space 116" "\<not> json_space 102" "\<not> json_space 45"
  by (simp_all add: json_space_def)

lemma json_text_first: "json_ok j \<Longrightarrow> \<exists>c t. json_text j = c # t \<and> \<not> json_space c \<and> c \<noteq> 93"
proof (cases j)
  case (JNumber d)
  assume "json_ok j"
  then obtain s m e where d: "d = Finite s m e" "double_canonical m e" using JNumber by (cases d) auto
  have digit: "isDigit c \<Longrightarrow> \<not> json_space c \<and> c \<noteq> 93" for c by (auto simp: isDigit_def json_space_def)
  show ?thesis using finite_text_first [OF d(2)] digit by (cases "finite_text m e") (auto simp: JNumber d(1))
qed (auto simp: json_quote_def)

text \<open>Reading a value back, whatever may come after it.\<close>

definition json_reads :: "json \<Rightarrow> bool" where
  "json_reads j \<longleftrightarrow> (\<forall>t. json_follow t \<longrightarrow> json_value (json_text j @ t) = Some (j, t))"

lemma json_readsD: "json_reads j \<Longrightarrow> json_follow t \<Longrightarrow> json_value (json_text j @ t) = Some (j, t)"
  by (simp add: json_reads_def)

lemma join_with_Cons: "ps \<noteq> [] \<Longrightarrow> join_with sep (p # ps) = p @ sep # join_with sep ps"
  by (cases ps) (simp_all add: join_with_def)

lemma join_with_single [simp]: "join_with sep [p] = p"
  by (simp add: join_with_def)

lemma json_elements_read:
  assumes "xs \<noteq> []" "\<forall>x \<in> set xs. json_reads x"
  shows "json_elements (join_with 44 (map json_text xs) @ 93 # t) = Some (xs, t)"
  using assms
proof (induction xs)
  case (Cons x xs)
  note x = json_readsD [of x]
  show ?case
  proof (cases "xs = []")
    case True
    then show ?thesis using Cons.prems x [of "93 # t"] by (simp add: json_elements.simps json_follow_def)
  next
    case False
    let ?r = "44 # join_with 44 (map json_text xs) @ 93 # t"
    have "json_value (json_text x @ ?r) = Some (x, ?r)" using Cons.prems x by (simp add: json_follow_def)
    then show ?thesis using False Cons by (simp add: join_with_Cons json_elements.simps [of "json_text x @ ?r"])
  qed
qed simp

abbreviation member_text :: "jstring \<times> json \<Rightarrow> jstring" where
  "member_text m \<equiv> json_quote (fst m) @ 58 # json_text (snd m)"

lemma json_members_first:
  assumes "json_reads (snd m)" "json_follow r"
  shows "json_members (member_text m @ r) =
    (case json_close 125 r of
       Some r' \<Rightarrow> Some ([m], r')
     | None \<Rightarrow> (case json_close 44 r of None \<Rightarrow> None | Some r' \<Rightarrow> map_option (\<lambda>(ms, q). (m # ms, q)) (json_members r')))"
proof -
  have "member_text m @ r = 34 # concat (map json_escape (fst m)) @ 34 # 58 # json_text (snd m) @ r"
    by (simp add: json_quote_def)
  then show ?thesis using json_quote_reads [of "fst m"] json_readsD [OF assms]
    by (cases m) (simp add: json_members.simps [of "34 # x" for x] split: option.split)
qed

lemma json_members_read:
  assumes "ms \<noteq> []" "\<forall>m \<in> set ms. json_reads (snd m)"
  shows "json_members (join_with 44 (map member_text ms) @ 125 # t) = Some (ms, t)"
  using assms
proof (induction ms)
  case (Cons m ms)
  then have m: "json_reads (snd m)" by simp
  show ?case
  proof (cases "ms = []")
    case True
    then show ?thesis using json_members_first [OF m, of "125 # t"] by (simp add: json_follow_def)
  next
    case False
    let ?r = "44 # join_with 44 (map member_text ms) @ 125 # t"
    show ?thesis using json_members_first [OF m, of ?r] False Cons by (simp add: join_with_Cons json_follow_def)
  qed
qed simp

lemma json_text_reads: "json_ok j \<Longrightarrow> json_reads j"
proof (induction j)
  case (JNumber d)
  show ?case unfolding json_reads_def
  proof (intro allI impI)
    fix t assume t: "json_follow t"
    obtain c cs where c: "json_text (JNumber d) = c # cs" "\<not> json_space c" using json_text_first [OF JNumber] by blast
    obtain s m e where d: "d = Finite s m e" "double_canonical m e" using JNumber by (cases d) auto
    have "c = 45 \<or> isDigit c" using finite_text_first [OF d(2)] c(1) by (cases "finite_text m e") (auto simp: d split: if_splits)
    then have "c \<noteq> 34 \<and> c \<noteq> 91 \<and> c \<noteq> 123 \<and> c \<noteq> 110 \<and> c \<noteq> 116 \<and> c \<noteq> 102" by (auto simp: isDigit_def)
    then show "json_value (json_text (JNumber d) @ t) = Some (JNumber d, t)"
      using c json_number_reads [of d t] JNumber t by (simp add: json_value.simps starts_with_def)
  qed
next
  case (JArray xs)
  show ?case
  proof (cases "xs = []")
    case True
    then show ?thesis by (simp add: json_reads_def json_value.simps join_with_def)
  next
    case False
    obtain x xs' where x: "xs = x # xs'" using False by (cases xs) auto
    obtain c cs where c: "json_text x = c # cs" "\<not> json_space c" "c \<noteq> 93" using json_text_first [of x] JArray.prems x by auto
    have first: "json_close 93 (join_with 44 (map json_text xs) @ 93 # t) = None" for t
      using c by (cases xs') (simp_all add: x join_with_Cons)
    have "json_elements (join_with 44 (map json_text xs) @ 93 # t) = Some (xs, t)" for t
      by (rule json_elements_read [OF False]) (use JArray in simp)
    with first show ?thesis by (simp add: json_reads_def json_value.simps)
  qed
next
  case (JObject ms)
  show ?case
  proof (cases "ms = []")
    case True
    then show ?thesis by (simp add: json_reads_def json_value.simps join_with_def)
  next
    case False
    obtain m ms' where m: "ms = m # ms'" using False by (cases ms) auto
    have first: "json_close 125 (join_with 44 (map member_text ms) @ 125 # t) = None" for t
      by (cases ms') (simp_all add: m join_with_Cons json_quote_def)
    have "json_members (join_with 44 (map member_text ms) @ 125 # t) = Some (ms, t)" for t
      by (rule json_members_read [OF False]) (use JObject in \<open>auto simp: snds.simps\<close>)
    with first show ?thesis by (simp add: json_reads_def json_value.simps)
  qed
qed (auto simp: json_reads_def json_value.simps starts_with_def json_quote_def json_quote_reads)

lemma json_read_text: "json_ok j \<Longrightarrow> json_read (json_text j) = Some j"
  using json_readsD [OF json_text_reads, of j "[]"] by (simp add: json_read_def json_follow_def json_skip_def)

end
