(* ===== verification/Typed_Frame.thy ===== *)
theory Typed_Frame
  imports Plain_Encoding Json_Text Cel_Value
begin

text \<open>
  The typed frame (\<open>sdk/nodejs/src/typed-frame.ts\<close>): the one text form in which a value of the
  expression engine crosses a durable boundary. A value is written as a JSON tree and the tree as its text;
  a frame is read from the tree its text parses to. What the frame of a value type with members is, the text of
  a host object, is a codec the definitions take.
\<close>

section \<open>Writing\<close>

datatype frame_error = Unencodable "jstring list" | Undecodable "jstring list" | UnknownGeneration

text \<open>The value types that declare members: their names, the text of a value and the value of a text.\<close>

record members_codec =
  m_brands :: "jstring list"
  m_text :: "jstring \<Rightarrow> nat \<Rightarrow> jstring"
  m_value :: "jstring \<Rightarrow> jstring \<Rightarrow> nat option"

definition TYPED_FRAME_TAG :: jstring where
  "TYPED_FRAME_TAG = js ''$telo''"

definition DOMAIN_TAGS :: "jstring list" where
  "DOMAIN_TAGS = [js ''int'', js ''uint'', js ''double'', js ''bytes'', js ''google.protobuf.Timestamp'',
     js ''google.protobuf.Duration'', js ''map'']"

definition TYPED_FRAME_TAGS :: "members_codec \<Rightarrow> jstring list" where
  "TYPED_FRAME_TAGS cod = DOMAIN_TAGS @ m_brands cod"

text \<open>A surrogate that is not half of a pair.\<close>

fun lone_surrogate :: "jstring \<Rightarrow> bool" where
  "lone_surrogate [] = False"
| "lone_surrogate (c # cs) =
     (if 55296 \<le> c \<and> c < 56320 then
        (case cs of d # ds \<Rightarrow> \<not> (56320 \<le> d \<and> d < 57344) \<or> lone_surrogate ds | [] \<Rightarrow> True)
      else (56320 \<le> c \<and> c < 57344) \<or> lone_surrogate cs)"

definition int_text :: "int \<Rightarrow> jstring" where
  "int_text i = (if i < 0 then 45 # digits_of (nat (- i)) else digits_of (nat i))"

definition tagged :: "jstring \<Rightarrow> json \<Rightarrow> json" where
  "tagged tag payload = JObject [(TYPED_FRAME_TAG, JString tag), (js ''value'', payload)]"

definition writeFrameText :: "jstring list \<Rightarrow> jstring \<Rightarrow> frame_error + json" where
  "writeFrameText path s = (if lone_surrogate s then Inl (Unencodable path) else Inr (JString s))"

definition writeInt :: "jstring list \<Rightarrow> int \<Rightarrow> frame_error + json" where
  "writeInt path i = (if i < MIN_INT \<or> i > MAX_INT then Inl (Unencodable path) else Inr (tagged (js ''int'') (JString (int_text i))))"

fun write_double :: "double \<Rightarrow> json" where
  "write_double NaN = tagged (js ''double'') (JString (js ''NaN''))"
| "write_double (Infinity s) = tagged (js ''double'') (JString (if s then js ''-Infinity'' else js ''Infinity''))"
| "write_double (Finite s m e) =
     (if s \<and> m = 0 then tagged (js ''double'') (JString (js ''-0'')) else JNumber (Finite s m e))"

definition writeTimestamp :: "jstring list \<Rightarrow> cel_timestamp \<Rightarrow> frame_error + json" where
  "writeTimestamp path t =
     (if ts_nanos t < 0 \<or> ts_nanos t \<ge> NANOS_PER_SECOND \<or> rfc3339_decode (formatTimestamp t) = None
      then Inl (Unencodable path)
      else Inr (tagged (js ''google.protobuf.Timestamp'') (JString (formatTimestamp t))))"

definition writeDuration :: "jstring list \<Rightarrow> cel_duration \<Rightarrow> frame_error + json" where
  "writeDuration path d =
     (if \<bar>d_nanos d\<bar> > 9007199254740991 \<or> \<bar>d_seconds d * NANOS_PER_SECOND + d_nanos d\<bar> div NANOS_PER_SECOND > MAX_DURATION_SECONDS
      then Inl (Unencodable path)
      else Inr (tagged (js ''google.protobuf.Duration'') (JString (duration_encode d))))"

text \<open>Every value but a container; a value outside the domain is refused.\<close>

definition write_leaf :: "members_codec \<Rightarrow> jstring list \<Rightarrow> cel_value \<Rightarrow> frame_error + json" where
  "write_leaf cod path v =
     (case v of
        VNull \<Rightarrow> Inr JNull
      | VBool b \<Rightarrow> Inr (JBool b)
      | VString s \<Rightarrow> writeFrameText path s
      | VDouble d \<Rightarrow> Inr (write_double d)
      | VInt i \<Rightarrow> writeInt path i
      | VUint i \<Rightarrow> Inr (tagged (js ''uint'') (JString (int_text i)))
      | VBytes bs \<Rightarrow> Inr (tagged (js ''bytes'') (JString (base64_encode bs)))
      | VTimestamp t \<Rightarrow> writeTimestamp path t
      | VDuration d \<Rightarrow> writeDuration path d
      | VHost brand n \<Rightarrow>
          (if brand \<in> set (m_brands cod) then map_sum id (tagged brand) (writeFrameText path (m_text cod brand n))
           else Inl (Unencodable path))
      | _ \<Rightarrow> Inl (Unencodable path))"

definition writeMapKey :: "jstring list \<Rightarrow> cel_value \<Rightarrow> frame_error + json" where
  "writeMapKey path key =
     (case key of
        VString s \<Rightarrow> writeFrameText path s
      | VBool b \<Rightarrow> Inr (JBool b)
      | VInt i \<Rightarrow> writeInt path i
      | VUint i \<Rightarrow> Inr (tagged (js ''uint'') (JString (int_text i)))
      | _ \<Rightarrow> Inl (Unencodable path))"

fun frameKey :: "cel_value \<Rightarrow> map_key option" where
  "frameKey (VString s) = Some (KeyText s)"
| "frameKey (VBool b) = Some (KeyBool b)"
| "frameKey (VInt i) = Some (KeyNumber i)"
| "frameKey (VUint i) = Some (KeyNumber i)"
| "frameKey _ = None"

text \<open>\<open>String(key)\<close>, the step a key adds to a path.\<close>

fun key_step :: "cel_value \<Rightarrow> jstring" where
  "key_step (VString s) = s"
| "key_step (VBool b) = (if b then js ''true'' else js ''false'')"
| "key_step (VInt i) = int_text i"
| "key_step _ = js ''[object Object]''"

fun plain_key :: "cel_value \<Rightarrow> bool" where
  "plain_key (VString s) = (s \<noteq> TYPED_FRAME_TAG)"
| "plain_key _ = False"

fun key_name :: "cel_value \<Rightarrow> jstring" where
  "key_name (VString s) = s"
| "key_name _ = []"

text \<open>The pairs in the order of the key's own code units, or of its text when the map is tagged.\<close>

definition frame_map :: "(cel_value \<times> json \<times> json) list \<Rightarrow> json" where
  "frame_map pairs =
     (if list_all (\<lambda>(key, _). plain_key key) pairs
      then JObject (map (\<lambda>(key, _, v). (key_name key, v)) (sort_key (\<lambda>(key, _). key_name key) pairs))
      else tagged (js ''map'') (JArray (map (\<lambda>(_, k, v). JArray [k, v]) (sort_key (\<lambda>(_, k, _). json_text k) pairs))))"

fun frame_entries :: "cel_value \<Rightarrow> (cel_value \<times> cel_value) list option" where
  "frame_entries (VMap es) = Some (map snd es)"
| "frame_entries (VRecord ms) = Some (map (\<lambda>m. (VString (fst m), snd m)) ms)"
| "frame_entries _ = None"

definition entries_size :: "(cel_value \<times> cel_value) list \<Rightarrow> nat" where
  "entries_size es = size_list (\<lambda>e. size (snd e)) es"

lemma entries_size_simps [simp]: "entries_size [] = 0" "entries_size (e # es) = Suc (size (snd e) + entries_size es)"
  by (simp_all add: entries_size_def)

lemma frame_entries_size: "frame_entries v = Some es \<Longrightarrow> entries_size es < size v"
proof (cases v)
  case (VMap ms)
  have "entries_size (map snd ms) \<le> size_list (size_prod (\<lambda>_. 0) (size_prod size size)) ms"
    by (induction ms) (auto simp: size_prod_def split: prod.splits)
  then show "frame_entries v = Some es \<Longrightarrow> entries_size es < size v" by (auto simp: VMap)
next
  case (VRecord ms)
  have "entries_size (map (\<lambda>m. (VString (fst m), snd m)) ms) \<le> size_list (size_prod (\<lambda>_. 0) size) ms"
    by (induction ms) (auto simp: size_prod_def split: prod.splits)
  then show "frame_entries v = Some es \<Longrightarrow> entries_size es < size v" by (auto simp: VRecord)
qed simp_all

function write_value :: "members_codec \<Rightarrow> jstring list \<Rightarrow> cel_value \<Rightarrow> frame_error + json"
  and write_list :: "members_codec \<Rightarrow> jstring list \<Rightarrow> nat \<Rightarrow> cel_value list \<Rightarrow> frame_error + json list"
  and write_entries :: "members_codec \<Rightarrow> jstring list \<Rightarrow> map_key list \<Rightarrow> (cel_value \<times> cel_value) list \<Rightarrow>
    frame_error + (cel_value \<times> json \<times> json) list" where
  "write_value cod path v =
     (case frame_entries v of
        Some es \<Rightarrow> map_sum id frame_map (write_entries cod path [] es)
      | None \<Rightarrow> (case v of VList vs \<Rightarrow> map_sum id JArray (write_list cod path 0 vs) | _ \<Rightarrow> write_leaf cod path v))"
| "write_list cod path i [] = Inr []"
| "write_list cod path i (v # vs) =
     (case write_value cod (path @ [digits_of i]) v of
        Inl e \<Rightarrow> Inl e
      | Inr j \<Rightarrow> map_sum id (Cons j) (write_list cod path (Suc i) vs))"
| "write_entries cod path seen [] = Inr []"
| "write_entries cod path seen ((key, v) # es) =
     (case (writeMapKey path key, frameKey key) of
        (Inl e, _) \<Rightarrow> Inl e
      | (Inr k, None) \<Rightarrow> Inl (Unencodable path)
      | (Inr k, Some identity) \<Rightarrow>
          if identity \<in> set seen then Inl (Unencodable path)
          else (case write_value cod (path @ [key_step key]) v of
              Inl e \<Rightarrow> Inl e
            | Inr j \<Rightarrow> map_sum id (Cons (key, k, j)) (write_entries cod path (identity # seen) es)))"
  by pat_completeness auto
termination
  by (relation "measure (\<lambda>x. case x of Inl (_, _, v) \<Rightarrow> 2 * size v | Inr (Inl (_, _, _, vs)) \<Rightarrow> 2 * size_list size vs + 1
      | Inr (Inr (_, _, _, es)) \<Rightarrow> 2 * entries_size es + 1)")
    (auto dest!: frame_entries_size simp del: frame_entries.simps)

declare write_value.simps [simp del]

definition encodeTypedFrame :: "members_codec \<Rightarrow> cel_value \<Rightarrow> frame_error + jstring" where
  "encodeTypedFrame cod v = map_sum id json_text (write_value cod [] v)"

section \<open>Reading\<close>

text \<open>A key as a step of a path: an unpaired surrogate becomes the replacement character.\<close>

fun keySegment :: "jstring \<Rightarrow> jstring" where
  "keySegment [] = []"
| "keySegment (c # cs) =
     (if 55296 \<le> c \<and> c < 56320 then
        (case cs of
           d # ds \<Rightarrow> (if 56320 \<le> d \<and> d < 57344 then c # d # keySegment ds else 65533 # keySegment cs)
         | [] \<Rightarrow> [65533])
      else (if 56320 \<le> c \<and> c < 57344 then 65533 else c) # keySegment cs)"

text \<open>The first member, in text order, whose name its object already carries.\<close>

fun repeatedMember :: "jstring list \<Rightarrow> json \<Rightarrow> jstring list option"
  and repeated_items :: "jstring list \<Rightarrow> nat \<Rightarrow> json list \<Rightarrow> jstring list option"
  and repeated_names :: "jstring list \<Rightarrow> jstring list \<Rightarrow> (jstring \<times> json) list \<Rightarrow> jstring list option" where
  "repeatedMember path (JArray xs) = repeated_items path 0 xs"
| "repeatedMember path (JObject ms) = repeated_names path [] ms"
| "repeatedMember path _ = None"
| "repeated_items path i [] = None"
| "repeated_items path i (x # xs) =
     (case repeatedMember (path @ [digits_of i]) x of Some p \<Rightarrow> Some p | None \<Rightarrow> repeated_items path (Suc i) xs)"
| "repeated_names path seen [] = None"
| "repeated_names path seen ((name, x) # ms) =
     (if name \<in> set seen then Some (path @ [keySegment name])
      else case repeatedMember (path @ [keySegment name]) x of
          Some p \<Rightarrow> Some p
        | None \<Rightarrow> repeated_names path (name # seen) ms)"

definition readString :: "jstring list \<Rightarrow> jstring \<Rightarrow> frame_error + jstring" where
  "readString path text = (if lone_surrogate text then Inl (Undecodable path) else Inr text)"

text \<open>\<open>^(?:0|-?[1-9][0-9]*)$\<close> and \<open>BigInt\<close> of it.\<close>

definition INT_TEXT :: "jstring \<Rightarrow> int option" where
  "INT_TEXT text =
     (let negative = (text \<noteq> [] \<and> hd text = 45); ds = (if negative then tl text else text)
      in if text = [48] then Some 0
         else if ds \<noteq> [] \<and> list_all isDigit ds \<and> hd ds \<noteq> 48 then Some (if negative then - int (value_of ds) else int (value_of ds))
         else None)"

definition UINT_TEXT :: "jstring \<Rightarrow> int option" where
  "UINT_TEXT text =
     (if text = [48] \<or> (text \<noteq> [] \<and> list_all isDigit text \<and> hd text \<noteq> 48) then Some (int (value_of text)) else None)"

definition TAGGED_DOUBLES :: "(jstring \<times> double) list" where
  "TAGGED_DOUBLES = [(js ''NaN'', NaN), (js ''Infinity'', Infinity False), (js ''-Infinity'', Infinity True),
     (js ''-0'', Finite True 0 (-1074))]"

text \<open>A payload is read only in the form it would be written in.\<close>

definition readCanonical :: "(jstring \<Rightarrow> 'a option) \<Rightarrow> ('a \<Rightarrow> jstring) \<Rightarrow> ('a \<Rightarrow> cel_value) \<Rightarrow> jstring list \<Rightarrow> jstring \<Rightarrow>
    frame_error + cel_value" where
  "readCanonical decode encode wrap path text =
     (case decode text of
        Some v \<Rightarrow> if encode v = text then Inr (wrap v) else Inl (Undecodable path)
      | None \<Rightarrow> Inl (Undecodable path))"

definition readScalar :: "nat \<Rightarrow> members_codec \<Rightarrow> jstring list \<Rightarrow> jstring \<Rightarrow> jstring \<Rightarrow> frame_error + cel_value" where
  "readScalar generation cod path tag text =
     (if tag = js ''int'' then
        (case INT_TEXT text of
           Some i \<Rightarrow> if i < MIN_INT \<or> i > MAX_INT then Inl (Undecodable path) else Inr (VInt i)
         | None \<Rightarrow> Inl (Undecodable path))
      else if tag = js ''uint'' then
        (case UINT_TEXT text of
           Some i \<Rightarrow> if i > MAX_UINT then Inl (Undecodable path) else Inr (VUint i)
         | None \<Rightarrow> Inl (Undecodable path))
      else if tag = js ''double'' then
        (case map_of TAGGED_DOUBLES text of Some d \<Rightarrow> Inr (VDouble d) | None \<Rightarrow> Inl (Undecodable path))
      else if tag = js ''bytes'' then readCanonical base64_decode base64_encode VBytes path text
      else if tag = js ''google.protobuf.Timestamp'' then
        (if generation = 1 then readCanonical millis_decode millis_encode VTimestamp path text
         else readCanonical rfc3339_decode formatTimestamp VTimestamp path text)
      else if tag = js ''google.protobuf.Duration'' then readCanonical duration_decode duration_encode VDuration path text
      else readCanonical (m_value cod tag) (m_text cod tag) (VHost tag) path text)"

definition read_map :: "jstring list \<Rightarrow> (cel_value \<times> cel_value) list \<Rightarrow> frame_error + cel_value" where
  "read_map path flat =
     (if list_all (\<lambda>(key, _). plain_key key) flat then Inl (Undecodable path)
      else (case celMapFromEntries flat of Inr m \<Rightarrow> Inr m | Inl _ \<Rightarrow> Inl (Undecodable path)))"

lemma map_of_size: "map_of ms k = Some x \<Longrightarrow> size x < size_list (size_prod (\<lambda>_. 0) size) ms"
  by (induction ms) (auto split: if_splits)

function readValue :: "nat \<Rightarrow> members_codec \<Rightarrow> jstring list \<Rightarrow> json \<Rightarrow> frame_error + cel_value"
  and read_items :: "nat \<Rightarrow> members_codec \<Rightarrow> jstring list \<Rightarrow> nat \<Rightarrow> json list \<Rightarrow> frame_error + cel_value list"
  and read_members :: "nat \<Rightarrow> members_codec \<Rightarrow> jstring list \<Rightarrow> (jstring \<times> json) list \<Rightarrow> frame_error + (jstring \<times> cel_value) list"
  and read_pairs :: "nat \<Rightarrow> members_codec \<Rightarrow> jstring list \<Rightarrow> nat \<Rightarrow> map_key list \<Rightarrow> json list \<Rightarrow>
    frame_error + (cel_value \<times> cel_value) list" where
  "readValue g cod path JNull = Inr VNull"
| "readValue g cod path (JBool b) = Inr (VBool b)"
| "readValue g cod path (JNumber d) = (if double_finite d then Inr (VDouble d) else Inl (Undecodable path))"
| "readValue g cod path (JString s) = map_sum id VString (readString path s)"
| "readValue g cod path (JArray xs) = map_sum id VList (read_items g cod path 0 xs)"
| "readValue g cod path (JObject ms) =
     (case map_of ms TYPED_FRAME_TAG of
        None \<Rightarrow> map_sum id VRecord (read_members g cod path ms)
      | Some tag \<Rightarrow>
          (case (tag, map_of ms (js ''value'')) of
             (JString t, Some payload) \<Rightarrow>
               if length ms \<noteq> 2 then Inl (Undecodable path)
               else if t \<notin> set (TYPED_FRAME_TAGS cod) then Inl (Undecodable (path @ [TYPED_FRAME_TAG]))
               else if t = js ''map'' then
                 (case payload of
                    JArray ps \<Rightarrow> (case read_pairs g cod (path @ [js ''value'']) 0 [] ps of
                        Inl e \<Rightarrow> Inl e
                      | Inr flat \<Rightarrow> read_map (path @ [js ''value'']) flat)
                  | _ \<Rightarrow> Inl (Undecodable (path @ [js ''value''])))
               else
                 (case payload of
                    JString text \<Rightarrow> readScalar g cod (path @ [js ''value'']) t text
                  | _ \<Rightarrow> Inl (Undecodable (path @ [js ''value''])))
           | _ \<Rightarrow> Inl (Undecodable path)))"
| "read_items g cod path i [] = Inr []"
| "read_items g cod path i (x # xs) =
     (case readValue g cod (path @ [digits_of i]) x of
        Inl e \<Rightarrow> Inl e
      | Inr v \<Rightarrow> map_sum id (Cons v) (read_items g cod path (Suc i) xs))"
| "read_members g cod path [] = Inr []"
| "read_members g cod path ((name, x) # ms) =
     (case readString (path @ [keySegment name]) name of
        Inl e \<Rightarrow> Inl e
      | Inr key \<Rightarrow>
          (case readValue g cod (path @ [keySegment name]) x of
             Inl e \<Rightarrow> Inl e
           | Inr v \<Rightarrow> map_sum id (Cons (key, v)) (read_members g cod path ms)))"
| "read_pairs g cod path i seen [] = Inr []"
| "read_pairs g cod path i seen (p # ps) =
     (case p of
        JArray [x, y] \<Rightarrow>
          (case readValue g cod (path @ [digits_of i, js ''0'']) x of
             Inl e \<Rightarrow> Inl e
           | Inr key \<Rightarrow>
               (case frameKey key of
                  None \<Rightarrow> Inl (Undecodable (path @ [digits_of i, js ''0'']))
                | Some identity \<Rightarrow>
                    if identity \<in> set seen then Inl (Undecodable (path @ [digits_of i, js ''0'']))
                    else (case readValue g cod (path @ [digits_of i, js ''1'']) y of
                        Inl e \<Rightarrow> Inl e
                      | Inr v \<Rightarrow> map_sum id (Cons (key, v)) (read_pairs g cod path (Suc i) (identity # seen) ps))))
      | _ \<Rightarrow> Inl (Undecodable (path @ [digits_of i])))"
  by pat_completeness auto
termination
  by (relation "measure (\<lambda>x. case x of Inl (Inl (_, _, _, j)) \<Rightarrow> size j | Inl (Inr (_, _, _, _, xs)) \<Rightarrow> size_list size xs
      | Inr (Inl (_, _, _, ms)) \<Rightarrow> size_list (size_prod (\<lambda>_. 0) size) ms
      | Inr (Inr (_, _, _, _, _, ps)) \<Rightarrow> size_list size ps)")
    (auto dest: map_of_size [OF sym])

definition decodeTypedFrame :: "members_codec \<Rightarrow> nat \<Rightarrow> jstring \<Rightarrow> frame_error + cel_value" where
  "decodeTypedFrame cod generation text =
     (if generation \<noteq> 1 \<and> generation \<noteq> 2 then Inl UnknownGeneration
      else case json_read text of
          None \<Rightarrow> Inl (Undecodable [])
        | Some raw \<Rightarrow>
            (case repeatedMember [] raw of
               Some p \<Rightarrow> Inl (Undecodable p)
             | None \<Rightarrow> readValue generation cod [] (host_tree raw)))"

section \<open>What a frame keeps of a value\<close>

definition key_json :: "cel_value \<Rightarrow> json" where
  "key_json key =
     (case key of
        VString s \<Rightarrow> JString s
      | VBool b \<Rightarrow> JBool b
      | VInt i \<Rightarrow> tagged (js ''int'') (JString (int_text i))
      | VUint i \<Rightarrow> tagged (js ''uint'') (JString (int_text i))
      | _ \<Rightarrow> JNull)"

text \<open>
  A map is what its keys and values are, whichever container held it: a plain object when its keys are
  strings, in the order an object walks them, and otherwise entries in the order of the text of their keys.
\<close>

definition canonical_map :: "(cel_value \<times> cel_value) list \<Rightarrow> cel_value" where
  "canonical_map es =
     (if list_all (\<lambda>e. plain_key (fst e)) es
      then VRecord (host_members (map (\<lambda>e. (key_name (fst e), snd e)) (sort_key (\<lambda>e. key_name (fst e)) es)))
      else VMap (map (\<lambda>e. (the (frameKey (fst e)), e)) (sort_key (\<lambda>e. json_text (key_json (fst e))) es)))"

fun canonical :: "cel_value \<Rightarrow> cel_value" where
  "canonical (VList vs) = VList (map canonical vs)"
| "canonical (VMap es) = canonical_map (map (\<lambda>e. (fst (snd e), canonical (snd (snd e)))) es)"
| "canonical (VRecord ms) = canonical_map (map (\<lambda>m. (VString (fst m), canonical (snd m))) ms)"
| "canonical (VDuration d) = VDuration (whole_seconds d)"
| "canonical v = v"

text \<open>What the host's types and the constructors guarantee of a value, and that an unsigned integer has 64 bits.\<close>

fun storable :: "cel_value \<Rightarrow> bool" where
  "storable (VDouble d) = double_wf d"
| "storable (VUint i) = (0 \<le> i \<and> i \<le> MAX_UINT)"
| "storable (VBytes bs) = list_all (\<lambda>b. b < 256) bs"
| "storable (VTimestamp t) = timestamp_ok t"
| "storable (VList vs) = (\<forall>v \<in> set vs. storable v)"
| "storable (VMap es) = (\<forall>e \<in> set es. storable (fst (snd e)) \<and> storable (snd (snd e)))"
| "storable (VRecord ms) = (\<forall>m \<in> set ms. storable (snd m))"
| "storable _ = True"

text \<open>The codec of the value types with members reads the text it wrote, and its names are its own.\<close>

definition members_ok :: "members_codec \<Rightarrow> bool" where
  "members_ok cod \<longleftrightarrow> (\<forall>brand \<in> set (m_brands cod). brand \<notin> set DOMAIN_TAGS \<and>
     (\<forall>n. m_value cod brand (m_text cod brand n) = Some n))"

section \<open>Scalars read back\<close>

lemma int_text_reads: "INT_TEXT (int_text i) = Some i"
proof -
  have "hd (digits_of n) \<noteq> 45" for n
    using digits_of_digits [of n] by (cases "digits_of n") (auto simp: isDigit_def)
  then show ?thesis using digits_of_leading [of "nat \<bar>i\<bar>"] digits_of_digits [of "nat \<bar>i\<bar>"]
    by (cases "i = 0") (auto simp: INT_TEXT_def int_text_def Let_def digits_of.simps [of 0])
qed

lemma uint_text_reads: "0 \<le> i \<Longrightarrow> UINT_TEXT (int_text i) = Some i"
  using digits_of_leading [of "nat i"] digits_of_digits [of "nat i"]
  by (cases "i = 0") (auto simp: UINT_TEXT_def int_text_def digits_of.simps [of 0])

lemma tagged_host: "host_tree (tagged tag payload) = tagged tag (host_tree payload)"
  by (simp add: tagged_def TYPED_FRAME_TAG_def host_members_def array_index_def isDigit_def)

lemma tagged_ok [simp]: "json_ok (tagged tag payload) = json_ok payload"
  by (simp add: tagged_def)

lemma tagged_unrepeated: "(\<And>p. repeatedMember p payload = None) \<Longrightarrow> repeatedMember path (tagged tag payload) = None"
  by (simp add: tagged_def TYPED_FRAME_TAG_def)

lemma read_tagged_text:
  assumes "t \<in> set (TYPED_FRAME_TAGS cod)" "t \<noteq> js ''map''"
  shows "readValue g cod path (tagged t (JString text)) = readScalar g cod (path @ [js ''value'']) t text"
  using assms by (simp add: tagged_def TYPED_FRAME_TAG_def)

lemma domain_tags: "t \<in> set DOMAIN_TAGS \<Longrightarrow> t \<in> set (TYPED_FRAME_TAGS cod)"
  by (simp add: TYPED_FRAME_TAGS_def)

text \<open>A tree that reads back as a value, wherever it stands.\<close>

definition stands_for :: "members_codec \<Rightarrow> json \<Rightarrow> cel_value \<Rightarrow> bool" where
  "stands_for cod j v \<longleftrightarrow> json_ok j \<and> (\<forall>p. repeatedMember p j = None) \<and> (\<forall>p. readValue 2 cod p (host_tree j) = Inr v)"

lemma stands_for_tagged:
  assumes "t \<in> set (TYPED_FRAME_TAGS cod)" "t \<noteq> js ''map''" "\<And>p. readScalar 2 cod p t text = Inr v"
  shows "stands_for cod (tagged t (JString text)) v"
  unfolding stands_for_def
  using tagged_unrepeated [of "JString text"] assms by (simp add: tagged_host read_tagged_text)

lemma key_stands_for:
  assumes "writeMapKey path key = Inr k" "storable key"
  shows "k = key_json key" "stands_for cod (key_json key) key" "frameKey key \<noteq> None"
    "mapKeyIdentity key = frameKey key" "\<not> is_double key" "\<not> isCelError key" "\<And>s. key = VString s \<Longrightarrow> \<not> lone_surrogate s"
proof -
  have "int": "stands_for cod (tagged (js ''int'') (JString (int_text i))) (VInt i)" if "\<not> (i < MIN_INT \<or> i > MAX_INT)" for i
    by (rule stands_for_tagged) (use that in \<open>auto simp: domain_tags DOMAIN_TAGS_def readScalar_def int_text_reads\<close>)
  have "uint": "stands_for cod (tagged (js ''uint'') (JString (int_text i))) (VUint i)" if "0 \<le> i" "i \<le> MAX_UINT" for i
    by (rule stands_for_tagged) (use that in \<open>auto simp: domain_tags DOMAIN_TAGS_def readScalar_def uint_text_reads\<close>)
  show "k = key_json key" "stands_for cod (key_json key) key" "frameKey key \<noteq> None"
    "mapKeyIdentity key = frameKey key" "\<not> is_double key" "\<not> isCelError key" "\<And>s. key = VString s \<Longrightarrow> \<not> lone_surrogate s"
    using assms "int" "uint"
    by (cases key; auto simp: writeMapKey_def key_json_def writeFrameText_def writeInt_def stands_for_def readString_def split: if_splits)+
qed

lemma double_stands_for:
  assumes "double_wf d"
  shows "stands_for cod (write_double d) (VDouble d)"
proof (cases "json_double d")
  case True
  then show ?thesis by (cases d) (auto simp: stands_for_def)
next
  case False
  have "double": "stands_for cod (tagged (js ''double'') (JString t)) (VDouble d)" if "map_of TAGGED_DOUBLES t = Some d" for t
    by (rule stands_for_tagged) (use that in \<open>auto simp: domain_tags DOMAIN_TAGS_def readScalar_def\<close>)
  then show ?thesis using False assms by (cases d) (auto simp: TAGGED_DOUBLES_def double_canonical_def)
qed

lemma leaf_stands_for:
  assumes "write_leaf cod path v = Inr j" "storable v" "members_ok cod" "frame_entries v = None" "\<And>vs. v \<noteq> VList vs"
  shows "stands_for cod j (canonical v)"
proof (cases "\<exists>k. writeMapKey path v = Inr k")
  case True
  then obtain k where k: "writeMapKey path v = Inr k" by blast
  have "j = k" "canonical v = v" using k assms(1) by (cases v; auto simp: writeMapKey_def write_leaf_def)+
  with key_stands_for [OF k assms(2)] show ?thesis by simp
next
  case False
  note tags = domain_tags DOMAIN_TAGS_def readScalar_def readCanonical_def
  show ?thesis
  proof (cases v)
    case (VBytes bs)
    have "stands_for cod (tagged (js ''bytes'') (JString (base64_encode bs))) (VBytes bs)"
      by (rule stands_for_tagged) (use assms(2) VBytes in \<open>auto simp: tags base64_reads_back\<close>)
    then show ?thesis using assms(1) VBytes by (simp add: write_leaf_def)
  next
    case (VTimestamp t)
    have "stands_for cod (tagged (js ''google.protobuf.Timestamp'') (JString (formatTimestamp t))) (VTimestamp t)"
      by (rule stands_for_tagged) (use assms(2) VTimestamp in \<open>auto simp: tags rfc3339_reads_back\<close>)
    then show ?thesis using assms(1) VTimestamp by (auto simp: write_leaf_def writeTimestamp_def split: if_splits)
  next
    case (VDuration d)
    have j: "j = tagged (js ''google.protobuf.Duration'') (JString (duration_encode d))"
      "\<bar>durationNanos d\<bar> div NANOS_PER_SECOND \<le> MAX_DURATION_SECONDS"
      using assms(1) VDuration by (auto simp: write_leaf_def writeDuration_def durationNanos_def split: if_splits)
    have "stands_for cod j (VDuration (whole_seconds d))"
      unfolding j(1) by (rule stands_for_tagged)
        (use j(2) in \<open>auto simp: tags duration_reads_back trunc_div_abs whole_seconds_text\<close>)
    then show ?thesis by (simp add: VDuration)
  next
    case (VHost brand n)
    then have b: "brand \<in> set (m_brands cod)" "\<not> lone_surrogate (m_text cod brand n)" "j = tagged brand (JString (m_text cod brand n))"
      using assms(1) by (auto simp: write_leaf_def writeFrameText_def split: if_splits)
    then have "brand \<notin> set DOMAIN_TAGS" "m_value cod brand (m_text cod brand n) = Some n" using assms(3) by (auto simp: members_ok_def)
    then have "stands_for cod j (VHost brand n)"
      unfolding b(3) by (intro stands_for_tagged)
        (use b(1) in \<open>auto simp: TYPED_FRAME_TAGS_def DOMAIN_TAGS_def readScalar_def readCanonical_def\<close>)
    then show ?thesis by (simp add: VHost)
  next
    case (VDouble d)
    then show ?thesis using assms(1,2) double_stands_for by (auto simp: write_leaf_def)
  next
    case VNull
    then show ?thesis using assms(1) by (auto simp: write_leaf_def stands_for_def)
  qed (use False assms in \<open>auto simp: write_leaf_def writeMapKey_def\<close>)
qed

section \<open>Containers read back\<close>

lemma list_stands_for:
  assumes "list_all2 (stands_for cod) xs vs"
  shows "stands_for cod (JArray xs) (VList vs)"
proof -
  have "repeated_items p i xs = None" for p i
    using assms by (induction arbitrary: i rule: list_all2_induct) (auto simp: stands_for_def)
  moreover have "read_items 2 cod p i (map host_tree xs) = Inr vs" for p i
    using assms by (induction arbitrary: i rule: list_all2_induct) (auto simp: stands_for_def)
  moreover have "\<forall>j \<in> set xs. json_ok j"
    using assms by (induction rule: list_all2_induct) (auto simp: stands_for_def)
  ultimately show ?thesis by (simp add: stands_for_def)
qed

lemma repeated_names_none:
  assumes "distinct (map fst ms)" "fst ` set ms \<inter> set seen = {}" "\<forall>m \<in> set ms. \<forall>p. repeatedMember p (snd m) = None"
  shows "repeated_names path seen ms = None"
  using assms by (induction ms arbitrary: seen) auto

lemma read_members_all:
  assumes "\<forall>m \<in> set ms. \<not> lone_surrogate (fst m) \<and> (\<forall>p. readValue g cod p (f (snd m)) = Inr (h (snd m)))"
  shows "read_members g cod path (map (\<lambda>m. (fst m, f (snd m))) ms) = Inr (map (\<lambda>m. (fst m, h (snd m))) ms)"
  using assms by (induction ms) (auto simp: readString_def)

text \<open>A plain object: its members are read in the order an object walks them.\<close>

lemma record_stands_for:
  assumes "distinct (map fst ms)" "\<forall>m \<in> set ms. fst m \<noteq> TYPED_FRAME_TAG \<and> \<not> lone_surrogate (fst m) \<and> stands_for cod (fst (snd m)) (snd (snd m))"
  shows "stands_for cod (JObject (map (\<lambda>m. (fst m, fst (snd m))) ms)) (VRecord (host_members (map (\<lambda>m. (fst m, snd (snd m))) ms)))"
proof -
  let ?j = "JObject (map (\<lambda>m. (fst m, fst (snd m))) ms)"
  have "repeatedMember p ?j = None" for p
    using repeated_names_none [of "map (\<lambda>m. (fst m, fst (snd m))) ms" "[]" p] assms
    by (auto simp: stands_for_def o_def)
  moreover have "json_ok ?j" using assms by (auto simp: stands_for_def)
  moreover have "readValue 2 cod p (host_tree ?j) = Inr (VRecord (host_members (map (\<lambda>m. (fst m, snd (snd m))) ms)))" for p
  proof -
    have host: "host_tree ?j = JObject (map (\<lambda>m. (fst m, (host_tree \<circ> fst) (snd m))) (host_members ms))"
      using host_members_map [of "host_tree \<circ> fst" ms] by (simp add: o_def)
    have members: "set (host_members ms) = set ms" by (rule host_members_set [OF assms(1)])
    have "map_of (map (\<lambda>m. (fst m, (host_tree \<circ> fst) (snd m))) (host_members ms)) TYPED_FRAME_TAG = None"
      using assms(2) members by (auto simp: map_of_eq_None_iff)
    moreover have "read_members 2 cod p (map (\<lambda>m. (fst m, (host_tree \<circ> fst) (snd m))) (host_members ms)) =
        Inr (map (\<lambda>m. (fst m, snd (snd m))) (host_members ms))"
      by (rule read_members_all) (use assms(2) members in \<open>auto simp: stands_for_def\<close>)
    ultimately show ?thesis unfolding host using host_members_map [of snd ms] by simp
  qed
  ultimately show ?thesis unfolding stands_for_def by blast
qed

text \<open>A pair of a written map with the key and value it came from.\<close>

definition pair_stands :: "members_codec \<Rightarrow> cel_value \<times> json \<times> cel_value \<Rightarrow> bool" where
  "pair_stands cod q \<longleftrightarrow> stands_for cod (key_json (fst q)) (fst q) \<and> stands_for cod (fst (snd q)) (snd (snd q)) \<and>
     frameKey (fst q) \<noteq> None \<and> mapKeyIdentity (fst q) = frameKey (fst q) \<and> \<not> is_double (fst q) \<and> \<not> isCelError (fst q) \<and>
     (\<forall>s. fst q = VString s \<longrightarrow> \<not> lone_surrogate s)"

lemma scalar_no_error: "readScalar g cod p t text = Inr v \<Longrightarrow> isCelError v = False"
  by (auto simp: readScalar_def readCanonical_def split: if_splits option.splits)

lemma read_map_no_error: "read_map p flat = Inr v \<Longrightarrow> isCelError v = False"
  by (auto simp: read_map_def celMapFromEntries_def split: if_splits sum.splits)

lemma tree_no_error: "readValue g cod p t = Inr v \<Longrightarrow> isCelError v = False"
  by (cases t) (auto simp del: not_None_eq split: if_splits option.splits json.splits sum.splits
      dest: scalar_no_error read_map_no_error simp: scalar_no_error read_map_no_error)

lemma stands_for_no_error: "stands_for cod j v \<Longrightarrow> \<not> isCelError v"
  using tree_no_error unfolding stands_for_def by blast

lemma read_pairs_all:
  assumes "\<forall>q \<in> set qs. pair_stands cod q" "distinct (map (\<lambda>q. frameKey (fst q)) qs)"
    "\<forall>q \<in> set qs. frameKey (fst q) \<notin> Some ` set seen"
  shows "read_pairs 2 cod path i seen (map (\<lambda>q. JArray [host_tree (key_json (fst q)), host_tree (fst (snd q))]) qs) =
    Inr (map (\<lambda>q. (fst q, snd (snd q))) qs)"
  using assms
proof (induction qs arbitrary: i seen)
  case (Cons q qs)
  obtain identity where key: "frameKey (fst q) = Some identity" using Cons.prems(1) by (auto simp: pair_stands_def)
  then have "identity \<notin> set seen" using Cons.prems(3) by auto
  moreover have "\<forall>r \<in> set qs. frameKey (fst r) \<notin> Some ` set (identity # seen)"
  proof
    fix r assume r: "r \<in> set qs"
    have "Some identity \<notin> (\<lambda>q. frameKey (fst q)) ` set qs" using Cons.prems(2) key by simp
    then have "frameKey (fst r) \<noteq> Some identity" using r by (metis image_eqI)
    then show "frameKey (fst r) \<notin> Some ` set (identity # seen)" using Cons.prems(3) r by simp
  qed
  ultimately show ?case using Cons key by (simp add: pair_stands_def stands_for_def)
qed simp

lemma the_keys_distinct:
  assumes "\<forall>q \<in> set qs. pair_stands cod q" "distinct (map (\<lambda>q. frameKey (fst q)) qs)" "\<not> list_all (\<lambda>q. plain_key (fst q)) qs"
  shows "distinct (map (\<lambda>q. the (frameKey (fst q))) qs)"
proof -
  have "inj_on the (set (map (\<lambda>q. frameKey (fst q)) qs))"
    using assms(1) by (auto simp: inj_on_def pair_stands_def) (metis fst_conv option.distinct(1) option.expand option.sel)
  then have "distinct (map the (map (\<lambda>q. frameKey (fst q)) qs))" using assms(2) by (simp only: distinct_map)
  then show ?thesis by (simp add: o_def)
qed

lemma tagged_map_stands_for:
  assumes "\<forall>q \<in> set qs. pair_stands cod q" "distinct (map (\<lambda>q. frameKey (fst q)) qs)" "\<not> list_all (\<lambda>q. plain_key (fst q)) qs"
  shows "stands_for cod (tagged (js ''map'') (JArray (map (\<lambda>q. JArray [key_json (fst q), fst (snd q)]) qs)))
    (VMap (map (\<lambda>q. (the (frameKey (fst q)), fst q, snd (snd q))) qs))"
proof -
  let ?ps = "map (\<lambda>q. JArray [key_json (fst q), fst (snd q)]) qs"
  let ?j = "tagged (js ''map'') (JArray ?ps)"
  have "repeated_items p i ?ps = None" for p i
    using assms(1) by (induction qs arbitrary: i) (auto simp: pair_stands_def stands_for_def)
  then have "repeatedMember p ?j = None" for p by (simp add: tagged_unrepeated)
  moreover have "json_ok ?j" using assms(1) by (auto simp: pair_stands_def stands_for_def)
  moreover have "readValue 2 cod p (host_tree ?j) = Inr (VMap (map (\<lambda>q. (the (frameKey (fst q)), fst q, snd (snd q))) qs))" for p
  proof -
    have "read_pairs 2 cod p' 0 [] (map (\<lambda>q. JArray [host_tree (key_json (fst q)), host_tree (fst (snd q))]) qs) =
        Inr (map (\<lambda>q. (fst q, snd (snd q))) qs)" for p'
      by (rule read_pairs_all [OF assms(1,2)]) simp
    moreover have "read_map p' (map (\<lambda>q. (fst q, snd (snd q))) qs) = Inr (VMap (map (\<lambda>q. (the (frameKey (fst q)), fst q, snd (snd q))) qs))" for p'
    proof -
      have "new_entries [] (map (\<lambda>q. (fst q, snd (snd q))) qs) (map (\<lambda>q. (the (frameKey (fst q)), fst q, snd (snd q))) qs)"
        using assms(1) the_keys_distinct [OF assms] stands_for_no_error
        by (fastforce simp: new_entries_def pair_stands_def o_def)
      then have "map_entries [] (map (\<lambda>q. (fst q, snd (snd q))) qs) = Inr (map (\<lambda>q. (the (frameKey (fst q)), fst q, snd (snd q))) qs)"
        by (simp add: map_entries_ok)
      then show ?thesis using assms(3) by (simp add: read_map_def celMapFromEntries_def list_all_iff)
    qed
    moreover have "js ''map'' \<in> set (TYPED_FRAME_TAGS cod)" by (simp add: TYPED_FRAME_TAGS_def DOMAIN_TAGS_def)
    ultimately show ?thesis unfolding tagged_host by (simp add: tagged_def TYPED_FRAME_TAG_def o_def)
  qed
  ultimately show ?thesis unfolding stands_for_def by blast
qed

lemma insort_key_map: "insort_key f (g x) (map g ys) = map g (insort_key (\<lambda>x. f (g x)) x ys)"
  by (induction ys) auto

lemma sort_key_map: "sort_key f (map g xs) = map g (sort_key (\<lambda>x. f (g x)) xs)"
  by (induction xs) (simp_all add: insort_key_map)

lemma plain_names:
  assumes "\<forall>q \<in> set qs. plain_key (fst q)" "distinct (map (\<lambda>q. frameKey (fst q)) qs)"
  shows "distinct (map (\<lambda>q. key_name (fst q)) qs)"
proof -
  have key: "frameKey (fst q) = Some (KeyText (key_name (fst q)))" if "q \<in> set qs" for q
    using assms(1) that by (cases "fst q") auto
  have "map (\<lambda>q. frameKey (fst q)) qs = map (\<lambda>n. Some (KeyText n)) (map (\<lambda>q. key_name (fst q)) qs)" using key by simp
  with assms(2) show ?thesis by (metis distinct_map)
qed

lemma frame_map_stands_for:
  assumes "\<forall>q \<in> set qs. pair_stands cod q" "distinct (map (\<lambda>q. frameKey (fst q)) qs)"
  shows "stands_for cod (frame_map (map (\<lambda>q. (fst q, key_json (fst q), fst (snd q))) qs))
    (canonical_map (map (\<lambda>q. (fst q, snd (snd q))) qs))"
proof (cases "\<forall>q \<in> set qs. plain_key (fst q)")
  case True
  let ?qs = "sort_key (\<lambda>q. key_name (fst q)) qs"
  let ?ms = "map (\<lambda>q. (key_name (fst q), snd q)) ?qs"
  have "distinct (map fst ?ms)"
    using plain_names [OF True assms(2)] by (simp add: o_def distinct_map)
  moreover have "\<forall>m \<in> set ?ms. fst m \<noteq> TYPED_FRAME_TAG \<and> \<not> lone_surrogate (fst m) \<and> stands_for cod (fst (snd m)) (snd (snd m))"
  proof
    fix m assume "m \<in> set ?ms"
    then obtain q where q: "q \<in> set qs" "m = (key_name (fst q), snd q)" by auto
    then have "plain_key (fst q)" "pair_stands cod q" using True assms(1) by auto
    then show "fst m \<noteq> TYPED_FRAME_TAG \<and> \<not> lone_surrogate (fst m) \<and> stands_for cod (fst (snd m)) (snd (snd m))"
      using q(2) by (cases "fst q") (auto simp: pair_stands_def)
  qed
  ultimately have "stands_for cod (JObject (map (\<lambda>m. (fst m, fst (snd m))) ?ms)) (VRecord (host_members (map (\<lambda>m. (fst m, snd (snd m))) ?ms)))"
    by (rule record_stands_for)
  then show ?thesis using True by (simp add: frame_map_def canonical_map_def sort_key_map o_def list_all_iff)
next
  case False
  let ?qs = "sort_key (\<lambda>q. json_text (key_json (fst q))) qs"
  have "\<forall>q \<in> set ?qs. pair_stands cod q" using assms(1) by simp
  moreover have "distinct (map (\<lambda>q. frameKey (fst q)) ?qs)" using assms(2) by (simp add: distinct_map)
  moreover have "\<not> list_all (\<lambda>q. plain_key (fst q)) ?qs" using False by (simp add: list_all_iff)
  ultimately have "stands_for cod (tagged (js ''map'') (JArray (map (\<lambda>q. JArray [key_json (fst q), fst (snd q)]) ?qs)))
      (VMap (map (\<lambda>q. (the (frameKey (fst q)), fst q, snd (snd q))) ?qs))" by (rule tagged_map_stands_for)
  moreover have "(\<forall>q \<in> set qs. plain_key (fst q)) = False" using False by simp
  ultimately show ?thesis
    by (simp only: frame_map_def canonical_map_def sort_key_map o_def list_all_iff set_map ball_simps case_prod_beta fst_conv snd_conv
        list.map_comp if_False)
qed

lemma canonical_entries: "frame_entries v = Some es \<Longrightarrow> canonical v = canonical_map (map (\<lambda>e. (fst e, canonical (snd e))) es)"
  by (cases v) (auto simp: o_def)

lemma storable_entries: "frame_entries v = Some es \<Longrightarrow> storable v \<Longrightarrow> \<forall>e \<in> set es. storable (fst e) \<and> storable (snd e)"
  by (cases v) force+

lemma write_reads:
  "write_value cod path v = Inr j \<Longrightarrow> storable v \<Longrightarrow> members_ok cod \<Longrightarrow> stands_for cod j (canonical v)"
  "write_list cod path i vs = Inr xs \<Longrightarrow> \<forall>v \<in> set vs. storable v \<Longrightarrow> members_ok cod \<Longrightarrow>
     list_all2 (stands_for cod) xs (map canonical vs)"
  "write_entries cod path seen es = Inr ts \<Longrightarrow> \<forall>e \<in> set es. storable (fst e) \<and> storable (snd e) \<Longrightarrow> members_ok cod \<Longrightarrow>
     \<exists>qs. ts = map (\<lambda>q. (fst q, key_json (fst q), fst (snd q))) qs \<and>
       map (\<lambda>e. (fst e, canonical (snd e))) es = map (\<lambda>q. (fst q, snd (snd q))) qs \<and>
       (\<forall>q \<in> set qs. pair_stands cod q \<and> frameKey (fst q) \<notin> Some ` set seen) \<and> distinct (map (\<lambda>q. frameKey (fst q)) qs)"
proof (induction cod path v and cod path i vs and cod path seen es arbitrary: j and xs and ts
    rule: write_value_write_list_write_entries.induct)
  case (1 cod path v)
  show ?case
  proof (cases "frame_entries v")
    case (Some es)
    then obtain ts where ts: "write_entries cod path [] es = Inr ts" "j = frame_map ts"
      using 1(3) unfolding write_value.simps [of cod path v] Some option.case
      by (cases "write_entries cod path [] es") auto
    from 1(2) [OF Some ts(1) storable_entries [OF Some 1(4)] 1(5)] ts(2) canonical_entries [OF Some]
    show ?thesis using frame_map_stands_for by fastforce
  next
    case None
    show ?thesis
    proof (cases "\<exists>vs. v = VList vs")
      case True
      then obtain vs where vs: "v = VList vs" by blast
      with 1(3) None obtain xs where "write_list cod path 0 vs = Inr xs" "j = JArray xs"
        by (cases "write_list cod path 0 vs") (auto simp: write_value.simps)
      with 1(1) [OF None vs] 1(4,5) vs show ?thesis by (simp add: list_stands_for)
    next
      case False
      then have "write_leaf cod path v = Inr j" using 1(3) None by (auto simp: write_value.simps split: cel_value.splits)
      from leaf_stands_for [OF this 1(4,5) None] False show ?thesis by blast
    qed
  qed
next
  case (3 cod path i v vs)
  then show ?case by (auto split: sum.splits)
next
  case (5 cod path seen key v es)
  obtain k identity x ts' where w: "writeMapKey path key = Inr k" "frameKey key = Some identity" "identity \<notin> set seen"
    "write_value cod (path @ [key_step key]) v = Inr x" "write_entries cod path (identity # seen) es = Inr ts'"
    "ts = (key, k, x) # ts'"
    using 5(3) by (auto split: sum.splits option.splits if_splits)
  have key: "storable key" "storable v" using 5(4) by auto
  note k = key_stands_for [OF w(1) key(1)]
  have v: "stands_for cod x (canonical v)" by (rule 5(1) [OF refl w(1-4) key(2) 5(5)])
  obtain qs where qs: "ts' = map (\<lambda>q. (fst q, key_json (fst q), fst (snd q))) qs"
    "map (\<lambda>e. (fst e, canonical (snd e))) es = map (\<lambda>q. (fst q, snd (snd q))) qs"
    "\<forall>q \<in> set qs. pair_stands cod q \<and> frameKey (fst q) \<notin> Some ` set (identity # seen)" "distinct (map (\<lambda>q. frameKey (fst q)) qs)"
    using 5(2) [OF refl w(1-5)] 5(4,5) by auto
  have "pair_stands cod (key, x, canonical v)" using k v by (simp add: pair_stands_def)
  with qs w k(1) show ?case by (intro exI [of _ "(key, x, canonical v) # qs"]) (auto simp: image_iff)
qed auto

lemma encoded_reads:
  assumes "encodeTypedFrame cod v = Inr text" "storable v" "members_ok cod"
  shows "decodeTypedFrame cod 2 text = Inr (canonical v)"
proof -
  obtain j where j: "write_value cod [] v = Inr j" "text = json_text j" using assms(1) by (auto simp: encodeTypedFrame_def)
  have "stands_for cod j (canonical v)" by (rule write_reads(1) [OF j(1) assms(2,3)])
  then show ?thesis using json_read_text by (simp add: decodeTypedFrame_def j(2) stands_for_def)
qed

text \<open>C4. A value that is written as a frame is read back as the value it was, its type and the type of every key
  and member included; what is not kept is the order of a map's entries and which container held it. The
  text it is read from is the whole frame.\<close>

theorem typed_frame_roundtrip:
  assumes "encodeTypedFrame cod v = Inr text" "storable v" "members_ok cod"
  shows "decodeTypedFrame cod 2 text = Inr (canonical v)"
  by (rule encoded_reads [OF assms])

definition no_members :: members_codec where
  "no_members = \<lparr>m_brands = [], m_text = (\<lambda>_ _. []), m_value = (\<lambda>_ _. None)\<rparr>"

definition sample_value :: cel_value where
  "sample_value = VRecord [(js ''b'', VList [VNull, VBool True, VInt (- 5)]),
     (js ''a'', VMap [(KeyNumber 2, VUint 2, VBytes [255, 0]), (KeyText (js ''k''), VString (js ''k''), VDouble NaN)])]"

definition sample_tree :: json where
  "sample_tree = JObject
     [(js ''a'', tagged (js ''map'') (JArray
         [JArray [JString (js ''k''), tagged (js ''double'') (JString (js ''NaN''))],
          JArray [tagged (js ''uint'') (JString (js ''2'')), tagged (js ''bytes'') (JString (js ''_wA''))]])),
      (js ''b'', JArray [JNull, JBool True, tagged (js ''int'') (JString (js ''-5''))])]"

lemma sample_frame: "encodeTypedFrame no_members sample_value = Inr (json_text sample_tree)"
proof -
  have "\<not> json_text (tagged (js ''uint'') (JString (js ''2''))) \<le> json_text (JString (js ''k''))"
    by (simp add: tagged_def json_quote_def)
  then show ?thesis
    by (simp add: encodeTypedFrame_def sample_value_def sample_tree_def write_value.simps write_leaf_def writeMapKey_def
        writeInt_def writeFrameText_def frame_map_def TYPED_FRAME_TAG_def int_text_def MIN_INT_def MAX_INT_def
        base64_unit_def digits_of.simps)
qed

lemma no_members_ok: "members_ok no_members"
  by (simp add: members_ok_def no_members_def)

lemma typed_frame_roundtrip_witness:
  "decodeTypedFrame no_members 2 (json_text sample_tree) = Inr (canonical sample_value)"
proof -
  have "storable sample_value" by (simp add: sample_value_def MAX_UINT_def)
  from typed_frame_roundtrip [OF sample_frame this no_members_ok] show ?thesis .
qed

text \<open>C39. Two values have one frame only when they are the same value, up to the order and the container of maps.\<close>

theorem typed_frame_injective:
  assumes "encodeTypedFrame cod v = encodeTypedFrame cod w" "encodeTypedFrame cod v = Inr text"
    "storable v" "storable w" "members_ok cod"
  shows "canonical v = canonical w"
proof -
  have "encodeTypedFrame cod w = Inr text" using assms(1,2) by simp
  from encoded_reads [OF this assms(4,5)] encoded_reads [OF assms(2,3,5)] show ?thesis by simp
qed

lemma typed_frame_injective_witness:
  "canonical (VMap [(KeyText (js ''k''), VString (js ''k''), VNull)]) = canonical (VRecord [(js ''k'', VNull)])"
proof (rule typed_frame_injective)
  show "encodeTypedFrame no_members (VMap [(KeyText (js ''k''), VString (js ''k''), VNull)]) = encodeTypedFrame no_members (VRecord [(js ''k'', VNull)])"
    by (simp add: encodeTypedFrame_def write_value.simps)
  show "encodeTypedFrame no_members (VMap [(KeyText (js ''k''), VString (js ''k''), VNull)]) = Inr (json_text (JObject [(js ''k'', JNull)]))"
    by (simp add: encodeTypedFrame_def write_value.simps writeMapKey_def writeFrameText_def write_leaf_def frame_map_def TYPED_FRAME_TAG_def)
qed (simp_all add: no_members_ok)

text \<open>An unsigned integer is not checked against 64 bits when it is written, and is when it is read.\<close>

lemma wide_uint_is_written_but_not_read:
  assumes "MAX_UINT < i"
  shows "encodeTypedFrame cod (VUint i) = Inr (json_text (tagged (js ''uint'') (JString (int_text i)))) \<and>
    decodeTypedFrame cod 2 (json_text (tagged (js ''uint'') (JString (int_text i)))) = Inl (Undecodable [js ''value''])"
proof -
  have "0 \<le> i" using assms by (simp add: MAX_UINT_def)
  then have "readScalar 2 cod p (js ''uint'') (int_text i) = Inl (Undecodable p)" for p
    using assms by (simp add: readScalar_def uint_text_reads)
  moreover have "js ''uint'' \<in> set (TYPED_FRAME_TAGS cod)" by (simp add: domain_tags DOMAIN_TAGS_def)
  ultimately have "readValue 2 cod [] (tagged (js ''uint'') (JString (int_text i))) = Inl (Undecodable [js ''value''])"
    by (simp add: read_tagged_text)
  moreover have "json_read (json_text (tagged (js ''uint'') (JString (int_text i)))) = Some (tagged (js ''uint'') (JString (int_text i)))"
    by (rule json_read_text) simp
  ultimately show ?thesis
    by (simp add: encodeTypedFrame_def write_value.simps write_leaf_def decodeTypedFrame_def tagged_host tagged_unrepeated)
qed

end
