(* ===== verification/Frame_Domain.thy ===== *)
theory Frame_Domain
  imports Typed_Frame
begin

text \<open>
  Which values have a frame, and what a frame that is read can hold.
\<close>

section \<open>The values that have a frame\<close>

text \<open>
  What the writer takes. It checks an \<open>int\<close> against 64 bits and does not check a \<open>uint\<close>: that one is written at any size, in
  a value and in a key.
\<close>

definition writable_key :: "cel_value \<Rightarrow> bool" where
  "writable_key key =
     (case key of
        VString s \<Rightarrow> \<not> lone_surrogate s
      | VBool b \<Rightarrow> True
      | VInt i \<Rightarrow> MIN_INT \<le> i \<and> i \<le> MAX_INT
      | VUint i \<Rightarrow> True
      | _ \<Rightarrow> False)"

definition writable_leaf :: "members_codec \<Rightarrow> cel_value \<Rightarrow> bool" where
  "writable_leaf cod v =
     (case v of
        VNull \<Rightarrow> True
      | VBool b \<Rightarrow> True
      | VString s \<Rightarrow> \<not> lone_surrogate s
      | VDouble d \<Rightarrow> True
      | VInt i \<Rightarrow> MIN_INT \<le> i \<and> i \<le> MAX_INT
      | VUint i \<Rightarrow> True
      | VBytes bs \<Rightarrow> True
      | VTimestamp t \<Rightarrow> 0 \<le> ts_nanos t \<and> ts_nanos t < NANOS_PER_SECOND \<and> rfc3339_decode (formatTimestamp t) \<noteq> None
      | VDuration d \<Rightarrow> \<bar>d_nanos d\<bar> \<le> 9007199254740991 \<and> \<bar>durationNanos d\<bar> div NANOS_PER_SECOND \<le> MAX_DURATION_SECONDS
      | VHost brand n \<Rightarrow> brand \<in> set (m_brands cod) \<and> \<not> lone_surrogate (m_text cod brand n)
      | _ \<Rightarrow> False)"

fun writable :: "members_codec \<Rightarrow> cel_value \<Rightarrow> bool" where
  "writable cod (VList vs) = (\<forall>v \<in> set vs. writable cod v)"
| "writable cod (VMap es) =
     ((\<forall>e \<in> set es. writable_key (fst (snd e)) \<and> writable cod (snd (snd e))) \<and> distinct (map (\<lambda>e. frameKey (fst (snd e))) es))"
| "writable cod (VRecord ms) =
     ((\<forall>m \<in> set ms. \<not> lone_surrogate (fst m) \<and> writable cod (snd m)) \<and> distinct (map fst ms))"
| "writable cod v = writable_leaf cod v"

text \<open>The unsigned integers in a value, keys included, that are not of 64 bits.\<close>

fun wide_uints :: "cel_value \<Rightarrow> int set" where
  "wide_uints (VUint i) = (if 0 \<le> i \<and> i \<le> MAX_UINT then {} else {i})"
| "wide_uints (VList vs) = (\<Union>v \<in> set vs. wide_uints v)"
| "wide_uints (VMap es) = (\<Union>e \<in> set es. wide_uints (fst (snd e)) \<union> wide_uints (snd (snd e)))"
| "wide_uints (VRecord ms) = (\<Union>m \<in> set ms. wide_uints (snd m))"
| "wide_uints v = {}"

text \<open>The value domain itself: as above, with every integer, signed or not, of 64 bits.\<close>

definition domain_key :: "cel_value \<Rightarrow> bool" where
  "domain_key key =
     (case key of
        VString s \<Rightarrow> \<not> lone_surrogate s
      | VBool b \<Rightarrow> True
      | VInt i \<Rightarrow> MIN_INT \<le> i \<and> i \<le> MAX_INT
      | VUint i \<Rightarrow> 0 \<le> i \<and> i \<le> MAX_UINT
      | _ \<Rightarrow> False)"

fun of_domain :: "members_codec \<Rightarrow> cel_value \<Rightarrow> bool" where
  "of_domain cod (VUint i) = (0 \<le> i \<and> i \<le> MAX_UINT)"
| "of_domain cod (VList vs) = (\<forall>v \<in> set vs. of_domain cod v)"
| "of_domain cod (VMap es) =
     ((\<forall>e \<in> set es. domain_key (fst (snd e)) \<and> of_domain cod (snd (snd e))) \<and> distinct (map (\<lambda>e. frameKey (fst (snd e))) es))"
| "of_domain cod (VRecord ms) =
     ((\<forall>m \<in> set ms. \<not> lone_surrogate (fst m) \<and> of_domain cod (snd m)) \<and> distinct (map fst ms))"
| "of_domain cod v = writable_leaf cod v"

lemma domain_key_iff: "domain_key key \<longleftrightarrow> writable_key key \<and> wide_uints key = {}"
  by (cases key) (auto simp: domain_key_def writable_key_def)

lemma of_domain_iff: "of_domain cod v \<longleftrightarrow> writable cod v \<and> wide_uints v = {}"
proof (induction cod v rule: of_domain.induct)
  case (3 cod es)
  have "(\<forall>e \<in> set es. domain_key (fst (snd e)) \<and> of_domain cod (snd (snd e))) \<longleftrightarrow>
      (\<forall>e \<in> set es. writable_key (fst (snd e)) \<and> writable cod (snd (snd e)) \<and> wide_uints (fst (snd e)) = {} \<and> wide_uints (snd (snd e)) = {})"
    using 3 domain_key_iff by auto
  then show ?case by auto
next
  case (4 cod ms)
  then show ?case by auto
qed (auto simp: writable_leaf_def)

lemma writable_entries:
  assumes "frame_entries v = Some es"
  shows "writable cod v \<longleftrightarrow> (\<forall>e \<in> set es. writable_key (fst e) \<and> writable cod (snd e)) \<and> distinct (map (\<lambda>e. frameKey (fst e)) es)"
proof (cases v)
  case (VRecord ms)
  have "distinct (map (\<lambda>m. Some (KeyText (fst m))) ms) = distinct (map fst ms)" by (auto simp: distinct_map inj_on_def)
  moreover have "es = map (\<lambda>m. (VString (fst m), snd m)) ms" using assms VRecord by simp
  ultimately show ?thesis using VRecord by (simp add: writable_key_def o_def)
next
  case (VMap ms)
  moreover have "es = map snd ms" using assms VMap by simp
  ultimately show ?thesis by (simp add: o_def)
qed (use assms in auto)

lemma write_leaf_writable: "(\<exists>j. write_leaf cod path v = Inr j) \<longleftrightarrow> writable_leaf cod v"
  by (cases v) (auto simp: write_leaf_def writable_leaf_def writeFrameText_def writeInt_def writeTimestamp_def writeDuration_def
      durationNanos_def not_le not_less)

lemma writeMapKey_writable: "(\<exists>k. writeMapKey path key = Inr k) \<longleftrightarrow> writable_key key"
  by (cases key) (auto simp: writeMapKey_def writable_key_def writeFrameText_def writeInt_def not_le not_less)

lemma writable_leaf_only: "frame_entries v = None \<Longrightarrow> (\<And>vs. v \<noteq> VList vs) \<Longrightarrow> writable cod v = writable_leaf cod v"
  by (cases v) auto

lemma write_writable:
  "(\<exists>j. write_value cod path v = Inr j) \<longleftrightarrow> writable cod v"
  "(\<exists>xs. write_list cod path i vs = Inr xs) \<longleftrightarrow> (\<forall>v \<in> set vs. writable cod v)"
  "(\<exists>ts. write_entries cod path seen es = Inr ts) \<longleftrightarrow>
     (\<forall>e \<in> set es. writable_key (fst e) \<and> writable cod (snd e) \<and> frameKey (fst e) \<notin> Some ` set seen) \<and>
     distinct (map (\<lambda>e. frameKey (fst e)) es)"
proof (induction cod path v and cod path i vs and cod path seen es rule: write_value_write_list_write_entries.induct)
  case (1 cod path v)
  show ?case
  proof (cases "frame_entries v")
    case (Some es)
    have "(\<exists>j. write_value cod path v = Inr j) \<longleftrightarrow> (\<exists>ts. write_entries cod path [] es = Inr ts)"
      unfolding write_value.simps [of cod path v] Some option.case by (cases "write_entries cod path [] es") auto
    then show ?thesis using 1(2) [OF Some] writable_entries [OF Some] by auto
  next
    case None
    show ?thesis
    proof (cases "\<exists>vs. v = VList vs")
      case True
      then obtain vs where vs: "v = VList vs" by blast
      have "(\<exists>j. write_value cod path v = Inr j) \<longleftrightarrow> (\<exists>xs. write_list cod path 0 vs = Inr xs)"
        using vs by (cases "write_list cod path 0 vs") (auto simp: write_value.simps)
      then show ?thesis using 1(1) [OF None vs] vs by simp
    next
      case False
      then have "write_value cod path v = write_leaf cod path v" using None by (auto simp: write_value.simps split: cel_value.splits)
      then show ?thesis using write_leaf_writable writable_leaf_only [OF None] False by metis
    qed
  qed
next
  case (3 cod path i v vs)
  then show ?case
    by (cases "write_value cod (path @ [digits_of i]) v"; cases "write_list cod path (Suc i) vs") auto
next
  case (5 cod path seen key v es)
  have step: "(\<exists>ts. write_entries cod path seen ((key, v) # es) = Inr ts) \<longleftrightarrow>
      (\<exists>k. writeMapKey path key = Inr k) \<and> (\<exists>id. frameKey key = Some id \<and> id \<notin> set seen \<and>
        (\<exists>j. write_value cod (path @ [key_step key]) v = Inr j) \<and> (\<exists>ts. write_entries cod path (id # seen) es = Inr ts))"
    by (auto split: sum.splits option.splits if_splits)
  show ?case
  proof (cases "writable_key key")
    case True
    then obtain id where "frameKey key = Some id" by (cases key) (auto simp: writable_key_def)
    moreover obtain k where "writeMapKey path key = Inr k" using writeMapKey_writable [of path key] True by blast
    ultimately have id: "frameKey key = Some id" "writeMapKey path key = Inr k" by auto
    show ?thesis
    proof (cases "id \<in> set seen")
      case False
      note value_iff = 5(1) [OF refl id(2,1) False]
      show ?thesis
      proof (cases "write_value cod (path @ [key_step key]) v")
        case (Inr j)
        from 5(2) [OF refl id(2,1) False this] show ?thesis
          unfolding step using id False value_iff Inr True by (auto simp: image_iff)
      next
        case (Inl e)
        then show ?thesis unfolding step using value_iff by auto
      qed
    qed (use step id in \<open>auto simp: image_iff\<close>)
  qed (use step writeMapKey_writable in auto)
qed auto


section \<open>What a frame that is read can hold\<close>

text \<open>The trees the host's parser makes: its doubles are doubles, and an object has each name once.\<close>

fun host_json :: "json \<Rightarrow> bool" where
  "host_json (JNumber d) = double_wf d"
| "host_json (JArray xs) = (\<forall>x \<in> set xs. host_json x)"
| "host_json (JObject ms) = (distinct (map fst ms) \<and> (\<forall>m \<in> set ms. host_json (snd m)))"
| "host_json _ = True"

fun numbers_ok :: "json \<Rightarrow> bool" where
  "numbers_ok (JNumber d) = double_wf d"
| "numbers_ok (JArray xs) = (\<forall>x \<in> set xs. numbers_ok x)"
| "numbers_ok (JObject ms) = (\<forall>m \<in> set ms. numbers_ok (snd m))"
| "numbers_ok _ = True"

lemma json_number_wf: "json_number t = Some (d, r) \<Longrightarrow> double_wf d"
  using number_of_text_wf by (auto simp: json_number_def Let_def split: if_splits)

lemma json_value_numbers:
  "json_value t = Some (j, r) \<Longrightarrow> numbers_ok j"
  "json_elements t = Some (xs, r) \<Longrightarrow> \<forall>x \<in> set xs. numbers_ok x"
  "json_members t = Some (ms, r) \<Longrightarrow> \<forall>m \<in> set ms. numbers_ok (snd m)"
proof (induction t and t and t arbitrary: j r and xs r and ms r rule: json_value_json_elements_json_members.induct)
  case (1 t)
  show ?case
  proof (cases "json_skip t")
    case Nil
    with 1(3) show ?thesis by (simp add: json_value.simps)
  next
    case (Cons c cs)
    show ?thesis using 1(3) 1(1,2) [OF Cons] Cons
      by (auto simp: json_value.simps [of t] json_number_wf split: if_splits option.splits)
  qed
next
  case (2 t)
  then show ?case by (auto simp: json_elements.simps [of t] split: option.splits if_splits)
next
  case (3 t)
  then show ?case by (auto simp: json_members.simps [of t] split: option.splits if_splits) fastforce
qed

lemma set_member_all: "\<forall>m \<in> set ms. P (snd m) \<Longrightarrow> P v \<Longrightarrow> \<forall>m \<in> set (set_member name v ms). P (snd m)"
  by (induction name v ms rule: set_member.induct) auto

lemma host_members_all:
  assumes "\<forall>m \<in> set ms. P (snd m)"
  shows "\<forall>m \<in> set (host_members ms). P (snd m)" "distinct (map fst (host_members ms))"
proof -
  have "(\<forall>m \<in> set (fold (\<lambda>m. set_member (fst m) (snd m)) ms acc). P (snd m)) \<and>
      distinct (map fst (fold (\<lambda>m. set_member (fst m) (snd m)) ms acc))"
    if "\<forall>m \<in> set acc. P (snd m)" "distinct (map fst acc)" for acc
    using assms that
  proof (induction ms arbitrary: acc)
    case (Cons m ms)
    show ?case using Cons.IH [of "set_member (fst m) (snd m) acc"] Cons.prems set_member_all [of acc P "snd m" "fst m"]
        set_member_distinct [of acc "fst m" "snd m"] by simp
  qed simp
  from this [of "[]"] show "\<forall>m \<in> set (host_members ms). P (snd m)" "distinct (map fst (host_members ms))"
    by (simp_all add: host_members_def)
qed

lemma host_tree_json: "numbers_ok j \<Longrightarrow> host_json (host_tree j)"
proof (induction j)
  case (JObject ms)
  have "host_json (host_tree (snd m))" if "m \<in> set ms" for m
    using JObject.IH [OF that, of "snd m"] JObject.prems that by (cases m) auto
  then have "\<forall>m \<in> set (map (\<lambda>m. (fst m, host_tree (snd m))) ms). host_json (snd m)" by auto
  from host_members_all [OF this] show ?case by simp
qed auto

lemma json_read_host: "json_read t = Some j \<Longrightarrow> host_json (host_tree j)"
  using json_value_numbers(1) host_tree_json by (fastforce simp: json_read_def split: option.splits if_splits)

text \<open>The text of a value type with members is Unicode text.\<close>

definition members_text :: "members_codec \<Rightarrow> bool" where
  "members_text cod \<longleftrightarrow> (\<forall>brand n. brand \<in> set (m_brands cod) \<longrightarrow> \<not> lone_surrogate (m_text cod brand n))"

lemma byte_range:
  assumes "w < 64" "x < (64::nat)"
  shows "4 * w + x div 16 < 256" "16 * (w mod 16) + x div 4 < 256" "64 * (w mod 4) + x < 256"
proof -
  have "x div 16 < 4" "x div 4 < 16" "w mod 16 < 16" "w mod 4 < 4" using assms by auto
  then show "4 * w + x div 16 < 256" "16 * (w mod 16) + x div 4 < 256" "64 * (w mod 4) + x < 256" using assms by linarith+
qed

lemma base64_bytes_range: "list_all (\<lambda>x. x < 64) ns \<Longrightarrow> list_all (\<lambda>b. b < 256) (base64_bytes ns)"
  by (induction ns rule: base64_bytes.induct) (simp_all add: byte_range)

lemma base64_decode_range:
  assumes "base64_decode text = Some bs"
  shows "list_all (\<lambda>b. b < 256) bs"
proof -
  have unit: "n < 64" if "base64_value c = Some n" for c n using that by (auto simp: base64_value_def split: if_splits)
  have units: "list_all (\<lambda>c. base64_value c \<noteq> None) text" "bs = base64_bytes (map (\<lambda>c. the (base64_value c)) text)"
    using assms by (auto simp: base64_decode_def split: if_splits)
  then have "list_all (\<lambda>x. x < 64) (map (\<lambda>c. the (base64_value c)) text)" using unit by (auto simp: list_all_iff)
  then show ?thesis unfolding units(2) by (rule base64_bytes_range)
qed

lemma celTimestamp_ok: "celTimestamp seconds nanos = Inr t \<Longrightarrow> timestamp_ok t"
  using trunc_mod_bound [of NANOS_PER_SECOND nanos]
  by (auto simp: celTimestamp_def Let_def timestamp_ok_def split: if_splits)

lemma rfc3339_decode_ok: "rfc3339_decode text = Some t \<Longrightarrow> timestamp_ok t"
  by (auto simp: rfc3339_decode_def parseTimestamp_def Let_def dest: celTimestamp_ok split: if_splits option.splits sum.splits prod.splits)

lemma duration_decode_ok:
  assumes "duration_decode text = Some d"
  shows "\<bar>d_nanos d\<bar> \<le> 9007199254740991 \<and> \<bar>durationNanos d\<bar> div NANOS_PER_SECOND \<le> MAX_DURATION_SECONDS"
proof -
  obtain n where n: "d = Duration (trunc_div n NANOS_PER_SECOND) (trunc_mod n NANOS_PER_SECOND)"
    "\<bar>trunc_div n NANOS_PER_SECOND\<bar> \<le> MAX_DURATION_SECONDS"
    using assms by (auto simp: duration_decode_def Let_def split: sum.splits if_splits)
  have "\<bar>trunc_div n NANOS_PER_SECOND\<bar> = \<bar>n\<bar> div NANOS_PER_SECOND"
    by (auto simp: trunc_div_def abs_mult sgn_if)
  moreover have "durationNanos d = n" using trunc_div_mod [of n NANOS_PER_SECOND] by (simp add: n(1) durationNanos_def)
  moreover have "\<bar>d_nanos d\<bar> < NANOS_PER_SECOND" using trunc_mod_bound [of NANOS_PER_SECOND n] by (simp add: n(1))
  ultimately show ?thesis using n(2) by (simp add:)
qed

lemma read_scalar_writable:
  assumes "readScalar g cod p tag text = Inr v" "tag \<in> set (TYPED_FRAME_TAGS cod)" "tag \<noteq> js ''map''" "members_text cod"
  shows "writable cod v \<and> storable v"
proof -
  have instant: "writable cod (VTimestamp t) \<and> storable (VTimestamp t)" if "rfc3339_decode text = Some t" for t
    using rfc3339_decode_ok [OF that] rfc3339_reads_back [OF rfc3339_decode_ok [OF that]] by (auto simp: writable_leaf_def timestamp_ok_def)
  have millis: "rfc3339_decode text = Some t" if "millis_decode text = Some t" for t using that by (simp add: millis_decode_def split: if_splits)
  have uint: "0 \<le> i" if "UINT_TEXT text = Some i" for i using that by (auto simp: UINT_TEXT_def split: if_splits)
  have double: "double_wf d" if "map_of TAGGED_DOUBLES text = Some d" for d
    using that by (auto simp: TAGGED_DOUBLES_def double_canonical_def split: if_splits)
  have brand: "tag \<in> set (m_brands cod)" if "tag \<notin> set DOMAIN_TAGS" using that assms(2) by (simp add: TYPED_FRAME_TAGS_def)
  show ?thesis using assms(1,3,4) brand instant millis uint double duration_decode_ok base64_decode_range
    by (auto simp: readScalar_def readCanonical_def DOMAIN_TAGS_def members_text_def writable_leaf_def not_less
        split: if_splits option.splits)
qed

lemma map_entries_flat: "map_entries acc flat = Inr es \<Longrightarrow> map snd es = map snd acc @ flat"
  by (induction acc flat rule: map_entries.induct) (auto split: if_splits option.splits)

lemma readString_ok: "readString p text = Inr s \<Longrightarrow> s = text \<and> \<not> lone_surrogate s"
  by (simp add: readString_def split: if_splits)

lemma writable_with_key: "writable cod v \<Longrightarrow> frameKey v \<noteq> None \<Longrightarrow> writable_key v"
  by (cases v) (auto simp: writable_leaf_def writable_key_def)

lemma read_map_writable:
  assumes "read_map p flat = Inr v"
    "\<forall>e \<in> set flat. writable_key (fst e) \<and> storable (fst e) \<and> writable cod (snd e) \<and> storable (snd e)"
    "distinct (map (\<lambda>e. frameKey (fst e)) flat)"
  shows "writable cod v \<and> storable v"
proof -
  obtain es where es: "map_entries [] flat = Inr es" "v = VMap es"
    using assms(1) by (auto simp: read_map_def celMapFromEntries_def split: if_splits sum.splits)
  have flat: "map snd es = flat" using map_entries_flat [OF es(1)] by simp
  have entry: "snd e \<in> set flat" if "e \<in> set es" for e using that unfolding flat [symmetric] by simp
  have "distinct (map (\<lambda>e. frameKey (fst (snd e))) es)" using assms(3) unfolding flat [symmetric] by (simp add: o_def)
  then show ?thesis using assms(2) entry unfolding es(2) by auto
qed

lemma read_writable:
  "readValue g cod p j = Inr v \<Longrightarrow> host_json j \<Longrightarrow> members_text cod \<Longrightarrow> writable cod v \<and> storable v"
  "read_items g cod p i ts = Inr vs \<Longrightarrow> \<forall>j \<in> set ts. host_json j \<Longrightarrow> members_text cod \<Longrightarrow>
     \<forall>v \<in> set vs. writable cod v \<and> storable v"
  "read_members g cod p ms = Inr rs \<Longrightarrow> \<forall>m \<in> set ms. host_json (snd m) \<Longrightarrow> members_text cod \<Longrightarrow>
     map fst rs = map fst ms \<and> (\<forall>r \<in> set rs. \<not> lone_surrogate (fst r) \<and> writable cod (snd r) \<and> storable (snd r))"
  "read_pairs g cod p i seen ts = Inr es \<Longrightarrow> \<forall>j \<in> set ts. host_json j \<Longrightarrow> members_text cod \<Longrightarrow>
     (\<forall>e \<in> set es. writable_key (fst e) \<and> storable (fst e) \<and> writable cod (snd e) \<and> storable (snd e) \<and>
        frameKey (fst e) \<notin> Some ` set seen) \<and> distinct (map (\<lambda>e. frameKey (fst e)) es)"
proof (induction g cod p j and g cod p i ts and g cod p ms and g cod p i seen ts
    arbitrary: v and vs and rs and es rule: readValue_read_items_read_members_read_pairs.induct)
  case (3 g cod path d)
  then show ?case by (auto simp: writable_leaf_def split: if_splits)
next
  case (4 g cod path s)
  then show ?case by (cases "readString path s") (auto simp: writable_leaf_def dest: readString_ok)
next
  case (5 g cod path xs)
  then show ?case by (cases "read_items g cod path 0 xs") auto
next
  case (6 g cod path ms)
  show ?case
  proof (cases "map_of ms TYPED_FRAME_TAG")
    case None
    then obtain rs where rs: "read_members g cod path ms = Inr rs" "v = VRecord rs"
      using 6 by (cases "read_members g cod path ms") auto
    then show ?thesis using 6(1) [OF None rs(1)] 6 by auto
  next
    case (Some tag)
    with 6(3) obtain t payload where t: "tag = JString t" "map_of ms (js ''value'') = Some payload" "length ms = 2"
      "t \<in> set (TYPED_FRAME_TAGS cod)"
      by (auto split: json.splits option.splits if_splits)
    have payload: "host_json payload" using map_of_SomeD [OF t(2)] 6(4) by fastforce
    show ?thesis
    proof (cases "t = js ''map''")
      case False
      then obtain s where "readScalar g cod (path @ [js ''value'']) t s = Inr v"
        using 6(3) Some t by (auto split: json.splits)
      then show ?thesis using read_scalar_writable t(4) False 6(5) by blast
    next
      case True
      then obtain ps flat where ps: "payload = JArray ps" "read_pairs g cod (path @ [js ''value'']) 0 [] ps = Inr flat"
          "read_map (path @ [js ''value'']) flat = Inr v"
        using 6(3) Some t by (auto split: json.splits sum.splits)
      have "(\<forall>e \<in> set flat. writable_key (fst e) \<and> storable (fst e) \<and> writable cod (snd e) \<and> storable (snd e)) \<and>
          distinct (map (\<lambda>e. frameKey (fst e)) flat)"
        using 6(2) [OF Some refl t(1,2) _ _ True ps(1,2)] t payload 6(5) ps(1) by auto
      then show ?thesis using read_map_writable [OF ps(3)] by blast
    qed
  qed
next
  case (8 g cod path i x xs)
  then show ?case by (auto split: sum.splits)
next
  case (10 g cod path name x ms)
  from 10(3) obtain key v rs' where step: "readString (path @ [keySegment name]) name = Inr key"
      "readValue g cod (path @ [keySegment name]) x = Inr v" "read_members g cod path ms = Inr rs'" "rs = (key, v) # rs'"
    by (auto split: sum.splits)
  from 10(1) [OF step(1,2)] 10(2) [OF step(1,2,3)] 10(4,5) readString_ok [OF step(1)] step(4) show ?case by auto
next
  case (12 g cod path i seen p ps)
  from 12(4) obtain x y key identity v es' where step: "p = JArray [x, y]"
      "readValue g cod (path @ [digits_of i, js ''0'']) x = Inr key" "frameKey key = Some identity" "identity \<notin> set seen"
      "readValue g cod (path @ [digits_of i, js ''1'']) y = Inr v" "read_pairs g cod path (Suc i) (identity # seen) ps = Inr es'"
      "es = (key, v) # es'"
    by (auto split: json.splits list.splits sum.splits option.splits if_splits)
  have trees: "host_json x" "host_json y" "\<forall>t \<in> set ps. host_json t" using 12(5) step(1) by auto
  note key = 12(1) [OF step(1) refl refl refl step(2) trees(1) 12(6)]
  note val = 12(2) [OF step(1) refl refl refl step(2,3,4,5) trees(2) 12(6)]
  note rest = 12(3) [OF step(1) refl refl refl step(2,3,4,5,6) trees(3) 12(6)]
  have "writable_key key" using writable_with_key key step(3) by auto
  then show ?case using key val rest step by (auto simp: image_iff)
qed (auto simp: writable_leaf_def)

text \<open>C21. Whatever text a frame is read from, the value read is one of the value domain, with every part in the range of
  its type and every key once: it has a frame of its own, so nothing is read that could not be written.\<close>

theorem decoded_values_are_typed:
  assumes "decodeTypedFrame cod g text = Inr v" "members_text cod"
  shows "writable cod v \<and> storable v"
proof -
  obtain raw where raw: "json_read text = Some raw" "readValue g cod [] (host_tree raw) = Inr v"
    using assms(1) by (auto simp: decodeTypedFrame_def split: if_splits option.splits)
  show ?thesis by (rule read_writable(1) [OF raw(2) json_read_host [OF raw(1)] assms(2)])
qed

lemma decoded_values_are_typed_witness: "writable no_members (canonical sample_value) \<and> storable (canonical sample_value)"
proof (rule decoded_values_are_typed)
  have "storable sample_value" by (simp add: sample_value_def MAX_UINT_def)
  from encoded_reads [OF sample_frame this no_members_ok]
  show "decodeTypedFrame no_members 2 (json_text sample_tree) = Inr (canonical sample_value)" .
qed (simp add: members_text_def no_members_def)

end
