(* ===== verification/Recorded_Value.thy ===== *)
theory Recorded_Value
  imports Frame_Domain Durable_Handle "HOL-Library.Multiset"
begin

text \<open>
  How the value of a step is recorded and read back (\<open>sdk/nodejs/src/recorded-value.ts\<close>, with
  \<open>assertJournalable\<close> of \<open>durable-run.ts\<close>): the typed frame under the version of its format, the members
  that hold nothing left out, and an entry of another version refused.
\<close>

section \<open>Absent members\<close>

definition is_host_object :: "cel_value \<Rightarrow> bool" where
  "is_host_object v =
     (case v of VNull \<Rightarrow> False | VBool _ \<Rightarrow> False | VString _ \<Rightarrow> False | VDouble _ \<Rightarrow> False | VInt _ \<Rightarrow> False | VUndefined \<Rightarrow> False
      | _ \<Rightarrow> True)"

text \<open>
  A plain object filled by assignment, \<open>copy[key] = member\<close>. Assigning \<open>__proto__\<close> sets the prototype when
  the member is an object or \<open>null\<close> and does nothing otherwise; with another prototype the copy is no longer a plain
  object.
\<close>

definition assigned_copy :: "(jstring \<times> cel_value) list \<Rightarrow> cel_value" where
  "assigned_copy ms =
     (case map_of ms (js ''__proto__'') of
        None \<Rightarrow> VRecord (host_members ms)
      | Some v \<Rightarrow>
          if is_host_object v then VForeign 0
          else VRecord (host_members (filter (\<lambda>m. fst m \<noteq> js ''__proto__'') ms)))"

fun withoutAbsentMembers :: "cel_value \<Rightarrow> cel_value" where
  "withoutAbsentMembers (VList vs) = VList (map withoutAbsentMembers vs)"
| "withoutAbsentMembers (VRecord ms) =
     assigned_copy (map (\<lambda>m. (fst m, withoutAbsentMembers (snd m))) (filter (\<lambda>m. snd m \<noteq> VUndefined) ms))"
| "withoutAbsentMembers v = v"

section \<open>What can be recorded\<close>

datatype unrecorded =
    LiveValue jstring
  | OutsideDomain "jstring list"
  | UnknownVersion nat
  | CorruptEntry

fun unrecorded_code :: "unrecorded \<Rightarrow> jstring" where
  "unrecorded_code (LiveValue _) = js ''ERR_DURABLE_UNJOURNALABLE_VALUE''"
| "unrecorded_code (OutsideDomain _) = js ''ERR_DURABLE_UNJOURNALABLE_VALUE''"
| "unrecorded_code (UnknownVersion _) = js ''ERR_DURABLE_ENTRY_UNDECODABLE''"
| "unrecorded_code CorruptEntry = js ''ERR_DURABLE_JOURNAL_CORRUPT''"

definition first_found :: "'a option list \<Rightarrow> 'a option" where
  "first_found xs = (case filter (\<lambda>x. x \<noteq> None) xs of [] \<Rightarrow> None | x # _ \<Rightarrow> x)"

text \<open>The first live handle in a value, found through plain lists and objects only.\<close>

fun findLiveValue :: "jstring list \<Rightarrow> cel_value \<Rightarrow> jstring option" where
  "findLiveValue live (VHost brand n) = (if brand \<in> set live then Some brand else None)"
| "findLiveValue live (VList vs) = first_found (map (findLiveValue live) vs)"
| "findLiveValue live (VRecord ms) = first_found (map (\<lambda>m. findLiveValue live (snd m)) ms)"
| "findLiveValue live _ = None"

definition assertJournalable :: "jstring list \<Rightarrow> members_codec \<Rightarrow> cel_value \<Rightarrow> unrecorded + jstring option" where
  "assertJournalable live cod v =
     (if v = VUndefined then Inr None
      else (case findLiveValue live v of
          Some name \<Rightarrow> Inl (LiveValue name)
        | None \<Rightarrow>
            (case encodeTypedFrame cod v of
               Inl (Unencodable p) \<Rightarrow> Inl (OutsideDomain p)
             | Inl _ \<Rightarrow> Inl (OutsideDomain [])
             | Inr frame \<Rightarrow> Inr (Some frame))))"

definition writeRecordedValue :: "jstring list \<Rightarrow> members_codec \<Rightarrow> cel_value \<Rightarrow> unrecorded + jstring option" where
  "writeRecordedValue live cod v = assertJournalable live cod (withoutAbsentMembers v)"

section \<open>Reading a record\<close>

definition RECORDED_VALUE_CODEC_VERSION :: nat where
  "RECORDED_VALUE_CODEC_VERSION = 2"

definition readsTypedFrameGeneration :: "nat \<Rightarrow> bool" where
  "readsTypedFrameGeneration version \<longleftrightarrow> version \<in> {1, 2}"

text \<open>
  What an entry holds is a value of the store, \<open>VUndefined\<close> when it holds none; the answer is \<open>None\<close> when no
  value was recorded.
\<close>

definition readRecordedValue :: "members_codec \<Rightarrow> nat option \<Rightarrow> cel_value \<Rightarrow> unrecorded + cel_value option" where
  "readRecordedValue cod version written =
     (case version of
        None \<Rightarrow> Inr (if written = VUndefined then None else Some written)
      | Some n \<Rightarrow>
          if \<not> readsTypedFrameGeneration n then Inl (UnknownVersion n)
          else if written = VUndefined then Inr None
          else (case written of
              VString frame \<Rightarrow> (case decodeTypedFrame cod n frame of Inr v \<Rightarrow> Inr (Some v) | Inl _ \<Rightarrow> Inl CorruptEntry)
            | _ \<Rightarrow> Inl CorruptEntry))"

text \<open>The refusal a caller sees: its code, and as data the run, the place and what was found there.\<close>

definition pointer :: "jstring list \<Rightarrow> jstring" where
  "pointer path = concat (map (\<lambda>s. 47 # concat (map (\<lambda>c. if c = 126 then [126, 48] else if c = 47 then [126, 49] else [c]) s)) path)"

definition host_number :: "nat \<Rightarrow> cel_value" where
  "host_number n = VDouble (round_double False n 1)"

definition recorded_failure :: "(unrecorded \<Rightarrow> jstring) \<Rightarrow> jstring \<Rightarrow> jstring \<Rightarrow> unrecorded \<Rightarrow> failure" where
  "recorded_failure wording run path e =
     invokeError (unrecorded_code e) (wording e)
       (VRecord ([(js ''run'', VString run), (js ''path'', VString path)] @
          (case e of
             LiveValue name \<Rightarrow> [(js ''valueType'', VString name)]
           | OutsideDomain p \<Rightarrow> [(js ''valuePath'', VString (pointer p))]
           | UnknownVersion n \<Rightarrow> [(js ''version'', host_number n), (js ''reads'', VList [host_number 1, host_number 2])]
           | CorruptEntry \<Rightarrow> [])))"

text \<open>The local backend's use of the codec: an entry holds the frame as text, beside the version.\<close>

definition recording_backend :: "('s, cel_value) journal \<Rightarrow> jstring \<Rightarrow> jstring list \<Rightarrow> members_codec \<Rightarrow> (unrecorded \<Rightarrow> jstring) \<Rightarrow>
    (nat \<Rightarrow> bool) \<Rightarrow> (jstring \<Rightarrow> jstring \<Rightarrow> jstring) \<Rightarrow> ('s, cel_value) backend" where
  "recording_backend J run live cod wording inside refusals =
     \<lparr>b_journal = J, b_run = run,
      b_write = (\<lambda>path v. map_sum (recorded_failure wording run path) (map_option VString) (writeRecordedValue live cod v)),
      b_read = (\<lambda>path version frame. map_sum (recorded_failure wording run path) (\<lambda>v. case v of Some w \<Rightarrow> w | None \<Rightarrow> VUndefined)
        (readRecordedValue cod version (case frame of Some w \<Rightarrow> w | None \<Rightarrow> VUndefined))),
      b_version = RECORDED_VALUE_CODEC_VERSION, b_writes_inside = inside, b_wording = refusals\<rparr>"

section \<open>A record is read back\<close>

lemma absent_only: "withoutAbsentMembers v = VUndefined \<longleftrightarrow> v = VUndefined"
  by (cases v) (auto simp: assigned_copy_def split: option.splits)

lemma written_frame:
  assumes "writeRecordedValue live cod v = Inr frame"
  shows "if v = VUndefined then frame = None
    else \<exists>t. frame = Some t \<and> encodeTypedFrame cod (withoutAbsentMembers v) = Inr t"
  using assms absent_only [of v]
  by (auto simp: writeRecordedValue_def assertJournalable_def split: if_splits option.splits sum.splits frame_error.splits)

lemma recorded_reads:
  assumes "writeRecordedValue live cod v = Inr frame" "storable (withoutAbsentMembers v)" "members_ok cod"
  shows "readRecordedValue cod (Some RECORDED_VALUE_CODEC_VERSION) (case frame of Some t \<Rightarrow> VString t | None \<Rightarrow> VUndefined) =
    Inr (if v = VUndefined then None else Some (canonical (withoutAbsentMembers v)))"
  using written_frame [OF assms(1)] encoded_reads [OF _ assms(2,3)]
  by (auto simp: readRecordedValue_def RECORDED_VALUE_CODEC_VERSION_def readsTypedFrameGeneration_def split: if_splits)

text \<open>What the record means to keep of a value: every member that holds something.\<close>

fun present_only :: "cel_value \<Rightarrow> cel_value" where
  "present_only (VList vs) = VList (map present_only vs)"
| "present_only (VRecord ms) = VRecord (map (\<lambda>m. (fst m, present_only (snd m))) (filter (\<lambda>m. snd m \<noteq> VUndefined) ms))"
| "present_only v = v"

text \<open>An object names each member once; and none that holds something is named \<open>__proto__\<close>.\<close>

fun plain_members :: "cel_value \<Rightarrow> bool" where
  "plain_members (VList vs) = (\<forall>v \<in> set vs. plain_members v)"
| "plain_members (VRecord ms) = (distinct (map fst ms) \<and>
     (\<forall>m \<in> set ms. snd m \<noteq> VUndefined \<longrightarrow> fst m \<noteq> js ''__proto__'' \<and> plain_members (snd m)))"
| "plain_members v = True"

lemma sort_key_same_set:
  assumes "distinct (map f xs)" "distinct (map f ys)" "set xs = set ys"
  shows "sort_key f xs = sort_key f ys"
proof (rule sort_key_inj_key_eq)
  have "distinct xs" "distinct ys" using assms(1,2) by (auto simp: distinct_map)
  with assms(3) show "mset xs = mset (sort_key f ys)" by (simp add: set_eq_iff_mset_eq_distinct [symmetric])
  show "inj_on f (set xs)" using assms(1) by (simp add: distinct_map)
qed simp

lemma key_text_inj: "inj_on (\<lambda>n. json_text (key_json (VString n))) A"
proof (rule inj_onI)
  fix a b assume "json_text (key_json (VString a)) = json_text (key_json (VString b))"
  then have "json_read (json_text (JString a)) = json_read (json_text (JString b))" by (simp add: key_json_def)
  then show "a = b" by (simp add: json_read_text del: json_text.simps)
qed

text \<open>The order in which an object walks its members is not kept.\<close>

lemma canonical_members:
  assumes "distinct (map fst ms)" "distinct (map fst ns)" "set ms = set ns"
  shows "canonical_map (map (\<lambda>m. (VString (fst m), snd m)) ms) = canonical_map (map (\<lambda>m. (VString (fst m), snd m)) ns)"
proof -
  have "sort_key fst ms = sort_key fst ns" by (rule sort_key_same_set [OF assms])
  moreover have "distinct (map (\<lambda>m. json_text (key_json (VString (fst m)))) ks)" if "distinct (map fst ks)" for ks :: "(jstring \<times> cel_value) list"
    using that key_text_inj by (auto simp: distinct_map intro: comp_inj_on [unfolded o_def] inj_on_subset)
  then have "sort_key (\<lambda>m. json_text (key_json (VString (fst m)))) ms = sort_key (\<lambda>m. json_text (key_json (VString (fst m)))) ns"
    using assms by (intro sort_key_same_set) auto
  ultimately show ?thesis using assms(3) by (simp add: canonical_map_def sort_key_map o_def list_all_iff)
qed

lemma canonical_without:
  "plain_members v \<Longrightarrow> canonical (withoutAbsentMembers v) = canonical (present_only v)"
proof (induction v rule: present_only.induct)
  case (2 ms)
  let ?kept = "filter (\<lambda>m. snd m \<noteq> VUndefined) ms"
  let ?copy = "map (\<lambda>m. (fst m, withoutAbsentMembers (snd m))) ?kept"
  have names: "distinct (map fst ?copy)" using 2(2) by (simp add: o_def distinct_map_filter)
  have "js ''__proto__'' \<notin> fst ` set ?copy" using 2(2) by force
  then have "map_of ?copy (js ''__proto__'') = None" by (simp only: map_of_eq_None_iff not_False_eq_True)
  then have copy: "withoutAbsentMembers (VRecord ms) = VRecord (host_members ?copy)"
    by (simp only: withoutAbsentMembers.simps assigned_copy_def option.case)
  have "canonical (VRecord (host_members ?copy)) = canonical_map (map (\<lambda>m. (VString (fst m), snd m)) (map (\<lambda>m. (fst m, canonical (snd m))) (host_members ?copy)))"
    by (simp add: o_def)
  also have "\<dots> = canonical_map (map (\<lambda>m. (VString (fst m), snd m)) (map (\<lambda>m. (fst m, canonical (snd m))) ?copy))"
    using host_members_set [OF names] host_members_distinct [OF names] names by (intro canonical_members) (simp_all add: o_def image_image)
  also have "map (\<lambda>m. (fst m, canonical (snd m))) ?copy = map (\<lambda>m. (fst m, canonical (present_only (snd m)))) ?kept"
    using 2 by auto
  finally show ?case unfolding copy by (simp add: o_def)
qed auto

lemma storable_without: "storable v \<Longrightarrow> storable (withoutAbsentMembers v)"
proof (induction v rule: withoutAbsentMembers.induct)
  case (2 ms)
  let ?copy = "map (\<lambda>m. (fst m, withoutAbsentMembers (snd m))) (filter (\<lambda>m. snd m \<noteq> VUndefined) ms)"
  have "\<forall>m \<in> set ?copy. storable (snd m)" using 2 by auto
  then have "\<forall>m \<in> set (host_members ns). storable (snd m)" if "set ns \<subseteq> set ?copy" for ns
    using that by (intro host_members_all(1)) auto
  from this [of ?copy] this [of "filter (\<lambda>m. fst m \<noteq> js ''__proto__'') ?copy"] show ?case
    by (auto simp: assigned_copy_def split: option.split)
qed auto



text \<open>A record written under a format this runtime does not know is refused before anything of it is read.\<close>

lemma unknown_version_refused:
  "\<not> readsTypedFrameGeneration n \<Longrightarrow> readRecordedValue cod (Some n) written = Inl (UnknownVersion n)"
  by (simp add: readRecordedValue_def)

text \<open>
  A member named \<open>__proto__\<close> is an ordinary key of a frame, but the copy made before the frame is written loses
  it: what is recorded is a value without it, or with an object there nothing can be recorded.
\<close>

lemma proto_member_is_lost:
  "encodeTypedFrame cod (VRecord [(js ''__proto__'', VBool True)]) = Inr (json_text (JObject [(js ''__proto__'', JBool True)])) \<and>
   writeRecordedValue live cod (VRecord [(js ''__proto__'', VBool True)]) = Inr (Some (json_text (JObject []))) \<and>
   writeRecordedValue live cod (VRecord [(js ''__proto__'', VList [])]) = Inl (OutsideDomain [])"
  by (simp add: encodeTypedFrame_def write_value.simps writeMapKey_def writeFrameText_def write_leaf_def frame_map_def TYPED_FRAME_TAG_def
      writeRecordedValue_def assertJournalable_def assigned_copy_def is_host_object_def host_members_def first_found_def)

lemma wide_uint_makes_a_run_unreadable:
  assumes "MAX_UINT < i"
  shows "\<exists>frame. writeRecordedValue live cod (VUint i) = Inr (Some frame) \<and>
    readRecordedValue cod (Some RECORDED_VALUE_CODEC_VERSION) (VString frame) = Inl CorruptEntry"
  using wide_uint_is_written_but_not_read [OF assms, of cod]
  by (simp add: writeRecordedValue_def assertJournalable_def readRecordedValue_def readsTypedFrameGeneration_def RECORDED_VALUE_CODEC_VERSION_def)

text \<open>
  A step that is executed answers what its entry will answer when the run is replayed: the value as it is read back, not the
  value as it was produced.
\<close>

lemma write_entry_codec:
  assumes contract: "durable_journal J ok entries_of record_of claim_of stores_time due_after wakes"
    and B: "B = recording_backend J run live cod wording inside refusals" and st: "in_step ok entries_of record_of B st" "recorded st path = None"
    and v: "storable (withoutAbsentMembers v)" "members_ok cod"
    and w: "write_entry B path which decision target v st = (Inr w, st')"
  shows "w = (if v = VUndefined then VUndefined else canonical (withoutAbsentMembers v))"
    and "\<exists>r. recorded st' path = Some r \<and> re_value r = w"
proof -
  let ?es = "entries_of (store st) (b_run B)"
  obtain frame where frame: "writeRecordedValue live cod v = Inr frame" "b_write B path v = Inr (map_option VString frame)"
    using w by (cases "writeRecordedValue live cod v") (auto simp: write_entry_def B recording_backend_def)
  let ?e = "recordEntry B path which decision target (map_option VString frame)"
  have ok: "ok (store st)" and ex: "exact B ?es (recorded st)" using st(1) by (simp_all add: in_step_def)
  have J: "b_journal B = J" by (simp add: B recording_backend_def)
  from durable_journal.append_law [OF contract ok, of "b_run B" ?e] obtain s'
    where app: "j_append J (b_run B) ?e (store st) = (Inr (stored_entry ?es ?e), s')" by auto
  obtain r0 where "replayed_of B (stored_entry ?es ?e) = Inr r0"
    using w frame(2) app J by (auto simp: write_entry_def split: sum.splits)
  then have "entry_at path ?es = None"
    using exact_at(2) [OF ex, of path] st(2) by (cases "entry_at path ?es") (auto simp: stored_entry_def recordEntry_def)
  then have "stored_entry ?es ?e = ?e" by (simp add: stored_entry_def recordEntry_def)
  then have s': "j_append J (b_run B) ?e (store st) = (Inr ?e, s')" using app by simp
  let ?w = "if v = VUndefined then VUndefined else canonical (withoutAbsentMembers v)"
  have "(case map_option VString frame of Some w \<Rightarrow> w | None \<Rightarrow> VUndefined) = (case frame of Some t \<Rightarrow> VString t | None \<Rightarrow> VUndefined)"
    by (simp split: option.split)
  then have "b_read B path (Some (b_version B)) (map_option VString frame) = Inr ?w"
    using recorded_reads [OF frame(1) v] by (simp add: B recording_backend_def split: if_splits)
  then obtain r where r: "replayed_of B ?e = Inr r" "re_value r = ?w"
    by (auto simp: replayed_of_def recordedValue_def recordEntry_def)
  have "w = re_value r" "recorded st' path = Some r" using w frame(2) s' r(1) J by (auto simp: write_entry_def)
  with r(2) show "w = ?w" "\<exists>r. recorded st' path = Some r \<and> re_value r = w" by auto
qed

end
