(* ===== verification/Durable_Replay.thy ===== *)
theory Durable_Replay
  imports Step_Engine Journal_File Recorded_Value
begin

text \<open>
  What the replay seam, the handle, the engine and a journal give together: a body that is executed keeps
  its handle in step with its journal, a run that completed answers the same from its journal alone, and
  where neither holds: a failure that was caught is not recorded, and a park between two attempts is due
  at once.
\<close>

section \<open>Fuel\<close>

fun without_loops :: "('e, 't) step \<Rightarrow> bool" where
  "without_loops (IfStep _ _ body branches others) =
     ((\<forall>s \<in> set body. without_loops s) \<and> (\<forall>b \<in> set branches. \<forall>ss \<in> Basic_BNFs.snds b. \<forall>s \<in> set ss. without_loops s) \<and>
      (\<forall>ss \<in> set_option others. \<forall>s \<in> set ss. without_loops s))"
| "without_loops (WhileStep _ _ _) = False"
| "without_loops (SwitchStep _ _ cases others) =
     ((\<forall>b \<in> set cases. \<forall>ss \<in> Basic_BNFs.snds b. \<forall>s \<in> set ss. without_loops s) \<and>
      (\<forall>ss \<in> set_option others. \<forall>s \<in> set ss. without_loops s))"
| "without_loops (TryStep _ _ body catch_steps finally_steps) =
     ((\<forall>s \<in> set body. without_loops s) \<and> (\<forall>ss \<in> set_option catch_steps. \<forall>s \<in> set ss. without_loops s) \<and>
      (\<forall>ss \<in> set_option finally_steps. \<forall>s \<in> set ss. without_loops s))"
| "without_loops _ = True"

fun task_without_loops :: "('e, 't) task \<Rightarrow> bool" where
  "task_without_loops (Steps ss) = (\<forall>s \<in> set ss. without_loops s)"
| "task_without_loops (Turns _ _ _) = False"
| "task_without_loops (Branches branches others _) =
     ((\<forall>b \<in> set branches. \<forall>s \<in> set (snd b). without_loops s) \<and> (\<forall>ss \<in> set_option others. \<forall>s \<in> set ss. without_loops s))"

text \<open>A computation that always answers.\<close>

definition answers :: "('s, 'w, 'a) comp \<Rightarrow> bool" where
  "answers m \<longleftrightarrow> (\<forall>b. m b \<noteq> None)"

lemma answers_basic: "answers skip" "answers (raise e)" "answers (publish i v)" "answers (lift_act f)"
  by (auto simp: answers_def skip_def raise_def publish_def lift_act_def split: prod.splits)

lemma answers_settle: "answers m \<Longrightarrow> (\<And>e. answers (h e)) \<Longrightarrow> (\<And>a. answers (k a)) \<Longrightarrow> answers (settle m h k)"
  by (auto simp: answers_def settle_def split: option.splits sum.splits)

lemma answers_andThen: "answers m \<Longrightarrow> (\<And>a. answers (k a)) \<Longrightarrow> answers (andThen m k)"
  unfolding andThen_def by (intro answers_settle answers_basic)

lemma answers_leaves:
  "answers (decide ctx path which compute)" "answers (decide_predicate ctx x cond path which site)"
  "answers (executeInvokeStep ctx x i c target inputs retry path)"
  by (auto simp: decide_def decide_predicate_def answers_basic answers_def executeInvokeStep_def with_backend_def guard_step_def
      andThen_def settle_def skip_def publish_def lift_act_def raise_def split: option.splits sum.splits prod.splits)

lemma answers_if: "answers m \<Longrightarrow> answers m' \<Longrightarrow> answers (\<lambda>b. if P b then m b else m' b)"
  by (simp add: answers_def)

lemma answers_optional: "(\<And>ss. body = Some ss \<Longrightarrow> answers (rec (Steps ss) x path)) \<Longrightarrow> answers (optional_steps rec body x path)"
  by (cases body) (simp_all add: optional_steps_def answers_basic)

lemma answers_try:
  assumes rec: "\<And>x path. answers (rec (Steps body) x path)"
    and caught: "\<And>ss x path. catch_steps = Some ss \<Longrightarrow> answers (rec (Steps ss) x path)"
    and ended: "\<And>ss x path. finally_steps = Some ss \<Longrightarrow> answers (rec (Steps ss) x path)"
  shows "answers (executeTryBody ctx rec label body catch_steps finally_steps x path)"
proof (cases catch_steps)
  case None
  show ?thesis unfolding executeTryBody_def Let_def None option.case
    by (intro answers_settle answers_if answers_andThen answers_basic rec answers_optional ended)
next
  case (Some ss)
  show ?thesis unfolding executeTryBody_def Let_def Some option.case
    by (intro answers_settle answers_if answers_andThen answers_basic rec answers_optional ended caught [OF Some])
qed

lemma size_pair_mem: "b \<in> set branches \<Longrightarrow> size_list size (snd b) < size_list (size_prod (\<lambda>_. 0) (size_list size)) branches"
  by (induction branches) (auto simp: size_prod_def split: prod.splits)

lemma answers_step:
  assumes "without_loops s"
    and rec: "\<And>task x path. size task \<le> size s \<Longrightarrow> task_without_loops task \<Longrightarrow> answers (rec task x path)"
  shows "answers (executeStep ctx rec s x path)"
proof (cases "pathOf ctx path (identity_of s)")
  case (Inl e)
  then show ?thesis by (simp add: executeStep_def answers_basic)
next
  case (Inr here)
  show ?thesis
  proof (cases s)
    case (IfStep i cond body branches others)
    then show ?thesis using Inr assms(1)
      by (auto simp: executeStep_def executeIfStep_def snds.simps intro!: answers_andThen answers_leaves rec)
  next
    case (SwitchStep i e cases others)
    have arm: "answers (rec (Steps ss) x p)" if "map_of cases key = Some ss" for key ss p
      using map_of_SomeD [OF that] size_pair_mem [of "(key, ss)" cases] assms(1) SwitchStep
      by (intro rec) (fastforce simp: snds.simps)+
    have "answers (rec (Steps ss) x p)" if "others = Some ss" for ss p
      using that assms(1) SwitchStep by (intro rec) auto
    with arm show ?thesis using Inr SwitchStep
      by (auto simp: executeStep_def executeSwitchStep_def Let_def intro!: answers_andThen answers_leaves answers_basic split: option.splits)
  next
    case (TryStep i cond body catch_steps finally_steps)
    have "answers (executeTryBody ctx rec (stepLabel i) body catch_steps finally_steps x p)" for p
      using assms(1) TryStep by (intro answers_try rec) auto
    then show ?thesis using Inr TryStep
      by (auto simp: executeStep_def executeTryStep_def Let_def intro!: answers_andThen answers_leaves answers_basic split: option.splits)
  next
    case (ValueStep i e)
    then show ?thesis using Inr
      by (auto simp: executeStep_def executeValueStep_def intro!: answers_settle answers_leaves answers_basic)
  next
    case (ThrowStep i e)
    then show ?thesis using Inr
      by (auto simp: executeStep_def executeThrowStep_def intro!: answers_andThen answers_leaves answers_basic)
  qed (use Inr assms(1) in \<open>auto simp: executeStep_def executeRethrowStep_def intro!: answers_leaves answers_basic\<close>)
qed

lemma run_task_answers:
  assumes "size task < n" "task_without_loops task"
  shows "answers (run_task ctx n task x path)"
  using assms
proof (induction n arbitrary: task x path)
  case (Suc n)
  show ?case
  proof (cases "(ctx, run_task ctx n, task, x, path)" rule: task_body.cases)
    case (2 ctx' rec s ss x' path')
    then have task: "task = Steps (s # ss)" by simp
    show ?thesis using Suc.prems unfolding task run_task.simps task_body.simps
      by (intro answers_andThen answers_step Suc.IH) auto
  next
    case (4 ctx' rec others k x' path')
    then have task: "task = Branches [] others k" by simp
    show ?thesis using Suc.prems unfolding task run_task.simps task_body.simps
      by (intro answers_optional Suc.IH) auto
  next
    case (5 ctx' rec cond body branches others k x' path')
    then have task: "task = Branches ((cond, body) # branches) others k" by simp
    show ?thesis using Suc.prems unfolding task run_task.simps task_body.simps
      by (auto intro!: answers_andThen answers_leaves Suc.IH)
  qed (use Suc.prems in \<open>auto simp: answers_basic\<close>)
qed simp

text \<open>More fuel never changes an answer.\<close>

definition extends :: "('s, 'w, 'a) comp \<Rightarrow> ('s, 'w, 'a) comp \<Rightarrow> bool" where
  "extends m m' \<longleftrightarrow> (\<forall>b r. m b = Some r \<longrightarrow> m' b = Some r)"

lemma extends_refl: "extends m m"
  by (simp add: extends_def)

lemma extends_settle: "extends m m' \<Longrightarrow> (\<And>e. extends (h e) (h' e)) \<Longrightarrow> (\<And>a. extends (k a) (k' a)) \<Longrightarrow>
    extends (settle m h k) (settle m' h' k')"
  by (fastforce simp: extends_def settle_def split: option.splits sum.splits)

lemma extends_andThen: "extends m m' \<Longrightarrow> (\<And>a. extends (k a) (k' a)) \<Longrightarrow> extends (andThen m k) (andThen m' k')"
  unfolding andThen_def by (intro extends_settle extends_refl)

lemma extends_if: "extends m m1 \<Longrightarrow> extends m' m1' \<Longrightarrow> extends (\<lambda>b. if P b then m b else m' b) (\<lambda>b. if P b then m1 b else m1' b)"
  by (simp add: extends_def)

lemma extends_optional: "(\<And>task x path. extends (rec task x path) (rec' task x path)) \<Longrightarrow>
    extends (optional_steps rec body x path) (optional_steps rec' body x path)"
  by (cases body) (simp_all add: optional_steps_def extends_refl)

lemma extends_try:
  assumes "\<And>task x path. extends (rec task x path) (rec' task x path)"
  shows "extends (executeTryBody ctx rec label body catch_steps finally_steps x path)
    (executeTryBody ctx rec' label body catch_steps finally_steps x path)"
proof (cases catch_steps)
  case None
  show ?thesis unfolding executeTryBody_def Let_def None option.case
    by (intro extends_settle extends_if extends_andThen extends_refl assms extends_optional)
next
  case (Some ss)
  show ?thesis unfolding executeTryBody_def Let_def Some option.case
    by (intro extends_settle extends_if extends_andThen extends_refl assms extends_optional)
qed

lemma extends_step:
  assumes "\<And>task x path. extends (rec task x path) (rec' task x path)"
  shows "extends (executeStep ctx rec s x path) (executeStep ctx rec' s x path)"
  by (cases s) (auto simp: executeStep_def executeIfStep_def executeSwitchStep_def executeTryStep_def Let_def
      intro!: extends_andThen extends_refl assms extends_try [OF assms] split: option.splits sum.splits)

lemma task_body_extends:
  assumes "\<And>task x path. extends (rec task x path) (rec' task x path)"
  shows "extends (task_body ctx rec task x path) (task_body ctx rec' task x path)"
  by (cases "(ctx, rec, task, x, path)" rule: task_body.cases)
    (auto intro!: extends_andThen extends_refl extends_step extends_optional assms)

lemma run_task_extends: "extends (run_task ctx n task x path) (run_task ctx (Suc n) task x path)"
proof (induction n arbitrary: task x path)
  case 0
  show ?case by (simp add: extends_def)
next
  case (Suc n)
  show ?case using task_body_extends [OF Suc.IH, where ctx = ctx and task = task and x = x and path = path] by simp
qed

lemma run_task_fuel:
  assumes "n \<le> n'" "run_task ctx n task x path b = Some r"
  shows "run_task ctx n' task x path b = Some r"
  using assms
proof (induction rule: dec_induct)
  case (step k)
  then show ?case using run_task_extends unfolding extends_def by blast
qed

section \<open>What holds of a body\<close>

text \<open>A body without a loop answers: with more fuel than its size it never stops short, and the answer
  does not depend on the fuel.\<close>

theorem body_without_loops_answers:
  assumes "list_all without_loops ss" "Suc (size_list size ss) < fuel"
  shows "\<exists>r. executeSteps ctx fuel ss x path b = Some r \<and>
    executeSteps ctx (Suc (Suc (size_list size ss))) ss x path b = Some r"
proof -
  let ?n = "Suc (Suc (size_list size ss))"
  have "answers (run_task ctx ?n (Steps ss) x p)" for p
    by (rule run_task_answers) (use assms(1) in \<open>auto simp: list_all_iff\<close>)
  then obtain r where r: "executeSteps ctx ?n ss x path b = Some r" unfolding executeSteps_def answers_def by blast
  then have "executeSteps ctx fuel ss x path b = Some r"
    using run_task_fuel [of ?n fuel] assms(2) unfolding executeSteps_def by simp
  with r show ?thesis by blast
qed

context durable_journal
begin

lemma steps_onward:
  assumes B: "b_journal B = J" "recording ctx B" "calls_below ok entries_of record_of B ctx"
    and "sound B st" "executeSteps ctx fuel ss x path (steps, st) = Some (out, steps1, st1)"
  shows "onward B st st1" and "sound B st1"
  using safe_compD [OF run_task_safe [OF B], of "(steps, st)" fuel "Steps ss"] assms(4,5)
  by (fastforce simp: executeSteps_def)+

lemma steps_legible:
  assumes B: "b_journal B = J" "recording ctx B" "calls_below ok entries_of record_of B ctx" "calls_legible ok entries_of record_of B ctx"
    and "list_all without_try ss" "sound B st" "clear B st" "executeSteps ctx fuel ss x path (steps, st) = Some (Inr (), steps1, st1)"
  shows "clear B st1"
proof -
  have "task_without_try (Steps ss)" using assms(5) by (simp add: list_all_iff)
  from clear_compD [OF run_task_clear [OF B this], of "(steps, st)" fuel] assms(6-8) show ?thesis by (fastforce simp: executeSteps_def)
qed

lemma steps_again:
  fixes ctx ctx' :: "('s, 'f, 'w, 'e, 't) step_context"
  assumes B: "b_journal B = J" "recording ctx B" "calls_below ok entries_of record_of B ctx"
    and man: "same_manifest ctx ctx'" and "list_all without_try ss"
    and "sound B st" "executeSteps ctx fuel ss x path (steps, st) = Some (Inr (), steps1, st1)" "recorded st2 = recorded st1"
  shows "\<exists>st3. executeSteps ctx' fuel ss x path (steps, st2) = Some (Inr (), steps1, st3) \<and> undisturbed st2 st3"
proof -
  have "baseStepPath ctx' = baseStepPath ctx" using man by (simp add: same_manifest_def baseStepPath_def)
  moreover have "task_without_try (Steps ss)" using assms(5) by (simp add: list_all_iff)
  note againD [OF run_task_again [OF B man this] assms(6)]
  ultimately show ?thesis using assms(7,8) unfolding executeSteps_def by (metis map_le_refl)
qed

end


text \<open>
  The record can be one that cannot be read: an unsigned integer beyond 64 bits is written and not read. The step that answered
  it fails, its entry stays, and the run cannot be opened again.
\<close>

lemma unreadable_record_strands_the_run:
  assumes J: "durable_journal J ok entries_of record_of claim_of stores_time due_after wakes"
    and B: "B = recording_backend J run live cod wording inside refusals" and st: "in_step ok entries_of record_of B st"
    and new: "entry_at place (entries_of (store st) run) = None" and wide: "MAX_UINT < i"
  shows "\<exists>e st'. write_entry B place which decision target (VUint i) st = (Inl e, st') \<and> isl (open_run B (store st') w)"
proof -
  obtain frame where frame: "writeRecordedValue live cod (VUint i) = Inr (Some frame)"
    "readRecordedValue cod (Some RECORDED_VALUE_CODEC_VERSION) (VString frame) = Inl CorruptEntry"
    using wide_uint_makes_a_run_unreadable [OF wide] by blast
  let ?e = "recordEntry B place which decision target (Some (VString frame))"
  have e: "epath ?e = place" "replayed_of B ?e = Inl (recorded_failure wording run place CorruptEntry)"
    using frame(2) by (simp_all add: recordEntry_def replayed_of_def recordedValue_def B recording_backend_def)
  have fields: "b_journal B = J" "b_run B = run" "b_write B place (VUint i) = Inr (Some (VString frame))"
    using frame(1) by (simp_all add: B recording_backend_def)
  have ok: "ok (store st)" using st by (simp add: in_step_def)
  from durable_journal.append_law [OF J this, of run ?e] obtain s'
    where s': "j_append J run ?e (store st) = (Inr (stored_entry (entries_of (store st) run) ?e), s')" "ok s'"
      "entries_of s' = (entries_of (store st))(run := with_entry (entries_of (store st) run) ?e)" by blast
  have stored: "stored_entry (entries_of (store st) run) ?e = ?e" using new e(1) by (simp add: stored_entry_def)
  have w: "write_entry B place which decision target (VUint i) st =
      (Inl (recorded_failure wording run place CorruptEntry), st\<lparr>store := s'\<rparr>)"
    using s'(1) e fields by (simp add: write_entry_def stored)
  have "entry_at place (entries_of s' run) = Some ?e" using e(1) stored by (simp add: s'(3) with_entry_at)
  then have "\<not> legible B (entries_of s' run)" using e(2) unfolding legible_def by (metis sum.disc(1))
  then have "isl (read_recorded B (entries_of s' run) Map.empty)"
    using read_recorded_exact by (metis sum.collapse(2))
  then have "isl (open_run B s' w)"
    using durable_journal.entries_law [OF J s'(2), of run] fields by (auto simp: open_run_def map_sum_def split: sum.splits)
  with w show ?thesis by simp
qed


section \<open>A body over a journal of files\<close>

text \<open>The codec of recorded values over the directory; an expression reads the next tick of a counter, and so does a call.\<close>

definition sample_backend :: "(cel_value file_store, cel_value) backend" where
  "sample_backend = recording_backend file_journal (js ''r'') [] no_members (\<lambda>e. []) (\<lambda>i. False) (\<lambda>c p. [])"

lemma sample_backend_fields:
  "b_journal sample_backend = file_journal" "b_run sample_backend = js ''r''" "b_version sample_backend = RECORDED_VALUE_CODEC_VERSION"
  "b_writes_inside sample_backend i = False" "b_wording sample_backend c p = []"
  by (simp_all add: sample_backend_def recording_backend_def)

lemma nothing_live: "findLiveValue [] v = None"
proof -
  have none: "(\<And>x. x \<in> set xs \<Longrightarrow> x = None) \<Longrightarrow> first_found xs = None" for xs :: "jstring option list"
    by (auto simp: first_found_def filter_empty_conv split: list.splits dest!: arg_cong [where f = set])
  show ?thesis by (induction v) (auto intro!: none)
qed

lemma sample_codec:
  assumes "v \<noteq> VUndefined" "encodeTypedFrame no_members (withoutAbsentMembers v) = Inr text" "storable v"
  shows "b_write sample_backend place v = Inr (Some (VString text))"
    and "plain_members v \<Longrightarrow> b_read sample_backend place (Some RECORDED_VALUE_CODEC_VERSION) (Some (VString text)) =
      Inr (canonical (present_only v))"
proof -
  have w: "writeRecordedValue [] no_members v = Inr (Some text)"
    using assms(1,2) absent_only [of v] by (simp add: writeRecordedValue_def assertJournalable_def nothing_live)
  then show "b_write sample_backend place v = Inr (Some (VString text))" by (simp add: sample_backend_def recording_backend_def)
  show "b_read sample_backend place (Some RECORDED_VALUE_CODEC_VERSION) (Some (VString text)) = Inr (canonical (present_only v))"
    if "plain_members v"
    using recorded_reads [OF w storable_without [OF assms(3)] no_members_ok] canonical_without [OF that] assms(1)
    by (simp add: sample_backend_def recording_backend_def)
qed

definition int_frame :: "int \<Rightarrow> jstring" where
  "int_frame i = json_text (tagged (js ''int'') (JString (int_text i)))"

lemma sample_codec_int:
  assumes "MIN_INT \<le> i" "i \<le> MAX_INT"
  shows "b_write sample_backend place (VInt i) = Inr (Some (VString (int_frame i)))"
    and "b_read sample_backend place (Some RECORDED_VALUE_CODEC_VERSION) (Some (VString (int_frame i))) = Inr (VInt i)"
proof -
  have "encodeTypedFrame no_members (withoutAbsentMembers (VInt i)) = Inr (int_frame i)"
    using assms by (simp add: encodeTypedFrame_def write_value.simps write_leaf_def writeInt_def int_frame_def not_less)
  from sample_codec [OF _ this] show
    "b_write sample_backend place (VInt i) = Inr (Some (VString (int_frame i)))"
    "b_read sample_backend place (Some RECORDED_VALUE_CODEC_VERSION) (Some (VString (int_frame i))) = Inr (VInt i)" by simp_all
qed

definition bool_frame :: "bool \<Rightarrow> jstring" where
  "bool_frame b = json_text (JBool b)"

lemma sample_codec_bool [simp]:
  "b_write sample_backend place (VBool b) = Inr (Some (VString (bool_frame b)))"
  "b_read sample_backend place (Some RECORDED_VALUE_CODEC_VERSION) (Some (VString (bool_frame b))) = Inr (VBool b)"
proof -
  have "encodeTypedFrame no_members (withoutAbsentMembers (VBool b)) = Inr (bool_frame b)"
    by (simp add: encodeTypedFrame_def write_value.simps write_leaf_def bool_frame_def)
  from sample_codec [OF _ this] show
    "b_write sample_backend place (VBool b) = Inr (Some (VString (bool_frame b)))"
    "b_read sample_backend place (Some RECORDED_VALUE_CODEC_VERSION) (Some (VString (bool_frame b))) = Inr (VBool b)" by simp_all
qed

lemma sample_ints [simp]:
  "b_write sample_backend place (VInt 0) = Inr (Some (VString (int_frame 0)))"
  "b_write sample_backend place (VInt 1) = Inr (Some (VString (int_frame 1)))"
  "b_write sample_backend place (VInt 2) = Inr (Some (VString (int_frame 2)))"
  "b_read sample_backend place (Some RECORDED_VALUE_CODEC_VERSION) (Some (VString (int_frame 0))) = Inr (VInt 0)"
  "b_read sample_backend place (Some RECORDED_VALUE_CODEC_VERSION) (Some (VString (int_frame 1))) = Inr (VInt 1)"
  "b_read sample_backend place (Some RECORDED_VALUE_CODEC_VERSION) (Some (VString (int_frame 2))) = Inr (VInt 2)"
  by (simp_all add: sample_codec_int MIN_INT_def MAX_INT_def)

definition sample_context :: "int \<Rightarrow> (cel_value file_store, cel_value, int, unit, unit) step_context" where
  "sample_context start = \<lparr>c_durable = Some sample_backend, c_zones = [], c_path = None,
     c_expand = (\<lambda>e scope n. (Inr (VInt (start + n)), n + 1)),
     c_attempt = (\<lambda>target given path st. (Inr (VInt (start + world st)), st\<lparr>world := world st + 1\<rparr>)),
     c_identity = (\<lambda>target. None), c_cancelled = (\<lambda>n. False), c_now = (\<lambda>n. n), c_jitter = (\<lambda>d n. (d, n)),
     c_wait = (\<lambda>d n. (False, n)), c_duration_ms = (\<lambda>v. None), c_string = (\<lambda>v. []), c_is_text = (\<lambda>v. False),
     c_format = (\<lambda>m v. []), c_wording = (\<lambda>c p. [])\<rparr>"

definition sample_body :: "(unit, unit) step list" where
  "sample_body = [ValueStep (Named (js ''a'')) (), InvokeStep (Named (js ''b'')) None () () None]"

definition sample_extra :: scope_extra where
  "sample_extra = \<lparr>x_vars = [], x_caught = None\<rparr>"

definition sample_admitted :: "cel_value file_store" where
  "sample_admitted = snd (file_admitRun (js ''r'') \<lparr>a_status = Running, a_due_at = None, a_inputs = None,
     a_inputs_version = None, a_claim = None\<rparr> 0 empty_directory)"

lemma sample_runs:
  "recording (sample_context k) sample_backend" "same_manifest (sample_context k) (sample_context k')"
  "calls_below file_ok file_entries file_record sample_backend (sample_context k)"
  "calls_legible file_ok file_entries file_record sample_backend (sample_context k)"
  "durable_journal (b_journal sample_backend) file_ok file_entries file_record claims (\<lambda>t. True) file_due_after (\<lambda>r. True)"
  using fj.durable_journal_axioms
  by (auto simp: sample_backend_fields recording_def sample_context_def same_manifest_def calls_below_def calls_legible_def
      goes_on_def in_step_def)

lemma sample_admitted_known: "file_ok sample_admitted" "file_record sample_admitted (b_run sample_backend) \<noteq> None"
  by (simp_all add: sample_admitted_def file_admitRun_def empty_directory_def sample_backend_fields file_ok_def
      file_record_def lines_of_def recordOf_def header_of_def)

lemmas sample_eval = sample_backend_fields sample_context_def sample_body_def sample_extra_def open_run_def
  executeSteps_def executeStep_def pathOf_def stepPath_def baseStepPath_def executeValueStep_def executeInvokeStep_def
  settle_def andThen_def skip_def publish_def lift_act_def decide_def decideValue_def journalingSuppressed_def handle_decide_def
  handle_step_def write_entry_def replayed_of_def recordedValue_def recordEntry_def expand_def scope_of_def with_backend_def
  leaf_backend_def guard_step_def decide_with_def step_with_def withStepRetry_def result_member_def mismatch_def

definition sample_steps :: "(jstring \<times> cel_value) list" where
  "sample_steps = [(js ''a'', result_member (VInt 0)), (js ''b'', result_member (VInt 2))]"

lemma run_task_numeral: "run_task ctx (numeral k) = task_body ctx (run_task ctx (pred_numeral k))"
  by (simp add: numeral_eq_Suc)

lemma sample_run_completes:
  "\<exists>st st1. open_run sample_backend sample_admitted 0 = Inr st \<and>
     executeSteps (sample_context 0) 9 sample_body sample_extra None ([], st) = Some (Inr (), sample_steps, st1)"
  by (simp add: sample_eval sample_admitted_def file_eval run_task_numeral array_index_def isDigit_def sample_steps_def)


definition sample_failing :: "(unit, unit) step list" where
  "sample_failing = [ValueStep (Named (js ''a'')) (), RethrowStep (Named (js ''t''))]"

lemma sample_failing_runs:
  "\<exists>st e steps st1. open_run sample_backend sample_admitted 0 = Inr st \<and>
     executeSteps (sample_context 0) 9 sample_failing sample_extra None ([], st) = Some (Inl e, steps, st1)"
  by (simp add: sample_eval sample_admitted_def file_eval run_task_numeral executeRethrowStep_def raise_def sample_failing_def)


theorem body_without_loops_answers_witness:
  "\<forall>b. \<exists>r. executeSteps (sample_context 0) 9 sample_body sample_extra None b = Some r"
proof
  fix b
  show "\<exists>r. executeSteps (sample_context 0) 9 sample_body sample_extra None b = Some r"
    using body_without_loops_answers [of sample_body 9 "sample_context 0" sample_extra None b] by (auto simp: sample_body_def)
qed

section \<open>Where a run is not what was recorded\<close>

text \<open>
  A step records its success only. Replayed, a body that caught a failure calls the target again, and goes
  the other way when it now succeeds.
\<close>

definition flaky_context :: "bool \<Rightarrow> (cel_value file_store, cel_value, int, unit, unit) step_context" where
  "flaky_context fails = (sample_context 0)\<lparr>c_attempt := (\<lambda>target given path st.
     (if fails then Inl (invokeError (js ''E'') [] VNull) else Inr (VBool True), st))\<rparr>"

definition sample_catching :: "(unit, unit) step list" where
  "sample_catching = [TryStep (Named (js ''t'')) None [InvokeStep (Named (js ''b'')) None () () None]
     (Some [ValueStep (Named (js ''c'')) ()]) None]"

lemma caught_failure_is_called_again:
  "\<exists>st steps st1 st2 steps' st3. open_run sample_backend sample_admitted 0 = Inr st \<and>
     executeSteps (flaky_context True) 9 sample_catching sample_extra None ([], st) = Some (Inr (), steps, st1) \<and>
     open_run sample_backend (store st1) 0 = Inr st2 \<and>
     executeSteps (flaky_context False) 9 sample_catching sample_extra None ([], st2) = Some (Inr (), steps', st3) \<and>
     map fst steps = [js ''c''] \<and> map fst steps' = [js ''b'']"
  by (simp add: sample_eval sample_admitted_def file_eval run_task_numeral array_index_def isDigit_def raise_def
      flaky_context_def sample_catching_def executeTryStep_def executeTryBody_def optional_steps_def passes_try_def
      isSuspension_def isCancellationError_def invokeError_def ERR_DURABLE_SUSPENDED_def ERR_INVOKE_CANCELLED_def Let_def)

text \<open>
  A wait between two attempts is recorded at the path the run parks at, and a run whose place has an entry is
  due to every poller: the wait ends with the next sweep.
\<close>

lemma wait_out_latched: "wait_out ctx label delay st = (out, st') \<Longrightarrow> latched st' = latched st"
  by (auto simp: wait_out_def split: prod.splits)

context durable_journal
begin

lemma park_is_due:
  assumes B: "b_journal B = J" and s: "sound B st" and "recorded st (s_path signal) \<noteq> None" "s_path signal \<noteq> []"
    and run: "parkRun B signal st = (Inl err, st1)" and parked: "f_signal err \<noteq> None"
  shows "\<exists>r. record_of (store st1) (b_run B) = Some r \<and> is_due r (answered r (entries_of (store st1) (b_run B))) now"
proof -
  have ok: "ok (store st)" and ex: "exact B (entries_of (store st) (b_run B)) (recorded st)" using s by (simp_all add: in_step_def)
  obtain r where r: "record_of (store st) (b_run B) = Some r" using s by (auto simp: in_step_def)
  let ?p = "\<lparr>p_path = s_path signal, p_resource = s_resource signal, p_at = s_at signal, p_token = s_token signal\<rparr>"
  have "pred_option stores_time (s_at signal)"
  proof (rule ccontr)
    assume "\<not> pred_option stores_time (s_at signal)"
    with park_refused [OF ok r, of ?p] assms(4) obtain e where "j_park J (b_run B) ?p (store st) = (Inl e, store st)" by auto
    then have "err = journal_failure B e" using run B by (simp add: parkRun_def handle_park_def)
    then show False using parked by (simp add: journal_failure_def refusal_def invokeError_def split: journal_error.splits)
  qed
  with park_law [OF ok r, of ?p] assms(4) obtain r' s' p' where park:
    "j_park J (b_run B) ?p (store st) = (Inr (), s')" "entries_of s' = entries_of (store st)"
    "record_of s' = (record_of (store st))(b_run B \<mapsto> r')" "r_status r' = Parked" "r_parked r' = Some p'" "p_path p' = s_path signal"
    by auto
  have "entry_at (s_path signal) (entries_of (store st) (b_run B)) \<noteq> None" using exact_at(1) [OF ex, of "s_path signal"] assms(3) by auto
  then have "is_due r' (answered r' (entries_of s' (b_run B))) now" by (simp add: answered_def park is_due_def)
  moreover have "store st1 = s'" using run park(1) by (auto simp: parkRun_def handle_park_def B)
  ultimately show ?thesis using park(3) by simp
qed

lemma parked_between_attempts_is_due:
  assumes B: "b_journal B = J" "c_durable ctx = Some B" and s: "sound B st"
    and run: "between_attempts ctx policy label path resend requested st = (Inl err, st1)"
    and parks: "latched st = None" "latched st1 \<noteq> None" "f_signal err \<noteq> None"
  shows "\<exists>r. record_of (store st1) (b_run B) = Some r \<and> is_due r (answered r (entries_of (store st1) (b_run B))) now"
proof -
  let ?backoff = "case requested of Some ms \<Rightarrow> ms | None \<Rightarrow> rp_backoff policy resend"
  obtain delay w where dw: "(if requested = None \<and> rp_jitter policy then c_jitter ctx ?backoff (world st) else (?backoff, world st)) = (delay, w)"
    by fastforce
  define st0 where "st0 = st\<lparr>world := w\<rparr>"
  have st0: "sound B st0" "latched st0 = None" using s parks(1) by (simp_all add: st0_def in_step_def)
  let ?path = "stepPath [Word path, Word (js ''retry''), Index resend]"
  let ?compute = "\<lambda>st'. (Inr (time_value (of_int (c_now ctx (world st')) + delay)), st')"
  have safe: "safe B ?compute" by (auto simp: keeps_def intro: onward_refl)
  obtain o1 st2 where dec: "handle_decide B ?path DValue ?compute st0 = (o1, st2)" by fastforce
  have s2: "sound B st2" using decide_onward(1) [OF B(1) safe st0(1) dec] by (simp add: goes_on_def)
  have l2: "latched st2 = None" using dec st0 write_entry_onward(5) [OF B(1) st0(1)]
    by (auto simp: handle_decide_def split: option.splits)
  have waits: "latched st1 = None" if "wait_out ctx label delay st0 = (Inl err, st1)" using wait_out_latched [OF that] st0(2) by simp
  let ?signal = "\<lambda>due. \<lparr>s_path = ?path, s_resource = if label = [] then path else label, s_at = due, s_token = None\<rparr>"
  obtain v where v: "o1 = Inr v" "parkRun B (?signal (time_of v)) st2 = (Inl err :: failure + unit, st1)"
    using run dw B(2) dec l2 waits parks(2)
    by (auto simp: between_attempts_def Let_def st0_def split_def split: sum.splits option.splits if_splits)
  have "recorded st2 ?path \<noteq> None" using decide_onward(2) [OF B(1) safe st0(1) dec v(1)] by auto
  moreover have "?path \<noteq> []" unfolding retry_path by simp
  ultimately show ?thesis using park_is_due [OF B(1) s2 _ _ v(2) parks(3)] by simp
qed

end

text \<open>
  A run opened again counts the attempts it recorded, and calls the target for each of them once more.
\<close>

lemma recorded_attempt_is_called_again:
  assumes "c_durable ctx = Some B" "attempt st = (Inl err, st1)" "isRetryable err (rp_non_retryable policy)"
    and "rp_retry_after policy = None" "\<not> rp_jitter policy" "SUSPENDING_BACKOFF_MS \<le> rp_backoff policy resend"
    and "recorded st1 (stepPath [Word path, Word (js ''retry''), Index resend]) = Some r"
    and "\<not> still_before (c_now ctx (world st1)) (re_value r)" "resend < rp_attempts policy"
  shows "attempts_from ctx policy label path scope attempt resend st =
    attempts_from ctx policy label path scope attempt (Suc resend) st1"
  using assms by (subst attempts_from.simps)
    (simp add: retryAfterMs_def between_attempts_def handle_decide_def del: attempts_from.simps)

end
