(* ===== verification/Journal_Postgres.thy ===== *)
theory Journal_Postgres
  imports Durable_Journal "HOL-Library.Option_ord"
begin

text \<open>
  The journal over two tables of a database
  (\<open>modules/durable-journal-postgres/nodejs/src/journal.ts\<close>).

  A table is its rows in the order a scan meets them, with the table's key as its invariant; a statement
  of the source is the function on rows it denotes, with \<open>ON CONFLICT DO NOTHING\<close>, the \<open>WHERE\<close> of an
  \<open>UPDATE\<close> and the number of rows it reports written out. An entry is inserted through the
  connection of the caller, so into the transaction it has open (\<open>pending\<close>); every write of the
  run itself is outside of it. A JSON column holds the value it encodes. No other connection has a lock
  on a row.

  A deadline reaches the database as the text of a number and is read into a \<open>BIGINT\<close> column, which takes whole numbers
  of 64 bits: a fraction of a millisecond is a syntax error of the parameter, and the statement does nothing.
\<close>

section \<open>Tables\<close>

record 'f run_row =
  c_run :: jstring
  c_status :: run_status
  c_due_at :: "int option"
  c_parked_path :: "jstring option"
  c_parked_resource :: "jstring option"
  c_parked_token :: "jstring option"
  c_inputs :: "'f option"
  c_inputs_version :: "nat option"
  c_result :: "'f option"
  c_result_version :: "nat option"
  c_error :: "(jstring \<times> jstring) option"
  c_collapsed_regions :: "nat option"
  c_collapse_reasons :: "jstring list option"
  c_replayed_steps :: "nat option"
  c_claim_holder :: "jstring option"
  c_claim_until :: "int option"

record 'f pg_store =
  run_rows :: "'f run_row list"
  committed :: "(jstring \<times> 'f journal_entry) list"
  pending :: "(jstring \<times> 'f journal_entry) list option"

definition visible :: "'f pg_store \<Rightarrow> (jstring \<times> 'f journal_entry) list" where
  "visible s = committed s @ (case pending s of None \<Rightarrow> [] | Some es \<Rightarrow> es)"

definition rowToRecord :: "'f run_row \<Rightarrow> 'f run_record" where
  "rowToRecord row =
     \<lparr>r_status = c_status row, r_due_at = map_option of_int (c_due_at row),
      r_parked = (case c_parked_path row of
          None \<Rightarrow> None
        | Some path \<Rightarrow> Some \<lparr>p_path = path,
            p_resource = (case c_parked_resource row of None \<Rightarrow> [] | Some r \<Rightarrow> r),
            p_at = map_option of_int (c_due_at row), p_token = c_parked_token row\<rparr>),
      r_inputs = c_inputs row, r_inputs_version = c_inputs_version row,
      r_result = c_result row, r_result_version = c_result_version row, r_error = c_error row,
      r_collapsed_regions = c_collapsed_regions row, r_collapse_reasons = c_collapse_reasons row,
      r_replayed_steps = c_replayed_steps row\<rparr>"

text \<open>What the column \<open>due_at BIGINT\<close> makes of a deadline, with the \<open>SQLSTATE\<close> of a refusal: a text that is not of an integer, as
  a fraction's or one with an exponent is not, or an integer out of range.\<close>

definition whole_millis :: "rat \<Rightarrow> bool" where
  "whole_millis t \<longleftrightarrow> of_int \<lfloor>t\<rfloor> = t \<and> - (2 ^ 63) \<le> \<lfloor>t\<rfloor> \<and> \<lfloor>t\<rfloor> < 2 ^ 63"

definition bigint :: "rat option \<Rightarrow> journal_error + int option" where
  "bigint due =
     (case due of
        None \<Rightarrow> Inr None
      | Some t \<Rightarrow>
          if whole_millis t then Inr (Some \<lfloor>t\<rfloor>)
          else Inl (StoreRefused (if of_int \<lfloor>t\<rfloor> = t \<and> \<bar>t\<bar> < 10 ^ 21 then js ''22003'' else js ''22P02'')))"

lemma bigint_None [simp]: "bigint None = Inr None"
  by (simp add: bigint_def)

lemma bigint_stores: "pred_option whole_millis due \<Longrightarrow> \<exists>n. bigint due = Inr n \<and> map_option of_int n = due"
  by (cases due) (auto simp: bigint_def whole_millis_def)

lemma bigint_refuses: "\<not> pred_option whole_millis due \<Longrightarrow> \<exists>e. bigint due = Inl (StoreRefused e)"
  by (cases due) (auto simp: bigint_def)

text \<open>\<open>UPDATE ... SET ... WHERE ...\<close>: the rows after it, and how many it reports.\<close>

definition update_where ::
  "('f run_row \<Rightarrow> bool) \<Rightarrow> ('f run_row \<Rightarrow> 'f run_row) \<Rightarrow> 'f pg_store \<Rightarrow> nat \<times> 'f pg_store"
where
  "update_where sel set_columns s =
     (length (filter sel (run_rows s)),
      s\<lparr>run_rows := map (\<lambda>row. if sel row then set_columns row else row) (run_rows s)\<rparr>)"

section \<open>The operations\<close>

definition pg_readRun :: "jstring \<Rightarrow> 'f pg_store \<Rightarrow> journal_error + 'f run_record option" where
  "pg_readRun run s = Inr (map_option rowToRecord (find (\<lambda>row. c_run row = run) (run_rows s)))"

definition pg_admitRun ::
  "jstring \<Rightarrow> 'f admission \<Rightarrow> int \<Rightarrow> ('f pg_store, bool \<times> 'f run_record option) journal_op"
where
  "pg_admitRun run a now s =
     (case bigint (a_due_at a) of
        Inl e \<Rightarrow> (Inl e, s)
      | Inr due \<Rightarrow>
          if \<exists>row \<in> set (run_rows s). c_run row = run
          then (map_sum id (\<lambda>existing. (False, existing)) (pg_readRun run s), s)
          else (Inr (True, None),
                s\<lparr>run_rows := run_rows s @
                    [\<lparr>c_run = run, c_status = a_status a, c_due_at = due, c_parked_path = None,
                      c_parked_resource = None, c_parked_token = None, c_inputs = a_inputs a,
                      c_inputs_version = a_inputs_version a, c_result = None, c_result_version = None,
                      c_error = None, c_collapsed_regions = None, c_collapse_reasons = None,
                      c_replayed_steps = None, c_claim_holder = map_option fst (a_claim a),
                      c_claim_until = map_option (\<lambda>(_, ttl). now + ttl) (a_claim a)\<rparr>]\<rparr>))"

definition pg_readEntries :: "jstring \<Rightarrow> 'f pg_store \<Rightarrow> journal_error + 'f journal_entry list" where
  "pg_readEntries run s = Inr (map snd (filter (\<lambda>(r, _). r = run) (visible s)))"

definition insert_entry :: "jstring \<Rightarrow> 'f journal_entry \<Rightarrow> 'f pg_store \<Rightarrow> 'f pg_store" where
  "insert_entry run e s =
     (case pending s of
        None \<Rightarrow> s\<lparr>committed := committed s @ [(run, e)]\<rparr>
      | Some es \<Rightarrow> s\<lparr>pending := Some (es @ [(run, e)])\<rparr>)"

definition pg_append :: "jstring \<Rightarrow> 'f journal_entry \<Rightarrow> ('f pg_store, 'f journal_entry) journal_op" where
  "pg_append run e s =
     (case find (\<lambda>(r, x). r = run \<and> epath x = epath e) (visible s) of
        Some (_, stored) \<Rightarrow> (Inr stored, s)
      | None \<Rightarrow> (Inr e, insert_entry run e s))"

definition pg_completeRun :: "jstring \<Rightarrow> 'f run_record \<Rightarrow> ('f pg_store, unit) journal_op" where
  "pg_completeRun run out s =
     (Inr (), snd (update_where (\<lambda>row. c_run row = run)
        (\<lambda>row. row\<lparr>c_status := r_status out, c_result := r_result out, c_error := r_error out,
           c_collapsed_regions := r_collapsed_regions out, c_collapse_reasons := r_collapse_reasons out,
           c_replayed_steps := r_replayed_steps out, c_result_version := r_result_version out,
           c_due_at := None, c_parked_path := None, c_parked_resource := None, c_parked_token := None,
           c_claim_holder := None, c_claim_until := None\<rparr>) s))"

definition pg_parkRun :: "jstring \<Rightarrow> park_record \<Rightarrow> ('f pg_store, unit) journal_op" where
  "pg_parkRun run p s =
     (case bigint (p_at p) of
        Inl e \<Rightarrow> (Inl e, s)
      | Inr due \<Rightarrow>
          (Inr (), snd (update_where (\<lambda>row. c_run row = run)
             (\<lambda>row. row\<lparr>c_status := Parked, c_parked_path := Some (p_path p),
                c_parked_resource := Some (p_resource p), c_parked_token := p_token p, c_due_at := due,
                c_claim_holder := None, c_claim_until := None\<rparr>) s)))"

definition pg_unparkRun :: "jstring \<Rightarrow> ('f pg_store, unit) journal_op" where
  "pg_unparkRun run s =
     (Inr (), snd (update_where (\<lambda>row. c_run row = run \<and> c_status row = Parked)
        (\<lambda>row. row\<lparr>c_status := Running, c_parked_path := None, c_parked_resource := None,
           c_parked_token := None, c_due_at := None\<rparr>) s))"

definition pg_runParkedOn :: "jstring \<Rightarrow> 'f pg_store \<Rightarrow> journal_error + (jstring \<times> park_record) option" where
  "pg_runParkedOn token s =
     Inr (case find (\<lambda>row. c_parked_token row = Some token \<and> c_status row = Parked) (run_rows s) of
        None \<Rightarrow> None
      | Some row \<Rightarrow> map_option (\<lambda>p. (c_run row, p)) (r_parked (rowToRecord row)))"

definition due_row :: "'f pg_store \<Rightarrow> int \<Rightarrow> 'f run_row \<Rightarrow> bool" where
  "due_row s now row \<longleftrightarrow>
     (case c_claim_until row of None \<Rightarrow> True | Some until \<Rightarrow> until \<le> now) \<and>
     (c_status row = Running
      \<or> (c_status row = Scheduled \<and> (case c_due_at row of None \<Rightarrow> False | Some t \<Rightarrow> t \<le> now))
      \<or> (c_status row = Parked \<and>
          ((case c_due_at row of None \<Rightarrow> False | Some t \<Rightarrow> t \<le> now)
           \<or> (\<exists>(r, e) \<in> set (visible s). r = c_run row \<and> c_parked_path row = Some (epath e)))))"

definition pg_dueRuns :: "int \<Rightarrow> nat \<Rightarrow> 'f pg_store \<Rightarrow> journal_error + jstring list" where
  "pg_dueRuns now limit s = Inr (map c_run (take limit (sort_key c_due_at (filter (due_row s now) (run_rows s)))))"

definition pg_claimRun :: "jstring \<Rightarrow> jstring \<Rightarrow> int \<Rightarrow> int \<Rightarrow> ('f pg_store, bool) journal_op" where
  "pg_claimRun run holder ttl now s =
     (let (rows, s') = update_where
        (\<lambda>row. c_run row = run \<and> (case c_claim_until row of None \<Rightarrow> True
           | Some until \<Rightarrow> until \<le> now \<or> c_claim_holder row = Some holder))
        (\<lambda>row. row\<lparr>c_claim_holder := Some holder, c_claim_until := Some (now + ttl)\<rparr>) s
      in (Inr (0 < rows), s'))"

definition pg_journal :: "('f pg_store, 'f) journal" where
  "pg_journal = \<lparr>j_admit = pg_admitRun, j_read = pg_readRun, j_entries = pg_readEntries, j_append = pg_append,
     j_complete = pg_completeRun, j_park = pg_parkRun, j_unpark = pg_unparkRun, j_parked_on = pg_runParkedOn,
     j_due = pg_dueRuns, j_claim = pg_claimRun\<rparr>"

lemma pg_journal_ops [simp]:
  "j_admit pg_journal = pg_admitRun" "j_read pg_journal = pg_readRun" "j_entries pg_journal = pg_readEntries"
  "j_append pg_journal = pg_append" "j_complete pg_journal = pg_completeRun" "j_park pg_journal = pg_parkRun"
  "j_unpark pg_journal = pg_unparkRun" "j_parked_on pg_journal = pg_runParkedOn"
  "j_due pg_journal = pg_dueRuns" "j_claim pg_journal = pg_claimRun"
  by (simp_all add: pg_journal_def)

text \<open>The transaction of the caller.\<close>

definition pg_begin :: "'f pg_store \<Rightarrow> 'f pg_store" where
  "pg_begin s = (case pending s of None \<Rightarrow> s\<lparr>pending := Some []\<rparr> | Some _ \<Rightarrow> s)"

definition pg_commit :: "'f pg_store \<Rightarrow> 'f pg_store" where
  "pg_commit s = s\<lparr>committed := visible s, pending := None\<rparr>"

definition pg_rollback :: "'f pg_store \<Rightarrow> 'f pg_store" where
  "pg_rollback s = s\<lparr>pending := None\<rparr>"

section \<open>What the tables stand for\<close>

definition row_of :: "'f pg_store \<Rightarrow> jstring \<Rightarrow> 'f run_row option" where
  "row_of s run = find (\<lambda>row. c_run row = run) (run_rows s)"

definition pg_record :: "'f pg_store \<Rightarrow> jstring \<Rightarrow> 'f run_record option" where
  "pg_record s run = map_option rowToRecord (row_of s run)"

definition pg_entries :: "'f pg_store \<Rightarrow> jstring \<Rightarrow> 'f journal_entry list" where
  "pg_entries s run = map snd (filter (\<lambda>(r, _). r = run) (visible s))"

definition row_claim :: "'f run_row \<Rightarrow> claim option" where
  "row_claim row = (case (c_claim_holder row, c_claim_until row) of (Some h, Some u) \<Rightarrow> Some (h, u) | _ \<Rightarrow> None)"

definition pg_claim :: "'f pg_store \<Rightarrow> jstring \<Rightarrow> claim option" where
  "pg_claim s run = Option.bind (row_of s run) row_claim"

definition row_ok :: "'f run_row \<Rightarrow> bool" where
  "row_ok row \<longleftrightarrow> (c_claim_holder row = None \<longleftrightarrow> c_claim_until row = None) \<and>
     (c_parked_token row \<noteq> None \<longrightarrow> c_parked_path row \<noteq> None)"

definition pg_ok :: "'f pg_store \<Rightarrow> bool" where
  "pg_ok s \<longleftrightarrow> distinct (map c_run (run_rows s)) \<and> list_all row_ok (run_rows s) \<and>
     distinct (map (\<lambda>(r, e). (r, epath e)) (visible s))"

lemma find_Some_key: "find P xs = Some x \<Longrightarrow> P x \<and> x \<in> set xs"
  by (auto simp: find_Some_iff)

lemma find_map_update:
  assumes "\<And>x. c_run (f x) = c_run x"
  shows "find (\<lambda>x. c_run x = run) (map f xs) = map_option f (find (\<lambda>x. c_run x = run) xs)"
  by (induction xs) (simp_all add: assms)

definition keeps_key :: "('f run_row \<Rightarrow> 'f run_row) \<Rightarrow> bool" where
  "keeps_key f \<longleftrightarrow> (\<forall>row. c_run (f row) = c_run row)"

lemma update_where_effect:
  assumes "keeps_key f" "\<And>row. sel row \<Longrightarrow> c_run row = run"
  shows "row_of (snd (update_where sel f s)) =
      (row_of s)(run := map_option (\<lambda>row. if sel row then f row else row) (row_of s run))"
    and "visible (snd (update_where sel f s)) = visible s"
    and "pg_entries (snd (update_where sel f s)) = pg_entries s"
proof -
  let ?g = "\<lambda>row. if sel row then f row else row"
  have key: "c_run (?g x) = c_run x" for x using assms(1) by (simp add: keeps_key_def)
  have "row_of (snd (update_where sel f s)) other = map_option ?g (row_of s other)" for other
    by (simp add: row_of_def update_where_def find_map_update [OF key])
  moreover have "map_option ?g (row_of s other) = row_of s other" if "other \<noteq> run" for other
    using that assms(2) by (auto simp: row_of_def map_option_case split: option.splits dest!: find_Some_key)
  ultimately show "row_of (snd (update_where sel f s)) =
      (row_of s)(run := map_option (\<lambda>row. if sel row then f row else row) (row_of s run))"
    by (auto simp: fun_eq_iff)
  show "visible (snd (update_where sel f s)) = visible s" by (simp add: update_where_def visible_def)
  then show "pg_entries (snd (update_where sel f s)) = pg_entries s" by (simp add: pg_entries_def fun_eq_iff)
qed

lemma update_where_ok:
  assumes "pg_ok s" "keeps_key f" "\<And>row. row_ok row \<Longrightarrow> row_ok (f row)"
  shows "pg_ok (snd (update_where sel f s))"
proof -
  let ?s' = "snd (update_where sel f s)"
  have "map c_run (run_rows ?s') = map c_run (run_rows s)"
    using assms(2) by (simp add: keeps_key_def update_where_def)
  moreover have "visible ?s' = visible s" by (simp add: update_where_def visible_def)
  moreover have "list_all row_ok (run_rows ?s')"
    using assms(1,3) by (auto simp: update_where_def list_all_iff pg_ok_def)
  ultimately show ?thesis using assms(1) by (simp only: pg_ok_def)
qed

lemma row_of_key: "row_of s run = Some row \<Longrightarrow> c_run row = run \<and> row \<in> set (run_rows s)"
  by (auto simp: row_of_def dest: find_Some_key)

lemma row_of_ok: "pg_ok s \<Longrightarrow> row_of s run = Some row \<Longrightarrow> row_ok row"
  by (auto simp: pg_ok_def list_all_iff dest: row_of_key)

lemma row_of_member:
  assumes "pg_ok s"
  shows "row_of s run = Some row \<longleftrightarrow> row \<in> set (run_rows s) \<and> c_run row = run"
proof -
  have "distinct (map c_run xs) \<Longrightarrow> x \<in> set xs \<Longrightarrow> find (\<lambda>row. c_run row = c_run x) xs = Some x"
    for xs and x :: "'a run_row"
    by (induction xs) force+
  with assms show ?thesis by (auto simp: pg_ok_def row_of_def dest: find_Some_key)
qed

lemma pg_reads: "pg_readRun run s = Inr (pg_record s run)" "pg_readEntries run s = Inr (pg_entries s run)"
  by (simp_all add: pg_readRun_def pg_record_def row_of_def pg_readEntries_def pg_entries_def)

section \<open>The contract\<close>

lemma find_visible:
  "map_option snd (find (\<lambda>(r, x). r = run \<and> epath x = p) xs) = entry_at p (map snd (filter (\<lambda>(r, _). r = run) xs))"
  by (induction xs) (auto simp: entry_at_def)

lemma pg_append_law:
  assumes "pg_ok s"
  shows "\<exists>s'. pg_append run e s = (Inr (stored_entry (pg_entries s run) e), s') \<and> pg_ok s' \<and>
    pg_entries s' = (pg_entries s)(run := with_entry (pg_entries s run) e) \<and> pg_record s' = pg_record s \<and>
    pg_claim s' = pg_claim s"
proof -
  let ?hit = "find (\<lambda>(r, x). r = run \<and> epath x = epath e) (visible s)"
  have hit: "entry_at (epath e) (pg_entries s run) = map_option snd ?hit"
    by (simp add: find_visible pg_entries_def)
  show ?thesis
  proof (cases ?hit)
    case None
    then have fresh: "(run, epath e) \<notin> (\<lambda>(r, e). (r, epath e)) ` set (visible s)"
      by (auto simp: find_None_iff)
    have vis: "visible (insert_entry run e s) = visible s @ [(run, e)]"
      by (auto simp: insert_entry_def visible_def split: option.splits)
    have "pg_append run e s = (Inr e, insert_entry run e s)" using None by (simp add: pg_append_def)
    moreover have "run_rows (insert_entry run e s) = run_rows s"
      by (simp add: insert_entry_def split: option.splits)
    moreover have "pg_entries (insert_entry run e s) = (pg_entries s)(run := with_entry (pg_entries s run) e)"
      using hit None by (auto simp: pg_entries_def vis fun_eq_iff with_entry_def)
    ultimately show ?thesis
      using hit None fresh assms
      by (auto simp: stored_entry_def pg_record_def pg_claim_def row_of_def fun_eq_iff pg_ok_def vis)
  next
    case (Some hit)
    then show ?thesis
      using assms hit by (cases hit) (auto simp: pg_append_def stored_entry_def with_entry_def fun_upd_idem)
  qed
qed

lemma pg_find_None: "row_of s run = None \<longleftrightarrow> \<not> (\<exists>row \<in> set (run_rows s). c_run row = run)"
  by (auto simp: row_of_def find_None_iff)

lemma pg_admit_new:
  assumes "pg_ok s" "row_of s run = None" "pred_option whole_millis (a_due_at a)"
  shows "\<exists>s' r. pg_admitRun run a now s = (Inr (True, None), s') \<and> pg_ok s' \<and> pg_entries s' = pg_entries s \<and>
    pg_record s' = (pg_record s)(run \<mapsto> r) \<and> r_status r = a_status a \<and> r_due_at r = a_due_at a \<and>
    r_inputs r = a_inputs a \<and> r_inputs_version r = a_inputs_version a \<and> r_parked r = None \<and>
    (\<forall>h ttl. a_claim a = Some (h, ttl) \<longrightarrow> pg_claim s' run = Some (h, now + ttl))"
proof -
  obtain due where due: "bigint (a_due_at a) = Inr due" "map_option of_int due = a_due_at a" using bigint_stores [OF assms(3)] by blast
  obtain row where row: "pg_admitRun run a now s = (Inr (True, None), s\<lparr>run_rows := run_rows s @ [row]\<rparr>)"
      "c_run row = run" "c_status row = a_status a" "map_option of_int (c_due_at row) = a_due_at a" "c_inputs row = a_inputs a"
      "c_parked_path row = None" "c_parked_token row = None" "c_claim_holder row = map_option fst (a_claim a)"
      "c_claim_until row = map_option (\<lambda>(_, ttl). now + ttl) (a_claim a)" "c_inputs_version row = a_inputs_version a"
    using assms(2) due by (simp add: pg_admitRun_def pg_find_None)
  let ?s' = "s\<lparr>run_rows := run_rows s @ [row]\<rparr>"
  have find_new: "find P (xs @ [x]) = (case find P xs of None \<Rightarrow> if P x then Some x else None | r \<Rightarrow> r)" for P xs and x :: "'a run_row"
    by (induction xs) auto
  have rows: "row_of ?s' = (row_of s)(run \<mapsto> row)"
    using assms(2) row(2) by (auto simp: row_of_def fun_eq_iff find_new split: option.splits)
  have "visible ?s' = visible s" by (simp add: visible_def)
  then have entries: "pg_entries ?s' = pg_entries s" by (simp add: pg_entries_def fun_eq_iff)
  have "pg_ok ?s'"
    using assms row(2,6-9) \<open>visible ?s' = visible s\<close>
    by (auto simp: pg_ok_def row_ok_def pg_find_None)
  moreover have "pg_record ?s' = (pg_record s)(run \<mapsto> rowToRecord row)" by (simp add: pg_record_def rows fun_eq_iff)
  moreover have "pg_claim ?s' run = Some (h, now + ttl)" if "a_claim a = Some (h, ttl)" for h ttl
    using that row(8,9) by (simp add: pg_claim_def rows row_claim_def)
  ultimately show ?thesis
    using row(1,3-6,10) entries by (intro exI [of _ ?s'] exI [of _ "rowToRecord row"]) (simp add: rowToRecord_def)
qed

lemma pg_admit_law:
  assumes "pg_ok s" "pred_option whole_millis (a_due_at a)"
  shows "\<exists>admitted existing s'. pg_admitRun run a now s = (Inr (admitted, existing), s') \<and> pg_ok s' \<and>
      pg_entries s' = pg_entries s \<and>
      (if admitted then pg_record s run = None \<and>
         (\<exists>r. pg_record s' = (pg_record s)(run \<mapsto> r) \<and> r_status r = a_status a \<and> r_due_at r = a_due_at a \<and>
            r_inputs r = a_inputs a \<and> r_inputs_version r = a_inputs_version a \<and> r_parked r = None) \<and>
         (\<forall>h ttl. a_claim a = Some (h, ttl) \<longrightarrow> pg_claim s' run = Some (h, now + ttl))
       else pg_record s' = pg_record s \<and> pg_claim s' = pg_claim s \<and>
         (\<forall>r. pg_record s run = Some r \<longrightarrow> existing = Some r))"
proof (cases "row_of s run")
  case None
  then have "pg_record s run = None" by (simp add: pg_record_def)
  moreover from pg_admit_new [OF assms(1) None assms(2), of now] obtain s' r
    where "pg_admitRun run a now s = (Inr (True, None), s')" "pg_ok s'" "pg_entries s' = pg_entries s"
      "pg_record s' = (pg_record s)(run \<mapsto> r)" "r_status r = a_status a" "r_due_at r = a_due_at a"
      "r_inputs r = a_inputs a" "r_inputs_version r = a_inputs_version a" "r_parked r = None"
      "\<forall>h ttl. a_claim a = Some (h, ttl) \<longrightarrow> pg_claim s' run = Some (h, now + ttl)" by blast
  ultimately show ?thesis by (intro exI [of _ True] exI [of _ None] exI [of _ s']) auto
next
  case (Some row)
  then have "\<exists>row \<in> set (run_rows s). c_run row = run" using pg_find_None [of s run] by auto
  then have "pg_admitRun run a now s = (Inr (False, pg_record s run), s)"
    using bigint_stores [OF assms(2)] by (auto simp: pg_admitRun_def pg_reads)
  with assms show ?thesis by auto
qed

lemma pg_update_law:
  assumes "pg_ok s" "row_of s run = Some row" "keeps_key f" "\<And>row. row_ok row \<Longrightarrow> row_ok (f row)"
    and "\<And>row. sel row \<Longrightarrow> c_run row = run"
  defines "s' \<equiv> snd (update_where sel f s)"
  shows "pg_ok s'" and "pg_entries s' = pg_entries s"
    and "pg_record s' = (pg_record s)(run \<mapsto> rowToRecord (if sel row then f row else row))"
    and "pg_claim s' = (pg_claim s)(run := row_claim (if sel row then f row else row))"
proof -
  note effect = update_where_effect [where f = f and sel = sel and run = run and s = s, OF assms(3,5), folded s'_def]
  show "pg_ok s'" unfolding s'_def by (rule update_where_ok [OF assms(1,3,4)])
  show "pg_entries s' = pg_entries s" unfolding s'_def by (rule update_where_effect(3) [OF assms(3,5)])
  show "pg_record s' = (pg_record s)(run \<mapsto> rowToRecord (if sel row then f row else row))"
    by (simp add: pg_record_def effect(1) assms(2) fun_eq_iff)
  show "pg_claim s' = (pg_claim s)(run := row_claim (if sel row then f row else row))"
    by (simp add: pg_claim_def effect(1) assms(2) fun_eq_iff)
qed

lemma pg_record_row: "pg_record s run = Some r \<Longrightarrow> \<exists>row. row_of s run = Some row \<and> r = rowToRecord row \<and> c_run row = run"
  by (auto simp: pg_record_def dest: row_of_key)

lemma rowToRecord_simps [simp]:
  "r_status (rowToRecord row) = c_status row" "r_due_at (rowToRecord row) = map_option of_int (c_due_at row)"
  "r_result (rowToRecord row) = c_result row" "r_result_version (rowToRecord row) = c_result_version row" "r_error (rowToRecord row) = c_error row"
  "r_parked (rowToRecord row) = None \<longleftrightarrow> c_parked_path row = None"
  by (simp_all add: rowToRecord_def split: option.splits)

lemma pg_update_run:
  assumes "pg_ok s" "row_of s run = Some row" "keeps_key f" "\<And>row. row_ok row \<Longrightarrow> row_ok (f row)"
    and "\<And>row. sel row \<Longrightarrow> c_run row = run" "sel row" "r = rowToRecord (f row)" "c = row_claim (f row)"
  shows "\<exists>s'. snd (update_where sel f s) = s' \<and> pg_ok s' \<and> pg_entries s' = pg_entries s \<and>
    pg_record s' = (pg_record s)(run \<mapsto> r) \<and> pg_claim s' = (pg_claim s)(run := c)"
  using pg_update_law [OF assms(1-5)] assms(6-8) by simp

lemma pg_complete_law:
  assumes "pg_ok s" "pg_record s run = Some r"
  shows "\<exists>r' s'. pg_completeRun run out s = (Inr (), s') \<and> pg_ok s' \<and> pg_entries s' = pg_entries s \<and>
    pg_record s' = (pg_record s)(run \<mapsto> r') \<and> r_status r' = r_status out \<and> r_result r' = r_result out \<and> r_result_version r' = r_result_version out \<and>
    r_error r' = r_error out \<and> r_due_at r' = None \<and> r_parked r' = None \<and> pg_claim s' = (pg_claim s)(run := None)"
proof -
  obtain row where row: "row_of s run = Some row" "c_run row = run" using pg_record_row [OF assms(2)] by blast
  let ?f = "\<lambda>row. row\<lparr>c_status := r_status out, c_result := r_result out, c_error := r_error out,
     c_collapsed_regions := r_collapsed_regions out, c_collapse_reasons := r_collapse_reasons out,
     c_replayed_steps := r_replayed_steps out, c_result_version := r_result_version out,
     c_due_at := None, c_parked_path := None, c_parked_resource := None, c_parked_token := None,
     c_claim_holder := None, c_claim_until := None\<rparr>"
  have "\<exists>s'. snd (update_where (\<lambda>row. c_run row = run) ?f s) = s' \<and> pg_ok s' \<and> pg_entries s' = pg_entries s \<and>
    pg_record s' = (pg_record s)(run \<mapsto> rowToRecord (?f row)) \<and> pg_claim s' = (pg_claim s)(run := None)"
    by (rule pg_update_run [OF assms(1) row(1)]) (simp_all add: keeps_key_def row_ok_def row_claim_def row(2))
  then show ?thesis
    by (intro exI [of _ "rowToRecord (?f row)"]) (simp add: pg_completeRun_def)
qed

lemma pg_park_law:
  assumes "pg_ok s" "pg_record s run = Some r" "pred_option whole_millis (p_at p)"
  shows "\<exists>r' s'. pg_parkRun run p s = (Inr (), s') \<and> pg_ok s' \<and> pg_entries s' = pg_entries s \<and>
    pg_record s' = (pg_record s)(run \<mapsto> r') \<and> r_status r' = Parked \<and>
    r_parked r' = Some \<lparr>p_path = p_path p, p_resource = p_resource p, p_at = p_at p, p_token = p_token p\<rparr> \<and>
    r_due_at r' = p_at p \<and> pg_claim s' = (pg_claim s)(run := None)"
proof -
  obtain due where due: "bigint (p_at p) = Inr due" "map_option of_int due = p_at p" using bigint_stores [OF assms(3)] by blast
  obtain row where row: "row_of s run = Some row" "c_run row = run" using pg_record_row [OF assms(2)] by blast
  let ?f = "\<lambda>row. row\<lparr>c_status := Parked, c_parked_path := Some (p_path p),
    c_parked_resource := Some (p_resource p), c_parked_token := p_token p, c_due_at := due,
    c_claim_holder := None, c_claim_until := None\<rparr>"
  have "\<exists>s'. snd (update_where (\<lambda>row. c_run row = run) ?f s) = s' \<and> pg_ok s' \<and> pg_entries s' = pg_entries s \<and>
    pg_record s' = (pg_record s)(run \<mapsto> rowToRecord (?f row)) \<and> pg_claim s' = (pg_claim s)(run := None)"
    by (rule pg_update_run [OF assms(1) row(1)]) (simp_all add: keeps_key_def row_ok_def row_claim_def row(2))
  then show ?thesis
    by (intro exI [of _ "rowToRecord (?f row)"]) (simp add: pg_parkRun_def due(1), simp add: rowToRecord_def due(2))
qed

lemma pg_unpark_law:
  assumes "pg_ok s" "pg_record s run = Some r" "r_status r = Parked"
  shows "\<exists>r' s'. pg_unparkRun run s = (Inr (), s') \<and> pg_ok s' \<and> pg_entries s' = pg_entries s \<and>
    pg_record s' = (pg_record s)(run \<mapsto> r') \<and> r_status r' = Running \<and> r_parked r' = None \<and> r_due_at r' = None \<and>
    pg_claim s' = pg_claim s"
proof -
  obtain row where row: "row_of s run = Some row" "c_run row = run" "r = rowToRecord row"
    using pg_record_row [OF assms(2)] by blast
  let ?f = "\<lambda>row. row\<lparr>c_status := Running, c_parked_path := None, c_parked_resource := None,
    c_parked_token := None, c_due_at := None\<rparr>"
  have same: "(pg_claim s)(run := row_claim row) = pg_claim s" by (simp add: pg_claim_def row(1) fun_eq_iff)
  have "\<exists>s'. snd (update_where (\<lambda>row. c_run row = run \<and> c_status row = Parked) ?f s) = s' \<and> pg_ok s' \<and>
    pg_entries s' = pg_entries s \<and> pg_record s' = (pg_record s)(run \<mapsto> rowToRecord (?f row)) \<and>
    pg_claim s' = (pg_claim s)(run := row_claim row)"
    using assms(3) row(2,3)
    by (intro pg_update_run [OF assms(1) row(1)]) (simp_all add: keeps_key_def row_ok_def row_claim_def)
  then show ?thesis
    unfolding same by (intro exI [of _ "rowToRecord (?f row)"]) (simp add: pg_unparkRun_def)
qed

lemma pg_unpark_other:
  assumes "pg_ok s" "pg_record s run = Some r" "r_status r \<noteq> Parked"
  shows "pg_unparkRun run s = (Inr (), s)"
proof -
  obtain row where row: "row_of s run = Some row" "c_run row = run" "r = rowToRecord row"
    using pg_record_row [OF assms(2)] by blast
  have "\<not> (c_run x = run \<and> c_status x = Parked)" if "x \<in> set (run_rows s)" for x
  proof
    assume x: "c_run x = run \<and> c_status x = Parked"
    then have "row_of s run = Some x" using that row_of_member [OF assms(1)] by metis
    then show False using x row(1,3) assms(3) by simp
  qed
  then have "map (\<lambda>x. if c_run x = run \<and> c_status x = Parked then f x else x) (run_rows s) = run_rows s" for f
    by (intro map_idI) auto
  then show ?thesis by (simp add: pg_unparkRun_def update_where_def)
qed

lemma pg_claim_law:
  assumes "pg_ok s" "pg_record s run = Some r"
  shows "\<exists>s'. pg_claimRun run holder ttl now s = (Inr (\<not> held_by_other (pg_claim s run) holder now), s') \<and> pg_ok s' \<and>
    pg_entries s' = pg_entries s \<and> pg_record s' = pg_record s \<and>
    pg_claim s' = (if held_by_other (pg_claim s run) holder now then pg_claim s
                   else (pg_claim s)(run \<mapsto> (holder, now + ttl)))"
proof -
  obtain row where row: "row_of s run = Some row" "c_run row = run" "r = rowToRecord row"
    using pg_record_row [OF assms(2)] by blast
  let ?f = "\<lambda>row. row\<lparr>c_claim_holder := Some holder, c_claim_until := Some (now + ttl)\<rparr>"
  let ?sel = "\<lambda>row. c_run row = run \<and> (case c_claim_until row of None \<Rightarrow> True
    | Some until \<Rightarrow> until \<le> now \<or> c_claim_holder row = Some holder)"
  let ?s' = "snd (update_where ?sel ?f s)"
  have free: "?sel row \<longleftrightarrow> \<not> held_by_other (pg_claim s run) holder now"
    using row_of_ok [OF assms(1) row(1)] row(2)
    by (auto simp: pg_claim_def row(1) row_claim_def held_by_other_def row_ok_def split: option.splits)
  have "0 < fst (update_where ?sel ?f s) \<longleftrightarrow> (\<exists>row \<in> set (run_rows s). ?sel row)"
    by (auto simp: update_where_def filter_empty_conv)
  also have "\<dots> \<longleftrightarrow> ?sel row"
    using row(1) row_of_member [OF assms(1), of run] by (metis (no_types, lifting) option.inject)
  finally have answer: "pg_claimRun run holder ttl now s = (Inr (?sel row), ?s')"
    by (simp add: pg_claimRun_def case_prod_beta Let_def)
  have f: "keeps_key ?f" "\<And>row. row_ok row \<Longrightarrow> row_ok (?f row)" by (simp_all add: keeps_key_def row_ok_def)
  have sel: "?sel row \<Longrightarrow> c_run row = run" for row by simp
  note law = pg_update_law [where sel = ?sel and f = ?f, OF assms(1) row(1) f sel]
  have same: "rowToRecord (if ?sel row then ?f row else row) = rowToRecord row"
    by (simp add: rowToRecord_def split: option.splits)
  have kept: "pg_record s run = Some (rowToRecord row)" "pg_claim s run = row_claim row"
    by (simp_all add: pg_record_def pg_claim_def row(1))
  have "pg_record ?s' = pg_record s"
    using law(3) unfolding same using kept(1) by (simp add: fun_upd_idem)
  moreover have "pg_claim ?s' = (if \<not> ?sel row then pg_claim s else (pg_claim s)(run \<mapsto> (holder, now + ttl)))"
    using law(4) kept(2) by (cases "?sel row") (simp_all add: fun_upd_idem row_claim_def)
  ultimately show ?thesis
    using law(1,2) answer unfolding free not_not by (intro exI [of _ ?s']) blast
qed

lemma pg_record_member:
  assumes "pg_ok s" "row \<in> set (run_rows s)"
  shows "pg_record s (c_run row) = Some (rowToRecord row)" and "pg_claim s (c_run row) = row_claim row"
  using row_of_member [OF assms(1), of "c_run row" row] assms(2) by (simp_all add: pg_record_def pg_claim_def)

lemma time_reached_column: "time_reached (map_option of_int due) now \<longleftrightarrow> (case due of None \<Rightarrow> False | Some t \<Rightarrow> t \<le> now)"
  by (cases due) (simp_all add: time_reached_def)

lemma due_row_is_due:
  assumes "pg_ok s" "row \<in> set (run_rows s)"
  shows "due_row s now row \<longleftrightarrow> \<not> live_claim (pg_claim s (c_run row)) now \<and>
    is_due (rowToRecord row) (answered (rowToRecord row) (pg_entries s (c_run row))) now"
proof -
  have claim: "(case c_claim_until row of None \<Rightarrow> True | Some until \<Rightarrow> until \<le> now) \<longleftrightarrow>
      \<not> live_claim (pg_claim s (c_run row)) now"
    using assms row_of_ok [OF assms(1), of "c_run row" row] row_of_member [OF assms(1), of "c_run row" row]
    by (auto simp: pg_record_member live_claim_def row_claim_def row_ok_def split: option.splits)
  have ans: "answered (rowToRecord row) (pg_entries s (c_run row)) \<longleftrightarrow>
      (\<exists>(r, e) \<in> set (visible s). r = c_run row \<and> c_parked_path row = Some (epath e))"
    by (cases "c_parked_path row")
      (auto simp: answered_def rowToRecord_def entry_at_None pg_entries_def image_iff split: prod.splits)
  show ?thesis
    unfolding due_row_def claim [symmetric] ans [symmetric] is_due_def
    by (cases "c_status row") (auto simp: time_reached_column)
qed

lemma pg_due_law:
  assumes "pg_ok s" "0 < limit"
  shows "\<exists>runs. pg_dueRuns now limit s = Inr runs \<and> length runs \<le> limit \<and>
      (\<forall>run \<in> set runs. \<not> live_claim (pg_claim s run) now \<and>
         (\<exists>r. pg_record s run = Some r \<and> is_due r (answered r (pg_entries s run)) now)) \<and>
      (length runs < limit \<longrightarrow> (\<forall>run r. pg_record s run = Some r \<longrightarrow> is_due r (answered r (pg_entries s run)) now \<longrightarrow>
         \<not> live_claim (pg_claim s run) now \<longrightarrow> run \<in> set runs))"
proof -
  let ?due = "sort_key c_due_at (filter (due_row s now) (run_rows s))"
  let ?runs = "map c_run (take limit ?due)"
  have members: "set ?due = {row \<in> set (run_rows s). due_row s now row}" by auto
  have "\<not> live_claim (pg_claim s run) now \<and> (\<exists>r. pg_record s run = Some r \<and> is_due r (answered r (pg_entries s run)) now)"
    if "run \<in> set ?runs" for run
  proof -
    from that obtain row where "row \<in> set ?due" "run = c_run row" by (auto dest: in_set_takeD)
    with members due_row_is_due [OF assms(1)] pg_record_member(1) [OF assms(1)] show ?thesis by auto
  qed
  moreover have "run \<in> set ?runs"
    if few: "length ?runs < limit" and r: "pg_record s run = Some r" "is_due r (answered r (pg_entries s run)) now"
      "\<not> live_claim (pg_claim s run) now" for run r
  proof -
    from pg_record_row [OF r(1)] obtain row
      where row: "row_of s run = Some row" "r = rowToRecord row" "c_run row = run" by blast
    then have "row \<in> set (run_rows s)" by (auto dest: row_of_key)
    with due_row_is_due [OF assms(1) this] r(2,3) row(2,3) have "row \<in> set ?due" by auto
    moreover have "take limit ?due = ?due" using few by simp
    ultimately show ?thesis using row(3) by force
  qed
  moreover have "length ?runs \<le> limit" by simp
  ultimately show ?thesis unfolding pg_dueRuns_def by blast
qed

lemma pg_parked_on_law:
  assumes "pg_ok s" "pg_runParkedOn token s = Inr found"
  shows "case found of
      None \<Rightarrow> \<not> (\<exists>run r p. pg_record s run = Some r \<and> r_status r = Parked \<and> r_parked r = Some p \<and> p_token p = Some token)
    | Some (run, p) \<Rightarrow> \<exists>r. pg_record s run = Some r \<and> r_status r = Parked \<and> r_parked r = Some p \<and> p_token p = Some token"
proof -
  let ?hit = "find (\<lambda>row. c_parked_token row = Some token \<and> c_status row = Parked) (run_rows s)"
  have token: "p_token p = c_parked_token row" if "r_parked (rowToRecord row) = Some p" for row p
    using that by (auto simp: rowToRecord_def split: option.splits)
  show ?thesis
  proof (cases ?hit)
    case None
    have "\<not> (pg_record s run = Some r \<and> r_status r = Parked \<and> r_parked r = Some p \<and> p_token p = Some token)"
      for run r p
    proof
      assume r: "pg_record s run = Some r \<and> r_status r = Parked \<and> r_parked r = Some p \<and> p_token p = Some token"
      then obtain row where "row_of s run = Some row" "r = rowToRecord row" using pg_record_row by blast
      with r token [of row p] None show False by (auto simp: find_None_iff dest: row_of_key)
    qed
    moreover have "found = None" using None assms(2) by (simp add: pg_runParkedOn_def)
    ultimately show ?thesis by simp
  next
    case (Some row)
    then have row: "row \<in> set (run_rows s)" "c_parked_token row = Some token" "c_status row = Parked"
      by (auto dest: find_Some_key)
    moreover have "row_ok row" using assms(1) row(1) by (simp add: pg_ok_def list_all_iff)
    ultimately obtain p where p: "r_parked (rowToRecord row) = Some p"
      by (cases "r_parked (rowToRecord row)") (auto simp: row_ok_def)
    then have "found = Some (c_run row, p)" using Some assms(2) by (simp add: pg_runParkedOn_def)
    then show ?thesis
      using pg_record_member(1) [OF assms(1) row(1)] row(2,3) p token [OF p] by simp
  qed
qed

interpretation pg: guarded_journal pg_journal pg_ok pg_entries pg_record pg_claim whole_millis
proof (unfold_locales, goal_cases)
  case (3 s run)
  have "distinct (map (\<lambda>(r, e). (r, epath e)) xs) \<Longrightarrow> distinct (map (epath \<circ> snd) (filter (\<lambda>(r, _). r = run) xs))"
    for xs :: "(jstring \<times> 'a journal_entry) list"
    by (induction xs) force+
  with 3 show ?case by (simp add: pg_ok_def pg_entries_def)
next
  case (5 s a run now)
  then show ?case using pg_admit_law [OF 5] by simp
next
  case (6 s a run now)
  then show ?case using bigint_refuses [OF 6(2)] by (auto simp: pg_admitRun_def)
next
  case (7 s run r out)
  from pg_complete_law [OF 7(1,2), of out] show ?case by simp
next
  case (8 s run r p)
  from pg_park_law [OF 8(1,2,4)] obtain r' s' where "pg_parkRun run p s = (Inr (), s')" "pg_ok s'"
    "pg_entries s' = pg_entries s" "pg_record s' = (pg_record s)(run \<mapsto> r')" "r_status r' = Parked"
    "r_parked r' = Some \<lparr>p_path = p_path p, p_resource = p_resource p, p_at = p_at p, p_token = p_token p\<rparr>"
    "r_due_at r' = p_at p" "pg_claim s' = (pg_claim s)(run := None)" by blast
  then show ?case by (intro exI [of _ r'] exI [of _ s']) simp
next
  case (9 s run r p)
  then show ?case using bigint_refuses [OF 9(4)] by (auto simp: pg_parkRun_def)
next
  case (10 s run r)
  then show ?case using pg_unpark_law [OF 10] pg_unpark_other [OF 10] by (cases "r_status r = Parked") auto
next
  case (12 s token found)
  then show ?case using pg_parked_on_law [of s token found] by simp
next
  case (13 s limit now)
  then show ?case using pg_due_law [of s limit now] by simp
qed (simp_all add: pg_reads pg_append_law pg_claim_law)

section \<open>Runs of the store\<close>

inductive pg_write :: "'f pg_store \<Rightarrow> 'f pg_store \<Rightarrow> bool" where
  pg_admits: "pg_write s (snd (pg_admitRun run a now s))"
| pg_appends: "pg_write s (snd (pg_append run e s))"
| pg_completes: "pg_write s (snd (pg_completeRun run out s))"
| pg_parks: "pg_write s (snd (pg_parkRun run p s))"
| pg_wakes: "pg_write s (snd (pg_unparkRun run s))"
| pg_claims: "pg_write s (snd (pg_claimRun run holder ttl now s))"

inductive pg_step :: "'f pg_store \<Rightarrow> 'f pg_store \<Rightarrow> bool" where
  pg_writes: "pg_write s s' \<Longrightarrow> pg_step s s'"
| pg_begins: "pg_step s (pg_begin s)"
| pg_commits: "pg_step s (pg_commit s)"
| pg_rolls_back: "pg_step s (pg_rollback s)"

definition empty_tables :: "'f pg_store" where
  "empty_tables = \<lparr>run_rows = [], committed = [], pending = None\<rparr>"

lemma update_none:
  assumes "row_of s run = None" "\<And>row. sel row \<Longrightarrow> c_run row = run"
  shows "snd (update_where sel f s) = s"
proof -
  have "map (\<lambda>row. if sel row then f row else row) (run_rows s) = run_rows s"
    using assms by (intro map_idI) (auto simp: pg_find_None)
  then show ?thesis by (simp add: update_where_def)
qed

lemma pg_write_ok:
  assumes "pg_write s s'" "pg_ok s"
  shows "pg_ok s'"
  using assms
proof cases
  case (pg_admits run a now)
  show ?thesis
  proof (cases "pred_option whole_millis (a_due_at a)")
    case True
    from pg_admit_law [OF assms(2) True, of run now] pg_admits show ?thesis by auto
  next
    case False
    from bigint_refuses [OF False] pg_admits assms(2) show ?thesis by (auto simp: pg_admitRun_def)
  qed
next
  case (pg_appends run e)
  with pg_append_law [OF assms(2), of run e] show ?thesis by auto
qed (auto simp: pg_completeRun_def pg_parkRun_def pg_unparkRun_def pg_claimRun_def case_prod_beta Let_def
    keeps_key_def row_ok_def assms(2) intro!: update_where_ok [OF assms(2)] split: sum.split)

lemma pg_step_ok:
  assumes "pg_step s s'" "pg_ok s"
  shows "pg_ok s'"
  using assms
proof cases
  case pg_writes
  then show ?thesis using pg_write_ok assms(2) by blast
qed (use assms(2) in \<open>auto simp: pg_ok_def pg_begin_def pg_commit_def pg_rollback_def visible_def split: option.splits\<close>)

lemma pg_reach_ok: "pg_step\<^sup>*\<^sup>* empty_tables s \<Longrightarrow> pg_ok s"
proof (induction rule: rtranclp_induct)
  case base
  show ?case by (simp add: pg_ok_def empty_tables_def visible_def)
qed (rule pg_step_ok)

text \<open>Only an entry goes into the transaction of the caller.\<close>

lemma pg_write_transaction:
  assumes "pg_write s s'"
  shows "(\<exists>es. pending s = Some es) \<longrightarrow> committed s' = committed s \<and> (\<exists>es. pending s' = Some es)"
  using assms
  by cases (auto simp: pg_admitRun_def pg_append_def insert_entry_def pg_completeRun_def pg_parkRun_def pg_unparkRun_def
      pg_claimRun_def update_where_def Let_def split: option.splits prod.splits sum.splits)

section \<open>Properties\<close>


text \<open>C36. What is appended inside a transaction is discarded by its rollback, and nothing else is: after any writes
  the entries are those of before the transaction, while admissions, parks, settlements and claims stay.\<close>

theorem pg_rollback_discards_steps_only:
  assumes "pending s = None" "pg_write\<^sup>*\<^sup>* (pg_begin s) s'"
  shows "pg_readEntries run (pg_rollback s') = pg_readEntries run s \<and>
    pg_readRun run (pg_rollback s') = pg_readRun run s' \<and> pg_claim (pg_rollback s') run = pg_claim s' run"
proof -
  have "committed s' = committed s \<and> (\<exists>es. pending s' = Some es)"
    using assms(2)
  proof (induction rule: rtranclp_induct)
    case base
    show ?case by (simp add: pg_begin_def assms(1))
  next
    case (step s' s'')
    with pg_write_transaction [OF step(2)] show ?case by auto
  qed
  then have "visible (pg_rollback s') = visible s" by (simp add: visible_def pg_rollback_def assms(1))
  then show ?thesis
    by (simp add: pg_readEntries_def pg_readRun_def pg_claim_def row_of_def) (simp add: pg_rollback_def)
qed

text \<open>A step recorded, and then the settlement of its run, inside a transaction that is rolled back.\<close>

definition table_entry :: "nat journal_entry" where
  "table_entry = \<lparr>epath = [2], ekind = StepEntry, edecision = None, etarget = None, eversion = Some 1, evalue = Some 7\<rparr>"

definition table_admission :: "nat admission" where
  "table_admission = \<lparr>a_status = Running, a_due_at = None, a_inputs = None, a_inputs_version = None, a_claim = None\<rparr>"

lemma table_admission_due [simp]: "a_due_at table_admission = None"
  by (simp add: table_admission_def)

definition admitted_tables :: "nat pg_store" where
  "admitted_tables = snd (pg_admitRun [1] table_admission 0 empty_tables)"

definition settled_tables :: "nat pg_store" where
  "settled_tables = snd (pg_completeRun [1] (blank_record Completed) (snd (pg_append [1] table_entry (pg_begin admitted_tables))))"

lemma admitted_tables_pending: "pending admitted_tables = None"
  by (simp add: admitted_tables_def pg_admitRun_def empty_tables_def)

lemma settled_tables_written: "pg_write\<^sup>*\<^sup>* (pg_begin admitted_tables) settled_tables"
  unfolding settled_tables_def by (rule converse_rtranclp_into_rtranclp [OF _ r_into_rtranclp]) (rule pg_write.intros)+

theorem pg_rollback_discards_steps_only_witness:
  "pg_readEntries [1] (pg_rollback settled_tables) = pg_readEntries [1] admitted_tables \<and>
   pg_readRun [1] (pg_rollback settled_tables) = pg_readRun [1] settled_tables \<and>
   pg_claim (pg_rollback settled_tables) [1] = pg_claim settled_tables [1]"
  by (rule pg_rollback_discards_steps_only [OF admitted_tables_pending settled_tables_written])

text \<open>C37. A claim is exclusive: in every store that writes and transactions lead to, once a holder has taken a run, no
  other holder takes it, and no sweep is handed it, before the claim lapses.\<close>

theorem pg_claim_exclusive:
  assumes "pg_step\<^sup>*\<^sup>* empty_tables s" "pg_readRun run s = Inr (Some r)"
    and "pg_claimRun run h ttl now s = (Inr True, s')" "now' < now + ttl" "h' \<noteq> h" "0 < limit"
  shows "fst (pg_claimRun run h' ttl' now' s') = Inr False \<and>
    (case pg_dueRuns now' limit s' of Inl _ \<Rightarrow> False | Inr runs \<Rightarrow> run \<notin> set runs)"
proof -
  note ok = pg_reach_ok [OF assms(1)]
  have r: "pg_record s run = Some r" using assms(2) by (simp add: pg_reads)
  show ?thesis
    using pg.claim_excludes [OF ok r, of h ttl now s' now' h' ttl'] pg.claimed_not_due [OF ok r, of h ttl now s' now' limit]
      assms(3-6) by (simp add: pg_dueRuns_def)
qed

theorem pg_claim_exclusive_witness:
  "fst (pg_claimRun [1] [8] 5 3 (snd (pg_claimRun [1] [7] 10 0 admitted_tables))) = Inr False \<and>
   (case pg_dueRuns 3 4 (snd (pg_claimRun [1] [7] 10 0 admitted_tables)) of Inl _ \<Rightarrow> False | Inr runs \<Rightarrow> [1] \<notin> set runs)"
proof (rule pg_claim_exclusive)
  show "pg_step\<^sup>*\<^sup>* empty_tables admitted_tables"
    unfolding admitted_tables_def by (rule r_into_rtranclp) (rule pg_writes, rule pg_admits)
  show "pg_readRun [1] admitted_tables = Inr (Some (blank_record Running))"
    by (simp add: admitted_tables_def table_admission_def pg_admitRun_def empty_tables_def pg_readRun_def rowToRecord_def
        blank_record_def)
  show "pg_claimRun [1] [7] 10 0 admitted_tables = (Inr True, snd (pg_claimRun [1] [7] 10 0 admitted_tables))"
    by (simp add: admitted_tables_def table_admission_def pg_admitRun_def empty_tables_def pg_claimRun_def update_where_def)
qed simp_all

section \<open>Where the tables do less\<close>

text \<open>A wait whose deadline is a fraction of a millisecond cannot be parked.\<close>

lemma pg_refuses_a_fraction:
  assumes "p_at p = Some t" "of_int \<lfloor>t\<rfloor> \<noteq> t"
  shows "pg_parkRun run p s = (Inl (StoreRefused (js ''22P02'')), s)"
  using assms by (simp add: pg_parkRun_def bigint_def whole_millis_def)

text \<open>A park overwrites a run that is settled: cancelling a run does not stop it from parking and being woken.\<close>

lemma pg_settled_run_parks:
  assumes "pg_ok s" "pg_record s run = Some r" "r_status r = Cancelled" "pred_option whole_millis (p_at p)"
  shows "\<exists>r'. pg_record (snd (pg_parkRun run p s)) run = Some r' \<and> r_status r' = Parked"
proof -
  from pg_park_law [OF assms(1,2,4)] obtain r' s' where "pg_parkRun run p s = (Inr (), s')"
    "pg_record s' = (pg_record s)(run \<mapsto> r')" "r_status r' = Parked" by blast
  then show ?thesis by simp
qed

end
