(* ===== verification/Durable_Workflow.thy ===== *)
theory Durable_Workflow
  imports Durable_Replay Journal_Postgres
begin

text \<open>
  The life of a run (\<open>modules/durable-local/nodejs/src\<close>: \<open>workflow.ts\<close>, \<open>resumer.ts\<close>,
  \<open>deliver.ts\<close>, \<open>cancel.ts\<close>, \<open>resume.ts\<close>, \<open>schedule.ts\<close>, \<open>status.ts\<close>,
  \<open>result.ts\<close>, \<open>run-id.ts\<close>): a run is started and executed by the workflow that holds its body, or
  addressed from outside through the journal. Every operation takes the store of the journal and the world, and
  answers a failure or a value with the store and the world it leaves. Expressions are expanded by the host, as in the
  step engine.
\<close>

section \<open>Executing a run\<close>

type_synonym ('s, 'w, 'a) proc = "'s \<times> 'w \<Rightarrow> (failure + 'a) \<times> 's \<times> 'w"

type_synonym ('e, 'w) expander = "'e \<Rightarrow> (jstring \<times> cel_value) list \<Rightarrow> 'w \<Rightarrow> (failure + cel_value) \<times> 'w"

text \<open>
  A workflow: the seam it records through and the context its body runs in, for each run; its identity as a holder of
  claims; and what the manifest declares. Expressions are of type \<open>'e\<close>, targets of type \<open>'t\<close>.
\<close>

record ('s, 'f, 'w, 'e, 't) workflow =
  wf_journal :: "('s, 'f) journal"
  wf_backend :: "jstring \<Rightarrow> ('s, 'f) backend"
  wf_context :: "jstring \<Rightarrow> ('s, 'f, 'w, 'e, 't) step_context"
  wf_expand :: "('e, 'w) expander"
  wf_holder :: jstring
  wf_run_id :: "'e option"
  wf_minted :: jstring
  wf_reject :: bool
  wf_inputs :: 'e
  wf_steps :: "('e, 't) step list"

definition CLAIM_TTL_MS :: int where
  "CLAIM_TTL_MS = 60000"

definition failed_outcome :: "failure \<Rightarrow> 'f run_record" where
  "failed_outcome err = (blank_record Failed)\<lparr>r_error := Some
     (case f_code err of Some c \<Rightarrow> c | None \<Rightarrow> js ''INTERNAL_ERROR'', f_message err)\<rparr>"

definition completed_outcome :: "nat \<Rightarrow> 'f option \<Rightarrow> ('s, 'w) run \<Rightarrow> 'f run_record" where
  "completed_outcome version frame st = (blank_record Completed)\<lparr>r_result := frame,
     r_result_version := map_option (\<lambda>_. version) frame, r_collapsed_regions := Some (collapsed_regions st),
     r_collapse_reasons := Some (collapse_reasons st), r_replayed_steps := Some (replayed_steps st)\<rparr>"

text \<open>A settlement of a run; what the journal refuses is thrown in its place.\<close>

definition settle_run :: "('s, 'f) backend \<Rightarrow> 'f run_record \<Rightarrow> (('s, 'w) run, unit) act" where
  "settle_run B outcome st =
     (case j_complete (b_journal B) (b_run B) outcome (store st) of
        (Inl e, s) \<Rightarrow> (Inl (journal_failure B e), st\<lparr>store := s\<rparr>)
      | (Inr _, s) \<Rightarrow> (Inr (), st\<lparr>store := s\<rparr>))"

definition settleFailed :: "('s, 'f) backend \<Rightarrow> failure \<Rightarrow> (('s, 'w) run, 'a) act" where
  "settleFailed B err st =
     (case settle_run B (failed_outcome err) st of
        (Inl e, st') \<Rightarrow> (Inl e, st')
      | (Inr _, st') \<Rightarrow> (Inl err, st'))"

definition inputs_scope :: "cel_value \<Rightarrow> scope_extra" where
  "inputs_scope v = \<lparr>x_vars = [(js ''inputs'', v)], x_caught = None\<rparr>"

text \<open>What a body that ended means for its run.\<close>

definition finish :: "('s, 'f) backend \<Rightarrow> (jstring \<times> cel_value) list \<Rightarrow> failure + unit \<Rightarrow>
    (('s, 'w) run, (jstring \<times> cel_value) list) act" where
  "finish B steps out st =
     (case out of
        Inl err \<Rightarrow>
          if isSuspension err \<or> isCancellationError err then (Inl err, st) else settleFailed B err st
      | Inr _ \<Rightarrow>
          (case assertNotSwallowed B st of
             (Inl e, st') \<Rightarrow> (Inl e, st')
           | (Inr _, st') \<Rightarrow>
               (case b_write B (js ''result'') (VRecord [(js ''steps'', VRecord steps)]) of
                  Inl e \<Rightarrow> settleFailed B e st'
                | Inr frame \<Rightarrow> map_prod (map_sum id (\<lambda>_. steps)) id (settle_run B (completed_outcome (b_version B) frame st') st'))))"

definition runBody :: "('s, 'f, 'w, 'e, 't) workflow \<Rightarrow> nat \<Rightarrow> jstring \<Rightarrow> cel_value \<Rightarrow> ('s, 'w) run \<Rightarrow>
    ((failure + (jstring \<times> cel_value) list) \<times> ('s, 'w) run) option" where
  "runBody W fuel run given st =
     (let B = wf_backend W run; ctx = wf_context W run
      in case handle_decide B (js ''inputs'') DInputs (expand ctx (wf_inputs W) [(js ''inputs'', given)]) st of
           (Inl e, st1) \<Rightarrow> Some (Inl e, st1)
         | (Inr inputs, st1) \<Rightarrow>
             (case executeSteps ctx fuel (wf_steps W) (inputs_scope inputs) None ([], st1) of
                None \<Rightarrow> None
              | Some (out, steps, st2) \<Rightarrow> Some (finish B steps out st2)))"

definition execute :: "('s, 'f, 'w, 'e, 't) workflow \<Rightarrow> nat \<Rightarrow> jstring \<Rightarrow> cel_value \<Rightarrow> 's \<times> 'w \<Rightarrow>
    ((failure + (jstring \<times> cel_value) list) \<times> 's \<times> 'w) option" where
  "execute W fuel run given sw =
     (case open_run (wf_backend W run) (fst sw) (snd sw) of
        Inl e \<Rightarrow> Some (Inl e, sw)
      | Inr st \<Rightarrow> map_option (\<lambda>(out, st'). (out, store st', world st')) (runBody W fuel run given st))"

section \<open>Starting a run\<close>

fun status_name :: "run_status \<Rightarrow> jstring" where
  "status_name Scheduled = js ''scheduled''"
| "status_name Running = js ''running''"
| "status_name Parked = js ''parked''"
| "status_name Completed = js ''completed''"
| "status_name Failed = js ''failed''"
| "status_name Cancelled = js ''cancelled''"

definition runIdFor :: "('s, 'f, 'w, 'e, 't) workflow \<Rightarrow> cel_value \<Rightarrow> 'w \<Rightarrow> (failure + jstring) \<times> 'w" where
  "runIdFor W given w =
     (case wf_run_id W of
        None \<Rightarrow> (Inr (wf_minted W), w)
      | Some e \<Rightarrow>
          (case wf_expand W e [(js ''inputs'', given)] w of
             (Inl err, w') \<Rightarrow> (Inl err, w')
           | (Inr v, w') \<Rightarrow>
               ((case v of
                   VString (c # cs) \<Rightarrow> Inr (c # cs)
                 | _ \<Rightarrow> Inl (invokeError (js ''ERR_DURABLE_RUN_ID_INVALID'') [] (VRecord [(js ''value'', v)]))), w')))"

text \<open>What the caller of a workflow is told: the run it attached to, or the run whose body is now dispatched.\<close>

datatype start_answer = Attached jstring "run_status option" "cel_value option" | Started jstring

definition recordedRunResult :: "('s, 'f) backend \<Rightarrow> 'f run_record \<Rightarrow> failure + cel_value" where
  "recordedRunResult B r = b_read B (js ''result'') (r_result_version r) (r_result r)"

definition present :: "cel_value \<Rightarrow> cel_value option" where
  "present v = (if v = VUndefined then None else Some v)"

definition claim_or_attach :: "('s, 'f, 'w, 'e, 't) workflow \<Rightarrow> jstring \<Rightarrow> run_status option \<Rightarrow> int \<Rightarrow> 's \<Rightarrow> (failure + start_answer) \<times> 's" where
  "claim_or_attach W run status now s =
     (case j_claim (wf_journal W) run (wf_holder W) CLAIM_TTL_MS now s of
        (Inl e, s') \<Rightarrow> (Inl (journal_failure (wf_backend W run) e), s')
      | (Inr True, s') \<Rightarrow> (Inr (Started run), s')
      | (Inr False, s') \<Rightarrow> (Inr (Attached run status None), s'))"

definition start_admission :: "('s, 'f, 'w, 'e, 't) workflow \<Rightarrow> 'f admission" where
  "start_admission W = \<lparr>a_status = Running, a_due_at = None, a_inputs = None, a_inputs_version = None,
     a_claim = Some (wf_holder W, CLAIM_TTL_MS)\<rparr>"

definition start_at :: "('s, 'f, 'w, 'e, 't) workflow \<Rightarrow> jstring \<Rightarrow> int \<Rightarrow> 's \<Rightarrow> (failure + start_answer) \<times> 's" where
  "start_at W run now s =
     (case j_admit (wf_journal W) run (start_admission W) now s of
        (Inl e, s1) \<Rightarrow> (Inl (journal_failure (wf_backend W run) e), s1)
      | (Inr (True, _), s1) \<Rightarrow> claim_or_attach W run (Some Running) now s1
      | (Inr (False, existing), s1) \<Rightarrow>
          if wf_reject W then (Inl (invokeError (js ''ERR_DURABLE_RUN_EXISTS'') [] (VRecord
              [(js ''run'', VString run), (js ''status'', case existing of None \<Rightarrow> VUndefined | Some r \<Rightarrow> VString (status_name (r_status r)))])), s1)
          else (case existing of
              None \<Rightarrow> claim_or_attach W run (Some Running) now s1
            | Some r \<Rightarrow>
                if r_status r = Completed then
                  (map_sum id (\<lambda>v. Attached run (Some Completed) (present v)) (recordedRunResult (wf_backend W run) r), s1)
                else if r_status r = Failed then
                  (Inl (invokeError (case r_error r of Some (c, _) \<Rightarrow> c | None \<Rightarrow> js ''ERR_DURABLE_RUN_FAILED'')
                     (case r_error r of Some (_, m) \<Rightarrow> m | None \<Rightarrow> []) (VRecord [(js ''run'', VString run)])), s1)
                else claim_or_attach W run (Some (r_status r)) now s1))"

definition invoke :: "('s, 'f, 'w, 'e, 't) workflow \<Rightarrow> cel_value \<Rightarrow> int \<Rightarrow> ('s, 'w, start_answer) proc" where
  "invoke W given now sw =
     (case runIdFor W given (snd sw) of
        (Inl e, w) \<Rightarrow> (Inl e, fst sw, w)
      | (Inr run, w) \<Rightarrow> (case start_at W run now (fst sw) of (out, s) \<Rightarrow> (out, s, w)))"

section \<open>Addressing a run\<close>

text \<open>
  A resource that addresses runs from outside: the journal it reads, how it names a run to the seam, and how its own
  expressions are expanded.
\<close>

record ('s, 'f, 'w, 'e) addressing =
  ad_journal :: "('s, 'f) journal"
  ad_backend :: "jstring \<Rightarrow> ('s, 'f) backend"
  ad_expand :: "('e, 'w) expander"
  ad_name :: jstring

definition ad_failure :: "('s, 'f, 'w, 'e) addressing \<Rightarrow> journal_error \<Rightarrow> failure" where
  "ad_failure A e = journal_failure (ad_backend A []) e"

text \<open>\<open>String(value)\<close> of what an expression answered, which is text in every use but a host value's.\<close>

definition no_run_id :: "cel_value \<Rightarrow> failure" where
  "no_run_id v = invokeError (js ''ERR_DURABLE_RUN_ID_INVALID'') [] (VRecord [(js ''value'', v)])"

definition runIdOf :: "('s, 'f, 'w, 'e) addressing \<Rightarrow> 'e option \<Rightarrow> cel_value \<Rightarrow> 'w \<Rightarrow> (failure + jstring) \<times> 'w" where
  "runIdOf A configured given w =
     (case (case configured of
              Some e \<Rightarrow> ad_expand A e [(js ''inputs'', given)] w
            | None \<Rightarrow> (Inr (member_of given (js ''run'')), w)) of
        (Inl err, w') \<Rightarrow> (Inl err, w')
      | (Inr (VString (c # cs)), w') \<Rightarrow> (Inr (c # cs), w')
      | (Inr v, w') \<Rightarrow> (Inl (no_run_id v), w'))"

definition recordEntryAt :: "('s, 'f) backend \<Rightarrow> jstring \<Rightarrow> entry_kind \<Rightarrow> decision_kind option \<Rightarrow> 'f option \<Rightarrow> 'f journal_entry" where
  "recordEntryAt B path which decision frame = recordEntry B path which decision None frame"

text \<open>Write one entry of a run and wake it.\<close>

definition append_and_wake :: "('s, 'f, 'w, 'e) addressing \<Rightarrow> jstring \<Rightarrow> 'f journal_entry \<Rightarrow> 's \<Rightarrow> (failure + unit) \<times> 's" where
  "append_and_wake A run entry s =
     (case j_append (ad_journal A) run entry s of
        (Inl e, s1) \<Rightarrow> (Inl (ad_failure A e), s1)
      | (Inr _, s1) \<Rightarrow>
          (case j_unpark (ad_journal A) run s1 of
             (Inl e, s2) \<Rightarrow> (Inl (ad_failure A e), s2)
           | (Inr _, s2) \<Rightarrow> (Inr (), s2)))"

text \<open>\<open>None\<close> says that no run waits for the token.\<close>

definition deliver_payload :: "('s, 'f, 'w, 'e) addressing \<Rightarrow> jstring \<Rightarrow> cel_value \<Rightarrow> 's \<Rightarrow> (failure + jstring option) \<times> 's" where
  "deliver_payload A token payload s =
     (case j_parked_on (ad_journal A) token s of
        Inl e \<Rightarrow> (Inl (ad_failure A e), s)
      | Inr None \<Rightarrow> (Inr None, s)
      | Inr (Some (run, p)) \<Rightarrow>
          (case b_write (ad_backend A run) (p_path p) payload of
             Inl e \<Rightarrow> (Inl e, s)
           | Inr frame \<Rightarrow>
               map_prod (map_sum id (\<lambda>_. Some run)) id
                 (append_and_wake A run (recordEntryAt (ad_backend A run) (p_path p) StepEntry None frame) s)))"

text \<open>The token is text; \<open>shown\<close> is \<open>String(value ?? "")\<close>, and \<open>refuses\<close> what the declared shape of the named wait
  says of a payload.\<close>

definition deliver :: "('s, 'f, 'w, 'e) addressing \<Rightarrow> (cel_value \<Rightarrow> jstring) \<Rightarrow> (cel_value \<Rightarrow> jstring option) \<Rightarrow> 'e \<Rightarrow> 'e option \<Rightarrow> cel_value \<Rightarrow>
    ('s, 'w, jstring option) proc" where
  "deliver A shown refuses token payload given sw =
     (case ad_expand A token [(js ''inputs'', given)] (snd sw) of
        (Inl e, w) \<Rightarrow> (Inl e, fst sw, w)
      | (Inr t, w) \<Rightarrow>
          if shown t = [] then (Inl (invokeError (js ''ERR_DURABLE_TOKEN_REQUIRED'') [] (VRecord [(js ''resource'', VString (ad_name A))])), fst sw, w)
          else (case (case payload of Some e \<Rightarrow> ad_expand A e [(js ''inputs'', given)] w | None \<Rightarrow> (Inr VNull, w)) of
              (Inl e, w') \<Rightarrow> (Inl e, fst sw, w')
            | (Inr v, w') \<Rightarrow>
                (case refuses v of
                   Some why \<Rightarrow> (Inl (invokeError (js ''ERR_DURABLE_PAYLOAD_INVALID'') why
                     (VRecord [(js ''resource'', VString (ad_name A)), (js ''token'', VString (shown t))])), fst sw, w')
                 | None \<Rightarrow> (case deliver_payload A (shown t) v (fst sw) of (out, s) \<Rightarrow> (out, s, w')))))"

text \<open>Whether the run was called off, and the status it has then; no status is a run nobody admitted.\<close>

definition cancelled_outcome :: "jstring \<Rightarrow> 'f run_record" where
  "cancelled_outcome reason = (blank_record Cancelled)\<lparr>r_error := Some (js ''ERR_DURABLE_RUN_CANCELLED'', reason)\<rparr>"

definition cancel :: "('s, 'f, 'w, 'e) addressing \<Rightarrow> (cel_value \<Rightarrow> jstring) \<Rightarrow> 'e option \<Rightarrow> 'e option \<Rightarrow> cel_value \<Rightarrow>
    ('s, 'w, bool \<times> run_status option) proc" where
  "cancel A shown configured reason given sw =
     (case runIdOf A configured given (snd sw) of
        (Inl e, w) \<Rightarrow> (Inl e, fst sw, w)
      | (Inr run, w) \<Rightarrow>
          (case j_read (ad_journal A) run (fst sw) of
             Inl e \<Rightarrow> (Inl (ad_failure A e), fst sw, w)
           | Inr None \<Rightarrow> (Inr (False, None), fst sw, w)
           | Inr (Some r) \<Rightarrow>
               if r_status r = Completed \<or> r_status r = Failed then (Inr (False, Some (r_status r)), fst sw, w)
               else (case (case reason of Some e \<Rightarrow> ad_expand A e [(js ''inputs'', given)] w | None \<Rightarrow> (Inr (VString (js ''cancelled'')), w)) of
                   (Inl e, w') \<Rightarrow> (Inl e, fst sw, w')
                 | (Inr v, w') \<Rightarrow>
                     (case j_complete (ad_journal A) run (cancelled_outcome (shown v)) (fst sw) of
                        (Inl e, s) \<Rightarrow> (Inl (ad_failure A e), s, w')
                      | (Inr _, s) \<Rightarrow> (Inr (True, Some Cancelled), s, w')))))"

definition resume_path :: "int \<Rightarrow> jstring" where
  "resume_path now = js ''override/resume/'' @ int_text now"

text \<open>\<open>None\<close> says the run was woken; \<open>iso_text\<close> is the host's \<open>toISOString\<close> of an instant.\<close>

definition resume :: "('s, 'f, 'w, 'e) addressing \<Rightarrow> (cel_value \<Rightarrow> jstring) \<Rightarrow> (int \<Rightarrow> jstring) \<Rightarrow> 'e option \<Rightarrow> 'e option \<Rightarrow> cel_value \<Rightarrow> int \<Rightarrow>
    ('s, 'w, run_status option) proc" where
  "resume A shown iso_text configured reason given now sw =
     (case runIdOf A configured given (snd sw) of
        (Inl e, w) \<Rightarrow> (Inl e, fst sw, w)
      | (Inr run, w) \<Rightarrow>
          (case j_read (ad_journal A) run (fst sw) of
             Inl e \<Rightarrow> (Inl (ad_failure A e), fst sw, w)
           | Inr None \<Rightarrow> (Inl (invokeError (js ''ERR_DURABLE_RUN_NOT_FOUND'') []
               (VRecord [(js ''resource'', VString (ad_name A)), (js ''run'', VString run)])), fst sw, w)
           | Inr (Some r) \<Rightarrow>
               if terminal (r_status r) then (Inr (Some (r_status r)), fst sw, w)
               else (case (case reason of Some e \<Rightarrow> ad_expand A e [(js ''inputs'', given)] w
                       | None \<Rightarrow> (Inr (VString (js ''resumed by operator'')), w)) of
                   (Inl e, w') \<Rightarrow> (Inl e, fst sw, w')
                 | (Inr v, w') \<Rightarrow>
                     (case b_write (ad_backend A run) (resume_path now)
                          (VRecord [(js ''reason'', VString (shown v)), (js ''at'', VString (iso_text now))]) of
                        Inl e \<Rightarrow> (Inl e, fst sw, w')
                      | Inr frame \<Rightarrow>
                          (case append_and_wake A run (recordEntryAt (ad_backend A run) (resume_path now) DecisionEntry (Some DValue) frame)
                               (fst sw) of
                             (out, s) \<Rightarrow> (map_sum id (\<lambda>_. None) out, s, w'))))))"

text \<open>When a scheduled run is due: at an instant the host can read, or after a span that is not negative.\<close>

datatype schedule_time = At cel_value | After cel_value

definition dueAt :: "(cel_value \<Rightarrow> rat option) \<Rightarrow> (cel_value \<Rightarrow> rat option) \<Rightarrow> jstring \<Rightarrow> int \<Rightarrow> schedule_time \<Rightarrow> failure + rat" where
  "dueAt epoch duration_ms name now t =
     (let invalid = (\<lambda>raw. invokeError (js ''ERR_DURABLE_SCHEDULE_INVALID'') [] (VRecord [(js ''resource'', VString name), (js ''value'', raw)]))
      in case t of
           At raw \<Rightarrow> (case epoch raw of Some ms \<Rightarrow> Inr ms | None \<Rightarrow> Inl (invalid raw))
         | After raw \<Rightarrow> (case duration_ms raw of
             Some ms \<Rightarrow> if ms < 0 then Inl (invalid raw) else Inr (of_int now + ms)
           | None \<Rightarrow> Inl (invalid raw)))"

text \<open>\<open>Inr due\<close> for a run now scheduled, \<open>Inl status\<close> for an id already taken.\<close>

definition schedule_at :: "('s, 'f, 'w, 'e) addressing \<Rightarrow> jstring \<Rightarrow> cel_value \<Rightarrow> rat \<Rightarrow> int \<Rightarrow> 's \<Rightarrow>
    (failure + (run_status option + rat)) \<times> 's" where
  "schedule_at A run inputs due now s =
     (case b_write (ad_backend A run) (js ''inputs'') inputs of
        Inl e \<Rightarrow> (Inl e, s)
      | Inr frame \<Rightarrow>
          (case j_admit (ad_journal A) run \<lparr>a_status = Scheduled, a_due_at = Some due, a_inputs = frame,
               a_inputs_version = map_option (\<lambda>_. b_version (ad_backend A run)) frame, a_claim = None\<rparr> now s of
             (Inl e, s1) \<Rightarrow> (Inl (ad_failure A e), s1)
           | (Inr (True, _), s1) \<Rightarrow> (Inr (Inr due), s1)
           | (Inr (False, existing), s1) \<Rightarrow> (Inr (Inl (map_option r_status existing)), s1)))"

text \<open>The id of a scheduled run is \<open>String(value)\<close> of its expression.\<close>

definition schedule :: "('s, 'f, 'w, 'e) addressing \<Rightarrow> (cel_value \<Rightarrow> jstring) \<Rightarrow> (cel_value \<Rightarrow> rat option) \<Rightarrow> (cel_value \<Rightarrow> rat option) \<Rightarrow>
    jstring \<Rightarrow> 'e \<Rightarrow> 'e option \<Rightarrow> bool \<Rightarrow> 'e \<Rightarrow> cel_value \<Rightarrow> int \<Rightarrow> ('s, 'w, jstring \<times> (run_status option + rat)) proc" where
  "schedule A shown epoch duration_ms minted inputs run_id at_instant due given now sw =
     (let scope = [(js ''inputs'', given)] in
      case ad_expand A inputs scope (snd sw) of
        (Inl e, w) \<Rightarrow> (Inl e, fst sw, w)
      | (Inr v, w) \<Rightarrow>
          (case (case run_id of Some e \<Rightarrow> ad_expand A e scope w | None \<Rightarrow> (Inr (VString minted), w)) of
             (Inl e, w1) \<Rightarrow> (Inl e, fst sw, w1)
           | (Inr run, w1) \<Rightarrow>
               (case ad_expand A due scope w1 of
                  (Inl e, w2) \<Rightarrow> (Inl e, fst sw, w2)
                | (Inr raw, w2) \<Rightarrow>
                    (case dueAt epoch duration_ms (ad_name A) now (if at_instant then At raw else After raw) of
                       Inl e \<Rightarrow> (Inl e, fst sw, w2)
                     | Inr ms \<Rightarrow>
                         (case schedule_at A (shown run) v ms now (fst sw) of
                            (out, s) \<Rightarrow> (map_sum id (Pair (shown run)) out, s, w2))))))"

section \<open>Asking about a run\<close>

definition run_state :: "('s, 'f, 'w, 'e) addressing \<Rightarrow> jstring \<Rightarrow> 's \<Rightarrow>
    failure + (run_status \<times> rat option \<times> (jstring \<times> jstring) option) option" where
  "run_state A run s =
     (case j_read (ad_journal A) run s of
        Inl e \<Rightarrow> Inl (ad_failure A e)
      | Inr r \<Rightarrow> Inr (map_option (\<lambda>r. (r_status r, r_due_at r, map_option (\<lambda>p. (p_path p, p_resource p)) (r_parked r))) r))"

record run_outcome =
  o_status :: "run_status option"
  o_result :: "cel_value option"
  o_error :: "(jstring \<times> jstring) option"
  o_collapsed :: "nat option"
  o_reasons :: "jstring list option"
  o_replayed :: "(nat \<times> bool) option"

definition settled_outcome :: "('s, 'f) backend \<Rightarrow> 'f run_record \<Rightarrow> failure + run_outcome" where
  "settled_outcome B r =
     map_sum id (\<lambda>v. \<lparr>o_status = Some (r_status r), o_result = present v, o_error = r_error r,
       o_collapsed = r_collapsed_regions r, o_reasons = r_collapse_reasons r,
       o_replayed = map_option (\<lambda>n. (n, n > 0)) (r_replayed_steps r)\<rparr>) (recordedRunResult B r)"

definition pending_outcome :: "run_status option \<Rightarrow> run_outcome" where
  "pending_outcome status = \<lparr>o_status = status, o_result = None, o_error = None, o_collapsed = None, o_reasons = None, o_replayed = None\<rparr>"

text \<open>
  Reading until the run is settled or the time is up. \<open>now\<close> reads the clock; \<open>wait\<close> lets time pass, in which
  anyone may write to the journal, and says whether the caller was asked to stop.
\<close>

fun result_loop :: "('s, 'f, 'w, 'e) addressing \<Rightarrow> ('w \<Rightarrow> int) \<Rightarrow> (int \<Rightarrow> 's \<times> 'w \<Rightarrow> bool \<times> 's \<times> 'w) \<Rightarrow> jstring \<Rightarrow> int \<Rightarrow> int \<Rightarrow> nat \<Rightarrow>
    's \<times> 'w \<Rightarrow> ((failure + run_outcome) \<times> 's \<times> 'w) option" where
  "result_loop A now wait run poll deadline 0 sw = None"
| "result_loop A now wait run poll deadline (Suc fuel) sw =
     (case j_read (ad_journal A) run (fst sw) of
        Inl e \<Rightarrow> Some (Inl (ad_failure A e), sw)
      | Inr found \<Rightarrow>
          (case found of
             Some r \<Rightarrow>
               if terminal (r_status r) then Some (settled_outcome (ad_backend A run) r, sw)
               else if now (snd sw) \<ge> deadline then Some (Inr (pending_outcome (Some (r_status r))), sw)
               else (case wait (min poll (deadline - now (snd sw))) sw of
                   (True, sw') \<Rightarrow> Some (Inl (invokeError ERR_INVOKE_CANCELLED [] VUndefined), sw')
                 | (False, sw') \<Rightarrow> result_loop A now wait run poll deadline fuel sw')
           | None \<Rightarrow>
               if now (snd sw) \<ge> deadline then Some (Inr (pending_outcome None), sw)
               else (case wait (min poll (deadline - now (snd sw))) sw of
                   (True, sw') \<Rightarrow> Some (Inl (invokeError ERR_INVOKE_CANCELLED [] VUndefined), sw')
                 | (False, sw') \<Rightarrow> result_loop A now wait run poll deadline fuel sw')))"

section \<open>The resumer\<close>

definition UNREADABLE_RUN_CODES :: "jstring list" where
  "UNREADABLE_RUN_CODES = [js ''ERR_DURABLE_ENTRY_UNDECODABLE'', js ''ERR_DURABLE_JOURNAL_CORRUPT'']"

definition BATCH :: nat where
  "BATCH = 10"

text \<open>What a run was scheduled with, read back; a run that was started has none.\<close>

definition scheduled_inputs :: "('s, 'f, 'w, 'e, 't) workflow \<Rightarrow> jstring \<Rightarrow> 's \<Rightarrow> failure + cel_value" where
  "scheduled_inputs W run s =
     (case j_read (wf_journal W) run s of
        Inl e \<Rightarrow> Inl (journal_failure (wf_backend W run) e)
      | Inr None \<Rightarrow> Inr (VRecord [])
      | Inr (Some r) \<Rightarrow>
          map_sum id (\<lambda>v. if v = VUndefined \<or> v = VNull then VRecord [] else v)
            (b_read (wf_backend W run) (js ''inputs'') (r_inputs_version r) (r_inputs r)))"

definition unreadable :: "failure \<Rightarrow> bool" where
  "unreadable err \<longleftrightarrow> (case f_code err of Some c \<Rightarrow> c \<in> set UNREADABLE_RUN_CODES | None \<Rightarrow> False)"

text \<open>One run of a sweep, under the holder of the resumer; the set holds the runs it has found it cannot read. A journal that
  fails at the claim ends the sweep, which the first component says.\<close>

definition sweep_run :: "('s, 'f, 'w, 'e, 't) workflow \<Rightarrow> nat \<Rightarrow> jstring \<Rightarrow> int \<Rightarrow> jstring \<Rightarrow> jstring list \<times> 's \<times> 'w \<Rightarrow>
    (bool \<times> jstring list \<times> 's \<times> 'w) option" where
  "sweep_run W fuel holder now run state =
     (case state of (skipped, s, w) \<Rightarrow>
        if run \<in> set skipped then Some (True, state)
        else (case j_claim (wf_journal W) run holder CLAIM_TTL_MS now s of
            (Inl e, s1) \<Rightarrow> Some (False, skipped, s1, w)
          | (Inr False, s1) \<Rightarrow> Some (True, skipped, s1, w)
          | (Inr True, s1) \<Rightarrow>
              (case (case scheduled_inputs W run s1 of
                       Inl e \<Rightarrow> Some (Inl e, s1, w)
                     | Inr given \<Rightarrow> execute W fuel run given (s1, w)) of
                 None \<Rightarrow> None
               | Some (out, s2, w2) \<Rightarrow>
                   Some (True, (case out of
                       Inl err \<Rightarrow> if \<not> isSuspension err \<and> unreadable err then run # skipped else skipped
                     | Inr _ \<Rightarrow> skipped), s2, w2))))"

fun sweep_runs :: "('s, 'f, 'w, 'e, 't) workflow \<Rightarrow> nat \<Rightarrow> jstring \<Rightarrow> (jstring \<times> int) list \<Rightarrow> jstring list \<times> 's \<times> 'w \<Rightarrow>
    (jstring list \<times> 's \<times> 'w) option" where
  "sweep_runs W fuel holder [] state = Some state"
| "sweep_runs W fuel holder ((run, now) # runs) state =
     (case sweep_run W fuel holder now run state of
        None \<Rightarrow> None
      | Some (True, state') \<Rightarrow> sweep_runs W fuel holder runs state'
      | Some (False, state') \<Rightarrow> Some state')"

text \<open>\<open>clock i\<close> is the time at which the sweep comes to its run number \<open>i\<close>.\<close>

definition sweep :: "('s, 'f, 'w, 'e, 't) workflow \<Rightarrow> nat \<Rightarrow> jstring \<Rightarrow> int \<Rightarrow> (nat \<Rightarrow> int) \<Rightarrow> jstring list \<times> 's \<times> 'w \<Rightarrow>
    (jstring list \<times> 's \<times> 'w) option" where
  "sweep W fuel holder now clock state =
     (case j_due (wf_journal W) now (BATCH + length (fst state)) (fst (snd state)) of
        Inl e \<Rightarrow> Some state
      | Inr runs \<Rightarrow> sweep_runs W fuel holder (zip runs (map clock [0..<length runs])) state)"

section \<open>How a body ends\<close>

text \<open>What the journal holds of a run that was settled by an outcome.\<close>

definition settled_by :: "('s \<Rightarrow> jstring \<Rightarrow> 'f run_record option) \<Rightarrow> ('s \<Rightarrow> jstring \<Rightarrow> claim option) \<Rightarrow> 'f run_record \<Rightarrow> 's \<Rightarrow> jstring \<Rightarrow> bool" where
  "settled_by record_of claim_of outcome s run \<longleftrightarrow>
     (\<exists>r. record_of s run = Some r \<and> r_status r = r_status outcome \<and> r_result r = r_result outcome \<and>
        r_result_version r = r_result_version outcome \<and> r_error r = r_error outcome \<and> r_due_at r = None \<and> r_parked r = None) \<and>
     claim_of s run = None"

lemma outcome_simps [simp]:
  "r_status (failed_outcome err) = Failed" "r_due_at (failed_outcome err) = None" "r_parked (failed_outcome err) = None"
  "r_status (completed_outcome n frame st) = Completed" "r_result (completed_outcome n frame st) = frame"
  "r_result_version (completed_outcome n frame st) = map_option (\<lambda>_. n) frame"
  "r_due_at (completed_outcome n frame st) = None" "r_parked (completed_outcome n frame st) = None"
  "r_status (cancelled_outcome reason) = Cancelled" "r_due_at (cancelled_outcome reason) = None" "r_parked (cancelled_outcome reason) = None"
  by (simp_all add: failed_outcome_def completed_outcome_def cancelled_outcome_def)

context durable_journal
begin

abbreviation settled :: "'f run_record \<Rightarrow> 's \<Rightarrow> jstring \<Rightarrow> bool" where
  "settled \<equiv> settled_by record_of claim_of"

lemma settle_settles:
  assumes "b_journal B = J" "ok (store st)" "record_of (store st) (b_run B) \<noteq> None" "settle_run B outcome st = (out, st')"
    "r_due_at outcome = None" "r_parked outcome = None"
  shows "out = Inr ()" and "ok (store st')" and "entries_of (store st') = entries_of (store st)" and "settled outcome (store st') (b_run B)"
proof -
  obtain r where r: "record_of (store st) (b_run B) = Some r" using assms(3) by blast
  from complete_law [OF assms(2) r assms(5,6)] obtain r' s' where
    "j_complete J (b_run B) outcome (store st) = (Inr (), s')" "ok s'" "entries_of s' = entries_of (store st)"
    "record_of s' = (record_of (store st))(b_run B \<mapsto> r')" "r_status r' = r_status outcome" "r_result r' = r_result outcome"
    "r_result_version r' = r_result_version outcome" "r_error r' = r_error outcome" "r_due_at r' = None" "r_parked r' = None"
    "claim_of s' = (claim_of (store st))(b_run B := None)" by blast
  then show "out = Inr ()" "ok (store st')" "entries_of (store st') = entries_of (store st)" "settled outcome (store st') (b_run B)"
    using assms(1,4) by (auto simp: settle_run_def settled_by_def)
qed

lemma settleFailed_settles:
  assumes "b_journal B = J" "ok (store st)" "record_of (store st) (b_run B) \<noteq> None" "settleFailed B err st = (res, st')"
  shows "res = Inl err" and "ok (store st')" and "entries_of (store st') = entries_of (store st)"
    and "settled (failed_outcome err) (store st') (b_run B)"
proof -
  obtain out st1 where s: "settle_run B (failed_outcome err) st = (out, st1)" by (cases "settle_run B (failed_outcome err) st")
  note settled = settle_settles [OF assms(1-3) s, simplified]
  then show "res = Inl err" "ok (store st')" "entries_of (store st') = entries_of (store st)"
    "settled (failed_outcome err) (store st') (b_run B)"
    using assms(4) s by (auto simp: settleFailed_def)
qed

lemma finish_settles:
  assumes "b_journal B = J" "ok (store st)" "record_of (store st) (b_run B) \<noteq> None" "finish B steps out st = (res, st')"
  shows "ok (store st') \<and> entries_of (store st') = entries_of (store st) \<and>
    (case out of
       Inl err \<Rightarrow> res = Inl err \<and>
         (if isSuspension err \<or> isCancellationError err then store st' = store st else settled (failed_outcome err) (store st') (b_run B))
     | Inr _ \<Rightarrow>
         (case latched st of
            Some signal \<Rightarrow> isl res \<and> store st' = store st
          | None \<Rightarrow>
              (case b_write B (js ''result'') (VRecord [(js ''steps'', VRecord steps)]) of
                 Inl e \<Rightarrow> res = Inl e \<and> settled (failed_outcome e) (store st') (b_run B)
               | Inr frame \<Rightarrow> res = Inr steps \<and> settled (completed_outcome (b_version B) frame st) (store st') (b_run B))))"
proof (cases out)
  case (Inl err)
  show ?thesis
  proof (cases "isSuspension err \<or> isCancellationError err")
    case False
    then have "settleFailed B err st = (res, st')" using assms(4) Inl by (simp add: finish_def)
    from settleFailed_settles [OF assms(1-3) this] show ?thesis using Inl False by simp
  qed (use assms(2,4) Inl in \<open>auto simp: finish_def\<close>)
next
  case (Inr u)
  show ?thesis
  proof (cases "latched st")
    case None
    show ?thesis
    proof (cases "b_write B (js ''result'') (VRecord [(js ''steps'', VRecord steps)])")
      case (Inl e)
      then have "settleFailed B e st = (res, st')" using assms(4) Inr None by (simp add: finish_def assertNotSwallowed_def)
      from settleFailed_settles [OF assms(1-3) this] show ?thesis using Inr None Inl by simp
    next
      case frame: (Inr frame)
      obtain o1 st1 where s: "settle_run B (completed_outcome (b_version B) frame st) st = (o1, st1)"
        by (cases "settle_run B (completed_outcome (b_version B) frame st) st")
      note fin = settle_settles [OF assms(1-3) s, simplified]
      have "res = Inr steps" "st' = st1" using assms(4) Inr None frame s fin(1) by (simp_all add: finish_def assertNotSwallowed_def)
      then show ?thesis using Inr None frame fin by simp
    qed
  qed (use assms(2,4) Inr in \<open>auto simp: finish_def assertNotSwallowed_def\<close>)
qed

section \<open>Starts\<close>

lemma claim_or_attach_started:
  assumes "wf_journal W = J" "ok s" "record_of s run \<noteq> None" "claim_or_attach W run status now s = (Inr (Started run'), s')"
  shows "run' = run" and "\<not> held_by_other (claim_of s run) (wf_holder W) now" and "ok s'" and "record_of s' = record_of s"
    and "entries_of s' = entries_of s" and "claim_of s' run = Some (wf_holder W, now + CLAIM_TTL_MS)"
proof -
  obtain r where r: "record_of s run = Some r" using assms(3) by blast
  from claim_law [OF assms(2) r, of "wf_holder W" CLAIM_TTL_MS now] assms(1,4)
  show "run' = run" "\<not> held_by_other (claim_of s run) (wf_holder W) now" "ok s'" "record_of s' = record_of s"
    "entries_of s' = entries_of s" "claim_of s' run = Some (wf_holder W, now + CLAIM_TTL_MS)"
    by (auto simp: claim_or_attach_def split: sum.splits bool.splits)
qed

text \<open>What a start finds: the run new to the journal, or the record it has.\<close>

lemma start_admits:
  assumes "wf_journal W = J" "ok s" "record_of s run = None \<longrightarrow> fst (j_admit J run (start_admission W) now s) = Inr (True, x)"
  obtains s1 where "ok s1" "entries_of s1 = entries_of s" "record_of s1 run \<noteq> None" "record_of s run = None"
      "claim_of s1 run = Some (wf_holder W, now + CLAIM_TTL_MS)"
      "start_at W run now s = claim_or_attach W run (Some Running) now s1"
  | r s1 where "record_of s run = Some r" "ok s1" "entries_of s1 = entries_of s" "record_of s1 = record_of s" "claim_of s1 = claim_of s"
      "start_at W run now s =
         (if wf_reject W then (Inl (invokeError (js ''ERR_DURABLE_RUN_EXISTS'') [] (VRecord
              [(js ''run'', VString run), (js ''status'', VString (status_name (r_status r)))])), s1)
          else if r_status r = Completed then
            (map_sum id (\<lambda>v. Attached run (Some Completed) (present v)) (recordedRunResult (wf_backend W run) r), s1)
          else if r_status r = Failed then
            (Inl (invokeError (case r_error r of Some (c, _) \<Rightarrow> c | None \<Rightarrow> js ''ERR_DURABLE_RUN_FAILED'')
               (case r_error r of Some (_, m) \<Rightarrow> m | None \<Rightarrow> []) (VRecord [(js ''run'', VString run)])), s1)
          else claim_or_attach W run (Some (r_status r)) now s1)"
proof -
  have "pred_option stores_time (a_due_at (start_admission W))" by (simp add: start_admission_def)
  from admit_law [OF assms(2) this, of run now] obtain admitted existing s1 where
    a: "j_admit J run (start_admission W) now s = (Inr (admitted, existing), s1)" "ok s1" "entries_of s1 = entries_of s"
    and law: "if admitted then record_of s run = None \<and>
         (\<exists>r. record_of s1 = (record_of s)(run \<mapsto> r) \<and> r_status r = a_status (start_admission W) \<and> r_due_at r = a_due_at (start_admission W) \<and>
            r_inputs r = a_inputs (start_admission W) \<and> r_inputs_version r = a_inputs_version (start_admission W) \<and> r_parked r = None) \<and>
         (\<forall>h ttl. a_claim (start_admission W) = Some (h, ttl) \<longrightarrow> claim_of s1 run = Some (h, now + ttl))
       else record_of s1 = record_of s \<and> claim_of s1 = claim_of s \<and> (\<forall>r. record_of s run = Some r \<longrightarrow> existing = Some r)"
    by blast
  show ?thesis
  proof (cases admitted)
    case True
    then have "record_of s run = None" "record_of s1 run \<noteq> None" "claim_of s1 run = Some (wf_holder W, now + CLAIM_TTL_MS)"
      using law by (auto simp: start_admission_def)
    then show ?thesis using that(1) [OF a(2,3)] a(1) True assms(1) by (simp add: start_at_def)
  next
    case False
    then obtain r where r: "record_of s run = Some r" using assms(3) a(1) by auto
    then have "record_of s1 = record_of s" "claim_of s1 = claim_of s" "existing = Some r" using law False by auto
    then show ?thesis using that(2) [OF r a(2,3)] a(1) False assms(1) by (simp add: start_at_def)
  qed
qed

lemma start_holds:
  assumes W: "wf_journal W = J" "ok s" "record_of s run = None \<longrightarrow> fst (j_admit J run (start_admission W) now s) = Inr (True, x)"
    and started: "start_at W run now s = (Inr (Started run'), s')"
  shows "ok s' \<and> record_of s' run \<noteq> None \<and> claim_of s' run = Some (wf_holder W, now + CLAIM_TTL_MS) \<and> run' = run \<and>
    (\<forall>r. record_of s run = Some r \<longrightarrow> r_status r \<noteq> Completed \<and> r_status r \<noteq> Failed \<and> \<not> held_by_other (claim_of s run) (wf_holder W) now)"
proof (cases rule: start_admits [OF W])
  case (1 s1)
  from claim_or_attach_started [OF W(1) 1(1,3) started [unfolded 1(6)]] 1 show ?thesis by simp
next
  case (2 r s1)
  have known: "record_of s1 run \<noteq> None" using 2 by simp
  have "r_status r \<noteq> Completed" "r_status r \<noteq> Failed" "claim_or_attach W run (Some (r_status r)) now s1 = (Inr (Started run'), s')"
    using started unfolding 2(6) by (cases "recordedRunResult (wf_backend W run) r"; simp split: if_splits)+
  then show ?thesis using claim_or_attach_started [OF W(1) 2(2) known] 2 by simp
qed

lemma held_run_is_not_started:
  assumes "wf_journal W = J" "ok s" "record_of s run = Some r" "held_by_other (claim_of s run) (wf_holder W) now"
  shows "fst (start_at W run now s) \<noteq> Inr (Started run')"
proof
  assume "fst (start_at W run now s) = Inr (Started run')"
  then obtain s' where "start_at W run now s = (Inr (Started run'), s')" by (cases "start_at W run now s") auto
  from start_holds [OF assms(1,2) _ this] assms(3,4) show False by auto
qed

section \<open>Deliveries\<close>

lemma append_and_wake_contract:
  assumes "ad_journal A = J" "ok s" "record_of s run = Some r" "r_status r = Parked"
  shows "\<exists>s' r'. append_and_wake A run e s = (Inr (), s') \<and> ok s' \<and>
    entries_of s' = (entries_of s)(run := with_entry (entries_of s run) e) \<and>
    record_of s' = (record_of s)(run \<mapsto> r') \<and> r_status r' = Running \<and> r_parked r' = None \<and> claim_of s' = claim_of s"
proof -
  from append_law [OF assms(2), of run e] obtain s1 where s1: "j_append J run e s = (Inr (stored_entry (entries_of s run) e), s1)" "ok s1"
    "entries_of s1 = (entries_of s)(run := with_entry (entries_of s run) e)" "record_of s1 = record_of s" "claim_of s1 = claim_of s" by blast
  have "record_of s1 run = Some r" using assms(3) s1(4) by simp
  from unpark_law [OF s1(2) this] wakes_parked [OF assms(4)] obtain r' s2 where "j_unpark J run s1 = (Inr (), s2)" "ok s2" "entries_of s2 = entries_of s1"
    "record_of s2 = (record_of s1)(run \<mapsto> r')" "r_status r' = Running" "r_parked r' = None" "claim_of s2 = claim_of s1" by auto
  then show ?thesis using assms(1) s1 by (auto simp: append_and_wake_def)
qed

lemma delivered:
  assumes A: "ad_journal A = J" and s: "ok s" and d: "deliver_payload A token payload s = (Inr (Some run), s')"
  obtains r p frame r' where "record_of s run = Some r" "r_status r = Parked" "r_parked r = Some p" "p_token p = Some token"
    "b_write (ad_backend A run) (p_path p) payload = Inr frame" "ok s'"
    "entries_of s' run = with_entry (entries_of s run) (recordEntryAt (ad_backend A run) (p_path p) StepEntry None frame)"
    "record_of s' run = Some r'" "r_status r' = Running" "claim_of s' run = claim_of s run"
proof -
  obtain p where p: "j_parked_on J token s = Inr (Some (run, p))"
    using d A by (auto simp: deliver_payload_def map_prod_def split: sum.splits option.splits prod.splits)
  then obtain r where r: "record_of s run = Some r" "r_status r = Parked" "r_parked r = Some p" "p_token p = Some token"
    using parked_on_law [OF s p] by auto
  obtain frame where frame: "b_write (ad_backend A run) (p_path p) payload = Inr frame"
    using d A p by (auto simp: deliver_payload_def split: sum.splits)
  let ?e = "recordEntryAt (ad_backend A run) (p_path p) StepEntry None frame"
  from append_and_wake_contract [OF A s r(1,2), of ?e] obtain s1 r' where w: "append_and_wake A run ?e s = (Inr (), s1)" "ok s1"
    "entries_of s1 = (entries_of s)(run := with_entry (entries_of s run) ?e)" "record_of s1 = (record_of s)(run \<mapsto> r')"
    "r_status r' = Running" "r_parked r' = None" "claim_of s1 = claim_of s" by blast
  have "s' = s1" using d A p frame w(1) by (simp add: deliver_payload_def)
  then show ?thesis using that [OF r frame] w by simp
qed

lemma replayed_entry_answers:
  assumes B: "b_journal B = J" and s: "ok s" "open_run B s w = Inr st" "entry_at path (entries_of s (b_run B)) = Some e" "etarget e = None"
  shows "\<exists>v. recordedValue B e = Inr v \<and>
    handle_step B path target call st = (Inr v, st\<lparr>replayed_steps := replayed_steps st + 1\<rparr>)"
proof -
  have "legible B (entries_of s (b_run B)) \<and> exact B (entries_of s (b_run B)) (recorded st)"
    using s(1,2) B entries_law [OF s(1)] by (auto simp: open_run_def read_recorded_exact map_sum_def split: sum.splits)
  then obtain r where r: "replayed_of B e = Inr r" "recorded st path = Some r"
    using exact_at(2) [of B "entries_of s (b_run B)" "recorded st" path e] s(3)
    unfolding legible_def by (cases "replayed_of B e") (simp_all, metis sum.disc(1))
  then have "re_target r = None" "recordedValue B e = Inr (re_value r)"
    using s(4) by (auto simp: replayed_of_def map_sum_def split: sum.splits)
  then show ?thesis using r(2) by (simp add: handle_step_def mismatch_def)
qed

end

section \<open>What is promised of a run\<close>

text \<open>C17. A body that ended settles its run as it ended, and keeps everything recorded: a failure as failed, with its code and
  message; an answer as completed, with the frame of its results, or as failed when they cannot be recorded. A body that left to
  wait, was cancelled or swallowed a wait settles nothing.\<close>

theorem a_body_is_settled_as_it_ended:
  assumes J: "durable_journal (b_journal B) ok entries_of record_of claim_of stores_time due_after wakes"
    and st: "ok (store st)" "record_of (store st) (b_run B) \<noteq> None" "finish B steps out st = (res, st')"
  shows "ok (store st') \<and> entries_of (store st') = entries_of (store st) \<and>
    (case out of
       Inl err \<Rightarrow> res = Inl err \<and>
         (if isSuspension err \<or> isCancellationError err then store st' = store st
          else settled_by record_of claim_of (failed_outcome err) (store st') (b_run B))
     | Inr _ \<Rightarrow>
         (case latched st of
            Some signal \<Rightarrow> isl res \<and> store st' = store st
          | None \<Rightarrow>
              (case b_write B (js ''result'') (VRecord [(js ''steps'', VRecord steps)]) of
                 Inl e \<Rightarrow> res = Inl e \<and> settled_by record_of claim_of (failed_outcome e) (store st') (b_run B)
               | Inr frame \<Rightarrow> res = Inr steps \<and>
                   settled_by record_of claim_of (completed_outcome (b_version B) frame st) (store st') (b_run B))))"
  by (rule durable_journal.finish_settles [OF J refl st])

text \<open>C7. A value delivered to a waiting run is what the wait answers when the run goes on, unless one was delivered before: the
  run is running again, and a step at the place it waited answers the recorded value without being called.\<close>

theorem delivered_value_is_the_waits_result:
  assumes J: "durable_journal (ad_journal A) ok entries_of record_of claim_of stores_time due_after wakes"
    and B: "b_journal (ad_backend A run) = ad_journal A" "b_run (ad_backend A run) = run"
    and d: "ok s" "deliver_payload A token payload s = (Inr (Some run), s')"
  shows "\<exists>r p frame r'. record_of s run = Some r \<and> r_status r = Parked \<and> r_parked r = Some p \<and> p_token p = Some token \<and>
    b_write (ad_backend A run) (p_path p) payload = Inr frame \<and> record_of s' run = Some r' \<and> r_status r' = Running \<and>
    (entry_at (p_path p) (entries_of s run) = None \<longrightarrow> open_run (ad_backend A run) s' w = Inr st \<longrightarrow>
      (\<exists>v. b_read (ad_backend A run) (p_path p) (Some (b_version (ad_backend A run))) frame = Inr v \<and>
         handle_step (ad_backend A run) (p_path p) target call st = (Inr v, st\<lparr>replayed_steps := replayed_steps st + 1\<rparr>)))"
proof -
  let ?B = "ad_backend A run"
  obtain r p frame r' where r: "record_of s run = Some r" "r_status r = Parked" "r_parked r = Some p" "p_token p = Some token"
    and frame: "b_write ?B (p_path p) payload = Inr frame" and s': "ok s'"
    "entries_of s' run = with_entry (entries_of s run) (recordEntryAt ?B (p_path p) StepEntry None frame)"
    and r': "record_of s' run = Some r'" "r_status r' = Running"
    by (rule durable_journal.delivered [OF J refl d])
  let ?e = "recordEntryAt ?B (p_path p) StepEntry None frame"
  have e: "epath ?e = p_path p" "etarget ?e = None" by (simp_all add: recordEntryAt_def recordEntry_def)
  have "\<exists>v. b_read ?B (p_path p) (Some (b_version ?B)) frame = Inr v \<and>
      handle_step ?B (p_path p) target call st = (Inr v, st\<lparr>replayed_steps := replayed_steps st + 1\<rparr>)"
    if "entry_at (p_path p) (entries_of s run) = None" "open_run ?B s' w = Inr st"
  proof -
    have "entry_at (p_path p) (entries_of s' (b_run ?B)) = Some ?e" using that(1) e(1) by (simp add: s'(2) B(2) with_entry_at stored_entry_def)
    from durable_journal.replayed_entry_answers [OF J B(1) s'(1) that(2) this e(2)] show ?thesis
      by (simp add: recordedValue_def recordEntryAt_def recordEntry_def)
  qed
  with r frame r' show ?thesis by (intro exI [of _ r] exI [of _ p] exI [of _ frame] exI [of _ r']) (intro conjI impI)
qed

text \<open>C18. A run that a workflow has started is started by no other holder for as long as the claim lasts, and is not one that had
  completed or failed.\<close>

theorem one_start_executes:
  assumes J: "durable_journal (wf_journal W) ok entries_of record_of claim_of stores_time due_after wakes"
    and s: "ok s" "record_of s run = None \<longrightarrow> fst (j_admit (wf_journal W) run (start_admission W) now s) = Inr (True, x)"
    and started: "start_at W run now s = (Inr (Started run), s')"
    and other: "wf_journal W' = wf_journal W" "wf_holder W' \<noteq> wf_holder W" "now' < now + CLAIM_TTL_MS"
  shows "fst (start_at W' run now' s') \<noteq> Inr (Started run) \<and>
    (\<forall>r. record_of s run = Some r \<longrightarrow> r_status r \<noteq> Completed \<and> r_status r \<noteq> Failed)"
proof -
  note first = durable_journal.start_holds [OF J refl s started]
  then obtain r where r: "record_of s' run = Some r" by blast
  have "held_by_other (claim_of s' run) (wf_holder W') now'" using first other by (simp add: held_by_other_def)
  from durable_journal.held_run_is_not_started [OF J other(1) _ r this] first show ?thesis by blast
qed

section \<open>Runs over a journal of files\<close>

definition sample_workflow :: "jstring \<Rightarrow> (cel_value file_store, cel_value, int, unit, unit) workflow" where
  "sample_workflow holder = \<lparr>wf_journal = file_journal, wf_backend = (\<lambda>run. sample_backend), wf_context = (\<lambda>run. sample_context 0),
     wf_expand = (\<lambda>e scope n. (Inr (VString (js ''r'')), n)), wf_holder = holder, wf_run_id = Some (), wf_minted = js ''m'',
     wf_reject = False, wf_inputs = (), wf_steps = sample_body\<rparr>"

definition sample_addressing :: "(cel_value file_store, cel_value, int, unit) addressing" where
  "sample_addressing = \<lparr>ad_journal = file_journal, ad_backend = (\<lambda>run. sample_backend),
     ad_expand = (\<lambda>e scope n. (Inr (VString (js ''r'')), n)), ad_name = js ''d''\<rparr>"

definition waiting_store :: "cel_value file_store" where
  "waiting_store = snd (file_parkRun (js ''r'') \<lparr>p_path = js ''steps/w'', p_resource = js ''w'', p_at = None, p_token = Some (js ''t'')\<rparr> sample_admitted)"

definition delivered_store :: "cel_value file_store" where
  "delivered_store = snd (deliver_payload sample_addressing (js ''t'') (VBool True) waiting_store)"

lemma sample_delivers: "deliver_payload sample_addressing (js ''t'') (VBool True) waiting_store = (Inr (Some (js ''r'')), delivered_store)"
  by (simp add: delivered_store_def waiting_store_def sample_admitted_def deliver_payload_def append_and_wake_def sample_addressing_def
      sample_backend_fields file_eval file_runParkedOn_def file_unparkRun_def recordEntryAt_def recordEntry_def)

lemma sample_starts: "fst (start_at (sample_workflow (js ''h'')) (js ''r'') 0 empty_directory) = Inr (Started (js ''r''))"
  by (simp add: start_at_def start_admission_def sample_workflow_def claim_or_attach_def file_eval file_claimRun_def held_by_other_def)

definition results_frame :: jstring where
  "results_frame = json_text (JObject [(js ''steps'', JObject [])])"

lemma results_written: "b_write sample_backend place (VRecord [(js ''steps'', VRecord [])]) = Inr (Some (VString results_frame))"
proof -
  have "withoutAbsentMembers (VRecord [(js ''steps'', VRecord [])]) = VRecord [(js ''steps'', VRecord [])]"
    by (simp add: assigned_copy_def host_members_def)
  then have "encodeTypedFrame no_members (withoutAbsentMembers (VRecord [(js ''steps'', VRecord [])])) = Inr results_frame"
    by (simp add: encodeTypedFrame_def write_value.simps writeMapKey_def writeFrameText_def frame_map_def TYPED_FRAME_TAG_def results_frame_def)
  from sample_codec(1) [OF _ this] show ?thesis by simp
qed

lemma a_body_is_settled_as_it_ended_witness:
  "\<exists>st st'. open_run sample_backend sample_admitted (0::int) = Inr st \<and> finish sample_backend [] (Inr ()) st = (Inr [], st') \<and>
     settled_by file_record claims (completed_outcome 2 (Some (VString results_frame)) st) (store st') (js ''r'')"
proof -
  obtain st where st: "open_run sample_backend sample_admitted (0::int) = Inr st" using sample_run_completes by (elim exE conjE)
  have J: "b_journal sample_backend = file_journal" by (rule sample_backend_fields(1))
  have s: "store st = sample_admitted" "latched st = None"
    using durable_journal.sound_open(3) [OF fj.durable_journal_axioms J sample_admitted_known st] st
    by (auto simp: open_run_def map_sum_def split: sum.splits)
  obtain res st' where f: "finish sample_backend [] (Inr ()) st = (res, st')" by (cases "finish sample_backend [] (Inr ()) st")
  from a_body_is_settled_as_it_ended [OF sample_runs(5) _ _ f] sample_admitted_known s
  have "res = Inr [] \<and> settled_by file_record claims (completed_outcome 2 (Some (VString results_frame)) st) (store st') (js ''r'')"
    by (simp add: sample_backend_fields results_written [simplified] RECORDED_VALUE_CODEC_VERSION_def)
  with st f show ?thesis by blast
qed

lemma waiting_store_known: "file_ok waiting_store" "file_record waiting_store (js ''r'') \<noteq> None"
  "\<And>r. file_record waiting_store (js ''r'') = Some r \<Longrightarrow> map_option p_path (r_parked r) = Some (js ''steps/w'')"
  "file_entries waiting_store (js ''r'') = []"
  by (auto simp: waiting_store_def sample_admitted_def file_eval file_ok_def file_record_def file_entries_def lines_of_def)

lemma delivered_store_opens: "\<exists>st. open_run sample_backend delivered_store (0::int) = Inr st"
  by (simp add: delivered_store_def waiting_store_def sample_admitted_def deliver_payload_def append_and_wake_def sample_addressing_def
      sample_backend_fields file_eval file_runParkedOn_def file_unparkRun_def recordEntryAt_def recordEntry_def open_run_def
      replayed_of_def recordedValue_def)

lemma delivered_value_is_the_waits_result_witness:
  "\<forall>call. \<exists>st. open_run sample_backend delivered_store (0::int) = Inr st \<and>
     handle_step sample_backend (js ''steps/w'') None call st = (Inr (VBool True), st\<lparr>replayed_steps := replayed_steps st + 1\<rparr>)"
proof
  fix call
  obtain st where st: "open_run sample_backend delivered_store (0::int) = Inr st" using delivered_store_opens by blast
  have B: "ad_backend sample_addressing (js ''r'') = sample_backend" "ad_journal sample_addressing = file_journal"
    "b_journal sample_backend = file_journal" "b_run sample_backend = js ''r''"
    by (simp_all add: sample_addressing_def sample_backend_fields)
  have J: "durable_journal (ad_journal sample_addressing) file_ok file_entries file_record claims (\<lambda>t. True) file_due_after (\<lambda>r. True)"
    using fj.durable_journal_axioms by (simp add: B)
  have seam: "b_journal (ad_backend sample_addressing (js ''r'')) = ad_journal sample_addressing"
    "b_run (ad_backend sample_addressing (js ''r'')) = js ''r''" by (simp_all only: B)
  obtain r p frame where r: "file_record waiting_store (js ''r'') = Some r" "r_parked r = Some p"
      "b_write sample_backend (p_path p) (VBool True) = Inr frame"
    and v: "entry_at (p_path p) (file_entries waiting_store (js ''r'')) = None \<Longrightarrow>
      \<exists>v. b_read sample_backend (p_path p) (Some (b_version sample_backend)) frame = Inr v \<and>
        handle_step sample_backend (p_path p) None call st = (Inr v, st\<lparr>replayed_steps := replayed_steps st + 1\<rparr>)"
    using delivered_value_is_the_waits_result [OF J seam waiting_store_known(1) sample_delivers, of 0 st None call] st
    unfolding B by (elim exE conjE) (rule that, assumption, assumption, assumption, iprover)
  have "p_path p = js ''steps/w''" using waiting_store_known(3) [OF r(1)] r(2) by simp
  moreover have "frame = Some (VString (bool_frame True))" using r(3) by simp
  ultimately show "\<exists>st. open_run sample_backend delivered_store (0::int) = Inr st \<and>
      handle_step sample_backend (js ''steps/w'') None call st = (Inr (VBool True), st\<lparr>replayed_steps := replayed_steps st + 1\<rparr>)"
    using v waiting_store_known(4) st by (auto simp: sample_backend_fields)
qed

lemma one_start_executes_witness:
  "fst (start_at (sample_workflow (js ''k'')) (js ''r'') 1 (snd (start_at (sample_workflow (js ''h'')) (js ''r'') 0 empty_directory))) \<noteq>
     Inr (Started (js ''r''))"
proof -
  let ?W = "sample_workflow (js ''h'')" let ?s = "start_at ?W (js ''r'') 0 empty_directory"
  have J: "durable_journal (wf_journal ?W) file_ok file_entries file_record claims (\<lambda>t. True) file_due_after (\<lambda>r. True)"
    using fj.durable_journal_axioms by (simp add: sample_workflow_def)
  have empty: "file_ok empty_directory" by (simp add: empty_directory_def file_ok_def lines_of_def)
  have "fst (j_admit (wf_journal ?W) (js ''r'') (start_admission ?W) 0 empty_directory) = Inr (True, None)"
    by (simp add: sample_workflow_def start_admission_def file_eval)
  then have admits: "file_record empty_directory (js ''r'') = None \<longrightarrow>
      fst (j_admit (wf_journal ?W) (js ''r'') (start_admission ?W) 0 empty_directory) = Inr (True, None)" by simp
  have started: "?s = (Inr (Started (js ''r'')), snd ?s)" using sample_starts by (cases ?s) simp
  have "wf_journal (sample_workflow (js ''k'')) = wf_journal ?W" "wf_holder (sample_workflow (js ''k'')) \<noteq> wf_holder ?W"
    "1 < 0 + CLAIM_TTL_MS" by (simp_all add: sample_workflow_def CLAIM_TTL_MS_def)
  from one_start_executes [OF J empty admits started this] show ?thesis by blast
qed

section \<open>Where a settled run goes on\<close>

text \<open>A start attaches to a run that completed or failed; one that was called off is claimed and its body dispatched again.\<close>

lemma cancelled_run_is_started_again:
  assumes J: "durable_journal (wf_journal W) ok entries_of record_of claim_of stores_time due_after wakes"
    and s: "ok s" "record_of s run = Some r" "r_status r = Cancelled" "\<not> held_by_other (claim_of s run) (wf_holder W) now" "\<not> wf_reject W"
  shows "\<exists>s'. start_at W run now s = (Inr (Started run), s') \<and> record_of s' run = Some r"
proof -
  have known: "record_of s run = None \<longrightarrow> fst (j_admit (wf_journal W) run (start_admission W) now s) = Inr (True, None)" using s(2) by simp
  show ?thesis
  proof (cases rule: durable_journal.start_admits [OF J refl s(1) known])
  case (2 r' s1)
  then have "record_of s1 run = Some r" using s(2) by simp
  from durable_journal.claim_law [OF J 2(2) this, of "wf_holder W" CLAIM_TTL_MS now] s(4)
  obtain s' where "j_claim (wf_journal W) run (wf_holder W) CLAIM_TTL_MS now s1 = (Inr True, s')" "record_of s' = record_of s1"
    using 2(5) by auto
  then show ?thesis using 2 s by (simp add: claim_or_attach_def)
  qed (use s in auto)
qed

text \<open>
  A sweep asks for the runs that are due and then takes them one by one; a run that was settled in between is taken and executed
  like the others, because nothing is asked of its status once it is claimed.
\<close>

lemma swept_run_is_executed_whatever_its_status:
  assumes J: "durable_journal (wf_journal W) ok entries_of record_of claim_of stores_time due_after wakes"
    and s: "ok s" "record_of s run = Some r" "\<not> held_by_other (claim_of s run) holder now" "run \<notin> set skipped" "r_inputs r = None"
    and read: "b_read (wf_backend W run) (js ''inputs'') (r_inputs_version r) None = Inr VUndefined"
  shows "\<exists>s1. record_of s1 = record_of s \<and> entries_of s1 = entries_of s \<and>
    sweep_run W fuel holder now run (skipped, s, w) =
      (case execute W fuel run (VRecord []) (s1, w) of
         None \<Rightarrow> None
       | Some (out, s2, w2) \<Rightarrow>
           Some (True, (case out of Inl err \<Rightarrow> if \<not> isSuspension err \<and> unreadable err then run # skipped else skipped | Inr _ \<Rightarrow> skipped), s2, w2))"
proof -
  from durable_journal.claim_law [OF J s(1,2), of holder CLAIM_TTL_MS now] s(3)
  obtain s1 where s1: "j_claim (wf_journal W) run holder CLAIM_TTL_MS now s = (Inr True, s1)" "ok s1" "entries_of s1 = entries_of s"
    "record_of s1 = record_of s" by auto
  have "scheduled_inputs W run s1 = Inr (VRecord [])"
    using durable_journal.read_law [OF J s1(2), of run] s1(4) s(2,5) read by (simp add: scheduled_inputs_def)
  then show ?thesis using s1 s(4) by (intro exI [of _ s1]) (simp add: sweep_run_def)
qed

text \<open>The inputs of a body are computed before anything can settle the run: when they fail, it stays as it was, and due.\<close>

lemma failing_inputs_settle_nothing:
  assumes "recorded st (js ''inputs'') = None"
    "c_expand (wf_context W run) (wf_inputs W) [(js ''inputs'', given)] (world st) = (Inl err, w)"
  shows "runBody W fuel run given st = Some (Inl err, st\<lparr>world := w\<rparr>)"
  using assms by (simp add: runBody_def handle_decide_def expand_def)

text \<open>
  A wait between two attempts is as long as a fraction of a millisecond makes it, unless the policy asks for no jitter; the
  tables refuse the deadline, and the step fails with the refusal where it should wait.
\<close>

lemma jittered_wait_is_refused:
  assumes B: "b_journal B = pg_journal" "c_durable ctx = Some B" and long: "SUSPENDING_BACKOFF_MS \<le> rp_backoff policy resend"
    and delay: "rp_jitter policy" "c_jitter ctx (rp_backoff policy resend) (world st) = (delay, w)"
    and due: "handle_decide B (stepPath [Word path, Word (js ''retry''), Index resend]) DValue
        (\<lambda>st'. (Inr (time_value (of_int (c_now ctx (world st')) + delay)), st')) (st\<lparr>world := w\<rparr>) = (Inr v, st1)"
      "time_of v = Some t" "of_int (c_now ctx (world st1)) < t" "of_int \<lfloor>t\<rfloor> \<noteq> t"
    and open_zones: "assertMaySuspend B (c_zones ctx) (if label = [] then path else label) = None"
  shows "\<exists>err st2. between_attempts ctx policy label path resend None st = (Inl err, st2) \<and>
    f_code err = Some (js ''22P02'') \<and> \<not> isSuspension err \<and> store st2 = store st1"
proof -
  have "still_before (c_now ctx (world st1)) v" using due(2,3) by (simp add: still_before_def)
  then have "between_attempts ctx policy label path resend None st =
      parkRun B \<lparr>s_path = stepPath [Word path, Word (js ''retry''), Index resend], s_resource = if label = [] then path else label,
        s_at = Some t, s_token = None\<rparr> st1"
    using B(2) long delay due(1,2) open_zones by (simp add: between_attempts_def Let_def)
  then show ?thesis
    using due(4) by (simp add: parkRun_def handle_park_def B(1) pg_refuses_a_fraction journal_failure_def invokeError_def
        isSuspension_def ERR_DURABLE_SUSPENDED_def)
qed

section \<open>Waiting for a result ends\<close>

text \<open>When a wait lets at least a tick of the clock pass, the reading ends by the deadline, whatever others write meanwhile.\<close>

lemma result_loop_answers:
  assumes "\<And>ms sw sw'. wait ms sw = (False, sw') \<Longrightarrow> now (snd sw) < now (snd sw')"
    and "nat (deadline - now (snd sw)) < fuel"
  shows "result_loop A now wait run poll deadline fuel sw \<noteq> None"
  using assms(2)
proof (induction fuel arbitrary: sw)
  case (Suc fuel)
  have go: "result_loop A now wait run poll deadline fuel sw' \<noteq> None"
    if "wait ms sw = (False, sw')" "\<not> now (snd sw) \<ge> deadline" for ms sw'
    using Suc.IH [of sw'] Suc.prems assms(1) [OF that(1)] that(2) by auto
  show ?case
    using go [of "min poll (deadline - now (snd sw))"]
    by (cases "wait (min poll (deadline - now (snd sw))) sw") (auto split: sum.split option.split bool.split simp del: not_None_eq)
qed simp

end
