(* ===== verification/Cel_Type.thy ===== *)
theory Cel_Type
  imports Cel_Syntax
begin

text \<open>
  The types of the expression language (\<open>cel/nodejs/src/cel-type.ts\<close>): their equality, their text,
  which type stands where another is wanted, and the type two branches share.

  A map of fields is a list of pairs in the order they were declared, with distinct names
  (\<open>type_ok\<close>). \<open>narrower\<close> is the abstract order of the types: an unresolved parameter
  says nothing and is below everything, \<open>dyn\<close> is above everything, and a record is below the maps it is
  read as. Unlike \<open>assignable\<close>, which lets \<open>dyn\<close> pass both ways, it is transitive.
\<close>

section \<open>Types\<close>

datatype primitive_name =
    PInt | PUint | PDouble | PBool | PString | PBytes | PNull | PType | PTimestamp | PDuration

datatype cel_type =
    TDyn
  | TPrimitive primitive_name
  | TList cel_type
  | TMap cel_type cel_type
  | TOptional cel_type
  | TRecord "jstring option" "(jstring \<times> cel_type) list" bool
  | TUnion "cel_type list"
  | TNominal jstring cel_type "cel_type list" "(jstring \<times> cel_type) list option"
  | TParameter jstring

abbreviation "STRING \<equiv> TPrimitive PString"
abbreviation "BOOL \<equiv> TPrimitive PBool"

fun type_ok :: "cel_type \<Rightarrow> bool" where
  "type_ok (TList a) = type_ok a"
| "type_ok (TMap k v) = (type_ok k \<and> type_ok v)"
| "type_ok (TOptional a) = type_ok a"
| "type_ok (TRecord _ fields _) =
     (distinct (map fst fields) \<and> list_all (\<lambda>(_, t). type_ok t) fields)"
| "type_ok (TUnion members) = list_all type_ok members"
| "type_ok (TNominal _ base args fields) =
     (type_ok base \<and> list_all type_ok args \<and>
      (case fields of None \<Rightarrow> True
       | Some fs \<Rightarrow> distinct (map fst fs) \<and> list_all (\<lambda>(_, t). type_ok t) fs))"
| "type_ok _ = True"

fun isDyn :: "cel_type \<Rightarrow> bool" where
  "isDyn TDyn = True"
| "isDyn _ = False"

lemma isDyn_iff [simp]: "isDyn t \<longleftrightarrow> t = TDyn"
  by (cases t) auto

section \<open>Equality\<close>

fun typesEqual :: "cel_type \<Rightarrow> cel_type \<Rightarrow> bool" where
  "typesEqual TDyn right = (case right of TDyn \<Rightarrow> True | _ \<Rightarrow> False)"
| "typesEqual (TPrimitive name) right = (case right of TPrimitive other \<Rightarrow> name = other | _ \<Rightarrow> False)"
| "typesEqual (TList element) right = (case right of TList other \<Rightarrow> typesEqual element other | _ \<Rightarrow> False)"
| "typesEqual (TMap key v) right =
     (case right of TMap key' v' \<Rightarrow> typesEqual key key' \<and> typesEqual v v' | _ \<Rightarrow> False)"
| "typesEqual (TOptional v) right = (case right of TOptional other \<Rightarrow> typesEqual v other | _ \<Rightarrow> False)"
| "typesEqual (TRecord name fields opened) right =
     (case right of TRecord name' fields' opened' \<Rightarrow>
          name = name' \<and> opened = opened' \<and> length fields = length fields' \<and>
          list_all (\<lambda>(field, t).
            case map_of fields' field of None \<Rightarrow> False | Some held \<Rightarrow> typesEqual t held) fields
      | _ \<Rightarrow> False)"
| "typesEqual (TUnion members) right =
     (case right of TUnion other \<Rightarrow> list_all2 typesEqual members other | _ \<Rightarrow> False)"
| "typesEqual (TNominal name _ args _) right =
     (case right of TNominal name' _ args' _ \<Rightarrow> name = name' \<and> list_all2 typesEqual args args'
      | _ \<Rightarrow> False)"
| "typesEqual (TParameter name) right = (case right of TParameter other \<Rightarrow> name = other | _ \<Rightarrow> False)"

text \<open>What the comparison reads of a type: fields by name, and of a named type its name and arguments.\<close>

fun canonical_type :: "cel_type \<Rightarrow> cel_type" where
  "canonical_type (TList a) = TList (canonical_type a)"
| "canonical_type (TMap k v) = TMap (canonical_type k) (canonical_type v)"
| "canonical_type (TOptional a) = TOptional (canonical_type a)"
| "canonical_type (TRecord name fields opened) =
     TRecord name (sort_key fst (map (\<lambda>(f, t). (f, canonical_type t)) fields)) opened"
| "canonical_type (TUnion members) = TUnion (map canonical_type members)"
| "canonical_type (TNominal name _ args _) = TNominal name TDyn (map canonical_type args) None"
| "canonical_type t = t"

lemma sort_key_by_map_of:
  fixes xs ys :: "('a::linorder \<times> 'b) list"
  assumes "distinct (map fst xs)" "distinct (map fst ys)"
  shows "sort_key fst xs = sort_key fst ys \<longleftrightarrow> map_of xs = map_of ys"
proof
  assume "sort_key fst xs = sort_key fst ys"
  then have "set xs = set ys" by (metis set_sort)
  then show "map_of xs = map_of ys" using assms by (simp add: map_of_inject_set)
next
  assume "map_of xs = map_of ys"
  then have same: "set xs = set ys" using assms by (simp add: map_of_inject_set)
  show "sort_key fst xs = sort_key fst ys"
  proof (rule map_sorted_distinct_set_unique [of fst])
    show "inj_on fst (set (sort_key fst xs) \<union> set (sort_key fst ys))"
      using assms same by (simp add: distinct_map)
    show "distinct (map fst (sort_key fst xs))" "distinct (map fst (sort_key fst ys))"
      using assms by (simp_all add: distinct_map)
  qed (use same in simp_all)
qed

lemma map_of_by_fields:
  assumes "distinct (map fst fs)" "distinct (map fst gs)" "length fs = length gs"
  shows "map_of (map (\<lambda>(f, t). (f, h t)) fs) = map_of (map (\<lambda>(f, t). (f, h t)) gs) \<longleftrightarrow>
     (\<forall>(f, t) \<in> set fs. \<exists>held. map_of gs f = Some held \<and> h t = h held)"
  (is "?l \<longleftrightarrow> ?r")
proof
  assume same: ?l
  have "\<exists>held. map_of gs f = Some held \<and> h t = h held" if "(f, t) \<in> set fs" for f t
  proof -
    have "map_of fs f = Some t" using that assms(1) by simp
    then show ?thesis using fun_cong [OF same, of f] by (cases "map_of gs f") (auto simp: map_of_map)
  qed
  then show ?r by blast
next
  assume r: ?r
  then have "fst ` set fs \<subseteq> fst ` set gs" by (force dest: map_of_SomeD)
  moreover have "card (fst ` set fs) = card (fst ` set gs)"
    using assms by (metis distinct_card length_map set_map)
  ultimately have keys: "fst ` set fs = fst ` set gs" by (simp add: card_subset_eq)
  show ?l
  proof (rule ext)
    fix f
    show "map_of (map (\<lambda>(f, t). (f, h t)) fs) f = map_of (map (\<lambda>(f, t). (f, h t)) gs) f"
    proof (cases "map_of fs f")
      case None
      then have "map_of gs f = None" using keys by (simp add: map_of_eq_None_iff)
      with None show ?thesis by (simp add: map_of_map)
    next
      case (Some t)
      then show ?thesis using r assms(1) by (fastforce simp: map_of_map dest: map_of_SomeD)
    qed
  qed
qed

lemma list_all2_map_eq_on:
  "(\<And>x y. x \<in> set xs \<Longrightarrow> y \<in> set ys \<Longrightarrow> P x y \<longleftrightarrow> f x = f y) \<Longrightarrow>
     list_all2 P xs ys \<longleftrightarrow> map f xs = map f ys"
proof (induction xs arbitrary: ys)
  case (Cons x xs)
  then show ?case by (cases ys) auto
qed auto

lemma typesEqual_canonical:
  "type_ok a \<Longrightarrow> type_ok b \<Longrightarrow> typesEqual a b \<longleftrightarrow> canonical_type a = canonical_type b"
proof (induction a arbitrary: b rule: canonical_type.induct)
  case (4 name fields opened)
  show ?case
  proof (cases b)
    case (TRecord name' fields' opened')
    have wf: "distinct (map fst fields)" "distinct (map fst fields')"
        "distinct (map fst (map (\<lambda>(f, t). (f, canonical_type t)) fields))"
        "distinct (map fst (map (\<lambda>(f, t). (f, canonical_type t)) fields'))"
      using 4(2,3) TRecord by (simp_all add: comp_def case_prod_unfold)
    have "typesEqual t held \<longleftrightarrow> canonical_type t = canonical_type held"
      if "(f, t) \<in> set fields" "map_of fields' f = Some held" for f t held
      using that 4(1) [of "(f, t)" f t held] 4(2,3) TRecord map_of_SomeD [OF that(2)]
      by (fastforce simp: list_all_iff)
    then have each: "list_all (\<lambda>(field, t).
            case map_of fields' field of None \<Rightarrow> False | Some held \<Rightarrow> typesEqual t held) fields \<longleftrightarrow>
       (\<forall>(f, t) \<in> set fields. \<exists>held. map_of fields' f = Some held \<and> canonical_type t = canonical_type held)"
      by (auto simp: list_all_iff split: option.splits)
    have len: "length fields = length fields'"
      if "sort_key fst (map (\<lambda>(f, t). (f, canonical_type t)) fields) =
          sort_key fst (map (\<lambda>(f, t). (f, canonical_type t)) fields')"
      using arg_cong [OF that, of length] by simp
    have same: "length fields = length fields' \<and> list_all (\<lambda>(field, t).
            case map_of fields' field of None \<Rightarrow> False | Some held \<Rightarrow> typesEqual t held) fields \<longleftrightarrow>
       sort_key fst (map (\<lambda>(f, t). (f, canonical_type t)) fields) =
       sort_key fst (map (\<lambda>(f, t). (f, canonical_type t)) fields')"
    proof (cases "length fields = length fields'")
      case True
      from map_of_by_fields [OF wf(1,2) True, of canonical_type] show ?thesis
        unfolding each sort_key_by_map_of [OF wf(3,4)] using True by simp
    qed (use len in blast)
    show ?thesis
      by (simp only: TRecord typesEqual.simps canonical_type.simps cel_type.case cel_type.inject same)
        blast
  qed auto
next
  case (5 members)
  have "list_all2 typesEqual members ys \<longleftrightarrow> map canonical_type members = map canonical_type ys"
    if "list_all type_ok ys" for ys
    by (rule list_all2_map_eq_on) (use 5 that in \<open>auto simp: list_all_iff\<close>)
  then show ?case using 5(3) by (cases b) simp_all
next
  case (6 name base args fields)
  have "list_all2 typesEqual args ys \<longleftrightarrow> map canonical_type args = map canonical_type ys"
    if "list_all type_ok ys" for ys
    by (rule list_all2_map_eq_on) (use 6 that in \<open>auto simp: list_all_iff\<close>)
  then show ?case using 6(3) by (cases b) simp_all
qed (simp_all split: cel_type.split, auto)

lemma typesEqual_leaf [simp]:
  "typesEqual TDyn b \<longleftrightarrow> b = TDyn"
  "typesEqual (TPrimitive p) b \<longleftrightarrow> b = TPrimitive p"
  "typesEqual (TParameter n) b \<longleftrightarrow> b = TParameter n"
  by (cases b; auto)+

declare typesEqual.simps(1,2,9) [simp del]

lemma typesEqual_refl: "type_ok a \<Longrightarrow> typesEqual a a"
  by (simp add: typesEqual_canonical)

lemma typesEqual_sym: "type_ok a \<Longrightarrow> type_ok b \<Longrightarrow> typesEqual a b \<Longrightarrow> typesEqual b a"
  by (simp add: typesEqual_canonical)

lemma typesEqual_trans:
  "type_ok a \<Longrightarrow> type_ok b \<Longrightarrow> type_ok c \<Longrightarrow> typesEqual a b \<Longrightarrow> typesEqual b c \<Longrightarrow> typesEqual a c"
  by (simp add: typesEqual_canonical)

section \<open>Unions\<close>

fun union_parts :: "cel_type \<Rightarrow> cel_type list" where
  "union_parts (TUnion members) = members"
| "union_parts member = [member]"

fun add_distinct :: "cel_type list \<Rightarrow> cel_type list \<Rightarrow> cel_type list" where
  "add_distinct flat [] = flat"
| "add_distinct flat (part # parts) =
     add_distinct (if \<exists>held \<in> set flat. typesEqual held part then flat else flat @ [part]) parts"

definition unionOf :: "cel_type list \<Rightarrow> cel_type" where
  "unionOf members =
     (let flat = add_distinct [] (concat (map union_parts members))
      in case flat of
           [] \<Rightarrow> TDyn
         | [one] \<Rightarrow> one
         | _ \<Rightarrow> if \<exists>member \<in> set flat. isDyn member then TDyn else TUnion flat)"

section \<open>Text\<close>

fun PRIMITIVE_PRINTED :: "primitive_name \<Rightarrow> jstring" where
  "PRIMITIVE_PRINTED PInt = js ''int''"
| "PRIMITIVE_PRINTED PUint = js ''uint''"
| "PRIMITIVE_PRINTED PDouble = js ''double''"
| "PRIMITIVE_PRINTED PBool = js ''bool''"
| "PRIMITIVE_PRINTED PString = js ''string''"
| "PRIMITIVE_PRINTED PBytes = js ''bytes''"
| "PRIMITIVE_PRINTED PNull = js ''null''"
| "PRIMITIVE_PRINTED PType = js ''type''"
| "PRIMITIVE_PRINTED PTimestamp = js ''google.protobuf.Timestamp''"
| "PRIMITIVE_PRINTED PDuration = js ''google.protobuf.Duration''"

fun join_text :: "jstring \<Rightarrow> jstring list \<Rightarrow> jstring" where
  "join_text _ [] = []"
| "join_text _ [t] = t"
| "join_text sep (t # ts) = t @ sep @ join_text sep ts"

fun formatType :: "cel_type \<Rightarrow> bool \<Rightarrow> jstring" where
  "formatType TDyn _ = js ''dyn''"
| "formatType (TPrimitive name) _ = PRIMITIVE_PRINTED name"
| "formatType (TList element) whole =
     (if whole \<and> isDyn element then js ''list'' else js ''list<'' @ formatType element False @ js ''>'')"
| "formatType (TMap key v) whole =
     (if whole \<and> isDyn key \<and> isDyn v then js ''map''
      else js ''map<'' @ formatType key False @ js '', '' @ formatType v False @ js ''>'')"
| "formatType (TOptional v) _ = js ''optional<'' @ formatType v False @ js ''>''"
| "formatType (TRecord name _ _) _ = (case name of Some n \<Rightarrow> n | None \<Rightarrow> js ''map'')"
| "formatType (TUnion members) _ = join_text (js ''|'') (map (\<lambda>member. formatType member False) members)"
| "formatType (TNominal name _ args _) _ =
     (if args = [] then name
      else name @ js ''<'' @ join_text (js '', '') (map (\<lambda>argument. formatType argument False) args) @ js ''>'')"
| "formatType (TParameter name) _ = name"

section \<open>Null and parameters\<close>

definition isNumeric :: "cel_type \<Rightarrow> bool" where
  "isNumeric t \<longleftrightarrow> t \<in> {TPrimitive PInt, TPrimitive PUint, TPrimitive PDouble}"

fun withoutParameters :: "cel_type \<Rightarrow> cel_type" where
  "withoutParameters (TParameter _) = TDyn"
| "withoutParameters (TList element) = TList (withoutParameters element)"
| "withoutParameters (TMap key v) = TMap (withoutParameters key) (withoutParameters v)"
| "withoutParameters (TOptional v) = TOptional (withoutParameters v)"
| "withoutParameters (TUnion members) = unionOf (map withoutParameters members)"
| "withoutParameters (TNominal name base args fields) =
     TNominal name base (map withoutParameters args) fields"
| "withoutParameters (TRecord name fields opened) =
     TRecord name (map (\<lambda>(field, held). (field, withoutParameters held)) fields) opened"
| "withoutParameters t = t"

fun admitsNull :: "cel_type \<Rightarrow> bool" where
  "admitsNull (TPrimitive name) = (name = PNull)"
| "admitsNull (TUnion members) = list_ex admitsNull members"
| "admitsNull _ = False"

fun withoutNull :: "cel_type \<Rightarrow> cel_type" where
  "withoutNull (TUnion members) =
     (let rest = filter (\<lambda>member. \<not> admitsNull member) members
      in if rest = [] then TUnion members else unionOf rest)"
| "withoutNull t = t"

lemma size_field: "(f, t) \<in> set fields \<Longrightarrow> size t \<le> size_list (size_prod (\<lambda>_. 0) size) fields"
  using size_list_mem [of "(f, t)" fields "size_prod (\<lambda>_. 0) size"] by simp

section \<open>Assignability\<close>

text \<open>
  The code walks the pair of types; the members of a union on the left are tried before the ones on the
  right. A record stands where a map does when its name, a string, may be a key and each of its fields may
  be a value.
\<close>

function assignable :: "cel_type \<Rightarrow> cel_type \<Rightarrow> bool" where
  "assignable from_type to_type =
     (if isDyn from_type \<or> isDyn to_type then True
      else case (from_type, to_type) of
        (_, TParameter _) \<Rightarrow> True
      | (TParameter _, _) \<Rightarrow> True
      | (TUnion members, _) \<Rightarrow> list_all (\<lambda>member. assignable member to_type) members
      | (_, TUnion members) \<Rightarrow> list_ex (\<lambda>member. assignable from_type member) members
      | (TNominal _ _ _ _, _) \<Rightarrow> typesEqual from_type to_type
      | (_, TNominal _ _ _ _) \<Rightarrow> typesEqual from_type to_type
      | (TList a, TList b) \<Rightarrow> assignable a b
      | (_, TList _) \<Rightarrow> False
      | (TMap k v, TMap k' v') \<Rightarrow> assignable k k' \<and> assignable v v'
      | (TRecord _ fields opened, TMap k' v') \<Rightarrow>
          assignable STRING k' \<and>
          (isDyn v' \<or> \<not> opened \<and> list_all (\<lambda>(_, t). assignable t v') fields)
      | (_, TMap _ _) \<Rightarrow> False
      | (TOptional a, TOptional b) \<Rightarrow> assignable a b
      | (_, TOptional _) \<Rightarrow> False
      | (_, TRecord _ _ _) \<Rightarrow> (case from_type of TRecord _ _ _ \<Rightarrow> typesEqual from_type to_type | _ \<Rightarrow> False)
      | _ \<Rightarrow> typesEqual from_type to_type)"
  by pat_completeness auto
termination
  by (relation "measure (\<lambda>(a, b). size a + size b)")
    (auto simp: less_Suc_eq_le intro: size_list_estimation' trans_le_add1 dest: size_field)

declare assignable.simps [simp del]

section \<open>The type two branches share\<close>

text \<open>
  A record is joined with a map, or with a record of another shape, as the map it is at run time. The
  value type of that map starts at a parameter, which says nothing, and joins every field in turn; it
  says nothing for a record without fields and \<open>dyn\<close> for one that is open.
\<close>

function unify :: "cel_type \<Rightarrow> cel_type \<Rightarrow> cel_type"
  and unifyRecordAsMap :: "(jstring \<times> cel_type) list \<Rightarrow> bool \<Rightarrow> cel_type \<Rightarrow> cel_type"
  and recordValueType :: "(jstring \<times> cel_type) list \<Rightarrow> bool \<Rightarrow> cel_type"
  and join_fields :: "cel_type \<Rightarrow> (jstring \<times> cel_type) list \<Rightarrow> cel_type" where
  "unify left right =
     (if typesEqual left right then left
      else case (left, right) of
        (TParameter _, _) \<Rightarrow> right
      | (_, TParameter _) \<Rightarrow> left
      | (TList a, TList b) \<Rightarrow> TList (unify a b)
      | (TMap k v, TMap k' v') \<Rightarrow> TMap (unify k k') (unify v v')
      | (TOptional a, TOptional b) \<Rightarrow> TOptional (unify a b)
      | (TRecord _ fields opened, TRecord _ _ _) \<Rightarrow> unifyRecordAsMap fields opened right
      | (TRecord _ fields opened, TMap _ _) \<Rightarrow> unifyRecordAsMap fields opened right
      | (TMap _ _, TRecord _ fields opened) \<Rightarrow> unifyRecordAsMap fields opened left
      | _ \<Rightarrow> TDyn)"
| "unifyRecordAsMap fields opened other =
     (case other of
        TMap k v \<Rightarrow> TMap (unify STRING k) (unify (recordValueType fields opened) v)
      | TRecord _ fields' opened' \<Rightarrow>
          TMap STRING (unify (recordValueType fields opened) (recordValueType fields' opened'))
      | _ \<Rightarrow> TDyn)"
| "recordValueType fields opened =
     (if opened then TDyn else join_fields (TParameter (js ''V'')) fields)"
| "join_fields joined [] = joined"
| "join_fields joined ((_, t) # fields) = join_fields (unify joined t) fields"
  by pat_completeness auto

text \<open>What a join can weigh: never more than its two sides.\<close>

fun type_weight :: "cel_type \<Rightarrow> nat" where
  "type_weight (TList a) = Suc (type_weight a)"
| "type_weight (TMap k v) = Suc (type_weight k + type_weight v)"
| "type_weight (TOptional a) = Suc (type_weight a)"
| "type_weight (TRecord _ fields _) = 2 + sum_list (map (\<lambda>(_, t). Suc (type_weight t)) fields)"
| "type_weight _ = 1"

lemma type_weight_pos [simp]: "0 < type_weight t"
  by (cases t) auto

abbreviation fields_weight :: "(jstring \<times> cel_type) list \<Rightarrow> nat" where
  "fields_weight fields \<equiv> sum_list (map (\<lambda>(_, t). Suc (type_weight t)) fields)"

abbreviation "unify_terminates \<equiv> unify_unifyRecordAsMap_recordValueType_join_fields_dom"

lemma unify_weight:
  "unify_terminates (Inl (Inl (a, b))) \<Longrightarrow> type_weight (unify a b) \<le> type_weight a + type_weight b"
  "unify_terminates (Inl (Inr (fields, opened, other))) \<Longrightarrow>
     type_weight (unifyRecordAsMap fields opened other) \<le> 2 + fields_weight fields + type_weight other"
  "unify_terminates (Inr (Inl (fields, opened))) \<Longrightarrow>
     type_weight (recordValueType fields opened) \<le> 1 + fields_weight fields"
  "unify_terminates (Inr (Inr (joined, fields))) \<Longrightarrow>
     type_weight (join_fields joined fields) \<le> type_weight joined + fields_weight fields"
proof (induction rule: unify_unifyRecordAsMap_recordValueType_join_fields.pinduct)
  case (1 left right)
  then show ?case
    by (cases left; cases right) (force simp: unify.psimps)+
qed (auto simp: unifyRecordAsMap.psimps recordValueType.psimps join_fields.psimps split: cel_type.split)

termination unify
  by (relation "measure (\<lambda>x. case x of
      Inl (Inl (a, b)) \<Rightarrow> 3 * (type_weight a + type_weight b)
    | Inl (Inr (fields, opened, other)) \<Rightarrow> 3 * (2 + fields_weight fields + type_weight other) - 1
    | Inr (Inl (fields, opened)) \<Rightarrow> 3 * (1 + fields_weight fields) + 2
    | Inr (Inr (joined, fields)) \<Rightarrow> 3 * (type_weight joined + fields_weight fields) + 1)")
    (auto dest!: unify_weight)

declare unify.simps [simp del] unifyRecordAsMap.simps [simp del] recordValueType.simps [simp del]

section \<open>The order the joins are taken in\<close>

fun narrower :: "cel_type \<Rightarrow> cel_type \<Rightarrow> bool" where
  "narrower (TParameter _) right = True"
| "narrower (TList a) right =
     (case right of TDyn \<Rightarrow> True | TList b \<Rightarrow> narrower a b | _ \<Rightarrow> False)"
| "narrower (TMap k v) right =
     (case right of TDyn \<Rightarrow> True | TMap k' v' \<Rightarrow> narrower k k' \<and> narrower v v' | _ \<Rightarrow> False)"
| "narrower (TOptional a) right =
     (case right of TDyn \<Rightarrow> True | TOptional b \<Rightarrow> narrower a b | _ \<Rightarrow> False)"
| "narrower (TRecord name fields opened) right =
     (case right of
        TDyn \<Rightarrow> True
      | TMap k v \<Rightarrow> (k = TDyn \<or> k = STRING) \<and>
          (v = TDyn \<or> \<not> opened \<and> list_all (\<lambda>(_, t). narrower t v) fields)
      | _ \<Rightarrow> typesEqual (TRecord name fields opened) right)"
| "narrower left right = (right = TDyn \<or> typesEqual left right)"

lemma narrower_dyn [simp]: "narrower a TDyn"
  by (cases a) auto

lemma narrower_equal: "typesEqual a b \<Longrightarrow> narrower a b"
proof (induction a b rule: narrower.induct)
qed (auto split: cel_type.splits)

lemma narrower_refl: "type_ok a \<Longrightarrow> narrower a a"
  by (simp add: narrower_equal typesEqual_refl)

lemma narrower_field:
  assumes "typesEqual (TRecord name fields opened) (TRecord name' fields' opened')" "(f, t) \<in> set fields"
  obtains t' where "(f, t') \<in> set fields'" "typesEqual t t'"
  using assms by (force simp: list_all_iff split: option.splits dest: map_of_SomeD)

lemma narrower_trans_record:
  assumes step: "\<And>f t b c. (f, t) \<in> set fields \<Longrightarrow> narrower t b \<Longrightarrow> narrower b c \<Longrightarrow> type_ok t \<Longrightarrow>
      type_ok b \<Longrightarrow> type_ok c \<Longrightarrow> narrower t c"
    and below: "narrower (TRecord name fields opened) b" "narrower b c"
    and ok: "type_ok (TRecord name fields opened)" "type_ok b" "type_ok c"
  shows "narrower (TRecord name fields opened) c"
proof (cases b)
  case (TMap k v)
  have each: "narrower t v'" if "(f, t) \<in> set fields" "narrower t v" "narrower v v'" "type_ok v'" for f t v'
    using step [OF that(1,2,3)] ok that TMap by (auto simp: list_all_iff)
  show ?thesis
  proof (cases c)
    case (TMap k' v')
    then show ?thesis using below ok \<open>b = TMap k v\<close> each by (auto simp: list_all_iff)
  qed (use below TMap in auto)
next
  case (TRecord name' fields' opened')
  have same: "typesEqual (TRecord name fields opened) b" using below(1) TRecord by simp
  show ?thesis
  proof (cases c)
    case (TMap k v)
    have "narrower t v" if t: "(f, t) \<in> set fields" and all: "list_all (\<lambda>(_, t). narrower t v) fields'" for f t
    proof -
      obtain t' where t': "(f, t') \<in> set fields'" "typesEqual t t'"
        using narrower_field same t unfolding TRecord by blast
      show ?thesis
        using step [OF t narrower_equal [OF t'(2)], of v] all t t' ok TRecord TMap
        by (fastforce simp: list_all_iff)
    qed
    then show ?thesis using below(2) same TRecord TMap by (auto simp: list_all_iff)
  next
    case (TRecord name2 fields2 opened2)
    then have "typesEqual b c" using below(2) \<open>b = TRecord name' fields' opened'\<close> by simp
    with same have "typesEqual (TRecord name fields opened) c" using typesEqual_trans ok by blast
    then show ?thesis by (rule narrower_equal)
  qed (use below TRecord in auto)
qed (use below in auto)

lemma narrower_trans:
  "narrower a b \<Longrightarrow> narrower b c \<Longrightarrow> type_ok a \<Longrightarrow> type_ok b \<Longrightarrow> type_ok c \<Longrightarrow> narrower a c"
proof (induction a arbitrary: b c)
  case (TRecord name fields opened)
  show ?case
    by (rule narrower_trans_record [OF _ TRecord.prems]) (use TRecord.IH in \<open>auto simp: snds.simps\<close>)
next
  case (TUnion members)
  note prems = TUnion.prems
  show ?case
  proof (cases "b = TDyn")
    case False
    then have same: "typesEqual (TUnion members) b" using prems(1) by simp
    then have "c = TDyn \<or> typesEqual b c" using prems(2) by (cases b) auto
    then show ?thesis using typesEqual_trans [OF prems(3-5) same] narrower_equal by auto
  qed (use prems in simp)
next
  case (TNominal name base args fields)
  note prems = TNominal.prems
  show ?case
  proof (cases "b = TDyn")
    case False
    then have same: "typesEqual (TNominal name base args fields) b" using prems(1) by simp
    then have "c = TDyn \<or> typesEqual b c" using prems(2) by (cases b) auto
    then show ?thesis using typesEqual_trans [OF prems(3-5) same] narrower_equal by auto
  qed (use prems in simp)
next
  case (TList a)
  then show ?case by (cases b; cases c) auto
next
  case (TMap k v)
  then show ?case by (cases b; cases c) auto
next
  case (TOptional a)
  then show ?case by (cases b; cases c) auto
qed auto

text \<open>Whatever is below another type may stand where that type is wanted.\<close>

lemma assignable_eqs [simp]:
  "assignable TDyn b" "assignable a TDyn" "assignable a (TParameter n)" "assignable (TParameter n) b"
  "assignable (TPrimitive p) (TPrimitive q) \<longleftrightarrow> q = p"
  "assignable (TList e) (TList e') \<longleftrightarrow> assignable e e'"
  "assignable (TMap k v) (TMap k' v') \<longleftrightarrow> assignable k k' \<and> assignable v v'"
  "assignable (TOptional e) (TOptional e') \<longleftrightarrow> assignable e e'"
  "assignable (TRecord r fs x) (TMap k' v') \<longleftrightarrow>
     assignable STRING k' \<and> (v' = TDyn \<or> \<not> x \<and> list_all (\<lambda>(_, t). assignable t v') fs)"
  "assignable (TRecord r fs x) (TRecord r' fs' x') \<longleftrightarrow> typesEqual (TRecord r fs x) (TRecord r' fs' x')"
  "assignable (TNominal m g as gs) (TNominal m' g' as' gs') \<longleftrightarrow>
     typesEqual (TNominal m g as gs) (TNominal m' g' as' gs')"
  "assignable (TUnion ms) (TUnion ms') \<longleftrightarrow> list_all (\<lambda>m. assignable m (TUnion ms')) ms"
  by (simp_all add: assignable.simps del: typesEqual.simps split: cel_type.split)

lemma assignable_member: "m' \<in> set others \<Longrightarrow> assignable m m' \<Longrightarrow> assignable m (TUnion others)"
proof (induction m)
  case (TUnion members)
  have "assignable m m'" if "m \<in> set members" for m
    using TUnion.prems(2) that by (subst (asm) assignable.simps) (cases m'; auto simp: list_all_iff)
  then show ?case using TUnion by (auto simp: list_all_iff)
qed (auto simp: assignable.simps [of _ "TUnion others"] list_ex_iff)

lemma typesEqual_assignable: "typesEqual a b \<Longrightarrow> assignable a b"
proof (induction a arbitrary: b)
  case (TList a)
  then show ?case by (cases b) auto
next
  case (TMap k v)
  then show ?case by (cases b) auto
next
  case (TOptional a)
  then show ?case by (cases b) auto
next
  case (TRecord name fields opened)
  then show ?case by (cases b) auto
next
  case (TNominal name base args fields)
  then show ?case by (cases b) auto
next
  case (TUnion members)
  then obtain other where b: "b = TUnion other" and same: "list_all2 typesEqual members other"
    by (cases b) auto
  have "assignable m (TUnion other)" if m: "m \<in> set members" for m
  proof -
    obtain i where "i < length members" "members ! i = m" using m by (auto simp: in_set_conv_nth)
    then obtain m' where "m' \<in> set other" "typesEqual m m'"
      using same list_all2_nthD list_all2_lengthD nth_mem by metis
    with TUnion.IH [OF m] show ?thesis
      using assignable_member by blast
  qed
  then show ?case by (simp add: b list_all_iff)
qed auto

lemma narrower_assignable: "narrower a b \<Longrightarrow> assignable a b"
proof (induction a arbitrary: b)
  case (TList a)
  then show ?case by (cases b) auto
next
  case (TMap k v)
  then show ?case by (cases b) auto
next
  case (TOptional a)
  then show ?case by (cases b) auto
next
  case (TRecord name fields opened)
  show ?case
  proof (cases b)
    case (TMap k v)
    then show ?thesis using TRecord.prems TRecord.IH by (fastforce simp: list_all_iff snds.simps)
  next
    case (TRecord name' fields' opened')
    then show ?thesis using \<open>narrower (cel_type.TRecord name fields opened) b\<close> by simp
  qed (use TRecord.prems in auto)
next
  case (TUnion members)
  then show ?case using typesEqual_assignable [of "TUnion members" b] by auto
next
  case (TNominal name base args fields)
  then show ?case using typesEqual_assignable [of "TNominal name base args fields" b] by auto
qed auto

definition least_above :: "cel_type \<Rightarrow> cel_type \<Rightarrow> cel_type \<Rightarrow> bool" where
  "least_above a b u \<longleftrightarrow>
     type_ok u \<and> narrower a u \<and> narrower b u \<and>
     (\<forall>c. type_ok c \<and> narrower a c \<and> narrower b c \<longrightarrow> narrower u c)"

lemma least_above_swap: "least_above a b u \<Longrightarrow> least_above b a u"
  by (auto simp: least_above_def)

lemma least_above_right: "type_ok b \<Longrightarrow> narrower a b \<Longrightarrow> least_above a b b"
  by (auto simp: least_above_def narrower_refl)

lemma narrower_shapes:
  "narrower (TList a) c \<longleftrightarrow> c = TDyn \<or> (\<exists>b. c = TList b \<and> narrower a b)"
  "narrower (TOptional a) c \<longleftrightarrow> c = TDyn \<or> (\<exists>b. c = TOptional b \<and> narrower a b)"
  "narrower (TMap a a') c \<longleftrightarrow> c = TDyn \<or> (\<exists>b b'. c = TMap b b' \<and> narrower a b \<and> narrower a' b')"
  by (cases c; simp)+

lemma least_above_list: "least_above a b u \<Longrightarrow> least_above (TList a) (TList b) (TList u)"
  unfolding least_above_def narrower_shapes by auto

lemma least_above_optional: "least_above a b u \<Longrightarrow> least_above (TOptional a) (TOptional b) (TOptional u)"
  unfolding least_above_def narrower_shapes by auto

lemma least_above_map:
  "least_above a b u \<Longrightarrow> least_above c d w \<Longrightarrow> least_above (TMap a c) (TMap b d) (TMap u w)"
  unfolding least_above_def narrower_shapes by auto

definition values_below :: "(jstring \<times> cel_type) list \<Rightarrow> bool \<Rightarrow> cel_type \<Rightarrow> bool" where
  "values_below fields opened v \<longleftrightarrow> v = TDyn \<or> \<not> opened \<and> list_all (\<lambda>(_, t). narrower t v) fields"

definition least_of_values :: "(jstring \<times> cel_type) list \<Rightarrow> bool \<Rightarrow> cel_type \<Rightarrow> bool" where
  "least_of_values fields opened u \<longleftrightarrow>
     type_ok u \<and> values_below fields opened u \<and> (\<forall>v. type_ok v \<and> values_below fields opened v \<longrightarrow> narrower u v)"

lemma values_below_mono:
  "values_below fields opened u \<Longrightarrow> narrower u v \<Longrightarrow> type_ok (TRecord n fields opened) \<Longrightarrow> type_ok u \<Longrightarrow>
     type_ok v \<Longrightarrow> values_below fields opened v"
  using narrower_trans [of _ u v] by (fastforce simp: values_below_def list_all_iff)

lemma record_below_map:
  "narrower (TRecord n fields opened) (TMap k v) \<longleftrightarrow> narrower STRING k \<and> values_below fields opened v"
  by (simp add: values_below_def)

lemma least_above_record_map:
  assumes rec: "least_of_values fields opened r" and key: "least_above STRING k u"
    and val: "least_above r v w" and ok: "type_ok (TRecord n fields opened)" "type_ok v"
  shows "least_above (TRecord n fields opened) (TMap k v) (TMap u w)"
proof -
  have "values_below fields opened w"
    using values_below_mono [OF _ _ ok(1)] rec val by (auto simp: least_of_values_def least_above_def)
  moreover have "narrower (TMap u w) c"
    if "type_ok c" "narrower (TRecord n fields opened) c" "narrower (TMap k v) c" for c
  proof (cases c)
    case (TMap k' v')
    with that have "narrower r v'" using rec by (auto simp: least_of_values_def values_below_def)
    with that TMap key val show ?thesis by (auto simp: least_above_def)
  qed (use that in auto)
  ultimately show ?thesis
    using rec key val unfolding least_above_def record_below_map by (auto simp: values_below_def)
qed

lemma least_above_records:
  assumes left: "least_of_values fields opened r" and right: "least_of_values fields' opened' r'"
    and val: "least_above r r' w" and ok: "type_ok (TRecord n fields opened)" "type_ok (TRecord n' fields' opened')"
    and differ: "\<not> typesEqual (TRecord n fields opened) (TRecord n' fields' opened')"
  shows "least_above (TRecord n fields opened) (TRecord n' fields' opened') (TMap STRING w)"
proof -
  have "values_below fields opened w" "values_below fields' opened' w"
    using values_below_mono [OF _ _ ok(1)] values_below_mono [OF _ _ ok(2)] left right val
    by (auto simp: least_of_values_def least_above_def)
  moreover have "narrower (TMap STRING w) c"
    if c: "type_ok c" "narrower (TRecord n fields opened) c" "narrower (TRecord n' fields' opened') c" for c
  proof (cases c)
    case (TMap k v)
    with c have "narrower r v" "narrower r' v"
      using left right by (auto simp: least_of_values_def values_below_def)
    with c TMap val show ?thesis by (auto simp: least_above_def)
  next
    case (TRecord n2 fields2 opened2)
    then have "typesEqual (TRecord n fields opened) c" "typesEqual (TRecord n' fields' opened') c"
      using c by auto
    then have False using typesEqual_trans typesEqual_sym ok c differ by meson
    then show ?thesis ..
  qed (use c in auto)
  ultimately show ?thesis
    using val by (auto simp: least_above_def values_below_def)
qed

lemma least_of_values_open: "least_of_values fields True TDyn"
  by (simp add: least_of_values_def values_below_def)

text \<open>Types of different shapes have nothing in common but \<open>dyn\<close>.\<close>

fun shape :: "cel_type \<Rightarrow> nat" where
  "shape TDyn = 0"
| "shape (TPrimitive _) = 1"
| "shape (TList _) = 2"
| "shape (TMap _ _) = 3"
| "shape (TRecord _ _ _) = 3"
| "shape (TOptional _) = 4"
| "shape (TUnion _) = 5"
| "shape (TNominal _ _ _ _) = 6"
| "shape (TParameter _) = 7"

lemma narrower_shape: "narrower a c \<Longrightarrow> shape a \<noteq> 7 \<Longrightarrow> c \<noteq> TDyn \<Longrightarrow> shape c = shape a"
  by (cases a; cases c) auto

lemma apart_least_above:
  "shape a \<noteq> shape b \<Longrightarrow> shape a \<noteq> 7 \<Longrightarrow> shape b \<noteq> 7 \<Longrightarrow> least_above a b TDyn"
  by (auto simp: least_above_def) (metis narrower_shape)

lemma unequal_least_above:
  assumes "\<not> typesEqual a b" "shape a \<in> {1, 5, 6}" "type_ok a" "type_ok b" "shape b \<in> {1, 5, 6}"
  shows "least_above a b TDyn"
proof -
  have equal: "typesEqual t c" if "narrower t c" "shape t \<in> {1, 5, 6}" "c \<noteq> TDyn" for t c
    using that by (cases t) auto
  have "c = TDyn" if "type_ok c" "narrower a c" "narrower b c" for c
    using equal [OF that(2)] equal [OF that(3)] typesEqual_trans typesEqual_sym assms that(1) by meson
  then show ?thesis by (simp add: least_above_def)
qed

lemma unify_same_shape:
  "\<not> typesEqual a b \<Longrightarrow> unify (TList a) (TList b) = TList (unify a b)"
  "\<not> typesEqual a b \<Longrightarrow> unify (TOptional a) (TOptional b) = TOptional (unify a b)"
  "\<not> (typesEqual k k' \<and> typesEqual v v') \<Longrightarrow> unify (TMap k v) (TMap k' v') = TMap (unify k k') (unify v v')"
  by (subst unify.simps; simp)+

abbreviation fields_ok :: "(jstring \<times> cel_type) list \<Rightarrow> bool" where
  "fields_ok fields \<equiv> distinct (map fst fields) \<and> list_all (\<lambda>(_, t). type_ok t) fields"

lemma unify_least_above:
  "type_ok a \<Longrightarrow> type_ok b \<Longrightarrow> least_above a b (unify a b)"
  "fields_ok fields \<Longrightarrow> type_ok other \<Longrightarrow> shape other = 3 \<Longrightarrow>
     \<not> typesEqual (TRecord n fields opened) other \<Longrightarrow>
     least_above (TRecord n fields opened) other (unifyRecordAsMap fields opened other)"
  "fields_ok fields \<Longrightarrow> least_of_values fields opened (recordValueType fields opened)"
  "type_ok joined \<Longrightarrow> list_all (\<lambda>(_, t). type_ok t) fields \<Longrightarrow>
     type_ok (join_fields joined fields) \<and> narrower joined (join_fields joined fields) \<and>
     list_all (\<lambda>(_, t). narrower t (join_fields joined fields)) fields \<and>
     (\<forall>c. type_ok c \<and> narrower joined c \<and> list_all (\<lambda>(_, t). narrower t c) fields \<longrightarrow>
        narrower (join_fields joined fields) c)"
proof (induction a b and fields opened other and fields opened and joined fields
    arbitrary: and n and and
    rule: unify_unifyRecordAsMap_recordValueType_join_fields.induct)
  case (1 left right)
  show ?case
  proof (cases "typesEqual left right")
    case True
    then show ?thesis
      using 1 least_above_swap [OF least_above_right [of left right]] typesEqual_sym [of left right]
      by (simp add: unify.simps narrower_equal)
  next
    case False
    note unequal = False
    consider (bottom) "shape left = 7 \<or> shape right = 7"
      | (apart) "shape left \<noteq> shape right" "shape left \<noteq> 7" "shape right \<noteq> 7"
      | (unequal) "shape left = shape right" "shape left \<in> {1, 5, 6}"
      | (same) "shape left = shape right" "shape left \<in> {0, 2, 3, 4}"
      by (cases left) auto
    then show ?thesis
    proof cases
      case bottom
      then have "(\<exists>n. left = TParameter n) \<or> (\<exists>n. right = TParameter n)"
        by (cases left; cases right) auto
      then show ?thesis
        using unequal 1(8,9) least_above_right [of right left] least_above_swap [OF least_above_right [of left right]]
        by (cases left; cases right) (auto simp: unify.simps)
    next
      case apart
      then have "unify left right = TDyn"
        using unequal by (cases left; cases right) (simp_all add: unify.simps)
      then show ?thesis using apart_least_above apart by simp
    next
      case unequal
      then have "unify left right = TDyn"
        using False by (cases left; cases right) (simp_all add: unify.simps del: typesEqual.simps)
      then show ?thesis using unequal_least_above [OF False] unequal 1(8,9) by simp
    next
      case same
      note ih = 1(1-7) [OF unequal refl]
      show ?thesis
      proof (cases left)
        case (TList a)
        with same obtain b where "right = TList b" by (cases right) auto
        with TList ih show ?thesis
          using unequal 1(8,9) by (auto simp: unify_same_shape intro!: least_above_list)
      next
        case (TOptional a)
        with same obtain b where "right = TOptional b" by (cases right) auto
        with TOptional ih show ?thesis
          using unequal 1(8,9) by (auto simp: unify_same_shape intro!: least_above_optional)
      next
        case (TMap k v)
        show ?thesis
        proof (cases right)
          case (TMap k' v')
          with \<open>left = TMap k v\<close> ih show ?thesis
            using unequal 1(8,9) by (auto simp: unify_same_shape intro!: least_above_map)
        next
          case (TRecord n fields opened)
          have "least_above right left (unifyRecordAsMap fields opened left)"
            unfolding TRecord by (rule ih) (use TRecord TMap 1(8,9) in auto)
          then show ?thesis
            using TRecord TMap unequal least_above_swap by (simp add: unify.simps del: typesEqual.simps)
        qed (use TMap same in auto)
      next
        case (TRecord n fields opened)
        have "least_above left right (unifyRecordAsMap fields opened right)"
          using TRecord same ih 1(8,9) unequal by (cases right) (auto simp del: typesEqual.simps)
        then show ?thesis
          using TRecord unequal same by (cases right) (simp_all add: unify.simps del: typesEqual.simps)
      qed (use same unequal in \<open>cases right; auto\<close>)+
    qed
  qed
next
  case (2 fields opened other)
  show ?case
  proof (cases other)
    case (TMap k v)
    have rec: "least_of_values fields opened (recordValueType fields opened)" using 2 TMap by blast
    show ?thesis
      unfolding TMap unifyRecordAsMap.simps cel_type.case
      by (rule least_above_record_map [OF rec])
        (use 2 TMap rec in \<open>auto simp: least_of_values_def\<close>)
  next
    case (TRecord n' fields' opened')
    have rec: "least_of_values fields opened (recordValueType fields opened)"
      using 2(4) [OF TRecord] 2(7) by simp
    have rec': "least_of_values fields' opened' (recordValueType fields' opened')"
      using 2(5) [OF TRecord] 2(8) TRecord by simp
    show ?thesis
      unfolding TRecord unifyRecordAsMap.simps cel_type.case
      by (rule least_above_records [OF rec rec'])
        (use 2 TRecord rec rec' in \<open>auto simp: least_of_values_def simp del: typesEqual.simps\<close>)
  qed (use 2 in auto)
next
  case (3 fields opened)
  then show ?case
    by (cases opened) (auto simp: recordValueType.simps least_of_values_open least_of_values_def values_below_def)
next
  case (4 joined)
  then show ?case by (simp add: narrower_refl)
next
  case (5 joined f t fields)
  let ?u = "unify joined t" and ?j = "join_fields (unify joined t) fields"
  have u: "least_above joined t ?u" using 5 by simp
  then have j: "type_ok ?j" "narrower ?u ?j" "list_all (\<lambda>(_, t). narrower t ?j) fields"
      "\<And>c. type_ok c \<Longrightarrow> narrower ?u c \<Longrightarrow> list_all (\<lambda>(_, t). narrower t c) fields \<Longrightarrow> narrower ?j c"
    using 5 by (auto simp: least_above_def)
  moreover have "narrower joined ?j" "narrower t ?j"
    using narrower_trans [OF _ j(2)] u j(1) 5(3,4) by (auto simp: least_above_def)
  ultimately show ?case using u by (auto simp: least_above_def)
qed

section \<open>Joins of more than two\<close>

text \<open>
  What a caller relies on when it joins any number of types: an order on the well-formed types in which
  the join of two is the least type above both. The join of a list is then the least type above every
  element, whatever their order.
\<close>

locale joins =
  fixes ok :: "'t \<Rightarrow> bool" and below :: "'t \<Rightarrow> 't \<Rightarrow> bool" and join :: "'t \<Rightarrow> 't \<Rightarrow> 't"
  assumes below_refl: "ok a \<Longrightarrow> below a a"
    and below_trans: "below a b \<Longrightarrow> below b c \<Longrightarrow> ok a \<Longrightarrow> ok b \<Longrightarrow> ok c \<Longrightarrow> below a c"
    and join_ok: "ok a \<Longrightarrow> ok b \<Longrightarrow> ok (join a b)"
    and join_left: "ok a \<Longrightarrow> ok b \<Longrightarrow> below a (join a b)"
    and join_right: "ok a \<Longrightarrow> ok b \<Longrightarrow> below b (join a b)"
    and join_least: "ok a \<Longrightarrow> ok b \<Longrightarrow> ok c \<Longrightarrow> below a c \<Longrightarrow> below b c \<Longrightarrow> below (join a b) c"
begin

lemma fold_join:
  "ok a \<Longrightarrow> \<forall>x \<in> set xs. ok x \<Longrightarrow>
     ok (foldl join a xs) \<and> (\<forall>x \<in> set (a # xs). below x (foldl join a xs)) \<and>
     (\<forall>c. ok c \<and> (\<forall>x \<in> set (a # xs). below x c) \<longrightarrow> below (foldl join a xs) c)"
proof (induction xs arbitrary: a)
  case (Cons x xs)
  have ok: "ok a" "ok x" "ok (join a x)" using Cons.prems join_ok by auto
  have ih: "ok (foldl join (join a x) xs)" "\<forall>y \<in> set xs. below y (foldl join (join a x) xs)"
    "below (join a x) (foldl join (join a x) xs)"
    "\<And>c. ok c \<Longrightarrow> below (join a x) c \<Longrightarrow> \<forall>y \<in> set xs. below y c \<Longrightarrow> below (foldl join (join a x) xs) c"
    using Cons.IH [of "join a x"] Cons.prems ok by auto
  have "below a (foldl join (join a x) xs)" "below x (foldl join (join a x) xs)"
    using below_trans [OF join_left ih(3)] below_trans [OF join_right ih(3)] ok ih(1) by auto
  then show ?case using ih ok join_least [OF ok(1,2)] by auto
qed (simp add: below_refl)

lemma fold_join_order:
  assumes "\<forall>x \<in> set (a # xs). ok x" "\<forall>x \<in> set (b # ys). ok x" "set (a # xs) \<subseteq> set (b # ys)"
  shows "below (foldl join a xs) (foldl join b ys)"
proof -
  have b: "ok (foldl join b ys)" "\<forall>x \<in> set (b # ys). below x (foldl join b ys)"
    using fold_join [of b ys] assms by simp_all
  then have "\<forall>x \<in> set (a # xs). below x (foldl join b ys)" using assms(3) by blast
  with b(1) fold_join [of a xs] assms(1) show ?thesis by simp
qed

end

interpretation type_join: joins type_ok narrower unify
  by unfold_locales
    (use unify_least_above(1) narrower_trans in \<open>auto simp: narrower_refl least_above_def\<close>)

section \<open>Types that are reported\<close>

fun parameterless :: "cel_type \<Rightarrow> bool" where
  "parameterless (TParameter _) = False"
| "parameterless (TList element) = parameterless element"
| "parameterless (TMap key v) = (parameterless key \<and> parameterless v)"
| "parameterless (TOptional v) = parameterless v"
| "parameterless (TUnion members) = list_all parameterless members"
| "parameterless (TNominal _ _ args _) = list_all parameterless args"
| "parameterless (TRecord _ fields _) = list_all (\<lambda>(_, held). parameterless held) fields"
| "parameterless _ = True"

lemma set_add_distinct: "set (add_distinct flat parts) \<subseteq> set flat \<union> set parts"
  by (induction flat parts rule: add_distinct.induct) (auto split: if_splits)

lemma unionOf_parts:
  assumes "\<And>m. m \<in> set members \<Longrightarrow> list_all P (union_parts m)" "P TDyn" "\<And>ms. list_all P ms \<Longrightarrow> P (TUnion ms)"
  shows "P (unionOf members)"
proof -
  have "list_all P (concat (map union_parts members))"
    using assms(1) by (auto simp: list_all_iff)
  then have "list_all P (add_distinct [] (concat (map union_parts members)))"
    using set_add_distinct [of "[]"] by (fastforce simp: list_all_iff)
  then show ?thesis
    using assms(2,3) by (auto simp: unionOf_def Let_def split: list.split)
qed

lemma withoutParameters_parameterless: "parameterless (withoutParameters t)"
proof (induction t rule: withoutParameters.induct)
  case (5 members)
  have "list_all parameterless (union_parts (withoutParameters m))" if "m \<in> set members" for m
    using 5 [OF that] by (cases "withoutParameters m") auto
  then have "list_all parameterless (union_parts m)" if "m \<in> set (map withoutParameters members)" for m
    using that by auto
  from unionOf_parts [of "map withoutParameters members" parameterless, OF this] show ?case by simp
qed (auto simp: list_all_iff)

lemma unionOf_ok: "list_all type_ok members \<Longrightarrow> type_ok (unionOf members)"
proof (rule unionOf_parts [where P = type_ok])
  fix m
  assume "list_all type_ok members" "m \<in> set members"
  then have "type_ok m" by (simp add: list_all_iff)
  then show "list_all type_ok (union_parts m)" by (cases m) auto
qed auto

lemma withoutNull_ok: "type_ok t \<Longrightarrow> type_ok (withoutNull t)"
  by (cases t) (auto simp: Let_def list_all_iff unionOf_ok)


text \<open>Two unresolved parameters are below every type, so either stands for both, and the later one is answered.\<close>

lemma unify_prefers_the_later_parameter:
  "unify (TParameter (js ''T'')) (TParameter (js ''U'')) = TParameter (js ''U'')"
  "unify (TParameter (js ''U'')) (TParameter (js ''T'')) = TParameter (js ''T'')"
  by (simp_all add: unify.simps)


end
