(* ===== verification/Cel_Type_Text.thy ===== *)
theory Cel_Type_Text
  imports Cel_Type
begin

text \<open>
  Types, signatures and named types as text (\<open>cel/nodejs/src/type-expression.ts\<close>,
  \<open>signature.ts\<close>, \<open>nominal-type.ts\<close>), with the resolver of the environment's named types
  (\<open>nominalResolver\<close> of \<open>environment.ts\<close>).

  The tables of the source are object literals, so a name every object inherits, such as
  \<open>constructor\<close>, is found in them. The code then answers a type with \<open>undefined\<close> in it, which is
  \<open>None\<close> here.
\<close>

section \<open>Names of types\<close>

datatype type_error = TypeExpressionError | UnknownTypeName jstring | TypeRegistrationError

type_synonym nominal_resolver = "jstring \<Rightarrow> cel_type list \<Rightarrow> type_error + cel_type option"

definition INHERITED_NAMES :: "jstring list" where
  "INHERITED_NAMES =
     [js ''constructor'', js ''__defineGetter__'', js ''__defineSetter__'', js ''hasOwnProperty'',
      js ''__lookupGetter__'', js ''__lookupSetter__'', js ''isPrototypeOf'',
      js ''propertyIsEnumerable'', js ''toString'', js ''valueOf'', js ''__proto__'',
      js ''toLocaleString'']"

definition WELL_KNOWN_TYPE_NAMES :: "(jstring \<times> primitive_name) list" where
  "WELL_KNOWN_TYPE_NAMES =
     [(js ''google.protobuf.Timestamp'', PTimestamp), (js ''google.protobuf.Duration'', PDuration)]"

definition PRIMITIVES :: "(jstring \<times> cel_type) list" where
  "PRIMITIVES =
     [(js ''dyn'', TDyn), (js ''int'', TPrimitive PInt), (js ''uint'', TPrimitive PUint),
      (js ''double'', TPrimitive PDouble), (js ''bool'', TPrimitive PBool),
      (js ''string'', TPrimitive PString), (js ''bytes'', TPrimitive PBytes),
      (js ''null'', TPrimitive PNull), (js ''null_type'', TPrimitive PNull),
      (js ''type'', TPrimitive PType), (js ''timestamp'', TPrimitive PTimestamp),
      (js ''duration'', TPrimitive PDuration)]"

definition isCapital :: "code_unit \<Rightarrow> bool" where
  "isCapital c \<longleftrightarrow> 65 \<le> c \<and> c \<le> 90"

fun isParameterName :: "jstring \<Rightarrow> bool" where
  "isParameterName [c] = isCapital c"
| "isParameterName _ = False"

definition isTypeChar :: "code_unit \<Rightarrow> bool" where
  "isTypeChar c \<longleftrightarrow> isIdentPart c \<or> c = 46"

section \<open>Reading a type expression\<close>

definition noArguments :: "'a list \<Rightarrow> 'b \<Rightarrow> type_error + 'b" where
  "noArguments args t = (if args = [] then Inr t else Inl TypeExpressionError)"

definition resolve_type_name ::
  "nominal_resolver \<Rightarrow> jstring \<Rightarrow> cel_type option list \<Rightarrow> type_error + cel_type option" where
  "resolve_type_name resolver name args =
     (if name \<in> set INHERITED_NAMES then noArguments args None
      else case map_of WELL_KNOWN_TYPE_NAMES name of
        Some wellKnown \<Rightarrow> noArguments args (Some (TPrimitive wellKnown))
      | None \<Rightarrow>
          if name = js ''list'' then
            Inr (case args of [element] \<Rightarrow> map_option TList element | _ \<Rightarrow> Some (TList TDyn))
          else if name = js ''map'' then
            Inr (case args of
                [Some key, Some v] \<Rightarrow> Some (TMap key v)
              | [_, _] \<Rightarrow> None
              | _ \<Rightarrow> Some (TMap TDyn TDyn))
          else if name = js ''optional'' then
            (case args of [v] \<Rightarrow> Inr (map_option TOptional v) | _ \<Rightarrow> Inl TypeExpressionError)
          else case map_of PRIMITIVES name of
            Some primitive \<Rightarrow> noArguments args (Some primitive)
          | None \<Rightarrow>
              if isParameterName name then noArguments args (Some (TParameter name))
              else case resolver name (map (case_option TDyn id) args) of
                  Inl e \<Rightarrow> Inl e
                | Inr None \<Rightarrow> Inl (UnknownTypeName name)
                | Inr (Some nominal) \<Rightarrow> Inr (if None \<in> set args then None else Some nominal))"

definition skipSpace :: "jstring \<Rightarrow> jstring" where
  "skipSpace t = dropWhile (\<lambda>c. c = 32) t"

function read_type :: "nominal_resolver \<Rightarrow> jstring \<Rightarrow> type_error + (cel_type option \<times> jstring)"
  and read_arguments :: "nominal_resolver \<Rightarrow> jstring \<Rightarrow> type_error + (cel_type option list \<times> jstring)"
  and read_more_arguments ::
    "nominal_resolver \<Rightarrow> cel_type option list \<Rightarrow> jstring \<Rightarrow> type_error + (cel_type option list \<times> jstring)" where
  "read_type resolver t =
     (let from_name = skipSpace t;
          name = takeWhile isTypeChar from_name
      in if name = [] then Inl TypeExpressionError
         else case read_arguments resolver (dropWhile isTypeChar from_name) of
             Inl e \<Rightarrow> Inl e
           | Inr (args, rest) \<Rightarrow> map_sum id (\<lambda>ty. (ty, rest)) (resolve_type_name resolver name args))"
| "read_arguments resolver t =
     (case skipSpace t of
        [] \<Rightarrow> Inr ([], [])
      | c # cs \<Rightarrow>
          if c \<noteq> 60 then Inr ([], c # cs)
          else case read_type resolver cs of
              Inl e \<Rightarrow> Inl e
            | Inr (argument, rest) \<Rightarrow> read_more_arguments resolver [argument] rest)"
| "read_more_arguments resolver args t =
     (case skipSpace t of
        [] \<Rightarrow> Inl TypeExpressionError
      | c # cs \<Rightarrow>
          if c = 44 then
            (case read_type resolver cs of
               Inl e \<Rightarrow> Inl e
             | Inr (argument, rest) \<Rightarrow> read_more_arguments resolver (args @ [argument]) rest)
          else if c = 62 then Inr (args, cs)
          else Inl TypeExpressionError)"
  by pat_completeness auto

text \<open>A type gives back less than it was given, its arguments no more.\<close>

lemma skipSpace_length: "length (skipSpace t) \<le> length t"
  by (simp add: skipSpace_def length_dropWhile_le)

lemma skipSpace_Cons: "skipSpace t = c # cs \<Longrightarrow> length cs < length t"
  using skipSpace_length [of t] by simp

lemma name_shortens: "takeWhile p (skipSpace t) \<noteq> [] \<Longrightarrow> Suc (length (dropWhile p (skipSpace t))) \<le> length t"
  using skipSpace_length [of t]
  by (cases "skipSpace t") (auto split: if_splits intro: le_trans length_dropWhile_le)

abbreviation "read_type_terminates \<equiv> read_type_read_arguments_read_more_arguments_dom"

lemma read_type_shorter:
  "read_type_terminates (Inl (resolver, t)) \<Longrightarrow> read_type resolver t = Inr (ty, rest) \<Longrightarrow> length rest < length t"
  "read_type_terminates (Inr (Inl (resolver, t))) \<Longrightarrow> read_arguments resolver t = Inr (args, rest) \<Longrightarrow>
     length rest \<le> length t"
  "read_type_terminates (Inr (Inr (resolver, args, t))) \<Longrightarrow>
     read_more_arguments resolver args t = Inr (args', rest) \<Longrightarrow> length rest < length t"
proof (induction arbitrary: ty rest and args rest and args' rest
    rule: read_type_read_arguments_read_more_arguments.pinduct)
  case (1 resolver t)
  from 1(3) obtain args where "takeWhile isTypeChar (skipSpace t) \<noteq> []"
      and "read_arguments resolver (dropWhile isTypeChar (skipSpace t)) = Inr (args, rest)"
    by (auto simp: read_type.psimps [OF 1(1)] Let_def split: if_splits sum.splits)
  with 1(2) [OF refl refl] show ?case using name_shortens [of isTypeChar t] by fastforce
next
  case (2 resolver t)
  show ?case
  proof (cases "skipSpace t")
    case (Cons c cs)
    show ?thesis
    proof (cases "c = 60 \<and> (\<exists>argument r. read_type resolver cs = Inr (argument, r))")
      case True
      then obtain argument r where c: "c = 60" "read_type resolver cs = Inr (argument, r)" by blast
      with 2(4) Cons have "read_more_arguments resolver [argument] r = Inr (args, rest)"
        by (simp add: read_arguments.psimps [OF 2(1)])
      then have "length rest < length r" using 2(3) [OF Cons _ c(2)] c by simp
      moreover have "length r < length cs" using 2(2) [OF Cons] c by simp
      ultimately show ?thesis using skipSpace_Cons [OF Cons] by simp
    next
      case False
      then show ?thesis
        using 2(4) skipSpace_Cons [OF Cons] by (auto simp: read_arguments.psimps [OF 2(1)] Cons split: if_splits sum.splits)
    qed
  qed (use 2(4) in \<open>simp add: read_arguments.psimps [OF 2(1)]\<close>)
next
  case (3 resolver args t)
  show ?case
  proof (cases "skipSpace t")
    case (Cons c cs)
    with 3 skipSpace_length [of t] show ?thesis
      by (fastforce simp: read_more_arguments.psimps [OF 3(1)] split: if_splits sum.splits)
  qed (use 3(4) in \<open>simp add: read_more_arguments.psimps [OF 3(1)]\<close>)
qed

termination read_type
  by (relation "measure (\<lambda>x. case x of
      Inl (_, t) \<Rightarrow> 2 * length t | Inr (Inl (_, t)) \<Rightarrow> 2 * length t + 1 | Inr (Inr (_, _, t)) \<Rightarrow> 2 * length t + 1)")
    (auto dest!: skipSpace_Cons read_type_shorter(1) name_shortens)

declare read_type.simps [simp del] read_arguments.simps [simp del] read_more_arguments.simps [simp del]

definition parseTypeExpression :: "nominal_resolver \<Rightarrow> jstring \<Rightarrow> type_error + cel_type option" where
  "parseTypeExpression resolver t =
     (case read_type resolver t of
        Inl e \<Rightarrow> Inl e
      | Inr (ty, rest) \<Rightarrow> if skipSpace rest = [] then Inr ty else Inl TypeExpressionError)"

section \<open>Named types\<close>

record nominal_operator =
  operator_symbol :: jstring
  operator_parameters :: "jstring list"
  operator_returns :: jstring

record nominal_definition =
  type_name :: jstring
  base_text :: jstring
  type_parameters :: "jstring list"
  type_operators :: "nominal_operator list"
  type_comparisons :: "jstring list"
  type_conversions :: "jstring list"
  type_members :: "jstring list"
  field_texts :: "(jstring \<times> jstring) list option"

record registered_type =
  registered_definition :: nominal_definition
  registered_base :: "cel_type option"
  registered_parameters :: "jstring list"
  registered_self :: cel_type

definition LANGUAGE_NAMES :: "jstring list" where
  "LANGUAGE_NAMES =
     [js ''dyn'', js ''int'', js ''uint'', js ''double'', js ''bool'', js ''string'', js ''bytes'',
      js ''null'', js ''null_type'', js ''type'', js ''list'', js ''map'', js ''optional'',
      js ''timestamp'', js ''duration'']"

fun isTypeNameSpelling :: "jstring \<Rightarrow> bool" where
  "isTypeNameSpelling [] = False"
| "isTypeNameSpelling (c # cs) = (isIdentStart c \<and> list_all isTypeChar cs)"

definition validateTypeName :: "jstring \<Rightarrow> type_error + unit" where
  "validateTypeName name =
     (if \<not> isTypeNameSpelling name then Inl TypeRegistrationError
      else if name \<in> set LANGUAGE_NAMES then Inl TypeRegistrationError
      else if isParameterName name then Inl TypeRegistrationError
      else Inr ())"

fun with_args :: "cel_type \<Rightarrow> cel_type list \<Rightarrow> cel_type" where
  "with_args (TNominal name base _ held) args = TNominal name base args held"
| "with_args t _ = t"

fun type_args :: "cel_type \<Rightarrow> cel_type list" where
  "type_args (TNominal _ _ args _) = args"
| "type_args _ = []"

fun readFields ::
  "nominal_resolver \<Rightarrow> (jstring \<times> jstring) list \<Rightarrow> type_error + (jstring \<times> cel_type option) list" where
  "readFields resolver [] = Inr []"
| "readFields resolver ((name, t) # others) =
     (if \<not> isIdentifierSpelling name then Inl TypeRegistrationError
      else case parseTypeExpression resolver t of
          Inl _ \<Rightarrow> Inl TypeRegistrationError
        | Inr ty \<Rightarrow> map_sum id (\<lambda>rest. (name, ty) # rest) (readFields resolver others))"

definition resolver_with_self :: "nominal_resolver \<Rightarrow> jstring \<Rightarrow> cel_type \<Rightarrow> nominal_resolver" where
  "resolver_with_self resolver own self = (\<lambda>name args.
     if name = js ''Self'' \<or> name = own
     then Inr (Some (with_args self (if args \<noteq> [] then args else type_args self)))
     else resolver name args)"

text \<open>
  A field whose text names a member every object inherits has no type: the record of the code then holds
  \<open>undefined\<close> under its name, which no read finds, so the field is left out.
\<close>

definition buildRegisteredType ::
  "nominal_definition \<Rightarrow> nominal_resolver \<Rightarrow> type_error + registered_type" where
  "buildRegisteredType definition resolver =
     (case validateTypeName (type_name definition) of
        Inl e \<Rightarrow> Inl e
      | Inr _ \<Rightarrow>
          if \<not> list_all isParameterName (type_parameters definition) then Inl TypeRegistrationError
          else let args = map TParameter (type_parameters definition);
                   with_self = resolver_with_self resolver (type_name definition)
                     (TNominal (type_name definition) TDyn args None)
               in case parseTypeExpression with_self (base_text definition) of
                    Inl _ \<Rightarrow> Inl TypeRegistrationError
                  | Inr base \<Rightarrow>
                      (case (case field_texts definition of
                               None \<Rightarrow> Inr None
                             | Some texts \<Rightarrow> map_sum id Some (readFields with_self texts)) of
                         Inl e \<Rightarrow> Inl e
                       | Inr held \<Rightarrow>
                           Inr \<lparr>registered_definition = definition, registered_base = base,
                             registered_parameters = type_parameters definition,
                             registered_self = TNominal (type_name definition)
                               (case_option TDyn id base) args
                               (map_option (\<lambda>fs. map (\<lambda>(f, t). (f, the t)) (filter (\<lambda>(_, t). t \<noteq> None) fs))
                                 held)\<rparr>))"

definition nominalSignatures :: "nominal_definition \<Rightarrow> jstring list" where
  "nominalSignatures definition = type_conversions definition @ type_members definition"

definition nominalOperators :: "nominal_definition \<Rightarrow> nominal_operator list" where
  "nominalOperators definition =
     type_operators definition @
     map (\<lambda>symbol. \<lparr>operator_symbol = symbol, operator_parameters = [js ''Self'', js ''Self''],
            operator_returns = js ''bool''\<rparr>) (type_comparisons definition)"

definition nominalResolver :: "(jstring \<Rightarrow> registered_type option) \<Rightarrow> nominal_resolver" where
  "nominalResolver types name args =
     (case types name of
        None \<Rightarrow> Inr None
      | Some registered \<Rightarrow>
          if args = [] then Inr (Some (registered_self registered))
          else if length args \<noteq> length (registered_parameters registered) then Inl TypeRegistrationError
          else Inr (Some (with_args (registered_self registered) args)))"

section \<open>Signatures\<close>

datatype call_form = GlobalForm | ReceiverForm

record cel_signature =
  signature_name :: jstring
  signature_form :: call_form
  signature_receiver :: "cel_type option"
  signature_parameters :: "cel_type list"
  signature_returns :: cel_type

definition lineTerminator :: "code_unit \<Rightarrow> bool" where
  "lineTerminator c \<longleftrightarrow> c = 10 \<or> c = 13 \<or> c = 8232 \<or> c = 8233"

text \<open>
  The pattern of a signature: \<open>name(parameters) : returns\<close> to the end of the text, and before it, when the
  text is that of a call on a value, anything ended by a dot. The pattern takes as much as it can for the
  receiver, so the last dot that leaves a call behind it is the one.
\<close>

definition match_call :: "jstring \<Rightarrow> (jstring \<times> jstring \<times> jstring) option" where
  "match_call t =
     (let name = takeWhile isIdentPart t; after_name = dropWhile isIdentPart t
      in if \<not> isIdentifierSpelling name \<or> after_name = [] \<or> hd after_name \<noteq> 40 then None
         else let inside = takeWhile (\<lambda>c. c \<noteq> 41) (tl after_name);
                  after = dropWhile (\<lambda>c. c \<noteq> 41) (tl after_name);
                  colon = dropWhile js_space (tl after)
              in if after = [] \<or> colon = [] \<or> hd colon \<noteq> 58 then None
                 else let returns = dropWhile js_space (tl colon)
                      in if returns = [] \<or> list_ex lineTerminator returns then None
                         else Some (name, inside, returns))"

fun match_receiver :: "jstring \<Rightarrow> jstring \<Rightarrow> (jstring \<times> jstring \<times> jstring \<times> jstring) option" where
  "match_receiver receiver [] = None"
| "match_receiver receiver (c # cs) =
     (if lineTerminator c then None
      else case match_receiver (receiver @ [c]) cs of
          Some found \<Rightarrow> Some found
        | None \<Rightarrow>
            if c \<noteq> 46 \<or> receiver = [] then None
            else map_option (\<lambda>found. (receiver, found)) (match_call cs))"

fun split_parameters :: "jstring \<Rightarrow> int \<Rightarrow> jstring \<Rightarrow> jstring list" where
  "split_parameters part depth [] = [part]"
| "split_parameters part depth (ch # cs) =
     (if ch = 60 then split_parameters (part @ [ch]) (depth + 1) cs
      else if ch = 62 then split_parameters (part @ [ch]) (depth - 1) cs
      else if ch = 44 \<and> depth = 0 then part # split_parameters [] depth cs
      else split_parameters (part @ [ch]) depth cs)"

definition splitParameters :: "jstring \<Rightarrow> jstring list" where
  "splitParameters t = (if js_trim t = [] then [] else split_parameters [] 0 t)"

fun read_types :: "nominal_resolver \<Rightarrow> jstring list \<Rightarrow> type_error + cel_type option list" where
  "read_types resolver [] = Inr []"
| "read_types resolver (t # ts) =
     (case parseTypeExpression resolver t of
        Inl e \<Rightarrow> Inl e
      | Inr ty \<Rightarrow> map_sum id (\<lambda>rest. ty # rest) (read_types resolver ts))"

text \<open>\<open>None\<close> on the right is a signature with \<open>undefined\<close> where a type should be.\<close>

definition parseSignature :: "nominal_resolver \<Rightarrow> jstring \<Rightarrow> type_error + cel_signature option" where
  "parseSignature resolver text_given =
     (let t = js_trim text_given;
          parts = (case match_receiver [] t of
              Some (receiver, found) \<Rightarrow> Some (Some receiver, found)
            | None \<Rightarrow> map_option (\<lambda>found. (None, found)) (match_call t))
      in case parts of
           None \<Rightarrow> Inl TypeExpressionError
         | Some (receiver_text, name, parameter_text, return_text) \<Rightarrow>
             (case read_types resolver (splitParameters parameter_text) of
                Inl e \<Rightarrow> Inl e
              | Inr parameters \<Rightarrow>
                  (case (case receiver_text of
                           None \<Rightarrow> Inr (Some None)
                         | Some r \<Rightarrow> map_sum id (map_option Some) (parseTypeExpression resolver r)) of
                     Inl e \<Rightarrow> Inl e
                   | Inr receiver \<Rightarrow>
                       (case parseTypeExpression resolver return_text of
                          Inl e \<Rightarrow> Inl e
                        | Inr returns \<Rightarrow>
                            Inr (if None \<in> set parameters \<or> receiver = None \<or> returns = None then None
                                 else Some \<lparr>signature_name = name,
                                   signature_form = (if receiver_text = None then GlobalForm else ReceiverForm),
                                   signature_receiver = the receiver, signature_parameters = map the parameters,
                                   signature_returns = the returns\<rparr>)))))"

definition signatureKey :: "cel_signature \<Rightarrow> jstring" where
  "signatureKey signature =
     (case signature_receiver signature of None \<Rightarrow> [] | Some r \<Rightarrow> formatType r False @ js ''.'') @
     signature_name signature @ js ''('' @
     join_text (js '', '') (map (\<lambda>t. formatType t False) (signature_parameters signature)) @ js '')''"

definition formatSignature :: "cel_signature \<Rightarrow> jstring" where
  "formatSignature signature =
     signatureKey signature @ js '': '' @ formatType (signature_returns signature) False"

section \<open>Texts that read back\<close>

definition type_name_free :: "jstring \<Rightarrow> bool" where
  "type_name_free name \<longleftrightarrow>
     name \<noteq> [] \<and> list_all isTypeChar name \<and> name \<notin> set INHERITED_NAMES \<and>
     map_of WELL_KNOWN_TYPE_NAMES name = None \<and> map_of PRIMITIVES name = None \<and>
     name \<notin> {js ''list'', js ''map'', js ''optional''} \<and> \<not> isParameterName name"

text \<open>A type that has a spelling: no record and no union, and each named type is one the resolver knows.\<close>

fun spellable :: "nominal_resolver \<Rightarrow> cel_type \<Rightarrow> bool" where
  "spellable resolver (TList t) = spellable resolver t"
| "spellable resolver (TMap k v) = (spellable resolver k \<and> spellable resolver v)"
| "spellable resolver (TOptional t) = spellable resolver t"
| "spellable resolver (TNominal name base args held) =
     (type_name_free name \<and> list_all (spellable resolver) args \<and>
      resolver name args = Inr (Some (TNominal name base args held)))"
| "spellable resolver (TParameter name) = isParameterName name"
| "spellable resolver (TRecord _ _ _) = False"
| "spellable resolver (TUnion _) = False"
| "spellable resolver _ = True"

definition type_follow :: "jstring \<Rightarrow> bool" where
  "type_follow t \<longleftrightarrow> t = [] \<or> hd t = 44 \<or> hd t = 62"

abbreviation "type_text t \<equiv> formatType t False"

lemma skipSpace_word: "t \<noteq> [] \<Longrightarrow> hd t \<noteq> 32 \<Longrightarrow> skipSpace t = t"
  by (cases t) (auto simp: skipSpace_def)

lemma skipSpace_follow: "type_follow t \<Longrightarrow> skipSpace t = t"
  by (cases t) (auto simp: skipSpace_def type_follow_def)

lemma isTypeChar_marks [simp]:
  "\<not> isTypeChar 60" "\<not> isTypeChar 62" "\<not> isTypeChar 44" "\<not> isTypeChar 32" "\<not> isTypeChar 40" "\<not> isTypeChar 41"
  by (simp_all add: isTypeChar_def isIdentPart_def isIdentStart_def isDigit_def)

lemma read_type_named:
  assumes "name \<noteq> []" "list_all isTypeChar name" "rest = [] \<or> \<not> isTypeChar (hd rest)"
  shows "read_type resolver (name @ rest) =
     (case read_arguments resolver rest of Inl e \<Rightarrow> Inl e
      | Inr (args, r) \<Rightarrow> map_sum id (\<lambda>ty. (ty, r)) (resolve_type_name resolver name args))"
proof -
  have "hd (name @ rest) \<noteq> 32" using assms(1,2) by (cases name) auto
  then have skip: "skipSpace (name @ rest) = name @ rest" using assms(1) by (intro skipSpace_word) auto
  have "takeWhile isTypeChar (name @ rest) = name" "dropWhile isTypeChar (name @ rest) = rest"
    using assms(2,3) by (cases rest; simp add: list_all_iff takeWhile_append dropWhile_append)+
  then show ?thesis using assms(1) by (subst read_type.simps) (simp add: skip)
qed

lemma read_arguments_none: "type_follow rest \<Longrightarrow> read_arguments resolver rest = Inr ([], rest)"
  by (subst read_arguments.simps) (auto simp: skipSpace_follow type_follow_def split: list.split)

lemma read_type_skip: "read_type resolver (32 # t) = read_type resolver t"
  by (subst (1 2) read_type.simps) (simp add: skipSpace_def)

definition reads_type :: "nominal_resolver \<Rightarrow> cel_type \<Rightarrow> bool" where
  "reads_type resolver t \<longleftrightarrow>
     (\<forall>rest. type_follow rest \<longrightarrow> read_type resolver (type_text t @ rest) = Inr (Some t, rest))"

fun further_texts :: "cel_type list \<Rightarrow> jstring" where
  "further_texts [] = []"
| "further_texts (t # ts) = 44 # 32 # type_text t @ further_texts ts"

lemma join_type_texts: "join_text (js '', '') (map type_text (t # ts)) = type_text t @ further_texts ts"
  by (induction ts arbitrary: t) auto

lemma read_more_texts:
  "\<forall>t \<in> set ts. reads_type resolver t \<Longrightarrow>
     read_more_arguments resolver args (further_texts ts @ 62 # rest) =
       Inr (args @ map Some ts, rest)"
proof (induction ts arbitrary: args)
  case (Cons t ts)
  let ?r = "further_texts ts @ 62 # rest"
  have "type_follow ?r" by (cases ts) (auto simp: type_follow_def)
  then have "read_type resolver (32 # type_text t @ ?r) = Inr (Some t, ?r)"
    using Cons.prems by (simp add: read_type_skip reads_type_def)
  then show ?case
    using Cons by (subst read_more_arguments.simps) (simp add: skipSpace_def)
next
  case Nil
  show ?case by (subst read_more_arguments.simps) (simp add: skipSpace_def)
qed

lemma read_arguments_texts:
  assumes "ts \<noteq> []" "\<forall>t \<in> set ts. reads_type resolver t"
  shows "read_arguments resolver (60 # join_text (js '', '') (map type_text ts) @ 62 # rest) = Inr (map Some ts, rest)"
proof (cases ts)
  case (Cons t us)
  let ?r = "further_texts us @ 62 # rest"
  have "type_follow ?r" by (cases us) (auto simp: type_follow_def)
  then have "read_type resolver (type_text t @ ?r) = Inr (Some t, ?r)"
    using assms(2) Cons by (simp add: reads_type_def)
  then show ?thesis
    using Cons assms(2) read_more_texts [of us resolver "[Some t]" rest]
    by (subst read_arguments.simps) (simp add: skipSpace_def join_type_texts [simplified] del: join_text.simps)
qed (use assms in simp)

lemma reads_with_arguments:
  assumes "ts \<noteq> []" "\<forall>t \<in> set ts. reads_type resolver t" "name \<noteq> []" "list_all isTypeChar name"
    and "resolve_type_name resolver name (map Some ts) = Inr ty"
  shows "read_type resolver (name @ 60 # join_text (js '', '') (map type_text ts) @ 62 # rest) = Inr (ty, rest)"
  using read_type_named [OF assms(3,4), of "60 # join_text (js '', '') (map type_text ts) @ 62 # rest" resolver]
    read_arguments_texts [OF assms(1,2), of rest] assms(5) by simp

lemma reads_name:
  assumes "name \<noteq> []" "list_all isTypeChar name" "resolve_type_name resolver name [] = Inr ty" "type_follow rest"
  shows "read_type resolver (name @ rest) = Inr (ty, rest)"
  using read_type_named [OF assms(1,2), of rest resolver] read_arguments_none [OF assms(4), of resolver] assms(3,4)
  by (cases rest) (auto simp: type_follow_def)

lemma typeChars_ascii: "list_all isTypeChar (js ''list'')" "list_all isTypeChar (js ''map'')"
  "list_all isTypeChar (js ''optional'')" "list_all isTypeChar (js ''dyn'')"
  "list_all isTypeChar (PRIMITIVE_PRINTED p)"
  by (cases p; simp add: isTypeChar_def isIdentPart_def isIdentStart_def isDigit_def)+

lemma resolve_words:
  "resolve_type_name resolver (js ''list'') [Some t] = Inr (Some (TList t))"
  "resolve_type_name resolver (js ''list'') [] = Inr (Some (TList TDyn))"
  "resolve_type_name resolver (js ''map'') [Some t, Some u] = Inr (Some (TMap t u))"
  "resolve_type_name resolver (js ''map'') [] = Inr (Some (TMap TDyn TDyn))"
  "resolve_type_name resolver (js ''optional'') [Some t] = Inr (Some (TOptional t))"
  "resolve_type_name resolver (js ''dyn'') [] = Inr (Some TDyn)"
  "resolve_type_name resolver (PRIMITIVE_PRINTED p) [] = Inr (Some (TPrimitive p))"
  by (simp_all add: resolve_type_name_def INHERITED_NAMES_def WELL_KNOWN_TYPE_NAMES_def PRIMITIVES_def noArguments_def)
    (cases p; simp)

lemma inherited_longer: "name \<in> set INHERITED_NAMES \<Longrightarrow> 1 < length name"
  by (auto simp: INHERITED_NAMES_def)

lemma known_longer:
  "map_of WELL_KNOWN_TYPE_NAMES name = Some p \<Longrightarrow> 1 < length name"
  "map_of PRIMITIVES name = Some t \<Longrightarrow> 1 < length name"
  by (auto simp: WELL_KNOWN_TYPE_NAMES_def PRIMITIVES_def split: if_splits)

lemma isParameterName_iff: "isParameterName name \<longleftrightarrow> (\<exists>c. name = [c] \<and> isCapital c)"
  by (cases name rule: isParameterName.cases) auto

lemma resolve_parameter:
  assumes "isParameterName name"
  shows "resolve_type_name resolver name [] = Inr (Some (TParameter name))" "list_all isTypeChar name" "name \<noteq> []"
proof -
  obtain c where c: "name = [c]" "isCapital c" using assms by (auto simp: isParameterName_iff)
  have "name \<notin> set INHERITED_NAMES" "map_of WELL_KNOWN_TYPE_NAMES name = None" "map_of PRIMITIVES name = None"
    using inherited_longer [of name] known_longer [of name] c(1) by (fastforce simp del: not_Some_eq)+
  then show "resolve_type_name resolver name [] = Inr (Some (TParameter name))"
    using assms c by (simp add: resolve_type_name_def noArguments_def)
  show "list_all isTypeChar name" "name \<noteq> []"
    using c by (simp_all add: isTypeChar_def isIdentPart_def isIdentStart_def isCapital_def)
qed

lemma resolve_nominal:
  assumes "type_name_free name" "resolver name args = Inr (Some ty)"
  shows "resolve_type_name resolver name (map Some args) = Inr (Some ty)"
  using assms by (auto simp: resolve_type_name_def type_name_free_def comp_def)

lemma spellable_reads: "spellable resolver t \<Longrightarrow> reads_type resolver t"
proof (induction t)
  case (TList t)
  then have "read_type resolver (js ''list'' @ 60 # join_text (js '', '') (map type_text [t]) @ 62 # rest) =
      Inr (Some (TList t), rest)" for rest
    by (intro reads_with_arguments) (simp_all add: typeChars_ascii [simplified] resolve_words [simplified])
  then show ?case by (simp add: reads_type_def)
next
  case (TMap k v)
  then have "read_type resolver (js ''map'' @ 60 # join_text (js '', '') (map type_text [k, v]) @ 62 # rest) =
      Inr (Some (TMap k v), rest)" for rest
    by (intro reads_with_arguments) (simp_all add: typeChars_ascii [simplified] resolve_words [simplified])
  then show ?case by (simp add: reads_type_def)
next
  case (TOptional t)
  then have "read_type resolver (js ''optional'' @ 60 # join_text (js '', '') (map type_text [t]) @ 62 # rest) =
      Inr (Some (TOptional t), rest)" for rest
    by (intro reads_with_arguments) (simp_all add: typeChars_ascii [simplified] resolve_words [simplified])
  then show ?case by (simp add: reads_type_def)
next
  case (TNominal name base args held)
  let ?t = "TNominal name base args held"
  have free: "name \<noteq> []" "list_all isTypeChar name" and resolved: "resolve_type_name resolver name (map Some args) = Inr (Some ?t)"
    using TNominal.prems resolve_nominal by (auto simp: type_name_free_def)
  show ?case
  proof (cases "args = []")
    case True
    then show ?thesis using reads_name [OF free, of resolver] resolved by (simp add: reads_type_def)
  next
    case False
    have "\<forall>t \<in> set args. reads_type resolver t" using TNominal by (auto simp: list_all_iff)
    then show ?thesis using reads_with_arguments [OF False _ free resolved] False by (simp add: reads_type_def)
  qed
next
  case (TParameter name)
  then show ?case
    using resolve_parameter [of name] by (auto simp: reads_type_def intro!: reads_name)
next
  case TDyn
  show ?case
    using reads_name [OF _ typeChars_ascii(4) resolve_words(6)] by (simp add: reads_type_def)
next
  case (TPrimitive p)
  have "PRIMITIVE_PRINTED p \<noteq> []" by (cases p) auto
  then show ?case
    using reads_name [OF _ typeChars_ascii(5) resolve_words(7)] by (simp add: reads_type_def)
qed auto

lemma parse_type_text:
  assumes "spellable resolver t"
  shows "parseTypeExpression resolver (formatType t whole) = Inr (Some t)"
proof -
  have plain: "parseTypeExpression resolver (type_text t) = Inr (Some t)"
    using spellable_reads [OF assms, unfolded reads_type_def, rule_format, of "[]"]
    by (simp add: parseTypeExpression_def type_follow_def skipSpace_def)
  have "read_type resolver (js ''list'' @ []) = Inr (Some (TList TDyn), [])"
    "read_type resolver (js ''map'' @ []) = Inr (Some (TMap TDyn TDyn), [])"
    by (rule reads_name; simp add: typeChars_ascii [simplified] resolve_words [simplified] type_follow_def)+
  then have bare: "parseTypeExpression resolver (js ''list'') = Inr (Some (TList TDyn))"
    "parseTypeExpression resolver (js ''map'') = Inr (Some (TMap TDyn TDyn))"
    by (simp_all add: parseTypeExpression_def skipSpace_def)
  have "formatType t whole = type_text t \<or> (t = TList TDyn \<and> formatType t whole = js ''list'') \<or>
      (t = TMap TDyn TDyn \<and> formatType t whole = js ''map'')"
    by (cases t) auto
  then show ?thesis using plain bare by auto
qed

section \<open>Signatures that read back\<close>

definition type_text_char :: "code_unit \<Rightarrow> bool" where
  "type_text_char c \<longleftrightarrow> isTypeChar c \<or> c = 60 \<or> c = 62 \<or> c = 44 \<or> c = 32"

lemma type_text_char_marks:
  "type_text_char c \<Longrightarrow> c \<noteq> 40 \<and> c \<noteq> 41 \<and> c \<noteq> 58 \<and> \<not> lineTerminator c"
  by (auto simp: type_text_char_def isTypeChar_def isIdentPart_def isIdentStart_def isDigit_def lineTerminator_def)

lemma type_text_char_of_marks [simp]:
  "type_text_char 60" "type_text_char 62" "type_text_char 44" "type_text_char 32"
  by (simp_all add: type_text_char_def)

lemma typeChar_text: "list_all isTypeChar t \<Longrightarrow> list_all type_text_char t"
  by (simp add: list_all_iff type_text_char_def)

lemma further_texts_chars:
  "\<forall>t \<in> set ts. list_all type_text_char (type_text t) \<Longrightarrow> list_all type_text_char (further_texts ts)"
  by (induction ts) (auto simp: type_text_char_def)

lemma join_type_texts_cases:
  "join_text (js '', '') (map type_text ts) = (case ts of [] \<Rightarrow> [] | t # us \<Rightarrow> type_text t @ further_texts us)"
  using join_type_texts by (cases ts) simp_all

lemma join_type_texts_chars:
  "\<forall>t \<in> set ts. list_all type_text_char (type_text t) \<Longrightarrow>
     list_all type_text_char (join_text (js '', '') (map type_text ts))"
  using further_texts_chars unfolding join_type_texts_cases by (auto split: list.split)

lemma type_text_chars: "spellable resolver t \<Longrightarrow> list_all type_text_char (type_text t)"
proof (induction t)
  case (TNominal name base args held)
  then have "list_all type_text_char name" "\<forall>t \<in> set args. list_all type_text_char (type_text t)"
    by (auto simp: list_all_iff type_name_free_def type_text_char_def)
  then have "list_all type_text_char name" "list_all type_text_char (join_text (js '', '') (map type_text args))"
    using join_type_texts_chars by blast+
  then show ?case by simp
next
  case (TParameter name)
  then show ?case using resolve_parameter [of name] typeChar_text by auto
next
  case (TPrimitive p)
  then show ?case using typeChar_text [OF typeChars_ascii(5)] by simp
next
  case TDyn
  show ?case using typeChar_text [OF typeChars_ascii(4)] by simp
qed (use typeChars_ascii [THEN typeChar_text] in \<open>auto simp: type_text_char_def\<close>)

text \<open>The ends of a type's text are not white space.\<close>

lemma isTypeChar_space: "isTypeChar c \<Longrightarrow> \<not> js_space c"
  by (auto simp: isTypeChar_def isIdentPart_def isIdentStart_def isDigit_def js_space_def)

lemma primitive_ends: "PRIMITIVE_PRINTED p \<noteq> [] \<and> \<not> js_space (hd (PRIMITIVE_PRINTED p)) \<and> \<not> js_space (last (PRIMITIVE_PRINTED p))"
  by (cases p) (simp_all add: js_space_def)

lemma word_ends: "name \<noteq> [] \<Longrightarrow> list_all isTypeChar name \<Longrightarrow> \<not> js_space (hd name) \<and> \<not> js_space (last name)"
  by (simp add: list_all_iff isTypeChar_space)

lemma type_text_ends:
  "spellable resolver t \<Longrightarrow> type_text t \<noteq> [] \<and> \<not> js_space (hd (type_text t)) \<and> \<not> js_space (last (type_text t))"
proof (cases t)
  case (TNominal name base args held)
  assume "spellable resolver t"
  then have "name \<noteq> []" "list_all isTypeChar name" using TNominal by (simp_all add: type_name_free_def)
  then show ?thesis using TNominal word_ends [of name] by (auto simp: js_space_def)
next
  case (TParameter name)
  assume "spellable resolver t"
  then show ?thesis using TParameter resolve_parameter [of name] word_ends [of name] by auto
qed (use primitive_ends in \<open>auto simp: js_space_def\<close>)

lemma js_trim_ends:
  assumes "t \<noteq> []" "\<not> js_space (hd t)" "\<not> js_space (last t)"
  shows "js_trim t = t"
proof -
  have "dropWhile js_space t = t" using assms(1,2) by (cases t) auto
  moreover have "dropWhile js_space (rev t) = rev t"
    using assms(1,3) by (cases t rule: rev_cases) auto
  ultimately show ?thesis by (simp add: js_trim_def)
qed

text \<open>Commas inside a type's text do not split a list of parameters.\<close>

definition unsplit :: "jstring \<Rightarrow> bool" where
  "unsplit t \<longleftrightarrow> (\<forall>part depth cs. 0 \<le> depth \<longrightarrow>
     split_parameters part depth (t @ cs) = split_parameters (part @ t) depth cs)"

lemma unsplit_word: "list_all isTypeChar t \<Longrightarrow> unsplit t"
proof (induction t)
  case (Cons c t)
  then show ?case by (auto simp: unsplit_def)
qed (simp add: unsplit_def)

lemma split_further:
  "\<forall>t \<in> set ts. unsplit (type_text t) \<Longrightarrow> 0 < depth \<Longrightarrow>
     split_parameters part depth (further_texts ts @ cs) = split_parameters (part @ further_texts ts) depth cs"
  by (induction ts arbitrary: part) (auto simp: unsplit_def)

lemma split_inside:
  "\<forall>t \<in> set ts. unsplit (type_text t) \<Longrightarrow> 0 < depth \<Longrightarrow>
     split_parameters part depth (join_text (js '', '') (map type_text ts) @ cs) =
     split_parameters (part @ join_text (js '', '') (map type_text ts)) depth cs"
  using split_further [of "tl ts" depth] unfolding join_type_texts_cases
  by (cases ts) (auto simp: unsplit_def)

lemma unsplit_arguments:
  assumes "unsplit name" "\<forall>t \<in> set ts. unsplit (type_text t)"
  shows "unsplit (name @ 60 # join_text (js '', '') (map type_text ts) @ [62])"
  using assms(1) split_inside [OF assms(2)] by (auto simp: unsplit_def)

lemma unsplit_type: "spellable resolver t \<Longrightarrow> unsplit (type_text t)"
proof (induction t)
  case (TList t)
  then show ?case using unsplit_arguments [OF unsplit_word [OF typeChars_ascii(1)], of "[t]"] by simp
next
  case (TMap k v)
  then show ?case using unsplit_arguments [OF unsplit_word [OF typeChars_ascii(2)], of "[k, v]"] by simp
next
  case (TOptional t)
  then show ?case using unsplit_arguments [OF unsplit_word [OF typeChars_ascii(3)], of "[t]"] by simp
next
  case (TNominal name base args held)
  then have "unsplit name" "\<forall>t \<in> set args. unsplit (type_text t)"
    by (auto simp: type_name_free_def list_all_iff intro!: unsplit_word)
  then show ?case using unsplit_arguments [of name args] by simp
next
  case (TParameter name)
  then show ?case using resolve_parameter [of name] unsplit_word by auto
next
  case TDyn
  show ?case using unsplit_word [OF typeChars_ascii(4)] by simp
next
  case (TPrimitive p)
  show ?case using unsplit_word [OF typeChars_ascii(5)] by simp
qed auto

lemma split_parameters_last: "unsplit t \<Longrightarrow> split_parameters part 0 t = [part @ t]"
  unfolding unsplit_def by (metis append_Nil2 order_refl split_parameters.simps(1))

lemma split_further_top:
  "\<forall>t \<in> set ts. unsplit (type_text t) \<Longrightarrow>
     split_parameters part 0 (further_texts ts) = part # map (\<lambda>t. 32 # type_text t) ts"
proof (induction ts arbitrary: part)
  case (Cons t ts)
  have t: "unsplit (type_text t)" using Cons.prems by simp
  have "split_parameters [32] 0 (type_text t @ further_texts ts) = split_parameters (32 # type_text t) 0 (further_texts ts)"
    using t by (simp add: unsplit_def)
  then show ?case using Cons by simp
qed simp

lemma js_trim_word: "t \<noteq> [] \<Longrightarrow> \<not> js_space (hd t) \<Longrightarrow> js_trim t \<noteq> []"
  by (cases t) (auto simp: js_trim_def dropWhile_eq_Nil_conv)

lemma splitParameters_texts:
  assumes "\<forall>t \<in> set ts. spellable resolver t"
  shows "read_types resolver (splitParameters (join_text (js '', '') (map type_text ts))) = Inr (map Some ts)"
proof (cases ts)
  case (Cons t us)
  have un: "\<forall>u \<in> set ts. unsplit (type_text u)" using assms unsplit_type by blast
  have t: "type_text t \<noteq> []" "\<not> js_space (hd (type_text t))" using type_text_ends [of resolver t] assms Cons by auto
  have "splitParameters (type_text t @ further_texts us) = type_text t # map (\<lambda>u. 32 # type_text u) us"
    using un Cons t js_trim_word [of "type_text t @ further_texts us"] split_further_top [of us "type_text t"]
    by (simp add: splitParameters_def unsplit_def)
  moreover have "parseTypeExpression resolver (32 # type_text u) = Inr (Some u)" if "u \<in> set us" for u
    using parse_type_text [of resolver u False] assms Cons that
    by (simp add: parseTypeExpression_def read_type_skip)
  then have "read_types resolver (map (\<lambda>u. 32 # type_text u) us) = Inr (map Some us)"
    by (induction us) auto
  moreover have "join_text (js '', '') (map type_text ts) = type_text t @ further_texts us"
    by (simp only: Cons join_type_texts)
  ultimately show ?thesis
    using parse_type_text [of resolver t False] assms Cons by (simp del: js_Cons)
qed (simp add: splitParameters_def js_trim_def)

definition signature_ok :: "nominal_resolver \<Rightarrow> cel_signature \<Rightarrow> bool" where
  "signature_ok resolver signature \<longleftrightarrow>
     isIdentifierSpelling (signature_name signature) \<and>
     (signature_form signature = ReceiverForm \<longleftrightarrow> signature_receiver signature \<noteq> None) \<and>
     (\<forall>t \<in> set_option (signature_receiver signature). spellable resolver t) \<and>
     (\<forall>t \<in> set (signature_parameters signature). spellable resolver t) \<and>
     spellable resolver (signature_returns signature)"

lemma identifier_chars: "isIdentifierSpelling name \<Longrightarrow> name \<noteq> [] \<and> list_all isIdentPart name"
  by (cases name) (auto simp: isIdentPart_def)

lemma identPart_marks: "isIdentPart c \<Longrightarrow> c \<noteq> 46 \<and> c \<noteq> 40 \<and> \<not> js_space c \<and> \<not> lineTerminator c"
  by (auto simp: isIdentPart_def isIdentStart_def isDigit_def js_space_def lineTerminator_def)

lemma takeWhile_name: "list_all p name \<Longrightarrow> rest = [] \<or> \<not> p (hd rest) \<Longrightarrow>
    takeWhile p (name @ rest) = name \<and> dropWhile p (name @ rest) = rest"
  by (cases rest) (auto simp: list_all_iff takeWhile_append dropWhile_append)

lemma match_call_reads:
  assumes name: "isIdentifierSpelling name" and inside: "list_all type_text_char inside"
    and returns: "returns \<noteq> []" "\<not> js_space (hd returns)" "list_all type_text_char returns"
  shows "match_call (name @ 40 # inside @ 41 # 58 # 32 # returns) = Some (name, inside, returns)"
proof -
  let ?rest = "40 # inside @ 41 # 58 # 32 # returns"
  have "\<not> isIdentPart 40" by (simp add: isIdentPart_def isIdentStart_def isDigit_def)
  then have first: "takeWhile isIdentPart (name @ ?rest) = name" "dropWhile isIdentPart (name @ ?rest) = ?rest"
    using takeWhile_name [of isIdentPart name ?rest] identifier_chars [OF name] by auto
  have no: "list_all (\<lambda>c. c \<noteq> 41) inside" using inside type_text_char_marks by (auto simp: list_all_iff)
  have second: "takeWhile (\<lambda>c. c \<noteq> 41) (inside @ 41 # 58 # 32 # returns) = inside"
      "dropWhile (\<lambda>c. c \<noteq> 41) (inside @ 41 # 58 # 32 # returns) = 41 # 58 # 32 # returns"
    using takeWhile_name [OF no, of "41 # 58 # 32 # returns"] by auto
  have "js_space 32" "\<not> js_space 58" by (simp_all add: js_space_def)
  moreover have "dropWhile js_space returns = returns" using returns by (cases returns) auto
  moreover have "\<not> list_ex lineTerminator returns" using returns(3) type_text_char_marks by (auto simp: list_all_iff list_ex_iff)
  ultimately show ?thesis using first second name returns(1) by (simp add: match_call_def Let_def)
qed

lemma match_call_no_paren: "40 \<notin> set t \<Longrightarrow> match_call t = None"
  using hd_in_set [of "dropWhile isIdentPart t"] set_dropWhileD [of "hd (dropWhile isIdentPart t)" isIdentPart t]
  by (cases "dropWhile isIdentPart t = []") (auto simp: match_call_def Let_def)

lemma match_receiver_no_paren: "40 \<notin> set t \<Longrightarrow> match_receiver acc t = None"
  by (induction t arbitrary: acc) (auto simp: match_call_no_paren)

lemma match_receiver_name:
  "list_all isIdentPart name \<Longrightarrow> 40 \<notin> set rest \<Longrightarrow> match_receiver acc (name @ 40 # rest) = None"
  by (induction name arbitrary: acc) (auto simp: match_receiver_no_paren dest: identPart_marks)

lemma match_receiver_found:
  assumes "list_all isIdentPart name" "40 \<notin> set rest" "match_call (name @ 40 # rest) = Some found"
  shows "list_all (\<lambda>c. \<not> lineTerminator c) r \<Longrightarrow> acc @ r \<noteq> [] \<Longrightarrow>
     match_receiver acc (r @ 46 # name @ 40 # rest) = Some (acc @ r, found)"
proof (induction r arbitrary: acc)
  case Nil
  then show ?case using assms match_receiver_name [OF assms(1,2)] by (simp add: lineTerminator_def)
qed simp

lemma formatSignature_ends:
  assumes "signature_ok resolver s"
  shows "js_trim (formatSignature s) = formatSignature s"
proof (rule js_trim_ends)
  have returns: "type_text (signature_returns s) \<noteq> []" "\<not> js_space (last (type_text (signature_returns s)))"
    using assms type_text_ends by (auto simp: signature_ok_def)
  then show "formatSignature s \<noteq> []" "\<not> js_space (last (formatSignature s))"
    by (simp_all add: formatSignature_def)
  have name: "signature_name s \<noteq> []" "\<not> js_space (hd (signature_name s))"
    using assms identifier_chars [of "signature_name s"] identPart_marks
    by (auto simp: signature_ok_def list_all_iff)
  show "\<not> js_space (hd (formatSignature s))"
  proof (cases "signature_receiver s")
    case (Some r)
    then have "type_text r \<noteq> []" "\<not> js_space (hd (type_text r))"
      using assms type_text_ends [of resolver r] by (auto simp: signature_ok_def)
    then show ?thesis using Some by (simp add: formatSignature_def signatureKey_def)
  qed (use name in \<open>simp add: formatSignature_def signatureKey_def\<close>)
qed

lemma parse_signature_text:
  assumes ok: "signature_ok resolver s"
  shows "parseSignature resolver (formatSignature s) = Inr (Some s)"
proof -
  let ?name = "signature_name s" and ?inside = "join_text (js '', '') (map type_text (signature_parameters s))"
  let ?returns = "type_text (signature_returns s)"
  let ?call = "?name @ 40 # ?inside @ 41 # 58 # 32 # ?returns"
  have name: "isIdentifierSpelling ?name" "list_all isIdentPart ?name"
    using ok identifier_chars by (auto simp: signature_ok_def)
  have params: "\<forall>t \<in> set (signature_parameters s). spellable resolver t"
    and returns: "spellable resolver (signature_returns s)" using ok by (auto simp: signature_ok_def)
  have chars: "list_all type_text_char ?inside" "list_all type_text_char ?returns"
    using join_type_texts_chars params type_text_chars returns by blast+
  then have no: "40 \<notin> set (?inside @ 41 # 58 # 32 # ?returns)"
    using type_text_char_marks by (auto simp: list_all_iff)
  have call: "match_call ?call = Some (?name, ?inside, ?returns)"
    using match_call_reads [OF name(1) chars(1) _ _ chars(2)] type_text_ends [OF returns] by simp
  have read: "read_types resolver (splitParameters ?inside) = Inr (map Some (signature_parameters s))"
    "parseTypeExpression resolver ?returns = Inr (Some (signature_returns s))"
    using splitParameters_texts [OF params] parse_type_text [OF returns] by simp_all
  show ?thesis
  proof (cases "signature_receiver s")
    case None
    then have "formatSignature s = ?call" by (simp add: formatSignature_def signatureKey_def)
    moreover have "match_receiver [] ?call = None" by (rule match_receiver_name [OF name(2) no])
    moreover have "signature_form s = GlobalForm"
      using ok None by (cases "signature_form s") (simp_all add: signature_ok_def)
    ultimately show ?thesis
      using formatSignature_ends [OF ok] call read None by (simp add: parseSignature_def Let_def comp_def)
  next
    case (Some r)
    then have r: "spellable resolver r" using ok by (simp add: signature_ok_def)
    have text_is: "formatSignature s = type_text r @ 46 # ?call"
      using Some by (simp add: formatSignature_def signatureKey_def)
    have "list_all (\<lambda>c. \<not> lineTerminator c) (type_text r)"
      using type_text_chars [OF r] type_text_char_marks by (auto simp: list_all_iff)
    then have "match_receiver [] (type_text r @ 46 # ?call) = Some (type_text r, ?name, ?inside, ?returns)"
      using match_receiver_found [OF name(2) no call, of "type_text r" "[]"] type_text_ends [OF r] by simp
    moreover have "signature_form s = ReceiverForm" using ok Some by (simp add: signature_ok_def)
    ultimately show ?thesis
      using formatSignature_ends [OF ok] read Some parse_type_text [OF r, of False]
      by (simp add: parseSignature_def Let_def text_is comp_def)
  qed
qed

text \<open>C33. A type that has a spelling reads back from its text, whole or nested, with every named type the
  environment registers.\<close>

theorem type_text_roundtrip:
  assumes "spellable (nominalResolver types) t"
  shows "parseTypeExpression (nominalResolver types) (formatType t whole) = Inr (Some t)"
  by (rule parse_type_text [OF assms])


definition money_definition :: nominal_definition where
  "money_definition = \<lparr>type_name = js ''app.Money'', base_text = js ''map<string, C>'', type_parameters = [js ''C''],
     type_operators = [], type_comparisons = [], type_conversions = [], type_members = [],
     field_texts = Some [(js ''amount'', js ''int'')]\<rparr>"

definition money :: "cel_type \<Rightarrow> cel_type" where
  "money c = TNominal (js ''app.Money'') (TMap STRING (TParameter (js ''C''))) [c]
     (Some [(js ''amount'', TPrimitive PInt)])"

lemma money_registers:
  "buildRegisteredType money_definition (nominalResolver (\<lambda>_. None)) =
     Inr \<lparr>registered_definition = money_definition, registered_base = Some (TMap STRING (TParameter (js ''C''))),
       registered_parameters = [js ''C''], registered_self = money (TParameter (js ''C''))\<rparr>"
  by code_simp

definition money_types :: "jstring \<Rightarrow> registered_type option" where
  "money_types = [js ''app.Money'' \<mapsto>
     projr (buildRegisteredType money_definition (nominalResolver (\<lambda>_. None)))]"

lemma money_spellable: "spellable (nominalResolver money_types) t \<Longrightarrow> spellable (nominalResolver money_types) (money t)"
  by (simp add: money_def nominalResolver_def money_types_def money_registers type_name_free_def
      INHERITED_NAMES_def WELL_KNOWN_TYPE_NAMES_def PRIMITIVES_def isTypeChar_def isIdentPart_def isIdentStart_def)

theorem type_text_roundtrip_witness:
  "parseTypeExpression (nominalResolver money_types) (formatType (TMap STRING (TOptional (money STRING))) True)
     = Inr (Some (TMap STRING (TOptional (money STRING))))"
  by (rule type_text_roundtrip) (simp add: money_spellable)


section \<open>What the texts do not say\<close>

text \<open>
  The registry holds its operators as functions named by their symbols, and lists them like the others; a
  signature with such a name is refused when it is read, so the listing of a registry is no declaration of it.
\<close>

definition plus_signature :: cel_signature where
  "plus_signature = \<lparr>signature_name = js ''+'', signature_form = GlobalForm, signature_receiver = None,
     signature_parameters = [TPrimitive PInt, TPrimitive PInt], signature_returns = TPrimitive PInt\<rparr>"

lemma operator_signature_is_not_read:
  "formatSignature plus_signature = js ''+(int, int): int''"
  "parseSignature (nominalResolver (\<lambda>_. None)) (js ''+(int, int): int'') = Inl TypeExpressionError"
  by code_simp+

text \<open>
  A name every object inherits reads as a type that is not there, where the source promises to refuse a name
  it does not know; a list of two types reads as a list of anything; a named type may be registered under
  a name that always reads as the type of the language.
\<close>

lemma inherited_name_is_read_as_no_type:
  "parseTypeExpression (nominalResolver (\<lambda>_. None)) (js ''constructor'') = Inr None"
  by code_simp

lemma extra_arguments_of_a_list_are_dropped:
  "parseTypeExpression (nominalResolver (\<lambda>_. None)) (js ''list<int, string>'') = Inr (Some (TList TDyn))"
  "parseTypeExpression (nominalResolver (\<lambda>_. None)) (js ''map<int>'') = Inr (Some (TMap TDyn TDyn))"
  by code_simp+

lemma registered_name_is_never_read:
  "validateTypeName (js ''google.protobuf.Duration'') = Inr ()"
  "parseTypeExpression resolver (js ''google.protobuf.Duration'') = Inr (Some (TPrimitive PDuration))"
proof -
  show "validateTypeName (js ''google.protobuf.Duration'') = Inr ()" by code_simp
  show "parseTypeExpression resolver (js ''google.protobuf.Duration'') = Inr (Some (TPrimitive PDuration))"
    using parse_type_text [of resolver "TPrimitive PDuration" False] by simp
qed

end
