(* ===== verification/Cel_Registry.thy ===== *)
theory Cel_Registry
  imports Cel_Type_Text Cel_Value "HOL-Library.AList"
begin

text \<open>
  The functions an environment has and the one a call resolves to
  (\<open>cel/nodejs/src/function-registry.ts\<close>).

  A registry is a map from names to the registrations of that name, both in the order they were made. What a
  registration does when it is run is the business of the backends; of its metadata the guard over literal
  arguments and the flags a listing shows are kept.
\<close>

section \<open>Registrations\<close>

record function_metadata =
  meta_check :: "(cel_value option list \<Rightarrow> jstring option) option"
  meta_deterministic :: "bool option"
  meta_host_backed :: "bool option"
  meta_throws :: "jstring list option"

record registered_function =
  entry_signature :: cel_signature
  entry_metadata :: function_metadata

type_synonym function_registry = "(jstring \<times> registered_function list) list"

datatype engine_error = SignatureTooWide | NamespacesMismatch

definition CALL_SITE_DIRECT_ARITY :: nat where
  "CALL_SITE_DIRECT_ARITY = 4"

definition UNKNOWN_FUNCTION_CANDIDATES :: nat where
  "UNKNOWN_FUNCTION_CANDIDATES = 5"

abbreviation entry_key :: "registered_function \<Rightarrow> jstring" where
  "entry_key e \<equiv> signatureKey (entry_signature e)"

definition named :: "function_registry \<Rightarrow> jstring \<Rightarrow> registered_function list" where
  "named byName name = (case map_of byName name of Some es \<Rightarrow> es | None \<Rightarrow> [])"

fun put_entry :: "registered_function \<Rightarrow> registered_function list \<Rightarrow> registered_function list" where
  "put_entry e [] = [e]"
| "put_entry e (held # es) = (if entry_key held = entry_key e then e # es else held # put_entry e es)"

definition signature_arity :: "cel_signature \<Rightarrow> nat" where
  "signature_arity s =
     length (signature_parameters s) + (if signature_form s = ReceiverForm then 1 else 0)"

definition register ::
  "cel_signature \<Rightarrow> function_metadata \<Rightarrow> function_registry \<Rightarrow> engine_error + function_registry" where
  "register s metadata byName =
     (if CALL_SITE_DIRECT_ARITY < signature_arity s then Inl SignatureTooWide
      else Inr (AList.update (signature_name s)
        (put_entry \<lparr>entry_signature = s, entry_metadata = metadata\<rparr> (named byName (signature_name s))) byName))"

fun drop_entry :: "jstring \<Rightarrow> registered_function list \<Rightarrow> registered_function list" where
  "drop_entry key [] = []"
| "drop_entry key (held # es) = (if entry_key held = key then es else held # drop_entry key es)"

definition remove_function :: "cel_signature \<Rightarrow> function_registry \<Rightarrow> bool \<times> function_registry" where
  "remove_function s byName =
     (case map_of byName (signature_name s) of
        None \<Rightarrow> (False, byName)
      | Some es \<Rightarrow>
          if signatureKey s \<notin> set (map entry_key es) then (False, byName)
          else let rest = drop_entry (signatureKey s) es
               in (True, if rest = [] then AList.delete (signature_name s) byName
                         else AList.update (signature_name s) rest byName))"

definition removeName :: "jstring \<Rightarrow> function_registry \<Rightarrow> nat \<times> function_registry" where
  "removeName name byName =
     (case map_of byName name of
        None \<Rightarrow> (0, byName)
      | Some es \<Rightarrow> (length es, AList.delete name byName))"

definition has_name :: "function_registry \<Rightarrow> jstring \<Rightarrow> bool" where
  "has_name byName name \<longleftrightarrow> name \<in> fst ` set byName"

definition list_functions :: "function_registry \<Rightarrow> registered_function list" where
  "list_functions byName = concat (map (named byName) (sort (map fst byName)))"

section \<open>The call a registration answers\<close>

text \<open>
  Every list of a registry is keyed: no two of its registrations answer the same call, none is empty and each
  stands under its own name.
\<close>

definition registry_ok :: "function_registry \<Rightarrow> bool" where
  "registry_ok byName \<longleftrightarrow>
     distinct (map fst byName) \<and>
     (\<forall>(name, es) \<in> set byName. es \<noteq> [] \<and> distinct (map entry_key es) \<and>
        (\<forall>e \<in> set es. signature_name (entry_signature e) = name \<and>
           signature_arity (entry_signature e) \<le> CALL_SITE_DIRECT_ARITY))"

text \<open>The abstract registry: what answers a name and a key.\<close>

definition answering :: "function_registry \<Rightarrow> jstring \<Rightarrow> jstring \<Rightarrow> registered_function option" where
  "answering byName name key = find (\<lambda>e. entry_key e = key) (named byName name)"

lemma put_entry_keys:
  "map entry_key (put_entry e es) =
     (if entry_key e \<in> set (map entry_key es) then map entry_key es else map entry_key es @ [entry_key e])"
  by (induction es) auto

lemma put_entry_finds:
  "find (\<lambda>x. entry_key x = key) (put_entry e es) =
     (if key = entry_key e then Some e else find (\<lambda>x. entry_key x = key) es)"
  by (induction es) auto

lemma put_entry_members: "x \<in> set (put_entry e es) \<Longrightarrow> x = e \<or> x \<in> set es"
  by (induction es) (auto split: if_splits)

lemma put_entry_nonempty [simp]: "put_entry e es \<noteq> []"
  by (cases es) auto

lemma drop_entry_keys: "distinct (map entry_key es) \<Longrightarrow> map entry_key (drop_entry key es) = filter (\<lambda>k. k \<noteq> key) (map entry_key es)"
proof (induction es)
  case (Cons e es)
  have "filter (\<lambda>k. k \<noteq> entry_key e) (map entry_key es) = map entry_key es"
    using Cons.prems by (intro filter_True) (auto simp: image_iff)
  then show ?case using Cons by auto
qed simp

lemma drop_entry_finds:
  "distinct (map entry_key es) \<Longrightarrow>
     find (\<lambda>x. entry_key x = k) (drop_entry key es) = (if k = key then None else find (\<lambda>x. entry_key x = k) es)"
  by (induction es) (auto simp: find_None_iff image_iff)

lemma drop_entry_members: "x \<in> set (drop_entry key es) \<Longrightarrow> x \<in> set es"
  by (induction es) (auto split: if_splits)

lemma named_update: "named (AList.update name es byName) other = (if other = name then es else named byName other)"
  by (simp add: named_def update_conv)

lemma named_delete: "named (AList.delete name byName) other = (if other = name then [] else named byName other)"
  by (simp add: named_def delete_conv)

lemma registry_ok_named: "registry_ok byName \<Longrightarrow> distinct (map entry_key (named byName name))"
  by (auto simp: registry_ok_def named_def split: option.split dest: map_of_SomeD)

lemma registry_ok_member:
  "registry_ok byName \<Longrightarrow> e \<in> set (named byName name) \<Longrightarrow>
     signature_name (entry_signature e) = name \<and> signature_arity (entry_signature e) \<le> CALL_SITE_DIRECT_ARITY"
  by (auto simp: registry_ok_def named_def split: option.splits dest!: map_of_SomeD)

lemma registry_ok_update:
  assumes "registry_ok byName" "es \<noteq> []" "distinct (map entry_key es)"
    "\<forall>e \<in> set es. signature_name (entry_signature e) = name \<and> signature_arity (entry_signature e) \<le> CALL_SITE_DIRECT_ARITY"
  shows "registry_ok (AList.update name es byName)"
proof -
  have "distinct (map fst (AList.update name es byName))" using assms(1) by (simp add: registry_ok_def distinct_update)
  moreover have "(n, xs) \<in> set (AList.update name es byName) \<Longrightarrow> (n, xs) = (name, es) \<or> (n, xs) \<in> set byName" for n xs
    by (induction byName) (auto split: if_splits)
  ultimately show ?thesis using assms unfolding registry_ok_def by fast
qed

lemma registry_ok_delete: "registry_ok byName \<Longrightarrow> registry_ok (AList.delete name byName)"
  unfolding registry_ok_def by (auto simp: AList.distinct_delete) (auto simp: AList.delete_eq)

lemma register_ok:
  assumes "registry_ok byName" "signature_arity s \<le> CALL_SITE_DIRECT_ARITY"
  shows "registry_ok (AList.update (signature_name s)
      (put_entry \<lparr>entry_signature = s, entry_metadata = metadata\<rparr> (named byName (signature_name s))) byName)"
  using assms registry_ok_named [OF assms(1)] registry_ok_member [OF assms(1)]
  by (intro registry_ok_update) (auto simp: put_entry_keys dest!: put_entry_members)

lemma remove_ok:
  assumes "registry_ok byName"
  shows "registry_ok (snd (remove_function s byName))"
proof (cases "map_of byName (signature_name s)")
  case (Some es)
  then have es: "es = named byName (signature_name s)" by (simp add: named_def)
  show ?thesis
    using Some assms registry_ok_named [OF assms] registry_ok_member [OF assms] drop_entry_keys [of es]
    by (auto simp: remove_function_def Let_def registry_ok_delete es
        dest!: drop_entry_members intro!: registry_ok_update)
qed (use assms in \<open>simp add: remove_function_def\<close>)

lemma answering_none: "key \<notin> set (map entry_key (named byName name)) \<longleftrightarrow> answering byName name key = None"
  by (auto simp: answering_def find_None_iff)

lemma remove_answers:
  assumes "registry_ok byName"
  shows "fst (remove_function s byName) = (answering byName (signature_name s) (signatureKey s) \<noteq> None)"
    and "answering (snd (remove_function s byName)) name key =
      (if name = signature_name s \<and> key = signatureKey s then None else answering byName name key)"
proof -
  let ?es = "named byName (signature_name s)"
  show "fst (remove_function s byName) = (answering byName (signature_name s) (signatureKey s) \<noteq> None)"
    unfolding answering_none [symmetric]
    by (simp add: remove_function_def named_def Let_def split: option.split)
  show "answering (snd (remove_function s byName)) name key =
      (if name = signature_name s \<and> key = signatureKey s then None else answering byName name key)"
  proof (cases "signatureKey s \<in> set (map entry_key ?es)")
    case False
    then have "remove_function s byName = (False, byName)"
      by (auto simp: remove_function_def named_def split: option.split)
    then show ?thesis using False by (auto simp: answering_none [symmetric])
  next
    case True
    then have "map_of byName (signature_name s) = Some ?es"
      by (cases "map_of byName (signature_name s)") (auto simp: named_def)
    then have "named (snd (remove_function s byName)) name =
        (if name = signature_name s then drop_entry (signatureKey s) ?es else named byName name)"
      using True by (auto simp: remove_function_def Let_def named_update named_delete)
    then show ?thesis
      using drop_entry_finds [OF registry_ok_named [OF assms]] by (simp add: answering_def)
  qed
qed

text \<open>C15. The registry is a map from the calls it answers: a registration takes over its own call and no
  other, wherever it stood, and is refused only when it takes too many values; a removal takes away that call
  and no other, answering whether it was there; the removal of a name takes away every call of it; and no two
  registrations ever answer one call.\<close>

theorem registry_is_a_map_of_calls:
  assumes "registry_ok byName"
  shows "(case register s metadata byName of
      Inl e \<Rightarrow> 4 < signature_arity s
    | Inr after \<Rightarrow> signature_arity s \<le> 4 \<and> registry_ok after \<and> answering after = (\<lambda>name key.
        if name = signature_name s \<and> key = signatureKey s
        then Some \<lparr>entry_signature = s, entry_metadata = metadata\<rparr> else answering byName name key)) \<and>
    (case remove_function s byName of (found, rest) \<Rightarrow>
      registry_ok rest \<and> found = (answering byName (signature_name s) (signatureKey s) \<noteq> None) \<and>
      answering rest = (\<lambda>name key.
        if name = signature_name s \<and> key = signatureKey s then None else answering byName name key)) \<and>
    (case removeName gone byName of (count, rest) \<Rightarrow>
      registry_ok rest \<and> count = length (named byName gone) \<and>
      answering rest = (\<lambda>name key. if name = gone then None else answering byName name key))"
proof (intro conjI)
  show "(case register s metadata byName of
      Inl e \<Rightarrow> 4 < signature_arity s
    | Inr after \<Rightarrow> signature_arity s \<le> 4 \<and> registry_ok after \<and> answering after = (\<lambda>name key.
        if name = signature_name s \<and> key = signatureKey s
        then Some \<lparr>entry_signature = s, entry_metadata = metadata\<rparr> else answering byName name key))"
    using register_ok [OF assms]
    by (auto simp: register_def CALL_SITE_DIRECT_ARITY_def answering_def fun_eq_iff named_update put_entry_finds)
  show "(case remove_function s byName of (found, rest) \<Rightarrow>
      registry_ok rest \<and> found = (answering byName (signature_name s) (signatureKey s) \<noteq> None) \<and>
      answering rest = (\<lambda>name key.
        if name = signature_name s \<and> key = signatureKey s then None else answering byName name key))"
    using remove_ok [OF assms, of s] remove_answers [OF assms, of s]
    by (cases "remove_function s byName") (auto simp: fun_eq_iff)
  show "(case removeName gone byName of (count, rest) \<Rightarrow>
      registry_ok rest \<and> count = length (named byName gone) \<and>
      answering rest = (\<lambda>name key. if name = gone then None else answering byName name key))"
    using assms registry_ok_delete
    by (auto simp: removeName_def answering_def fun_eq_iff named_delete named_def delete_conv split: option.split)
qed

section \<open>Fitting arguments to parameters\<close>

type_synonym type_bindings = "jstring \<Rightarrow> cel_type option"

fun is_parameter :: "cel_type \<Rightarrow> bool" where
  "is_parameter (TParameter _) = True"
| "is_parameter _ = False"

definition fits_plainly :: "bool \<Rightarrow> cel_type \<Rightarrow> cel_type \<Rightarrow> bool" where
  "fits_plainly allowDyn argument parameter =
     (if isDyn argument then allowDyn \<or> isDyn parameter else assignable argument parameter)"

fun bind_parameter :: "bool \<Rightarrow> jstring \<Rightarrow> cel_type \<Rightarrow> type_bindings \<Rightarrow> bool \<times> type_bindings" where
  "bind_parameter allowDyn name argument bindings =
     (case bindings name of
        None \<Rightarrow> (True, bindings(name \<mapsto> argument))
      | Some bound \<Rightarrow>
          if is_parameter bound \<and> \<not> is_parameter argument then (True, bindings(name \<mapsto> argument))
          else if is_parameter bound \<or> is_parameter argument then (True, bindings)
          else (assignable argument bound \<or> allowDyn \<and> (isDyn argument \<or> isDyn bound), bindings))"

fun fits :: "bool \<Rightarrow> cel_type \<Rightarrow> cel_type \<Rightarrow> type_bindings \<Rightarrow> bool \<times> type_bindings"
  and fits_each :: "bool \<Rightarrow> cel_type list \<Rightarrow> cel_type list \<Rightarrow> type_bindings \<Rightarrow> bool \<times> type_bindings" where
  "fits allowDyn argument (TParameter name) bindings = bind_parameter allowDyn name argument bindings"
| "fits allowDyn (TList a) (TList p) bindings = fits allowDyn a p bindings"
| "fits allowDyn (TMap k v) (TMap pk pv) bindings =
     (let r = fits allowDyn k pk bindings in if fst r then fits allowDyn v pv (snd r) else r)"
| "fits allowDyn (TOptional a) (TOptional p) bindings = fits allowDyn a p bindings"
| "fits allowDyn (TNominal name base args held) (TNominal pname pbase pargs pheld) bindings =
     (if pname = name \<and> length pargs = length args then fits_each allowDyn args pargs bindings
      else (fits_plainly allowDyn (TNominal name base args held) (TNominal pname pbase pargs pheld), bindings))"
| "fits allowDyn argument parameter bindings = (fits_plainly allowDyn argument parameter, bindings)"
| "fits_each allowDyn (a # as) (p # ps) bindings =
     (let r = fits allowDyn a p bindings in if fst r then fits_each allowDyn as ps (snd r) else r)"
| "fits_each allowDyn _ _ bindings = (True, bindings)"

fun substitute :: "type_bindings \<Rightarrow> cel_type \<Rightarrow> cel_type" where
  "substitute bindings (TParameter name) =
     (case bindings name of Some bound \<Rightarrow> bound | None \<Rightarrow> TParameter name)"
| "substitute bindings (TList element) = TList (substitute bindings element)"
| "substitute bindings (TMap key v) = TMap (substitute bindings key) (substitute bindings v)"
| "substitute bindings (TOptional v) = TOptional (substitute bindings v)"
| "substitute bindings (TNominal name base args held) =
     TNominal name base (map (substitute bindings) args) held"
| "substitute bindings t = t"

section \<open>Resolution\<close>

datatype failure_reason = FunctionUnknown | WrongForm | NoOverload

datatype resolution =
    Resolved registered_function cel_type
  | Unresolved failure_reason "registered_function list"

definition candidate_fits ::
  "bool \<Rightarrow> registered_function \<Rightarrow> cel_type list \<Rightarrow> cel_type option \<Rightarrow> bool \<times> type_bindings" where
  "candidate_fits allowDyn candidate args receiver =
     (let s = entry_signature candidate
      in if length (signature_parameters s) \<noteq> length args then (False, Map.empty)
         else case (case signature_receiver s of
                      None \<Rightarrow> (True, Map.empty)
                    | Some want \<Rightarrow> fits allowDyn (case receiver of Some r \<Rightarrow> r | None \<Rightarrow> TDyn) want Map.empty) of
               (False, held) \<Rightarrow> (False, held)
             | (True, held) \<Rightarrow> fits_each allowDyn args (signature_parameters s) held)"

fun match_candidates ::
  "bool \<Rightarrow> registered_function list \<Rightarrow> cel_type list \<Rightarrow> cel_type option \<Rightarrow>
     (registered_function \<times> cel_type) option" where
  "match_candidates allowDyn [] args receiver = None"
| "match_candidates allowDyn (candidate # candidates) args receiver =
     (case candidate_fits allowDyn candidate args receiver of
        (True, bindings) \<Rightarrow>
          Some (candidate, substitute bindings (signature_returns (entry_signature candidate)))
      | (False, _) \<Rightarrow> match_candidates allowDyn candidates args receiver)"

definition matchLoosely ::
  "registered_function list \<Rightarrow> cel_type list \<Rightarrow> cel_type option \<Rightarrow>
     (registered_function \<times> cel_type) option" where
  "matchLoosely candidates args receiver =
     (case List.map_filter (\<lambda>candidate. match_candidates True [candidate] args receiver) candidates of
        [] \<Rightarrow> None
      | first # viable \<Rightarrow>
          if list_all (\<lambda>held. typesEqual (snd held) (snd first)) (first # viable) then Some first
          else Some (fst first, TDyn))"

definition resolve ::
  "function_registry \<Rightarrow> jstring \<Rightarrow> call_form \<Rightarrow> cel_type list \<Rightarrow> cel_type option \<Rightarrow> resolution" where
  "resolve byName name form args receiver =
     (let all_entries = named byName name
      in if all_entries = [] then Unresolved FunctionUnknown []
         else let inForm = filter (\<lambda>e. signature_form (entry_signature e) = form) all_entries
              in if inForm = [] then Unresolved WrongForm all_entries
                 else let arity = filter (\<lambda>e. length (signature_parameters (entry_signature e)) = length args) inForm;
                          viable = (if arity = [] then inForm else arity)
                      in case match_candidates False viable args receiver of
                           Some (e, returns) \<Rightarrow> Resolved e returns
                         | None \<Rightarrow>
                             (case matchLoosely viable args receiver of
                                Some (e, returns) \<Rightarrow> Resolved e returns
                              | None \<Rightarrow> Unresolved NoOverload inForm))"

section \<open>Resolved calls are typed\<close>

text \<open>A type that is known all through, and one a signature may ask for without loosening a named type.\<close>

fun plain_type :: "cel_type \<Rightarrow> bool" where
  "plain_type (TPrimitive _) = True"
| "plain_type (TList t) = plain_type t"
| "plain_type (TMap k v) = (plain_type k \<and> plain_type v)"
| "plain_type (TOptional t) = plain_type t"
| "plain_type (TNominal _ _ args _) = list_all plain_type args"
| "plain_type _ = False"

fun generic_type :: "cel_type \<Rightarrow> bool" where
  "generic_type (TPrimitive _) = True"
| "generic_type (TParameter _) = True"
| "generic_type (TList t) = generic_type t"
| "generic_type (TMap k v) = (generic_type k \<and> generic_type v)"
| "generic_type (TOptional t) = generic_type t"
| "generic_type (TNominal _ _ args _) = list_all generic_type args"
| "generic_type _ = False"

fun wanted_type :: "cel_type \<Rightarrow> bool" where
  "wanted_type (TList t) = wanted_type t"
| "wanted_type (TMap k v) = (wanted_type k \<and> wanted_type v)"
| "wanted_type (TOptional t) = wanted_type t"
| "wanted_type (TNominal _ _ args _) = list_all generic_type args"
| "wanted_type _ = True"

lemma plain_equal: "plain_type a \<Longrightarrow> typesEqual a a"
proof (induction a)
  case (TNominal name base args held)
  then show ?case by (auto simp: list_all_iff list_all2_same)
qed auto

lemma plain_assignable: "plain_type a \<Longrightarrow> plain_type b \<Longrightarrow> assignable a b \<Longrightarrow> typesEqual a b"
proof (induction a arbitrary: b)
  case (TPrimitive p)
  then show ?case by (cases b) (auto simp: assignable.simps)
next
  case (TList a)
  then show ?case by (cases b) (auto simp: assignable.simps [of _ "TPrimitive _"] assignable.simps)
next
  case (TMap a1 a2)
  then show ?case by (cases b) (auto simp: assignable.simps)
next
  case (TOptional a)
  then show ?case by (cases b) (auto simp: assignable.simps)
next
  case (TNominal x1a a x3a x4a)
  then show ?case by (cases b) (auto simp: assignable.simps)
qed auto

definition plain_bindings :: "type_bindings \<Rightarrow> bool" where
  "plain_bindings bindings \<longleftrightarrow> (\<forall>name t. bindings name = Some t \<longrightarrow> plain_type t)"

text \<open>What a fit promises, for every way the rest of the call may go on binding.\<close>

definition fitted :: "cel_type \<Rightarrow> cel_type \<Rightarrow> type_bindings \<Rightarrow> bool" where
  "fitted a p bindings \<longleftrightarrow>
     (\<forall>later. bindings \<subseteq>\<^sub>m later \<longrightarrow> assignable a (substitute later p) \<and>
        (generic_type p \<longrightarrow> typesEqual a (substitute later p)))"

lemma fitted_later: "fitted a p held \<Longrightarrow> held \<subseteq>\<^sub>m later \<Longrightarrow> fitted a p later"
  unfolding fitted_def using map_le_trans by blast

lemma plain_not_parameter: "plain_type t \<Longrightarrow> \<not> is_parameter t \<and> t \<noteq> TDyn"
  by (cases t) auto

lemma map_le_Some: "m \<subseteq>\<^sub>m m' \<Longrightarrow> m x = Some y \<Longrightarrow> m' x = Some y"
  by (force simp: map_le_def dom_def)

lemma bound_fitted: "held name = Some t \<Longrightarrow> typesEqual a t \<Longrightarrow> fitted a (TParameter name) held"
  using typesEqual_assignable by (auto simp: fitted_def dest: map_le_Some)

lemma bind_parameter_fitted:
  assumes "bind_parameter allowDyn name a bindings = (True, held)" "plain_type a" "plain_bindings bindings"
  shows "bindings \<subseteq>\<^sub>m held \<and> plain_bindings held \<and> fitted a (TParameter name) held"
proof (cases "bindings name")
  case None
  then have held: "held = bindings(name \<mapsto> a)" using assms(1) by simp
  then have "fitted a (TParameter name) held"
    by (intro bound_fitted [of held name a]) (simp_all add: plain_equal [OF assms(2)])
  then show ?thesis using held None assms(2,3) by (auto simp: map_le_def plain_bindings_def)
next
  case (Some bound)
  then have plain: "plain_type bound" using assms(3) by (simp add: plain_bindings_def)
  then have "held = bindings" "assignable a bound"
    using assms(1,2) Some plain_not_parameter [of a] plain_not_parameter [of bound] by auto
  then show ?thesis
    using bound_fitted [of bindings name bound a] Some plain_assignable [OF assms(2) plain] assms(3) by simp
qed

lemma fitted_parts:
  "fitted a p b \<Longrightarrow> fitted (TList a) (TList p) b"
  "fitted a p b \<Longrightarrow> fitted (TOptional a) (TOptional p) b"
  "fitted k pk b \<Longrightarrow> fitted v pv b \<Longrightarrow> fitted (TMap k v) (TMap pk pv) b"
  by (auto simp: fitted_def)

lemma fitted_nominal:
  assumes "list_all2 (\<lambda>a p. fitted a p b) args pargs" "list_all generic_type pargs"
  shows "fitted (TNominal name base args held) (TNominal name pbase pargs pheld) b"
  using assms by (auto simp: fitted_def list_all2_conv_all_nth list_all_length)

lemma fits_plainly_fitted:
  assumes "fits_plainly allowDyn a p" "plain_type a" "\<not> is_parameter p"
    and apart: "\<And>x y. a = TList x \<Longrightarrow> p \<noteq> TList y" "\<And>x y. a = TOptional x \<Longrightarrow> p \<noteq> TOptional y"
      "\<And>k v pk pv. a = TMap k v \<Longrightarrow> p \<noteq> TMap pk pv"
      "\<And>n b as h pb ps ph. a = TNominal n b as h \<Longrightarrow> length ps = length as \<Longrightarrow> p \<noteq> TNominal n pb ps ph"
  shows "fitted a p b"
proof -
  have ok: "assignable a p" using assms(1,2) plain_not_parameter by (auto simp: fits_plainly_def)
  have "\<not> (\<exists>n b as h pb ps ph. a = TNominal n b as h \<and> p = TNominal n pb ps ph)"
  proof
    assume "\<exists>n b as h pb ps ph. a = TNominal n b as h \<and> p = TNominal n pb ps ph"
    then obtain n b as h pb ps ph where shapes: "a = TNominal n b as h" "p = TNominal n pb ps ph" by blast
    then have "length ps = length as" using ok list_all2_lengthD by fastforce
    then show False using apart(4) shapes by blast
  qed
  then have "substitute later p = p \<and> (generic_type p \<longrightarrow> typesEqual a p)" for later
    using assms(2,3) ok apart(1-3)
    by (cases a; cases p) (auto simp: assignable.simps)
  then show ?thesis using ok by (simp add: fitted_def)
qed

lemma generic_wanted: "generic_type t \<Longrightarrow> wanted_type t"
  by (induction t) auto

lemma fits_sound:
  "fits allowDyn a p bindings = (True, held) \<Longrightarrow> plain_type a \<Longrightarrow> wanted_type p \<Longrightarrow> plain_bindings bindings \<Longrightarrow>
     bindings \<subseteq>\<^sub>m held \<and> plain_bindings held \<and> fitted a p held"
  "fits_each allowDyn as ps bindings = (True, held) \<Longrightarrow> list_all plain_type as \<Longrightarrow> list_all wanted_type ps \<Longrightarrow>
     plain_bindings bindings \<Longrightarrow> length as = length ps \<Longrightarrow>
     bindings \<subseteq>\<^sub>m held \<and> plain_bindings held \<and> list_all2 (\<lambda>a p. fitted a p held) as ps"
proof (induction allowDyn a p bindings and allowDyn as ps bindings arbitrary: held and held rule: fits_fits_each.induct)
  case (1 allowDyn argument name bindings)
  then show ?case using bind_parameter_fitted by simp
next
  case (3 allowDyn k v pk pv bindings)
  obtain mid where mid: "fits allowDyn k pk bindings = (True, mid)" "fits allowDyn v pv mid = (True, held)"
    using "3.prems"(1) by (cases "fits allowDyn k pk bindings") (auto simp: Let_def split: if_splits)
  then show ?case
    using 3 fitted_later [of k pk mid held] map_le_trans [of bindings mid held] by (auto intro!: fitted_parts)
next
  case (5 allowDyn name base args h pname pbase pargs ph bindings)
  show ?case
  proof (cases "pname = name \<and> length pargs = length args")
    case True
    have each: "fits_each allowDyn args pargs bindings = (True, held)" using "5.prems"(1) True by simp
    have plain: "list_all plain_type args" "list_all generic_type pargs" "plain_bindings bindings"
      using "5.prems" by simp_all
    then have "list_all wanted_type pargs" by (auto simp: list_all_iff generic_wanted)
    with "5.IH" [OF True each plain(1) _ plain(3)] True
    have "bindings \<subseteq>\<^sub>m held \<and> plain_bindings held \<and> list_all2 (\<lambda>a p. fitted a p held) args pargs" by simp
    then show ?thesis using True fitted_nominal [OF _ plain(2)] by simp
  next
    case False
    then have plainly: "fits_plainly allowDyn (TNominal name base args h) (TNominal pname pbase pargs ph)"
      "held = bindings" using "5.prems"(1) by (auto split: if_splits)
    have "fitted (TNominal name base args h) (TNominal pname pbase pargs ph) held"
      by (rule fits_plainly_fitted [OF plainly(1)]) (use "5.prems" False in auto)
    then show ?thesis using plainly(2) "5.prems"(4) by simp
  qed
next
  case (7 allowDyn a as p ps bindings)
  obtain mid where mid: "fits allowDyn a p bindings = (True, mid)" "fits_each allowDyn as ps mid = (True, held)"
    using "7.prems"(1) by (cases "fits allowDyn a p bindings") (auto simp: Let_def split: if_splits)
  then show ?case
    using "7" fitted_later [of a p mid held] map_le_trans [of bindings mid held] by auto
qed (auto intro: fitted_parts fits_plainly_fitted)

lemma candidate_sound:
  assumes "candidate_fits allowDyn e args receiver = (True, held)" "list_all plain_type args"
    "\<forall>r \<in> set_option receiver. plain_type r" "receiver = None \<longleftrightarrow> signature_receiver (entry_signature e) = None"
    "list_all wanted_type (signature_parameters (entry_signature e))"
    "\<forall>w \<in> set_option (signature_receiver (entry_signature e)). wanted_type w"
  shows "list_all2 (\<lambda>a p. assignable a (substitute held p)) args (signature_parameters (entry_signature e)) \<and>
    rel_option (\<lambda>r w. assignable r (substitute held w)) receiver (signature_receiver (entry_signature e))"
proof -
  let ?s = "entry_signature e"
  have len: "length args = length (signature_parameters ?s)"
    using assms(1) by (simp add: candidate_fits_def Let_def split: if_splits)
  have empty: "plain_bindings Map.empty" by (simp add: plain_bindings_def)
  have now: "fitted a p held \<Longrightarrow> assignable a (substitute held p)" for a p by (simp add: fitted_def)
  have all: "list_all2 (\<lambda>a p. fitted a p held) as ps \<Longrightarrow> list_all2 (\<lambda>a p. assignable a (substitute held p)) as ps" for as ps
    by (erule list_all2_mono) (rule now)
  show ?thesis
  proof (cases "signature_receiver ?s")
    case None
    then have "fits_each allowDyn args (signature_parameters ?s) Map.empty = (True, held)" "receiver = None"
      using assms(1,4) len by (simp_all add: candidate_fits_def Let_def)
    then show ?thesis
      using fits_sound(2) [OF _ assms(2,5) empty len] None now all by auto
  next
    case (Some w)
    then obtain r where r: "receiver = Some r" using assms(4) by (cases receiver) auto
    obtain mid where mid: "fits allowDyn r w Map.empty = (True, mid)"
        "fits_each allowDyn args (signature_parameters ?s) mid = (True, held)"
      using assms(1) Some r len by (cases "fits allowDyn r w Map.empty")
        (auto simp: candidate_fits_def Let_def split: bool.splits)
    have first: "plain_bindings mid" "fitted r w mid"
      using fits_sound(1) [OF mid(1) _ _ empty] assms(3,6) r Some by auto
    have rest: "mid \<subseteq>\<^sub>m held" "list_all2 (\<lambda>a p. fitted a p held) args (signature_parameters ?s)"
      using fits_sound(2) [OF mid(2) assms(2,5) first(1) len] by auto
    then show ?thesis using Some r now fitted_later [OF first(2) rest(1)] all by auto
  qed
qed

lemma match_candidates_Some:
  "match_candidates allowDyn es args receiver = Some (e, returns) \<Longrightarrow>
     e \<in> set es \<and> (\<exists>held. candidate_fits allowDyn e args receiver = (True, held) \<and>
       returns = substitute held (signature_returns (entry_signature e)))"
  by (induction es) (auto split: prod.splits bool.splits)

lemma matchLoosely_Some:
  assumes "matchLoosely es args receiver = Some (e, returns)"
  shows "e \<in> set es \<and> (\<exists>held. candidate_fits True e args receiver = (True, held) \<and>
    (returns = substitute held (signature_returns (entry_signature e)) \<or> returns = TDyn))"
proof -
  let ?v = "List.map_filter (\<lambda>candidate. match_candidates True [candidate] args receiver) es"
  obtain first viable where v: "?v = first # viable" "e = fst first" "returns = snd first \<or> returns = TDyn"
    using assms by (auto simp: matchLoosely_def split: list.splits if_splits)
  then have "first \<in> set ?v" by simp
  then obtain c where "c \<in> set es" "match_candidates True [c] args receiver = Some first"
    by (auto simp: List.map_filter_def)
  then show ?thesis using match_candidates_Some [of True "[c]" args receiver "fst first" "snd first"] v by auto
qed

lemma resolve_Resolved:
  assumes "resolve byName name form args receiver = Resolved e returns"
  shows "e \<in> set (named byName name) \<and> signature_form (entry_signature e) = form \<and>
    (\<exists>allowDyn held. candidate_fits allowDyn e args receiver = (True, held) \<and>
      (returns = substitute held (signature_returns (entry_signature e)) \<or> returns = TDyn))"
proof -
  let ?in = "filter (\<lambda>e. signature_form (entry_signature e) = form) (named byName name)"
  let ?ar = "filter (\<lambda>e. length (signature_parameters (entry_signature e)) = length args) ?in"
  define viable where "viable = (if ?ar = [] then ?in else ?ar)"
  have sub: "set viable \<subseteq> set ?in" by (auto simp: viable_def)
  have "match_candidates False viable args receiver = Some (e, returns) \<or> matchLoosely viable args receiver = Some (e, returns)"
    using assms by (auto simp: resolve_def Let_def viable_def split: if_splits option.splits)
  then show ?thesis
    using match_candidates_Some [of False viable args receiver e returns] matchLoosely_Some [of viable args receiver e returns] sub
    by auto
qed

text \<open>C6. A call resolves to a registration of its name, form and number of arguments; and when the types of
  its arguments are known all through, every argument, and the value the call is written on, may stand where
  the signature wants one, under one reading of its type parameters, which is the reading its result is
  given under.\<close>

theorem resolved_call_is_typed:
  assumes "resolve byName name form args receiver = Resolved e returns"
    and "list_all plain_type args" "\<forall>r \<in> set_option receiver. plain_type r"
    and "receiver = None \<longleftrightarrow> signature_receiver (entry_signature e) = None"
    and "list_all wanted_type (signature_parameters (entry_signature e))"
    and "\<forall>w \<in> set_option (signature_receiver (entry_signature e)). wanted_type w"
  shows "e \<in> set (named byName name) \<and> signature_form (entry_signature e) = form \<and>
    (\<exists>held.
      list_all2 (\<lambda>a p. assignable a (substitute held p)) args (signature_parameters (entry_signature e)) \<and>
      rel_option (\<lambda>r w. assignable r (substitute held w)) receiver (signature_receiver (entry_signature e)) \<and>
      (returns = substitute held (signature_returns (entry_signature e)) \<or> returns = TDyn))"
  using resolve_Resolved [OF assms(1)] candidate_sound [OF _ assms(2-6)] by blast

definition no_metadata :: function_metadata where
  "no_metadata = \<lparr>meta_check = None, meta_deterministic = None, meta_host_backed = None, meta_throws = None\<rparr>"

text \<open>Two registrations to try the rules on: \<open>pick(list<T>, T): T\<close> and \<open>same(Holder<T>, Holder<T>): bool\<close>.\<close>

definition pick_signature :: cel_signature where
  "pick_signature = \<lparr>signature_name = js ''pick'', signature_form = GlobalForm, signature_receiver = None,
     signature_parameters = [TList (TParameter (js ''T'')), TParameter (js ''T'')],
     signature_returns = TParameter (js ''T'')\<rparr>"

definition holder :: "cel_type \<Rightarrow> cel_type" where
  "holder t = TNominal (js ''Holder'') TDyn [t] None"

definition same_signature :: cel_signature where
  "same_signature = \<lparr>signature_name = js ''same'', signature_form = GlobalForm, signature_receiver = None,
     signature_parameters = [holder (TParameter (js ''T'')), holder (TParameter (js ''T''))],
     signature_returns = BOOL\<rparr>"

definition entry_of :: "cel_signature \<Rightarrow> registered_function" where
  "entry_of s = \<lparr>entry_signature = s, entry_metadata = no_metadata\<rparr>"

definition sample_registry :: function_registry where
  "sample_registry = [(js ''pick'', [entry_of pick_signature]), (js ''same'', [entry_of same_signature])]"

lemmas sample_registry_defs = sample_registry_def entry_of_def pick_signature_def same_signature_def holder_def

lemmas resolve_defs = resolve_def named_def candidate_fits_def matchLoosely_def fits_plainly_def

theorem registry_is_a_map_of_calls_witness:
  "registry_ok sample_registry \<and>
   (case remove_function pick_signature sample_registry of (found, rest) \<Rightarrow>
      found \<and> answering rest (js ''pick'') (signatureKey pick_signature) = None \<and>
      answering rest (js ''same'') (signatureKey same_signature) = Some (entry_of same_signature))"
proof -
  have ok: "registry_ok sample_registry"
    by (auto simp: registry_ok_def sample_registry_defs signature_arity_def CALL_SITE_DIRECT_ARITY_def)
  have known: "answering sample_registry (js ''pick'') (signatureKey pick_signature) = Some (entry_of pick_signature)"
    "answering sample_registry (js ''same'') (signatureKey same_signature) = Some (entry_of same_signature)"
    by (simp_all add: answering_def named_def sample_registry_defs)
  have names: "signature_name pick_signature = js ''pick''" by (simp add: pick_signature_def)
  have "(case remove_function pick_signature sample_registry of (found, rest) \<Rightarrow>
      registry_ok rest \<and> found = (answering sample_registry (js ''pick'') (signatureKey pick_signature) \<noteq> None) \<and>
      answering rest = (\<lambda>name key. if name = js ''pick'' \<and> key = signatureKey pick_signature then None
        else answering sample_registry name key))"
    using registry_is_a_map_of_calls [OF ok, where s = pick_signature, THEN conjunct2, THEN conjunct1]
    unfolding names .
  then show ?thesis using ok known by (auto split: prod.splits)
qed

lemma sample_pick:
  "resolve sample_registry (js ''pick'') GlobalForm [TList (TPrimitive PInt), TPrimitive PInt] None =
     Resolved (entry_of pick_signature) (TPrimitive PInt)"
  by (simp add: resolve_defs sample_registry_defs)

theorem resolved_call_is_typed_witness:
  "\<exists>held. list_all2 (\<lambda>a p. assignable a (substitute held p)) [TList (TPrimitive PInt), TPrimitive PInt]
     (signature_parameters pick_signature)"
proof -
  have e: "entry_signature (entry_of pick_signature) = pick_signature" by (simp add: entry_of_def)
  have "list_all wanted_type (signature_parameters pick_signature)" "signature_receiver pick_signature = None"
    by (simp_all add: pick_signature_def)
  with resolved_call_is_typed [OF sample_pick] show ?thesis unfolding e by auto
qed

section \<open>Calls that resolve and are not typed\<close>

text \<open>
  The source calls the arguments of a named type invariant, so that types that differ in one are unrelated. A type
  parameter bound to \<open>dyn\<close> by one argument lets another through all the same. And an argument whose type
  is a union stands where a list of a parameter is wanted without binding the parameter, so a later argument
  decides it alone.
\<close>

lemma named_type_arguments_are_widened:
  "resolve sample_registry (js ''same'') GlobalForm [holder TDyn, holder (TPrimitive PInt)] None =
     Resolved (entry_of same_signature) BOOL"
  "\<not> assignable (holder (TPrimitive PInt)) (holder TDyn)"
  by (simp_all add: resolve_defs sample_registry_defs)

lemma union_argument_binds_nothing:
  "resolve sample_registry (js ''pick'') GlobalForm
     [TUnion [TList (TPrimitive PInt), TList (TPrimitive PUint)], STRING] None =
     Resolved (entry_of pick_signature) STRING"
  "\<not> assignable (TUnion [TList (TPrimitive PInt), TList (TPrimitive PUint)]) (TList STRING)"
  by (simp_all add: resolve_defs sample_registry_defs assignable.simps)

section \<open>The distance between names\<close>

fun edit_row :: "code_unit \<Rightarrow> jstring \<Rightarrow> nat list \<Rightarrow> nat \<Rightarrow> nat list" where
  "edit_row ch (t # ts) (diagonal # upper # previous) held =
     (let cell = min (min (diagonal + (if ch = t then 0 else 1)) (upper + 1)) (held + 1)
      in cell # edit_row ch ts (upper # previous) cell)"
| "edit_row ch _ _ held = []"

fun edit_rows :: "jstring \<Rightarrow> nat \<Rightarrow> jstring \<Rightarrow> nat list \<Rightarrow> nat list" where
  "edit_rows to_name left [] previous = previous"
| "edit_rows to_name left (ch # chs) previous =
     edit_rows to_name (left + 1) chs (left # edit_row ch to_name previous left)"

definition editDistance :: "jstring \<Rightarrow> jstring \<Rightarrow> nat" where
  "editDistance from_name to_name =
     last (edit_rows to_name 1 from_name [0..<length to_name + 1])"

text \<open>What is counted: single insertions, deletions and substitutions, anywhere.\<close>

inductive one_edit :: "jstring \<Rightarrow> jstring \<Rightarrow> bool" where
  insertion: "one_edit (u @ v) (u @ [c] @ v)"
| deletion: "one_edit (u @ [c] @ v) (u @ v)"
| substitution: "one_edit (u @ [c] @ v) (u @ [d] @ v)"

fun lev :: "jstring \<Rightarrow> jstring \<Rightarrow> nat" where
  "lev [] t = length t"
| "lev (a # s) [] = Suc (length s)"
| "lev (a # s) (b # t) =
     min (min (lev s t + (if a = b then 0 else 1)) (lev s (b # t) + 1)) (lev (a # s) t + 1)"

lemma lev_Nil [simp]: "lev s [] = length s"
  by (cases s) auto

lemma lev_self: "lev s s = 0"
  by (induction s) auto

abbreviation prefix_lev :: "jstring \<Rightarrow> jstring \<Rightarrow> nat" where
  "prefix_lev s t \<equiv> lev (rev s) (rev t)"

text \<open>One row of the table: the distances from a name to each prefix of the other that starts with what is done.\<close>

fun lev_row :: "jstring \<Rightarrow> jstring \<Rightarrow> jstring \<Rightarrow> nat list" where
  "lev_row s finished [] = [prefix_lev s finished]"
| "lev_row s finished (t # ts) = prefix_lev s finished # lev_row s (finished @ [t]) ts"

lemma lev_row_Cons: "lev_row s finished ts = prefix_lev s finished # tl (lev_row s finished ts)"
  by (cases ts) auto

lemma edit_row_is:
  "edit_row ch ts (lev_row s finished ts) (prefix_lev (s @ [ch]) finished) = tl (lev_row (s @ [ch]) finished ts)"
proof (induction ts arbitrary: finished)
  case (Cons t ts)
  let ?next = "prefix_lev (s @ [ch]) (finished @ [t])"
  have cell: "?next = min (min (prefix_lev s finished + (if ch = t then 0 else 1)) (prefix_lev s (finished @ [t]) + 1))
      (prefix_lev (s @ [ch]) finished + 1)"
    by simp
  have "edit_row ch (t # ts) (lev_row s finished (t # ts)) (prefix_lev (s @ [ch]) finished) =
      ?next # edit_row ch ts (lev_row s (finished @ [t]) ts) ?next"
    unfolding lev_row.simps by (subst (1 2) lev_row_Cons) (simp only: edit_row.simps Let_def cell)
  then show ?case using Cons [of "finished @ [t]"] lev_row_Cons [of "s @ [ch]" "finished @ [t]" ts] by simp
qed simp

lemma edit_rows_is:
  "edit_rows to_name (length s + 1) chs (lev_row s [] to_name) = lev_row (s @ chs) [] to_name"
proof (induction chs arbitrary: s)
  case (Cons ch chs)
  have "Suc (length s) # edit_row ch to_name (lev_row s [] to_name) (Suc (length s)) = lev_row (s @ [ch]) [] to_name"
    using edit_row_is [of ch to_name s "[]"] lev_row_Cons [of "s @ [ch]" "[]" to_name] by simp
  then show ?case using Cons [of "s @ [ch]"] by simp
qed simp

lemma first_row: "lev_row [] finished ts = [length finished..<length finished + length ts + 1]"
  by (induction ts arbitrary: finished) (simp_all add: upt_rec)

lemma last_row: "last (lev_row s finished ts) = prefix_lev s (finished @ ts)"
proof (induction ts arbitrary: finished)
  case (Cons t ts)
  have "lev_row s (finished @ [t]) ts \<noteq> []" by (cases ts) auto
  then show ?case using Cons [of "finished @ [t]"] by simp
qed simp

lemma editDistance_lev: "editDistance s t = prefix_lev s t"
  using edit_rows_is [of t "[]" s] first_row [of "[]" t] last_row [of s "[]" t] by (simp add: editDistance_def)

text \<open>The table's value can be reached, and no shorter sequence of edits reaches as far.\<close>

lemma one_edit_Cons: "one_edit s t \<Longrightarrow> one_edit (c # s) (c # t)"
proof (induction rule: one_edit.induct)
  case (insertion u v d)
  then show ?case using one_edit.insertion [of "c # u" v d] by simp
next
  case (deletion u d v)
  show ?case using one_edit.deletion [of "c # u" d v] by simp
next
  case (substitution u d v e)
  show ?case using one_edit.substitution [of "c # u" d v e] by simp
qed

lemma one_edit_rev: "one_edit s t \<Longrightarrow> one_edit (rev s) (rev t)"
proof (induction rule: one_edit.induct)
  case (insertion u v d)
  then show ?case using one_edit.insertion [of "rev v" "rev u" d] by simp
next
  case (deletion u d v)
  then show ?case using one_edit.deletion [of "rev v" d "rev u"] by simp
next
  case (substitution u d v e)
  then show ?case using one_edit.substitution [of "rev v" d "rev u" e] by simp
qed

lemma edits_map:
  assumes "\<And>s t. one_edit s t \<Longrightarrow> one_edit (f s) (f t)"
  shows "(one_edit ^^ n) s t \<Longrightarrow> (one_edit ^^ n) (f s) (f t)"
  by (induction n arbitrary: t) (use assms in \<open>auto simp: OO_def\<close>)

lemma edits_then: "(one_edit ^^ n) s t \<Longrightarrow> one_edit t u \<Longrightarrow> (one_edit ^^ Suc n) s u"
  by auto

lemma lev_reached: "(one_edit ^^ lev s t) s t"
proof (induction s t rule: lev.induct)
  case (1 t)
  show ?case
  proof (induction t rule: rev_induct)
    case (snoc c t)
    then show ?case using edits_then [OF _ one_edit.insertion [of t "[]" c]] by simp
  qed simp
next
  case (2 a s)
  have "(one_edit ^^ length u) u []" for u
  proof (induction u)
    case (Cons c u)
    then show ?case using relpowp_Suc_I2 [of one_edit "c # u" u "length u" "[]"] one_edit.deletion [of "[]" c u] by simp
  qed simp
  then show ?case by (metis length_Cons lev.simps(2))
next
  case (3 a s b t)
  have "(one_edit ^^ (lev s t + (if a = b then 0 else 1))) (a # s) (b # t)"
  proof -
    have same: "(one_edit ^^ lev s t) (a # s) (a # t)" using edits_map [of "\<lambda>x. a # x", OF one_edit_Cons 3(1)] .
    then show ?thesis using edits_then [OF same, of "b # t"] one_edit.substitution [of "[]" a t b] by auto
  qed
  moreover have "(one_edit ^^ (lev s (b # t) + 1)) (a # s) (b # t)"
    using relpowp_Suc_I2 [of one_edit "a # s" s "lev s (b # t)" "b # t"] one_edit.deletion [of "[]" a s] 3(2) by simp
  moreover have "(one_edit ^^ (lev (a # s) t + 1)) (a # s) (b # t)"
    using edits_then [OF 3(3), of "b # t"] one_edit.insertion [of "[]" t b] by simp
  ultimately show ?case by (auto simp: min_def)
qed

lemma lev_grows: "lev (a # s) t \<le> lev s t + 1"
  by (cases t) auto

lemma lev_drop: "lev s t \<le> lev s (c # t) + 1"
proof (induction s)
  case (Cons a s)
  then show ?case using lev_grows [of a s t] by auto
qed simp

lemma lev_context:
  "(\<And>s. lev s v' \<le> lev s v + 1) \<Longrightarrow> lev s (c # v') \<le> lev s (c # v) + 1"
proof (induction s)
  case Nil
  then show ?case using Nil [of "[]"] by simp
next
  case (Cons a s)
  have "lev s v' \<le> lev s v + 1" "lev (a # s) v' \<le> lev (a # s) v + 1" "lev s (c # v') \<le> lev s (c # v) + 1"
    using Cons.prems Cons.IH by blast+
  then show ?case by (auto simp: min_def simp del: lev.simps(1,2)) 
qed

lemma lev_append_context:
  "(\<And>s. lev s v' \<le> lev s v + 1) \<Longrightarrow> lev s (u @ v') \<le> lev s (u @ v) + 1"
proof (induction u arbitrary: s)
  case (Cons c u)
  from lev_context [of "u @ v'" "u @ v" s c] Cons show ?case by simp
qed simp

lemma lev_one_edit: "one_edit t u \<Longrightarrow> lev s u \<le> lev s t + 1"
proof (induction rule: one_edit.induct)
  case (insertion u v c)
  have "lev s (c # v) \<le> lev s v + 1" for s by (cases s) auto
  then show ?case using lev_append_context [of "c # v" v s u] by simp
next
  case (deletion u c v)
  then show ?case using lev_append_context [of v "c # v" s u] lev_drop by simp
next
  case (substitution u c v d)
  have "lev s (d # v) \<le> lev s (c # v) + 1" for s by (induction s) auto
  then show ?case using lev_append_context [of "d # v" "c # v" s u] by simp
qed

lemma lev_least: "(one_edit ^^ n) s t \<Longrightarrow> lev s t \<le> n"
proof (induction n arbitrary: t)
  case (Suc n)
  then obtain m where "(one_edit ^^ n) s m" "one_edit m t" by auto
  then show ?case using Suc.IH [of m] lev_one_edit [of m t s] by simp
qed (simp add: lev_self)

text \<open>C32. The distance between two names is the fewest insertions, deletions and substitutions of one code unit
  that turn the one into the other.\<close>

theorem editDistance_fewest_edits:
  "(one_edit ^^ editDistance s t) s t \<and> \<not> (\<exists>n < editDistance s t. (one_edit ^^ n) s t)"
proof -
  have "(one_edit ^^ editDistance s t) (rev (rev s)) (rev (rev t))"
    using edits_map [of rev, OF one_edit_rev lev_reached [of "rev s" "rev t"]] by (simp add: editDistance_lev)
  moreover have "editDistance s t \<le> n" if "(one_edit ^^ n) s t" for n
    using lev_least [OF edits_map [of rev, OF one_edit_rev that]] by (simp add: editDistance_lev)
  ultimately show ?thesis by (auto simp: leD)
qed

section \<open>Names a refused call is offered\<close>

definition offered :: "function_registry \<Rightarrow> jstring \<Rightarrow> call_form \<Rightarrow> nat \<Rightarrow> jstring \<Rightarrow> bool" where
  "offered byName wanted form arity name \<longleftrightarrow>
     name \<noteq> wanted \<and> isIdentifierSpelling name \<and> \<not> isReservedWord name \<and>
     list_ex (\<lambda>e. signature_form (entry_signature e) = form \<and>
       length (signature_parameters (entry_signature e)) = arity) (named byName name)"

text \<open>
  The order is the distance, then the code units of the name: the order of lists on the distance put before
  the name.
\<close>

definition candidateNames :: "function_registry \<Rightarrow> jstring \<Rightarrow> call_form \<Rightarrow> nat \<Rightarrow> jstring list" where
  "candidateNames byName wanted form arity =
     take UNKNOWN_FUNCTION_CANDIDATES
       (sort_key (\<lambda>name. editDistance wanted name # name)
         (filter (offered byName wanted form arity) (map fst byName)))"

text \<open>C31. A refused call is offered the nearest names that would accept it: registered, writable as a call, of
  the form and number of arguments written, at most five of them, in the order of distance and then of name,
  and no name left out comes before one that is offered.\<close>

theorem candidateNames_nearest:
  assumes "registry_ok byName"
  shows "let answer = candidateNames byName wanted form arity;
      able = {name \<in> fst ` set byName. offered byName wanted form arity name};
      rank = (\<lambda>name. editDistance wanted name # name)
    in set answer \<subseteq> able \<and> distinct answer \<and> length answer = min 5 (card able) \<and>
       sorted (map rank answer) \<and> (\<forall>name \<in> able - set answer. \<forall>m \<in> set answer. rank m < rank name)"
proof -
  let ?able = "filter (offered byName wanted form arity) (map fst byName)"
  let ?rank = "\<lambda>name. editDistance wanted name # name"
  let ?all = "sort_key ?rank ?able"
  have dist: "distinct ?all" using assms by (simp add: registry_ok_def)
  have able: "set ?all = {name \<in> fst ` set byName. offered byName wanted form arity name}" by auto
  have ordered: "sorted (map ?rank (take 5 ?all @ drop 5 ?all))" by (simp only: append_take_drop_id sorted_sort_key)
  have before: "?rank m < ?rank name" if "name \<in> set ?all - set (take 5 ?all)" "m \<in> set (take 5 ?all)" for name m
  proof -
    have "name \<in> set (drop 5 ?all)" using that(1) set_append [of "take 5 ?all" "drop 5 ?all"] unfolding append_take_drop_id by blast
    then have "?rank m \<le> ?rank name" using ordered that(2) unfolding map_append sorted_append set_map by blast
    moreover have "name \<noteq> m" using that by blast
    ultimately show ?thesis by (simp add: order_less_le)
  qed
  have "card (set ?all) = length ?all" using dist by (rule distinct_card)
  then have "length (take 5 ?all) = min 5 (card (set ?all))" by simp
  moreover have "set (take 5 ?all) \<subseteq> set ?all" by (rule set_take_subset)
  moreover have "distinct (take 5 ?all)" using dist by (rule distinct_take)
  moreover have "sorted (map ?rank (take 5 ?all))" using ordered by (simp only: map_append sorted_append)
  ultimately show ?thesis
    using before unfolding Let_def candidateNames_def UNKNOWN_FUNCTION_CANDIDATES_def able [symmetric] by blast
qed

theorem candidateNames_nearest_witness:
  "sorted (map (\<lambda>name. editDistance (js ''pic'') name # name) (candidateNames sample_registry (js ''pic'') GlobalForm 2))"
proof -
  have "registry_ok sample_registry"
    by (auto simp: registry_ok_def sample_registry_defs signature_arity_def CALL_SITE_DIRECT_ARITY_def)
  from candidateNames_nearest [OF this, of "js ''pic''" GlobalForm 2] show ?thesis unfolding Let_def by blast
qed

end
