(* ===== verification/Cel_Checker.thy ===== *)
theory Cel_Checker
  imports Cel_Registry Cel_Names
begin

text \<open>
  The type checker (\<open>cel/nodejs/src/checker.ts\<close>) with the typing and the shape of the macros
  (\<open>macro-check.ts\<close>, \<open>macro-shape.ts\<close>), the split of a dotted name over the declared ones
  (\<open>declared-chain.ts\<close>) and what a guard proves not null (\<open>nullable-access.ts\<close>).

  The walk carries the diagnostics and the calls found so far. The names bound around a node and the chains
  proven not null there, which the code restores after each subexpression, are arguments. A diagnostic is its
  code, its range and the alternatives its message lists: the declared names, the members a type has, the
  signatures of a name, the nearest registered names. The rest of its wording and its repair are left out. The
  walk says which alternatives a message asks for, and they are listed from the environment when the check
  answers, which no step of a check changes. One thing can make the walk throw: the
  table of the macros written on a namespace is an object literal, and a call written on a name every
  object inherits finds a function there where it expects a list.
\<close>

section \<open>What a walk answers\<close>

datatype check_code =
    CEL_SYNTAX_ERROR | CEL_TYPE_ERROR | CEL_UNKNOWN_IDENTIFIER | CEL_UNKNOWN_FIELD
  | CEL_UNKNOWN_FUNCTION | CEL_WRONG_CALL_FORM | CEL_TYPE_ARGUMENT_MISMATCH | CEL_NULLABLE_ACCESS
  | CEL_INVALID_ARGUMENT | FUNCTION_UNRESOLVED | FUNCTION_ARITY_MISMATCH | FUNCTION_ARGUMENT_MISMATCH

record resolved_call =
  call_name :: jstring
  call_written :: call_form
  call_namespace :: "jstring option"
  call_arity :: nat
  call_range :: source_range
  call_signature :: "jstring option"
  call_returns :: "jstring option"
  call_deterministic :: "bool option"
  call_host_backed :: "bool option"
  call_throws :: "jstring list option"
  call_argument_types :: "jstring list option"

record namespace_function =
  ns_returns :: cel_type
  ns_parameters :: "cel_type list option"
  ns_signature :: "jstring option"
  ns_unregistered :: "jstring list"
  ns_deterministic :: "bool option"
  ns_host_backed :: "bool option"
  ns_throws :: "jstring list option"

record checker_context =
  the_registry :: function_registry
  the_variable :: "jstring \<Rightarrow> cel_type option"
  declaredVariableNames :: "jstring list"
  the_namespaceFunction :: "jstring \<Rightarrow> jstring \<Rightarrow> namespace_function option"
  the_namespaceIsOpen :: "jstring \<Rightarrow> bool"
  unlistedVariablesAreDyn :: bool
  homogeneousAggregateLiterals :: bool
  enableOptionalTypes :: bool

text \<open>The scopes, the innermost first, and the chains proven not null.\<close>

record check_scope =
  scopes :: "(jstring \<times> cel_type) list list"
  proven :: "jstring list"

text \<open>
  The alternatives a message lists: none, ones the walk has at hand, or the registered names nearest to a call.
  The message of an unknown identifier always lists the declared names.
\<close>

datatype alternatives = NoAlternatives | Alternatives "jstring list" | ClosestTo jstring call_form nat

type_synonym finding = "check_code \<times> source_range \<times> alternatives"

type_synonym check_diagnostic = "check_code \<times> source_range \<times> jstring list"

record check_state =
  diagnostics :: "finding list"
  calls :: "resolved_call list"

datatype host_crash = NotAFunction

type_synonym 'a check = "check_state \<Rightarrow> host_crash + 'a \<times> check_state"

definition answer :: "'a \<Rightarrow> 'a check" where
  "answer a = (\<lambda>s. Inr (a, s))"

definition then_check :: "'a check \<Rightarrow> ('a \<Rightarrow> 'b check) \<Rightarrow> 'b check" where
  "then_check m f = (\<lambda>s. case m s of Inl e \<Rightarrow> Inl e | Inr (a, s') \<Rightarrow> f a s')"

definition thrown :: "'a check" where
  "thrown = (\<lambda>s. Inl NotAFunction)"

definition add_listing :: "check_code \<Rightarrow> source_range \<Rightarrow> alternatives \<Rightarrow> unit check" where
  "add_listing cd rg listed = (\<lambda>s. Inr ((), s\<lparr>diagnostics := diagnostics s @ [(cd, rg, listed)]\<rparr>))"

definition add_finding :: "check_code \<Rightarrow> source_range \<Rightarrow> unit check" where
  "add_finding cd rg = add_listing cd rg NoAlternatives"

definition add_when :: "bool \<Rightarrow> check_code \<Rightarrow> source_range \<Rightarrow> unit check" where
  "add_when condition cd rg = (if condition then add_finding cd rg else answer ())"

definition push_call :: "resolved_call \<Rightarrow> unit check" where
  "push_call call = (\<lambda>s. Inr ((), s\<lparr>calls := calls s @ [call]\<rparr>))"

fun check_each :: "('a \<Rightarrow> 'b check) \<Rightarrow> 'a list \<Rightarrow> 'b list check" where
  "check_each f [] = answer []"
| "check_each f (x # xs) = then_check (f x) (\<lambda>y. then_check (check_each f xs) (\<lambda>ys. answer (y # ys)))"

lemma check_each_cong [fundef_cong]:
  "xs = ys \<Longrightarrow> (\<And>x. x \<in> set ys \<Longrightarrow> f x = g x) \<Longrightarrow> check_each f xs = check_each g ys"
  by (induction ys arbitrary: xs) auto

section \<open>Chains and proofs\<close>

fun chainText :: "node \<Rightarrow> jstring option" where
  "chainText (NIdent name _ _) = Some name"
| "chainText (NSelect operand field _ optional _ _) =
     (if optional \<or> field = [] then None else map_option (\<lambda>chain. chain @ 46 # field) (chainText operand))"
| "chainText _ = None"

fun chainRoot :: "node \<Rightarrow> jstring option" where
  "chainRoot (NIdent name _ _) = Some name"
| "chainRoot (NSelect operand field _ optional _ _) =
     (if optional \<or> field = [] then None else chainRoot operand)"
| "chainRoot _ = None"

fun isNullLiteral :: "node \<Rightarrow> bool" where
  "isNullLiteral (NLiteral LNull _) = True"
| "isNullLiteral _ = False"

definition nullTest :: "node \<Rightarrow> node \<Rightarrow> jstring list" where
  "nullTest left right =
     (if isNullLiteral right then (case chainText left of None \<Rightarrow> [] | Some chain \<Rightarrow> [chain])
      else if isNullLiteral left then (case chainText right of None \<Rightarrow> [] | Some chain \<Rightarrow> [chain])
      else [])"

fun provenWhereTrue :: "node \<Rightarrow> jstring list"
  and provenWhereFalse :: "node \<Rightarrow> jstring list" where
  "provenWhereTrue (NBinary OpNe left right _) = nullTest left right"
| "provenWhereTrue (NBinary OpAnd left right _) = provenWhereTrue left @ provenWhereTrue right"
| "provenWhereTrue (NUnary OpNot operand _) = provenWhereFalse operand"
| "provenWhereTrue _ = []"
| "provenWhereFalse (NBinary OpEq left right _) = nullTest left right"
| "provenWhereFalse (NBinary OpOr left right _) = provenWhereFalse left @ provenWhereFalse right"
| "provenWhereFalse (NUnary OpNot operand _) = provenWhereTrue operand"
| "provenWhereFalse _ = []"

text \<open>The dotted path of plain members a node spells: its root, whether that is absolute, and its segments.\<close>

fun plainChain :: "node \<Rightarrow> (jstring \<times> bool \<times> (jstring \<times> source_range) list) option" where
  "plainChain (NIdent name absolute rg) = Some (name, absolute, [(name, rg)])"
| "plainChain (NSelect operand field fieldRange optional _ _) =
     (if optional \<or> field = [] then None
      else map_option (\<lambda>(top_name, absolute, segments). (top_name, absolute, segments @ [(field, fieldRange)]))
        (plainChain operand))"
| "plainChain _ = None"

text \<open>The longest declared prefix of a chain and what is left of it, tried from the whole chain down.\<close>

fun split_at_length :: "nat \<Rightarrow> jstring list \<Rightarrow> (jstring \<Rightarrow> bool) \<Rightarrow> (jstring \<times> jstring list) option" where
  "split_at_length 0 segments declared = None"
| "split_at_length (Suc n) segments declared =
     (let name = join_with 46 (take (Suc n) segments)
      in if declared name then Some (name, drop (Suc n) segments) else split_at_length n segments declared)"

definition splitDeclaredChain :: "jstring list \<Rightarrow> (jstring \<Rightarrow> bool) \<Rightarrow> (jstring \<times> jstring list) option" where
  "splitDeclaredChain segments declared = split_at_length (length segments) segments declared"

section \<open>Members and elements\<close>

definition isBound :: "check_scope \<Rightarrow> jstring \<Rightarrow> bool" where
  "isBound env name \<longleftrightarrow> list_ex (\<lambda>scope. name \<in> fst ` set scope) (scopes env)"

fun bound_type :: "(jstring \<times> cel_type) list list \<Rightarrow> jstring \<Rightarrow> cel_type option" where
  "bound_type [] name = None"
| "bound_type (scope # outer) name =
     (case map_of scope name of Some t \<Rightarrow> Some t | None \<Rightarrow> bound_type outer name)"

fun holdsMembers :: "cel_type \<Rightarrow> bool" where
  "holdsMembers TDyn = True"
| "holdsMembers (TParameter _) = True"
| "holdsMembers (TRecord _ _ _) = True"
| "holdsMembers (TMap _ _) = True"
| "holdsMembers (TNominal _ _ _ held) = (held \<noteq> None)"
| "holdsMembers (TOptional v) = holdsMembers v"
| "holdsMembers (TUnion members) = list_ex holdsMembers members"
| "holdsMembers _ = False"

fun holdsElements :: "cel_type \<Rightarrow> bool" where
  "holdsElements TDyn = True"
| "holdsElements (TParameter _) = True"
| "holdsElements (TRecord _ _ _) = True"
| "holdsElements (TMap _ _) = True"
| "holdsElements (TList _) = True"
| "holdsElements (TNominal _ _ _ held) = (held \<noteq> None)"
| "holdsElements (TOptional v) = holdsElements v"
| "holdsElements (TUnion members) = list_ex holdsElements members"
| "holdsElements _ = False"

definition presenceBranches :: "cel_type list \<Rightarrow> (cel_type \<Rightarrow> bool) \<Rightarrow> bool \<Rightarrow> cel_type list" where
  "presenceBranches members holds presence =
     (if \<not> presence then members
      else let holding = filter holds members in if holding = [] then members else holding)"

lemma presenceBranches_members: "set (presenceBranches members holds presence) \<subseteq> set members"
  by (auto simp: presenceBranches_def Let_def)

fun unwrapOptional :: "cel_type \<Rightarrow> cel_type" where
  "unwrapOptional (TOptional v) = unwrapOptional v"
| "unwrapOptional t = t"

definition field_of ::
  "(jstring \<times> cel_type) list \<Rightarrow> bool \<Rightarrow> jstring \<Rightarrow> source_range \<Rightarrow> cel_type check" where
  "field_of held opened field rg =
     (case map_of held field of
        Some t \<Rightarrow> answer t
      | None \<Rightarrow>
          if opened then answer TDyn
          else then_check (add_listing CEL_UNKNOWN_FIELD rg (Alternatives (map fst held))) (\<lambda>_. answer TDyn))"

function memberType :: "cel_type \<Rightarrow> jstring \<Rightarrow> source_range \<Rightarrow> bool \<Rightarrow> cel_type check" where
  "memberType TDyn field rg presence = answer TDyn"
| "memberType (TParameter _) field rg presence = answer TDyn"
| "memberType (TOptional v) field rg presence = memberType v field rg presence"
| "memberType (TUnion members) field rg presence =
     then_check (check_each (\<lambda>member. memberType member field rg presence)
       (presenceBranches members holdsMembers presence)) (\<lambda>types. answer (unionOf types))"
| "memberType (TRecord _ held opened) field rg presence = field_of held opened field rg"
| "memberType (TNominal _ _ _ (Some held)) field rg presence = field_of held False field rg"
| "memberType (TMap key v) field rg presence =
     (if \<not> assignable STRING key then then_check (add_finding CEL_TYPE_ERROR rg) (\<lambda>_. answer TDyn)
      else answer v)"
| "memberType (TNominal _ _ _ None) field rg presence =
     then_check (add_finding CEL_TYPE_ERROR rg) (\<lambda>_. answer TDyn)"
| "memberType (TPrimitive _) field rg presence =
     then_check (add_finding CEL_TYPE_ERROR rg) (\<lambda>_. answer TDyn)"
| "memberType (TList _) field rg presence =
     then_check (add_finding CEL_TYPE_ERROR rg) (\<lambda>_. answer TDyn)"
  by pat_completeness auto
termination
  by (relation "measure (\<lambda>(t, _). size t)")
    (auto simp: less_Suc_eq_le dest!: subsetD [OF presenceBranches_members] intro: size_list_mem)

text \<open>The name an index spells, where it is written as a string.\<close>

fun literal_name :: "node \<Rightarrow> jstring option" where
  "literal_name (NLiteral (LString name) _) = Some name"
| "literal_name _ = None"

function elementType :: "cel_type \<Rightarrow> cel_type \<Rightarrow> node \<Rightarrow> source_range \<Rightarrow> bool \<Rightarrow> cel_type check" where
  "elementType TDyn index at_node rg presence = answer TDyn"
| "elementType (TParameter _) index at_node rg presence = answer TDyn"
| "elementType (TOptional v) index at_node rg presence = elementType v index at_node rg presence"
| "elementType (TUnion members) index at_node rg presence =
     then_check (check_each (\<lambda>member. elementType member index at_node rg presence)
       (presenceBranches members holdsElements presence)) (\<lambda>types. answer (unionOf types))"
| "elementType (TList element) index at_node rg presence =
     then_check (add_when (\<not> assignable index (TPrimitive PInt) \<and> \<not> isDyn index) CEL_TYPE_ERROR (range_of at_node))
       (\<lambda>_. answer element)"
| "elementType (TMap key v) index at_node rg presence =
     then_check (add_when (\<not> assignable index key \<and> \<not> isDyn index) CEL_TYPE_ERROR (range_of at_node))
       (\<lambda>_. answer v)"
| "elementType (TRecord _ held opened) index at_node rg presence =
     (case literal_name at_node of
        Some name \<Rightarrow> field_of held opened name (range_of at_node)
      | None \<Rightarrow> answer TDyn)"
| "elementType (TNominal _ _ _ (Some held)) index at_node rg presence =
     (case literal_name at_node of
        Some name \<Rightarrow> field_of held False name (range_of at_node)
      | None \<Rightarrow>
          then_check (add_when (\<not> assignable index STRING \<and> \<not> isDyn index) CEL_TYPE_ERROR (range_of at_node))
            (\<lambda>_. answer TDyn))"
| "elementType (TNominal _ _ _ None) index at_node rg presence =
     then_check (add_finding CEL_TYPE_ERROR rg) (\<lambda>_. answer TDyn)"
| "elementType (TPrimitive _) index at_node rg presence =
     then_check (add_finding CEL_TYPE_ERROR rg) (\<lambda>_. answer TDyn)"
  by pat_completeness auto
termination
  by (relation "measure (\<lambda>(t, _). size t)")
    (auto simp: less_Suc_eq_le dest!: subsetD [OF presenceBranches_members] intro: size_list_mem)

text \<open>A read of a value that may be null, where nothing proves it is not.\<close>

definition checkNullable ::
  "check_scope \<Rightarrow> node \<Rightarrow> cel_type \<Rightarrow> source_range \<Rightarrow> cel_type check" where
  "checkNullable env operand t rg =
     (if \<not> admitsNull t then answer t
      else case chainText operand of
          None \<Rightarrow> answer (withoutNull t)
        | Some chain \<Rightarrow>
            if chain \<in> set (proven env) then answer (withoutNull t)
            else if (case chainRoot operand of Some top_name \<Rightarrow> isBound env top_name | None \<Rightarrow> False)
              then answer (withoutNull t)
            else (case t of
                TPrimitive _ \<Rightarrow> then_check (add_finding CEL_TYPE_ERROR rg) (\<lambda>_. answer TDyn)
              | _ \<Rightarrow> then_check (add_finding CEL_NULLABLE_ACCESS rg) (\<lambda>_. answer (withoutNull t))))"

fun members_of :: "cel_type \<Rightarrow> (jstring \<times> source_range) list \<Rightarrow> cel_type check" where
  "members_of held [] = answer held"
| "members_of held ((name, rg) # segments) =
     then_check (memberType held name rg False) (\<lambda>t. members_of t segments)"

text \<open>A dotted declaration is one name; \<open>None\<close> where the chain is read member by member.\<close>

definition qualifiedVariableType :: "checker_context \<Rightarrow> check_scope \<Rightarrow> node \<Rightarrow> cel_type check option" where
  "qualifiedVariableType c env node =
     (case plainChain node of
        None \<Rightarrow> None
      | Some (top_name, absolute, segments) \<Rightarrow>
          if \<not> absolute \<and> isBound env top_name then None
          else case splitDeclaredChain (map fst segments) (\<lambda>name. the_variable c name \<noteq> None) of
              None \<Rightarrow> None
            | Some (name, rest) \<Rightarrow>
                if length rest = length segments - 1 then None
                else Some (members_of (the (the_variable c name)) (drop (length segments - length rest) segments)))"

definition selectType ::
  "checker_context \<Rightarrow> check_scope \<Rightarrow> node \<Rightarrow> node \<Rightarrow> jstring \<Rightarrow> source_range \<Rightarrow> bool \<Rightarrow> bool \<Rightarrow>
     cel_type check \<Rightarrow> cel_type check" where
  "selectType c env node operand field fieldRange optional presence type_of_operand =
     (case qualifiedVariableType c env node of
        Some qualified \<Rightarrow> qualified
      | None \<Rightarrow>
          then_check type_of_operand (\<lambda>t.
            if field = [] then answer TDyn
            else then_check (checkNullable env operand t fieldRange) (\<lambda>guarded.
              then_check (memberType guarded field fieldRange presence) (\<lambda>held.
                answer (if optional \<or> (case guarded of TOptional _ \<Rightarrow> True | _ \<Rightarrow> False)
                        then TOptional (unwrapOptional held) else held)))))"

section \<open>Calls\<close>

definition sameArguments :: "cel_type list \<Rightarrow> cel_type list \<Rightarrow> bool" where
  "sameArguments left right \<longleftrightarrow> list_all2 (\<lambda>a b. type_text a = type_text b) left right"

text \<open>Two named types of one name whose arguments differ, among those with no argument left open.\<close>

fun resolved_nominal :: "cel_type \<Rightarrow> (jstring \<times> cel_type list) option" where
  "resolved_nominal (TNominal name _ args _) = (if list_ex is_parameter args then None else Some (name, args))"
| "resolved_nominal _ = None"

fun clashing :: "(jstring \<times> cel_type list) list \<Rightarrow> bool" where
  "clashing [] = False"
| "clashing ((name, args) # rest) =
     (list_ex (\<lambda>(name', args'). name = name' \<and> \<not> sameArguments args args') rest \<or> clashing rest)"

definition typeArgumentMismatch :: "cel_type list \<Rightarrow> bool" where
  "typeArgumentMismatch types = clashing (List.map_filter resolved_nominal types)"

definition candidateTypes :: "registered_function list \<Rightarrow> cel_type list" where
  "candidateTypes candidates = concat (map (\<lambda>e.
     (case signature_receiver (entry_signature e) of Some r \<Rightarrow> [r] | None \<Rightarrow> []) @
     signature_parameters (entry_signature e)) candidates)"

fun isNullTest :: "cel_type list \<Rightarrow> bool" where
  "isNullTest [left, right] =
     (left = TPrimitive PNull \<and> admitsNull right \<or> right = TPrimitive PNull \<and> admitsNull left)"
| "isNullTest _ = False"

text \<open>The symbols operators are registered under.\<close>

fun unary_symbol :: "unary_op \<Rightarrow> jstring" where
  "unary_symbol OpNot = js ''!''"
| "unary_symbol OpMinus = js ''-''"

fun binary_symbol :: "binary_op \<Rightarrow> jstring" where
  "binary_symbol OpOr = js ''||''"
| "binary_symbol OpAnd = js ''&&''"
| "binary_symbol OpEq = js ''==''"
| "binary_symbol OpNe = js ''!=''"
| "binary_symbol OpLt = js ''<''"
| "binary_symbol OpLe = js ''<=''"
| "binary_symbol OpGt = js ''>''"
| "binary_symbol OpGe = js ''>=''"
| "binary_symbol OpIn = js ''in''"
| "binary_symbol OpAdd = js ''+''"
| "binary_symbol OpSub = js ''-''"
| "binary_symbol OpMul = js ''*''"
| "binary_symbol OpDiv = js ''/''"
| "binary_symbol OpMod = js ''%''"

definition operatorType ::
  "checker_context \<Rightarrow> jstring \<Rightarrow> cel_type list \<Rightarrow> source_range \<Rightarrow> cel_type check" where
  "operatorType c symbol args rg =
     (if symbol \<in> {js ''=='', js ''!=''} \<and> isNullTest args then answer BOOL
      else case resolve (the_registry c) symbol GlobalForm args None of
          Resolved _ returns \<Rightarrow> answer returns
        | Unresolved _ candidates \<Rightarrow>
            then_check (add_finding (if typeArgumentMismatch (args @ candidateTypes candidates)
                then CEL_TYPE_ARGUMENT_MISMATCH else CEL_TYPE_ERROR) rg)
              (\<lambda>_. answer TDyn))"

definition dispatched ::
  "jstring \<Rightarrow> call_form \<Rightarrow> nat \<Rightarrow> source_range \<Rightarrow> registered_function \<Rightarrow> cel_type \<Rightarrow> resolved_call" where
  "dispatched name form arity rg resolved returns =
     (let metadata = entry_metadata resolved
      in \<lparr>call_name = name, call_written = form, call_namespace = None, call_arity = arity, call_range = rg,
          call_signature = Some (formatSignature (entry_signature resolved)),
          call_returns = Some (type_text (withoutParameters returns)),
          call_deterministic = Some (case meta_deterministic metadata of Some d \<Rightarrow> d | None \<Rightarrow> True),
          call_host_backed = Some (case meta_host_backed metadata of Some h \<Rightarrow> h | None \<Rightarrow> False),
          call_throws = meta_throws metadata, call_argument_types = None\<rparr>)"

fun literal_of :: "node \<Rightarrow> cel_value option" where
  "literal_of (NLiteral l _) = Some (literalValue l)"
| "literal_of _ = None"

definition checkLiteralArguments :: "node list \<Rightarrow> source_range \<Rightarrow> registered_function \<Rightarrow> unit check" where
  "checkLiteralArguments written rg resolved =
     (case meta_check (entry_metadata resolved) of
        None \<Rightarrow> answer ()
      | Some guard \<Rightarrow> add_when (guard (map literal_of written) \<noteq> None) CEL_INVALID_ARGUMENT rg)"

fun failure_code :: "failure_reason \<Rightarrow> bool \<Rightarrow> check_code" where
  "failure_code FunctionUnknown _ = CEL_UNKNOWN_FUNCTION"
| "failure_code WrongForm _ = CEL_WRONG_CALL_FORM"
| "failure_code NoOverload mismatch = (if mismatch then CEL_TYPE_ARGUMENT_MISMATCH else CEL_TYPE_ERROR)"

text \<open>
  What the refusal of a call offers: the nearest names where its own is not registered, the signatures looked at
  where one is, nothing where two named types differ in their arguments.
\<close>

fun failure_alternatives ::
  "failure_reason \<Rightarrow> bool \<Rightarrow> registered_function list \<Rightarrow> jstring \<Rightarrow> call_form \<Rightarrow> nat \<Rightarrow> alternatives" where
  "failure_alternatives FunctionUnknown _ _ name form arity = ClosestTo name form arity"
| "failure_alternatives WrongForm _ candidates _ _ _ =
     Alternatives (map (\<lambda>e. formatSignature (entry_signature e)) candidates)"
| "failure_alternatives NoOverload mismatch candidates _ _ _ =
     (if mismatch then NoAlternatives
      else Alternatives (map (\<lambda>e. formatSignature (entry_signature e)) candidates))"

text \<open>A call that is no macro, its receiver and arguments typed; \<open>written\<close> is all of them as written.\<close>

definition plainCallType ::
  "checker_context \<Rightarrow> jstring \<Rightarrow> call_form \<Rightarrow> node list \<Rightarrow> source_range \<Rightarrow>
     cel_type option \<Rightarrow> cel_type list \<Rightarrow> cel_type check" where
  "plainCallType c name form written rg receiver args =
     (case resolve (the_registry c) name form args receiver of
        Resolved e returns \<Rightarrow>
          then_check (push_call (dispatched name form (length args) rg e returns)) (\<lambda>_.
          then_check (checkLiteralArguments written rg e) (\<lambda>_. answer returns))
      | Unresolved reason candidates \<Rightarrow>
          then_check (push_call \<lparr>call_name = name, call_written = form, call_namespace = None,
            call_arity = length args, call_range = rg, call_signature = None, call_returns = None,
            call_deterministic = None, call_host_backed = None, call_throws = None,
            call_argument_types = None\<rparr>) (\<lambda>_.
            let mismatch = typeArgumentMismatch
              ((case receiver of Some r \<Rightarrow> [r] | None \<Rightarrow> []) @ args @ candidateTypes candidates)
            in then_check (add_listing (failure_code reason mismatch) rg
                 (failure_alternatives reason mismatch candidates name form (length args)))
               (\<lambda>_. answer TDyn)))"

fun check_arguments :: "(cel_type \<times> node) list \<Rightarrow> cel_type list \<Rightarrow> unit check" where
  "check_arguments ((argument, at_node) # args) (wanted # parameters) =
     then_check (add_when (\<not> assignable argument wanted)
         (if typeArgumentMismatch [argument, wanted] then CEL_TYPE_ARGUMENT_MISMATCH else FUNCTION_ARGUMENT_MISMATCH)
         (range_of at_node))
       (\<lambda>_. check_arguments args parameters)"
| "check_arguments _ _ = answer ()"

definition qualifiedCallType ::
  "checker_context \<Rightarrow> jstring \<Rightarrow> jstring \<Rightarrow> node list \<Rightarrow> source_range \<Rightarrow> cel_type list \<Rightarrow> cel_type check" where
  "qualifiedCallType c namespace name nodes rg args =
     (let call = \<lparr>call_name = namespace @ 46 # name, call_written = ReceiverForm,
            call_namespace = Some namespace, call_arity = length args, call_range = rg,
            call_signature = None, call_returns = None, call_deterministic = None, call_host_backed = None,
            call_throws = None,
            call_argument_types = Some (map (\<lambda>t. type_text (withoutParameters t)) args)\<rparr>
      in case the_namespaceFunction c namespace name of
        None \<Rightarrow>
          then_check (push_call call) (\<lambda>_.
            if the_namespaceIsOpen c namespace then answer TDyn
            else then_check (add_finding FUNCTION_UNRESOLVED rg) (\<lambda>_. answer TDyn))
      | Some declared \<Rightarrow>
          then_check (push_call (call\<lparr>call_signature := ns_signature declared,
              call_returns := Some (type_text (withoutParameters (ns_returns declared))),
              call_deterministic := Some (case ns_deterministic declared of Some d \<Rightarrow> d | None \<Rightarrow> True),
              call_host_backed := Some (case ns_host_backed declared of Some h \<Rightarrow> h | None \<Rightarrow> False),
              call_throws := ns_throws declared\<rparr>)) (\<lambda>_.
          then_check (if ns_unregistered declared = [] then answer ()
            else add_listing CEL_TYPE_ERROR rg (Alternatives (ns_unregistered declared))) (\<lambda>_.
            case ns_parameters declared of
              None \<Rightarrow> answer (ns_returns declared)
            | Some parameters \<Rightarrow>
                if length args \<noteq> length parameters
                then then_check (add_finding FUNCTION_ARITY_MISMATCH rg) (\<lambda>_. answer (ns_returns declared))
                else then_check (check_arguments (zip args nodes) parameters) (\<lambda>_. answer (ns_returns declared)))))"

section \<open>Macros\<close>

text \<open>What the table of namespace macros answers a name: its list, what the name inherits, or nothing.\<close>

datatype namespace_entry = MacroList "jstring list" | InheritedMember | NoEntry

definition namespace_entry_of :: "jstring \<Rightarrow> namespace_entry" where
  "namespace_entry_of name =
     (if name = js ''cel'' then MacroList [js ''bind'']
      else if name = js ''optional'' then MacroList [js ''of'', js ''none'', js ''ofNonZeroValue'']
      else if name \<in> set INHERITED_NAMES then InheritedMember else NoEntry)"

definition ident_entry :: "node \<Rightarrow> namespace_entry" where
  "ident_entry receiver = (case receiver of NIdent name _ _ \<Rightarrow> namespace_entry_of name | _ \<Rightarrow> NoEntry)"

text \<open>Whether a call on a value is a macro; \<open>None\<close> where asking throws.\<close>

definition isReceiverMacro :: "node \<Rightarrow> jstring \<Rightarrow> nat \<Rightarrow> bool option" where
  "isReceiverMacro receiver name arity =
     (if receiverMacroBinding name arity \<noteq> None then Some True
      else case ident_entry receiver of
          MacroList names \<Rightarrow> Some (name \<in> set names)
        | InheritedMember \<Rightarrow> None
        | NoEntry \<Rightarrow> Some False)"

definition isOptionalMacro :: "node \<Rightarrow> jstring \<Rightarrow> bool" where
  "isOptionalMacro receiver name \<longleftrightarrow>
     name = js ''optMap'' \<or> name = js ''optFlatMap'' \<or>
     (case receiver of NIdent rname _ _ \<Rightarrow> rname = js ''optional'' | _ \<Rightarrow> False)"

definition requireBool :: "cel_type \<Rightarrow> node \<Rightarrow> unit check" where
  "requireBool t at_node =
     add_when (\<not> (isDyn t \<or> is_parameter t \<or> t = BOOL)) CEL_TYPE_ERROR (range_of at_node)"

definition iterationType :: "cel_type \<Rightarrow> source_range \<Rightarrow> cel_type check" where
  "iterationType receiver rg =
     (case receiver of
        TDyn \<Rightarrow> answer TDyn
      | TParameter _ \<Rightarrow> answer TDyn
      | TList element \<Rightarrow> answer element
      | TMap key _ \<Rightarrow> answer key
      | TRecord _ _ _ \<Rightarrow> answer STRING
      | _ \<Rightarrow> then_check (add_finding CEL_TYPE_ERROR rg) (\<lambda>_. answer TDyn))"

text \<open>The element type is known and the scoped arguments are typed, each with its node.\<close>

definition comprehension_result :: "jstring \<Rightarrow> cel_type \<Rightarrow> (node \<times> cel_type) list \<Rightarrow> cel_type check" where
  "comprehension_result name element typed =
     (if name \<in> {js ''all'', js ''exists'', js ''exists_one''} then
        then_check (requireBool (snd (hd typed)) (fst (hd typed))) (\<lambda>_. answer BOOL)
      else if name = js ''filter'' then
        then_check (requireBool (snd (hd typed)) (fst (hd typed))) (\<lambda>_. answer (TList element))
      else then_check (if length typed = 2 then requireBool (snd (hd typed)) (fst (hd typed)) else answer ())
        (\<lambda>_. answer (TList (snd (last typed)))))"

definition scoped_nodes :: "comprehension_binding \<Rightarrow> node list \<Rightarrow> node list" where
  "scoped_nodes binding args = List.map_filter (at_index args) (scopedArguments binding)"

lemma scoped_nodes_members: "n \<in> set (scoped_nodes binding args) \<Longrightarrow> n \<in> set args"
  by (auto simp: scoped_nodes_def List.map_filter_def at_index_def split: if_splits)

definition with_name :: "check_scope \<Rightarrow> jstring \<Rightarrow> cel_type \<Rightarrow> check_scope" where
  "with_name env name t = env\<lparr>scopes := [(name, t)] # scopes env\<rparr>"

definition with_proofs :: "check_scope \<Rightarrow> jstring list \<Rightarrow> check_scope" where
  "with_proofs env proofs = env\<lparr>proven := proven env @ proofs\<rparr>"

section \<open>The walk\<close>

fun literalType :: "literal \<Rightarrow> cel_type" where
  "literalType (LInt _) = TPrimitive PInt"
| "literalType (LUint _) = TPrimitive PUint"
| "literalType (LDouble _) = TPrimitive PDouble"
| "literalType (LString _) = STRING"
| "literalType (LBytes _) = TPrimitive PBytes"
| "literalType (LBool _) = BOOL"
| "literalType LNull = TPrimitive PNull"

definition identType :: "checker_context \<Rightarrow> check_scope \<Rightarrow> jstring \<Rightarrow> bool \<Rightarrow> source_range \<Rightarrow> cel_type check" where
  "identType c env name absolute rg =
     (case (if absolute then None else bound_type (scopes env) name) of
        Some t \<Rightarrow> answer t
      | None \<Rightarrow>
          (case the_variable c name of
             Some t \<Rightarrow> answer t
           | None \<Rightarrow>
               if unlistedVariablesAreDyn c then answer TDyn
               else then_check (add_finding CEL_UNKNOWN_IDENTIFIER rg) (\<lambda>_. answer TDyn)))"

definition heldByOptional :: "cel_type \<Rightarrow> source_range \<Rightarrow> cel_type check" where
  "heldByOptional t rg =
     (case t of
        TOptional v \<Rightarrow> answer v
      | TDyn \<Rightarrow> answer TDyn
      | TParameter _ \<Rightarrow> answer TDyn
      | _ \<Rightarrow> then_check (add_finding CEL_TYPE_ERROR rg) (\<lambda>_. answer TDyn))"

fun reduce_types :: "bool \<Rightarrow> cel_type \<Rightarrow> (cel_type \<times> node) list \<Rightarrow> cel_type check" where
  "reduce_types homogeneous reduced [] = answer reduced"
| "reduce_types homogeneous reduced ((t, at_node) # rest) =
     (let joined = unify reduced t
      in then_check (add_when (homogeneous \<and> isDyn joined \<and> \<not> isDyn reduced \<and> \<not> isDyn t)
             CEL_TYPE_ERROR (range_of at_node))
           (\<lambda>_. reduce_types homogeneous joined rest))"

definition reduce_written :: "checker_context \<Rightarrow> cel_type list \<Rightarrow> node list \<Rightarrow> cel_type check" where
  "reduce_written c types nodes =
     reduce_types (homogeneousAggregateLiterals c) (hd types) (zip (tl types) (tl nodes))"

definition joinsBool :: "cel_type \<Rightarrow> source_range \<Rightarrow> unit check" where
  "joinsBool t rg = add_when (\<not> isDyn t \<and> \<not> assignable t BOOL) CEL_TYPE_ERROR rg"

definition optional_held :: "cel_type \<Rightarrow> source_range \<Rightarrow> cel_type check" where
  "optional_held receiver rg =
     (case receiver of
        TOptional v \<Rightarrow> answer v
      | _ \<Rightarrow> then_check (add_when (\<not> isDyn receiver \<and> \<not> is_parameter receiver) CEL_TYPE_ERROR rg)
            (\<lambda>_. answer TDyn))"

definition optional_result :: "jstring \<Rightarrow> cel_type \<Rightarrow> source_range \<Rightarrow> cel_type check" where
  "optional_result name result rg =
     (if name = js ''optMap'' then answer (TOptional result)
      else if (case result of TOptional _ \<Rightarrow> True | _ \<Rightarrow> isDyn result \<or> is_parameter result) then answer result
      else then_check (add_finding CEL_TYPE_ERROR rg) (\<lambda>_. answer (TOptional TDyn)))"

function typeOf :: "checker_context \<Rightarrow> check_scope \<Rightarrow> node \<Rightarrow> cel_type check" where
  "typeOf c env (NUnparsed _) = answer TDyn"
| "typeOf c env (NLiteral l _) = answer (literalType l)"
| "typeOf c env (NIdent name absolute rg) = identType c env name absolute rg"
| "typeOf c env (NList elements _) =
     (if elements = [] then answer (TList (TParameter (js ''T'')))
      else then_check (check_each (\<lambda>(value, optional).
               then_check (typeOf c env value) (\<lambda>t.
                 if optional then heldByOptional t (range_of value) else answer t)) elements) (\<lambda>types.
           then_check (reduce_written c types (map fst elements)) (\<lambda>t. answer (TList t))))"
| "typeOf c env (NMap entries _) =
     (if entries = [] then answer (TMap (TParameter (js ''K'')) (TParameter (js ''V'')))
      else then_check (check_each (\<lambda>(key, _, _). typeOf c env key) entries) (\<lambda>keys.
           then_check (check_each (\<lambda>(_, value, optional).
               then_check (typeOf c env value) (\<lambda>t.
                 if optional then heldByOptional t (range_of value) else answer t)) entries) (\<lambda>values.
           then_check (reduce_written c keys (map fst entries)) (\<lambda>key.
           then_check (reduce_written c values (map (fst \<circ> snd) entries)) (\<lambda>v. answer (TMap key v))))))"
| "typeOf c env (NSelect operand field fieldRange optional quoted rg) =
     selectType c env (NSelect operand field fieldRange optional quoted rg) operand field fieldRange
       optional optional (typeOf c env operand)"
| "typeOf c env (NIndex operand index optional rg) =
     then_check (typeOf c env operand) (\<lambda>t.
     then_check (typeOf c env index) (\<lambda>i.
     then_check (checkNullable env operand t rg) (\<lambda>guarded.
     then_check (elementType guarded i index rg optional) (\<lambda>held.
       answer (if optional \<or> (case guarded of TOptional _ \<Rightarrow> True | _ \<Rightarrow> False)
               then TOptional (unwrapOptional held) else held)))))"
| "typeOf c env (NUnary symbol operand rg) =
     then_check (typeOf c env operand) (\<lambda>t. operatorType c (unary_symbol symbol) [t] rg)"
| "typeOf c env (NBinary symbol left right rg) =
     (if symbol = OpAnd \<or> symbol = OpOr then
        then_check (typeOf c env left) (\<lambda>l.
        then_check (typeOf c (with_proofs env
            (if symbol = OpAnd then provenWhereTrue left else provenWhereFalse left)) right) (\<lambda>r.
        then_check (joinsBool l rg) (\<lambda>_.
        then_check (joinsBool r rg) (\<lambda>_. answer BOOL))))
      else
        then_check (typeOf c env left) (\<lambda>l.
        then_check (typeOf c env right) (\<lambda>r. operatorType c (binary_symbol symbol) [l, r] rg)))"
| "typeOf c env (NConditional condition whenTrue whenFalse rg) =
     then_check (typeOf c env condition) (\<lambda>t.
     then_check (joinsBool t (range_of condition)) (\<lambda>_.
     then_check (typeOf c (with_proofs env (provenWhereTrue condition)) whenTrue) (\<lambda>a.
     then_check (typeOf c (with_proofs env (provenWhereFalse condition)) whenFalse) (\<lambda>b.
       let unified = unify a b
       in then_check (add_when (isDyn unified \<and> \<not> isDyn a \<and> \<not> isDyn b) CEL_TYPE_ERROR rg)
            (\<lambda>_. answer unified)))))"
| "typeOf c env (NCall name _ args rg) =
     (if name = js ''has'' \<and> length args = 1 then
        (case args of
           [NSelect operand field fieldRange optional quoted r] \<Rightarrow>
             then_check (selectType c env (NSelect operand field fieldRange optional quoted r) operand field
                 fieldRange optional True (typeOf c env operand)) (\<lambda>_. answer BOOL)
         | _ \<Rightarrow> answer BOOL)
      else then_check (check_each (typeOf c env) args) (\<lambda>types.
             plainCallType c name GlobalForm args rg None types))"
| "typeOf c env (NReceiverCall receiver name _ args rg) =
     (case isReceiverMacro receiver name (length args) of
        None \<Rightarrow> thrown
      | Some False \<Rightarrow>
          then_check (typeOf c env receiver) (\<lambda>r.
          then_check (check_each (typeOf c env) args) (\<lambda>types.
            plainCallType c name ReceiverForm (receiver # args) rg (Some r) types))
      | Some True \<Rightarrow>
          if \<not> enableOptionalTypes c \<and> isOptionalMacro receiver name
          then then_check (add_finding CEL_UNKNOWN_FUNCTION rg) (\<lambda>_. answer TDyn)
          else if ident_entry receiver \<noteq> NoEntry then
            (if ident_entry receiver = namespace_entry_of (js ''cel'') then
               (case namespaceMacroBinding (js ''cel'') name (length args) of
                  None \<Rightarrow> then_check (add_finding CEL_INVALID_ARGUMENT rg) (\<lambda>_. answer TDyn)
                | Some _ \<Rightarrow>
                    (case args of
                       [NIdent variable _ _, value, body] \<Rightarrow>
                         then_check (typeOf c env value) (\<lambda>t. typeOf c (with_name env variable t) body)
                     | _ \<Rightarrow> answer TDyn))
             else if name = js ''none'' then
               then_check (add_when (args \<noteq> []) CEL_INVALID_ARGUMENT rg)
                 (\<lambda>_. answer (TOptional (TParameter (js ''T''))))
             else
               (case args of
                  [value] \<Rightarrow> then_check (typeOf c env value) (\<lambda>t. answer (TOptional t))
                | _ \<Rightarrow> then_check (add_finding CEL_INVALID_ARGUMENT rg) (\<lambda>_. answer (TOptional TDyn))))
          else if name \<in> {js ''optMap'', js ''optFlatMap''} \<and> length args = 2 then
            then_check (typeOf c env receiver) (\<lambda>r.
              (case args of
                 [NIdent variable _ _, body] \<Rightarrow>
                   then_check (optional_held r (range_of receiver)) (\<lambda>held.
                   then_check (typeOf c (with_name env variable held) body) (\<lambda>result.
                     optional_result name result (range_of body)))
               | _ \<Rightarrow> answer TDyn))
          else
            (case receiverMacroBinding name (length args) of
               None \<Rightarrow> answer TDyn
             | Some binding \<Rightarrow>
                 then_check (typeOf c env receiver) (\<lambda>r.
                 then_check (iterationType r (range_of receiver)) (\<lambda>element.
                   (case at_index args (variableArgument binding) of
                      Some (NIdent variable _ _) \<Rightarrow>
                        then_check (check_each (typeOf c (with_name env variable element)) (scoped_nodes binding args))
                          (\<lambda>types. comprehension_result name element (zip (scoped_nodes binding args) types))
                    | _ \<Rightarrow> answer TDyn)))))"
| "typeOf c env (NQCall namespace _ name _ args rg) =
     then_check (check_each (typeOf c env) args) (\<lambda>types. qualifiedCallType c namespace name args rg types)"
  by pat_completeness auto
termination
  by (relation "measure (\<lambda>(_, _, n). size n)")
    (auto simp: less_Suc_eq_le dest!: scoped_nodes_members dest: size_list_pair size_list_triple
      intro: trans_le_add1 trans_le_add2 size_list_mem)

section \<open>The shape of the macros\<close>

text \<open>What a call's own arguments say of it, before any type is read; the innermost call first.\<close>

definition shapeOf :: "node \<Rightarrow> (check_code \<times> source_range) list" where
  "shapeOf n =
     (case n of
        NCall name _ args _ \<Rightarrow>
          if name = js ''has'' \<and> length args = 1 then
            (case hd args of
               NSelect _ field _ _ _ _ \<Rightarrow> if field \<noteq> [] then [] else [(CEL_INVALID_ARGUMENT, range_of (hd args))]
             | argument \<Rightarrow> [(CEL_INVALID_ARGUMENT, range_of argument)])
          else []
      | NReceiverCall receiver name _ args _ \<Rightarrow>
          (case (case receiverMacroBinding name (length args) of
                   Some binding \<Rightarrow> Some binding
                 | None \<Rightarrow> namespaceMacroBinding
                     (case receiver of NIdent rname _ _ \<Rightarrow> rname | _ \<Rightarrow> []) name (length args)) of
             None \<Rightarrow> []
           | Some binding \<Rightarrow>
               (case args ! variableArgument binding of
                  NIdent _ _ _ \<Rightarrow> []
                | variable \<Rightarrow> [(CEL_INVALID_ARGUMENT, range_of variable)]))
      | _ \<Rightarrow> [])"

function macroShapeFindings :: "node \<Rightarrow> (check_code \<times> source_range) list" where
  "macroShapeFindings n = concat (map macroShapeFindings (childNodes n)) @ shapeOf n"
  by pat_completeness auto
termination macroShapeFindings
  by (relation "measure size") (auto dest: size_childNodes)

declare macroShapeFindings.simps [simp del]

section \<open>A check\<close>

text \<open>What the message of a finding lists, and the finding as the check answers it.\<close>

definition availableNames :: "checker_context \<Rightarrow> jstring list" where
  "availableNames c = sort (declaredVariableNames c)"

definition listed_names :: "checker_context \<Rightarrow> finding \<Rightarrow> jstring list" where
  "listed_names c finding =
     (case finding of (cd, _, listed) \<Rightarrow>
        if cd = CEL_UNKNOWN_IDENTIFIER then availableNames c
        else case listed of
            NoAlternatives \<Rightarrow> []
          | Alternatives names \<Rightarrow> names
          | ClosestTo name form arity \<Rightarrow>
              if cd = CEL_UNKNOWN_FUNCTION then candidateNames (the_registry c) name form arity else [])"

definition diagnostic_of :: "checker_context \<Rightarrow> finding \<Rightarrow> check_diagnostic" where
  "diagnostic_of c finding = (fst finding, fst (snd finding), listed_names c finding)"

text \<open>What a check answers: the type is the reported one, with no parameter left in it.\<close>

record check_result =
  check_valid :: bool
  check_type :: cel_type
  check_typeName :: jstring
  check_diagnostics :: "check_diagnostic list"
  check_calls :: "resolved_call list"

definition checkExpression ::
  "node \<Rightarrow> source_range list \<Rightarrow> checker_context \<Rightarrow> host_crash + check_result" where
  "checkExpression tree problems c =
     (case typeOf c \<lparr>scopes = [], proven = []\<rparr> tree
         \<lparr>diagnostics = map (\<lambda>rg. (CEL_SYNTAX_ERROR, rg, NoAlternatives)) problems @
              map (\<lambda>(cd, rg). (cd, rg, NoAlternatives)) (macroShapeFindings tree), calls = []\<rparr> of
        Inl e \<Rightarrow> Inl e
      | Inr (t, s) \<Rightarrow>
          Inr \<lparr>check_valid = (diagnostics s = []), check_type = withoutParameters t,
            check_typeName = formatType (withoutParameters t) True,
            check_diagnostics = map (diagnostic_of c) (diagnostics s),
            check_calls = calls s\<rparr>)"

end
