(* ===== verification/Cel_Check_Sound.thy ===== *)
theory Cel_Check_Sound
  imports Cel_Checker
begin

text \<open>
  What a check promises: the walk of \<open>checker.ts\<close> only adds to what it found, reports on text the tree
  holds, answers a type whenever no call is written on an inherited name, and answers a well-formed one.
\<close>

section \<open>What a step of the walk ensures\<close>

text \<open>What a walk adds: diagnostics and calls at the end, each on a range of a set.\<close>

definition grown :: "source_range set \<Rightarrow> check_state \<Rightarrow> check_state \<Rightarrow> bool" where
  "grown R s s' \<longleftrightarrow>
     (\<exists>ds cs. s' = s\<lparr>diagnostics := diagnostics s @ ds, calls := calls s @ cs\<rparr> \<and>
        (fst \<circ> snd) ` set ds \<subseteq> R \<and> call_range ` set cs \<subseteq> R)"

lemma grownI:
  "s' = s\<lparr>diagnostics := diagnostics s @ ds, calls := calls s @ cs\<rparr> \<Longrightarrow> (fst \<circ> snd) ` set ds \<subseteq> R \<Longrightarrow>
     call_range ` set cs \<subseteq> R \<Longrightarrow> grown R s s'"
  unfolding grown_def by blast

lemma grown_refl: "grown R s s"
  by (rule grownI [where ds = "[]" and cs = "[]"]) simp_all

lemma grown_trans:
  assumes "grown R s s'" "grown R s' s''"
  shows "grown R s s''"
proof -
  obtain ds cs where a: "s' = s\<lparr>diagnostics := diagnostics s @ ds, calls := calls s @ cs\<rparr>"
      "(fst \<circ> snd) ` set ds \<subseteq> R" "call_range ` set cs \<subseteq> R"
    using assms(1) unfolding grown_def by blast
  obtain ds' cs' where b: "s'' = s'\<lparr>diagnostics := diagnostics s' @ ds', calls := calls s' @ cs'\<rparr>"
      "(fst \<circ> snd) ` set ds' \<subseteq> R" "call_range ` set cs' \<subseteq> R"
    using assms(2) unfolding grown_def by blast
  show ?thesis
    by (rule grownI [where ds = "ds @ ds'" and cs = "cs @ cs'"]) (use a b in \<open>simp_all add: image_Un\<close>)
qed

lemma grown_wider: "grown R s s' \<Longrightarrow> R \<subseteq> R' \<Longrightarrow> grown R' s s'"
  unfolding grown_def by (elim exE conjE, intro exI conjI) (assumption, auto)

definition ensures :: "bool \<Rightarrow> source_range set \<Rightarrow> 'a check \<Rightarrow> ('a \<Rightarrow> bool) \<Rightarrow> bool" where
  "ensures may R m P \<longleftrightarrow>
     (\<forall>s. case m s of Inl _ \<Rightarrow> may | Inr (a, s') \<Rightarrow> P a \<and> grown R s s')"

named_theorems walks

lemma ensures_answer [walks]: "P a \<Longrightarrow> ensures may R (answer a) P"
  by (simp add: ensures_def answer_def grown_refl)

lemma ensures_crash [walks]: "may \<Longrightarrow> ensures may R thrown P"
  by (simp add: ensures_def thrown_def)

lemma ensures_listing [walks]: "r \<in> R \<Longrightarrow> P () \<Longrightarrow> ensures may R (add_listing cd r listed) P"
  by (auto simp: ensures_def add_listing_def intro!: grownI [where ds = "[(cd, r, listed)]" and cs = "[]"])

lemma ensures_report [walks]: "r \<in> R \<Longrightarrow> P () \<Longrightarrow> ensures may R (add_finding cd r) P"
  unfolding add_finding_def by (rule ensures_listing)

lemma ensures_report_when [walks]: "r \<in> R \<Longrightarrow> P () \<Longrightarrow> ensures may R (add_when b cd r) P"
  by (auto simp: add_when_def intro: walks)

lemma ensures_push_call [walks]: "call_range call \<in> R \<Longrightarrow> P () \<Longrightarrow> ensures may R (push_call call) P"
  by (auto simp: ensures_def push_call_def intro!: grownI [where ds = "[]" and cs = "[call]"])

lemma ensures_then:
  assumes m: "ensures may R m Q" and f: "\<And>a. Q a \<Longrightarrow> ensures may R (f a) P"
  shows "ensures may R (then_check m f) P"
  unfolding ensures_def
proof
  fix s
  show "case then_check m f s of Inl _ \<Rightarrow> may | Inr (a, s') \<Rightarrow> P a \<and> grown R s s'"
  proof (cases "m s")
    case (Inl e)
    then show ?thesis using m [unfolded ensures_def, rule_format, of s] by (simp add: then_check_def)
  next
    case (Inr p)
    obtain a s' where p: "p = (a, s')" by (cases p)
    have first: "Q a" "grown R s s'" using m [unfolded ensures_def, rule_format, of s] by (simp_all add: Inr p)
    have "case f a s' of Inl _ \<Rightarrow> may | Inr (b, s'') \<Rightarrow> P b \<and> grown R s' s''"
      using f [OF first(1)] unfolding ensures_def by blast
    then show ?thesis using first(2) grown_trans
      by (auto simp: then_check_def Inr p split: sum.split prod.split)
  qed
qed

lemma ensures_weaken: "ensures may R m Q \<Longrightarrow> (\<And>a. Q a \<Longrightarrow> P a) \<Longrightarrow> ensures may R m P"
  unfolding ensures_def by (fastforce split: sum.splits prod.splits)

lemma ensures_wider: "ensures may R m P \<Longrightarrow> (may \<Longrightarrow> may') \<Longrightarrow> R \<subseteq> R' \<Longrightarrow> ensures may' R' m P"
  unfolding ensures_def by (fastforce split: sum.splits prod.splits intro: grown_wider)

lemma ensures_each:
  assumes "\<And>x. x \<in> set xs \<Longrightarrow> ensures may R (f x) Q"
  shows "ensures may R (check_each f xs) (\<lambda>ys. length ys = length xs \<and> list_all Q ys)"
  using assms
proof (induction xs)
  case Nil
  show ?case by (simp add: walks)
next
  case (Cons x xs)
  show ?case unfolding check_each.simps
  proof (rule ensures_then)
    show "ensures may R (f x) Q" using Cons.prems by simp
    fix y assume "Q y"
    show "ensures may R (then_check (check_each f xs) (\<lambda>ys. answer (y # ys)))
        (\<lambda>ys. length ys = length (x # xs) \<and> list_all Q ys)"
      by (rule ensures_then [OF Cons.IH]) (use Cons.prems \<open>Q y\<close> in \<open>auto intro: walks\<close>)
  qed
qed

section \<open>Members and elements\<close>

abbreviation "typed ok t \<equiv> ok \<longrightarrow> type_ok t"

lemma field_of_ensures:
  assumes "r \<in> R" "typed ok (TRecord nm held opened)"
  shows "ensures may R (field_of held opened field r) (typed ok)"
  using assms unfolding field_of_def
  by (auto intro!: walks ensures_then [where Q = "\<lambda>_. True"] split: option.split
      dest!: map_of_SomeD simp: list_all_iff)

lemma held_fields_ok: "typed ok (TNominal nm base args (Some held)) \<Longrightarrow> typed ok (TRecord None held False)"
  by auto

lemma union_ensures:
  assumes "\<And>member. member \<in> set chosen \<Longrightarrow> ensures may R (f member) (typed ok)"
  shows "ensures may R (then_check (check_each f chosen) (\<lambda>types. answer (unionOf types))) (typed ok)"
  by (rule ensures_then [OF ensures_each [OF assms]])
    (auto intro!: walks unionOf_ok simp: list_all_iff)

lemma dyn_after_report: "r \<in> R \<Longrightarrow> ensures may R (then_check (add_finding cd r) (\<lambda>_. answer TDyn)) (typed ok)"
  by (auto intro!: walks ensures_then [where Q = "\<lambda>_. True"])

lemma memberType_ensures:
  "r \<in> R \<Longrightarrow> typed ok t \<Longrightarrow> ensures may R (memberType t field r presence) (typed ok)"
proof (induction t field r presence rule: memberType.induct)
  case (4 members field r presence)
  show ?case unfolding memberType.simps
  proof (rule union_ensures)
    fix member assume m: "member \<in> set (presenceBranches members holdsMembers presence)"
    then have "typed ok member"
      using 4(3) subsetD [OF presenceBranches_members m] by (simp add: list_all_iff)
    then show "ensures may R (memberType member field r presence) (typed ok)" by (rule 4(1) [OF m 4(2)])
  qed
next
  case (5 nm held opened field r presence)
  show ?case unfolding memberType.simps by (rule field_of_ensures [OF 5])
next
  case (6 nm base args held field r presence)
  show ?case unfolding memberType.simps by (rule field_of_ensures [OF 6(1) held_fields_ok [OF 6(2)]])
next
  case (7 key v field r presence)
  then show ?case by (simp add: walks dyn_after_report del: split_paired_All)
qed (simp_all add: walks dyn_after_report)

lemma element_after_report:
  "r \<in> R \<Longrightarrow> typed ok t \<Longrightarrow> ensures may R (then_check (add_when b cd r) (\<lambda>_. answer t)) (typed ok)"
  by (rule ensures_then [where Q = "\<lambda>_. True"]) (simp_all add: walks)

lemma elementType_ensures:
  "r \<in> R \<Longrightarrow> range_of at_node \<in> R \<Longrightarrow> typed ok t \<Longrightarrow>
     ensures may R (elementType t index at_node r presence) (typed ok)"
proof (induction t index at_node r presence rule: elementType.induct)
  case (4 members index at_node r presence)
  show ?case unfolding elementType.simps
  proof (rule union_ensures)
    fix member assume m: "member \<in> set (presenceBranches members holdsElements presence)"
    then have "typed ok member"
      using 4(4) subsetD [OF presenceBranches_members m] by (simp add: list_all_iff)
    then show "ensures may R (elementType member index at_node r presence) (typed ok)"
      by (rule 4(1) [OF m 4(2,3)])
  qed
next
  case (7 nm held opened index at_node r presence)
  show ?case unfolding elementType.simps
    using field_of_ensures [OF 7(2,3)] by (simp add: walks split: option.split)
next
  case (8 nm base args held index at_node r presence)
  show ?case unfolding elementType.simps
    using field_of_ensures [OF 8(2) held_fields_ok [OF 8(3)]]
    by (simp add: element_after_report 8(2) split: option.split)
qed (simp_all add: walks dyn_after_report element_after_report)

section \<open>What a context must hold\<close>

text \<open>
  Every type a host declares is well formed: its variables', what its functions answer, and what its
  namespaces answer.
\<close>

definition context_ok :: "checker_context \<Rightarrow> bool" where
  "context_ok c \<longleftrightarrow>
     (\<forall>name t. the_variable c name = Some t \<longrightarrow> type_ok t) \<and>
     (\<forall>name. \<forall>e \<in> set (named (the_registry c) name). type_ok (signature_returns (entry_signature e))) \<and>
     (\<forall>namespace name f. the_namespaceFunction c namespace name = Some f \<longrightarrow> type_ok (ns_returns f))"

definition env_ok :: "check_scope \<Rightarrow> bool" where
  "env_ok env \<longleftrightarrow> list_all (list_all (\<lambda>(_, t). type_ok t)) (scopes env)"

lemma env_ok_steps [simp]:
  "env_ok (with_proofs env proofs) = env_ok env"
  "env_ok (with_name env name t) \<longleftrightarrow> type_ok t \<and> env_ok env"
  by (simp_all add: env_ok_def with_proofs_def with_name_def)

lemma bound_type_ok: "list_all (list_all (\<lambda>(_, t). type_ok t)) ss \<Longrightarrow> bound_type ss name = Some t \<Longrightarrow> type_ok t"
  by (induction ss) (auto split: option.splits dest!: map_of_SomeD simp: list_all_iff)

text \<open>What a resolved call answers is well formed when what it is called over is.\<close>

definition bindings_ok :: "type_bindings \<Rightarrow> bool" where
  "bindings_ok bindings \<longleftrightarrow> (\<forall>name t. bindings name = Some t \<longrightarrow> type_ok t)"

lemma bind_parameter_ok:
  "bindings_ok bindings \<Longrightarrow> type_ok argument \<Longrightarrow> bindings_ok (snd (bind_parameter allowDyn name argument bindings))"
  by (auto simp: bindings_ok_def split: option.split if_splits)

lemma fits_bindings_ok:
  "type_ok a \<Longrightarrow> bindings_ok bindings \<Longrightarrow> bindings_ok (snd (fits allowDyn a p bindings))"
  "list_all type_ok as \<Longrightarrow> bindings_ok bindings \<Longrightarrow> bindings_ok (snd (fits_each allowDyn as ps bindings))"
proof (induction allowDyn a p bindings and allowDyn as ps bindings rule: fits_fits_each.induct)
  case (1 allowDyn argument name bindings)
  then show ?case by (simp add: bind_parameter_ok del: bind_parameter.simps)
qed (simp_all add: Let_def)

lemma substitute_ok: "bindings_ok bindings \<Longrightarrow> type_ok t \<Longrightarrow> type_ok (substitute bindings t)"
  by (induction bindings t rule: substitute.induct)
    (auto simp: bindings_ok_def list_all_iff split: option.split)

lemma resolve_ok:
  assumes r: "resolve byName name form args receiver = Resolved e returns"
    and ok: "type_ok (signature_returns (entry_signature e))" "list_all type_ok args"
      "\<forall>t \<in> set_option receiver. type_ok t"
  shows "type_ok returns"
proof -
  have empty: "bindings_ok Map.empty" by (simp add: bindings_ok_def)
  obtain allowDyn held where held: "candidate_fits allowDyn e args receiver = (True, held)"
      "returns = substitute held (signature_returns (entry_signature e)) \<or> returns = TDyn"
    using resolve_Resolved [OF r] by blast
  have recv: "type_ok (case receiver of Some r \<Rightarrow> r | None \<Rightarrow> TDyn)" using ok(3) by (cases receiver) auto
  have "bindings_ok held"
  proof (cases "signature_receiver (entry_signature e)")
    case None
    then show ?thesis using held(1) fits_bindings_ok(2) [OF ok(2) empty]
      by (auto simp: candidate_fits_def Let_def split: if_splits) (metis snd_conv)
  next
    case (Some want)
    define first where "first = fits allowDyn (case receiver of Some r \<Rightarrow> r | None \<Rightarrow> TDyn) want Map.empty"
    have "bindings_ok (snd first)" unfolding first_def by (rule fits_bindings_ok(1) [OF recv empty])
    moreover have "fits_each allowDyn args (signature_parameters (entry_signature e)) (snd first) = (True, held)"
      using held(1) by (simp add: candidate_fits_def Let_def Some first_def [symmetric] split: if_splits prod.splits bool.splits)
    ultimately show ?thesis using fits_bindings_ok(2) [OF ok(2)] by (metis snd_conv)
  qed
  then show ?thesis using held(2) substitute_ok ok(1) by auto
qed

lemma unify_ok: "type_ok a \<Longrightarrow> type_ok b \<Longrightarrow> type_ok (unify a b)"
  using unify_least_above(1) by (simp add: least_above_def)

section \<open>The ranges of a tree\<close>

fun own_ranges :: "node \<Rightarrow> source_range set" where
  "own_ranges (NSelect operand field fieldRange optional quoted r) = {fieldRange, r}"
| "own_ranges n = {range_of n}"

definition tree_ranges :: "node \<Rightarrow> source_range set" where
  "tree_ranges n = \<Union> (own_ranges ` set (walkTree n))"

lemma tree_ranges_rec: "tree_ranges n = own_ranges n \<union> \<Union> (tree_ranges ` set (childNodes n))"
  by (subst tree_ranges_def, subst walkTree.simps) (auto simp: tree_ranges_def)

lemma range_of_own: "range_of n \<in> own_ranges n"
  by (cases n) auto

lemma range_of_tree: "range_of n \<in> tree_ranges n"
  using range_of_own by (subst tree_ranges_rec) auto

lemma child_ranges: "c \<in> set (childNodes n) \<Longrightarrow> tree_ranges c \<subseteq> tree_ranges n"
  by (subst (2) tree_ranges_rec) auto

lemma plainChain_ranges:
  "plainChain n = Some (top_name, absolute, segments) \<Longrightarrow> snd ` set segments \<subseteq> tree_ranges n"
proof (induction n arbitrary: segments rule: plainChain.induct)
  case (1 name absolute' r)
  then show ?case using range_of_tree [of "NIdent name absolute' r"] by auto
next
  case (2 operand field fieldRange optional quoted r)
  then obtain inner where inner: "plainChain operand = Some (top_name, absolute, inner)"
      "segments = inner @ [(field, fieldRange)]" "\<not> (optional \<or> field = [])"
    by (auto split: if_splits)
  have "snd ` set inner \<subseteq> tree_ranges operand" by (rule 2(1) [OF inner(3,1)])
  then show ?case
    using child_ranges [of operand "NSelect operand field fieldRange optional quoted r"] inner(2)
    by (auto simp: tree_ranges_rec [of "NSelect operand field fieldRange optional quoted r"])
qed auto

section \<open>The split of a dotted name\<close>

lemma split_at_length_iff:
  "split_at_length n segments declared = Some (name, rest) \<longleftrightarrow>
     (\<exists>k. 0 < k \<and> k \<le> n \<and> name = join_with 46 (take k segments) \<and> rest = drop k segments \<and> declared name \<and>
        (\<forall>j. k < j \<and> j \<le> n \<longrightarrow> \<not> declared (join_with 46 (take j segments))))"
proof (induction n)
  case (Suc n)
  show ?case
  proof (cases "declared (join_with 46 (take (Suc n) segments))")
    case True
    then show ?thesis by (auto simp: Let_def le_Suc_eq intro!: exI [of _ "Suc n"])
  next
    case False
    then show ?thesis using Suc.IH by (auto simp: Let_def le_Suc_eq)
  qed
qed auto

lemmas splitDeclaredChain_iff = split_at_length_iff [of "length segments" segments for segments, folded splitDeclaredChain_def]

section \<open>The parts of the walk\<close>

lemma members_of_ensures:
  "snd ` set segments \<subseteq> R \<Longrightarrow> typed ok t \<Longrightarrow> ensures may R (members_of t segments) (typed ok)"
proof (induction t segments rule: members_of.induct)
  case (2 held name r segments)
  show ?case unfolding members_of.simps
    by (rule ensures_then [OF memberType_ensures]) (use 2 in \<open>simp_all del: split_paired_All\<close>)
qed (simp add: walks)

lemma qualified_ensures:
  assumes "qualifiedVariableType c env n = Some m" "tree_ranges n \<subseteq> R" "ok \<Longrightarrow> context_ok c"
  shows "ensures may R m (typed ok)"
proof -
  from assms(1) obtain top_name absolute segments name rest where
    chain: "plainChain n = Some (top_name, absolute, segments)" and
    split: "splitDeclaredChain (map fst segments) (\<lambda>name. the_variable c name \<noteq> None) = Some (name, rest)" and
    m: "m = members_of (the (the_variable c name)) (drop (length segments - length rest) segments)"
    by (auto simp: qualifiedVariableType_def split: option.splits if_splits)
  have "the_variable c name \<noteq> None" using split by (auto simp: splitDeclaredChain_iff)
  then have "typed ok (the (the_variable c name))" using assms(3) by (auto simp: context_ok_def)
  moreover have "snd ` set (drop (length segments - length rest) segments) \<subseteq> R"
    using plainChain_ranges [OF chain] assms(2) set_drop_subset by fast
  ultimately show ?thesis unfolding m by (rule members_of_ensures [rotated])
qed

lemma checkNullable_ensures:
  "r \<in> R \<Longrightarrow> typed ok t \<Longrightarrow> ensures may R (checkNullable env operand t r) (typed ok)"
proof -
  assume r: "r \<in> R" and t: "typed ok t"
  have "typed ok (withoutNull t)" using t withoutNull_ok by blast
  then show ?thesis
    using r t unfolding checkNullable_def
    by (auto simp del: split_paired_All split: option.split cel_type.split
        intro!: walks dyn_after_report ensures_then [where Q = "\<lambda>_. True"])
qed

lemma operatorType_ensures:
  assumes "r \<in> R" "ok \<Longrightarrow> context_ok c" "ok \<longrightarrow> list_all type_ok args"
  shows "ensures may R (operatorType c symbol args r) (typed ok)"
proof (cases "resolve (the_registry c) symbol GlobalForm args None")
  case (Resolved e returns)
  have "typed ok returns"
    using resolve_ok [OF Resolved] resolve_Resolved [OF Resolved] assms(2,3) by (auto simp: context_ok_def)
  then show ?thesis by (simp add: operatorType_def Resolved walks)
next
  case (Unresolved reason candidates)
  then show ?thesis using assms(1) by (simp add: operatorType_def walks dyn_after_report)
qed

lemma plainCallType_ensures:
  assumes "r \<in> R" "ok \<Longrightarrow> context_ok c" "ok \<longrightarrow> list_all type_ok args" "ok \<longrightarrow> (\<forall>t \<in> set_option receiver. type_ok t)"
  shows "ensures may R (plainCallType c name form written r receiver args) (typed ok)"
proof (cases "resolve (the_registry c) name form args receiver")
  case (Resolved e returns)
  have "typed ok returns"
    using resolve_ok [OF Resolved] resolve_Resolved [OF Resolved] assms(2,3,4) by (auto simp: context_ok_def)
  then show ?thesis using assms(1)
    by (auto simp: plainCallType_def Resolved dispatched_def Let_def checkLiteralArguments_def split: option.split
        intro!: ensures_then [where Q = "\<lambda>_. True"] walks)
next
  case (Unresolved reason candidates)
  then show ?thesis using assms(1)
    by (auto simp: plainCallType_def Let_def intro!: ensures_then [where Q = "\<lambda>_. True"] walks)
qed

lemma check_arguments_ensures:
  "range_of ` snd ` set args \<subseteq> R \<Longrightarrow> ensures may R (check_arguments args parameters) (\<lambda>_. True)"
  by (induction args parameters rule: check_arguments.induct)
    (auto intro!: ensures_then [where Q = "\<lambda>_. True"] walks)

lemma qualifiedCallType_ensures:
  assumes "r \<in> R" "ok \<Longrightarrow> context_ok c" "range_of ` set nodes \<subseteq> R"
  shows "ensures may R (qualifiedCallType c namespace name nodes r args) (typed ok)"
proof (cases "the_namespaceFunction c namespace name")
  case None
  then show ?thesis using assms(1)
    by (auto simp: qualifiedCallType_def Let_def intro!: ensures_then [where Q = "\<lambda>_. True"] walks)
next
  case (Some declared)
  have ret: "typed ok (ns_returns declared)" using assms(2) Some by (auto simp: context_ok_def)
  have each: "ensures may R (check_arguments (zip args nodes) parameters) (\<lambda>_. True)" for parameters
    by (rule check_arguments_ensures) (use assms(3) set_zip_rightD in fastforce)
  show ?thesis using assms(1) ret each
    by (auto simp: qualifiedCallType_def Let_def Some split: option.split
        intro!: ensures_then [where Q = "\<lambda>_. True"] walks)
qed

lemma typed_each: "list_all (typed ok) ts \<longleftrightarrow> (ok \<longrightarrow> list_all type_ok ts)"
  by (auto simp: list_all_iff)

lemma heldByOptional_ensures:
  "r \<in> R \<Longrightarrow> typed ok t \<Longrightarrow> ensures may R (heldByOptional t r) (typed ok)"
  by (cases t) (simp_all add: heldByOptional_def walks dyn_after_report)

lemma optional_held_ensures:
  "r \<in> R \<Longrightarrow> typed ok t \<Longrightarrow> ensures may R (optional_held t r) (typed ok)"
  by (cases t) (simp_all add: optional_held_def walks element_after_report)

lemma optional_result_ensures:
  "r \<in> R \<Longrightarrow> typed ok t \<Longrightarrow> ensures may R (optional_result name t r) (typed ok)"
  unfolding optional_result_def
  by (auto simp del: split_paired_All split: cel_type.split intro!: walks ensures_then [where Q = "\<lambda>_. True"])

lemma iterationType_ensures:
  "r \<in> R \<Longrightarrow> typed ok t \<Longrightarrow> ensures may R (iterationType t r) (typed ok)"
  by (cases t) (simp_all add: iterationType_def walks dyn_after_report)

lemma joinsBool_ensures: "r \<in> R \<Longrightarrow> ensures may R (joinsBool t r) (\<lambda>_. True)"
  by (simp add: joinsBool_def walks)

lemma reduce_types_ensures:
  "range_of ` snd ` set rest \<subseteq> R \<Longrightarrow> typed ok t \<Longrightarrow> list_all (typed ok) (map fst rest) \<Longrightarrow>
     ensures may R (reduce_types homogeneous t rest) (typed ok)"
proof (induction homogeneous t rest rule: reduce_types.induct)
  case (2 homogeneous reduced t at_node rest)
  have "typed ok (unify reduced t)" using 2 unify_ok by simp
  then show ?case using 2
    by (auto simp: Let_def intro!: ensures_then [where Q = "\<lambda>_. True"] walks)
qed (simp add: walks)

lemma reduce_written_ensures:
  assumes "range_of ` set nodes \<subseteq> R" "list_all (typed ok) types" "types \<noteq> []"
  shows "ensures may R (reduce_written c types nodes) (typed ok)"
proof -
  have "range_of ` snd ` set (zip (tl types) (tl nodes)) \<subseteq> R"
    using assms(1) set_zip_rightD list.set_sel(2) by (cases nodes) (fastforce+)
  moreover have "list_all (typed ok) (map fst (zip (tl types) (tl nodes)))"
    using assms(2,3) by (cases types) (auto simp: list_all_iff dest!: set_zip_leftD)
  moreover have "typed ok (hd types)" using assms(2,3) by (cases types) auto
  ultimately show ?thesis unfolding reduce_written_def by (intro reduce_types_ensures)
qed

lemma comprehension_result_ensures:
  assumes "range_of ` fst ` set typed_nodes \<subseteq> R" "typed_nodes \<noteq> []" "typed ok element"
    "list_all (typed ok) (map snd typed_nodes)"
  shows "ensures may R (comprehension_result name element typed_nodes) (typed ok)"
proof -
  have "range_of (fst (hd typed_nodes)) \<in> R" using assms(1,2) by (cases typed_nodes) auto
  moreover have "typed ok (snd (last typed_nodes))" using assms(2,4) by (auto simp: list_all_iff)
  ultimately show ?thesis using assms(3)
    by (auto simp: comprehension_result_def requireBool_def simp del: split_paired_All
        intro!: walks ensures_then [where Q = "\<lambda>_. True"])
qed

lemma identType_ensures:
  assumes "r \<in> R" "ok \<Longrightarrow> context_ok c" "ok \<Longrightarrow> env_ok env"
  shows "ensures may R (identType c env name absolute r) (typed ok)"
  using assms bound_type_ok [of "scopes env" name]
  by (auto simp: identType_def context_ok_def env_ok_def simp del: split_paired_All split: option.splits
      intro!: walks dyn_after_report)

lemma selectType_ensures:
  assumes n: "tree_ranges n \<subseteq> R" "fieldRange \<in> R" and ok: "ok \<Longrightarrow> context_ok c"
    and m: "ensures may R m (typed ok)"
  shows "ensures may R (selectType c env n operand field fieldRange optional presence m) (typed ok)"
proof (cases "qualifiedVariableType c env n")
  case None
  have "typed ok (unwrapOptional t)" if "typed ok t" for t using that by (induction t) auto
  then show ?thesis
    by (auto simp: selectType_def None simp del: split_paired_All
        intro!: ensures_then [OF m] walks ensures_then [OF checkNullable_ensures [OF n(2)]]
          ensures_then [OF memberType_ensures [OF n(2)]])
next
  case (Some q)
  then show ?thesis using qualified_ensures [OF Some n(1) ok] by (simp add: selectType_def)
qed

section \<open>The walk\<close>

text \<open>A call written on a name every object inherits.\<close>

fun call_on_inherited :: "node \<Rightarrow> bool" where
  "call_on_inherited (NReceiverCall (NIdent rname _ _) _ _ _ _) = (rname \<in> set INHERITED_NAMES)"
| "call_on_inherited _ = False"

lemma isReceiverMacro_None:
  "isReceiverMacro receiver name n = None \<Longrightarrow> call_on_inherited (NReceiverCall receiver name nr args r)"
  by (cases receiver)
    (auto simp: isReceiverMacro_def ident_entry_def namespace_entry_of_def split: if_splits option.splits)

lemma ensures_if:
  "(b \<Longrightarrow> ensures may R m P) \<Longrightarrow> (\<not> b \<Longrightarrow> ensures may R m' P) \<Longrightarrow> ensures may R (if b then m else m') P"
  by simp

lemma ensures_option:
  "(x = None \<Longrightarrow> ensures may R m P) \<Longrightarrow> (\<And>y. x = Some y \<Longrightarrow> ensures may R (f y) P) \<Longrightarrow>
     ensures may R (case x of None \<Rightarrow> m | Some y \<Rightarrow> f y) P"
  by (cases x) auto

lemma optional_entry_ensures:
  assumes value_ok: "\<And>m env. m \<in> set args \<Longrightarrow> ok \<longrightarrow> env_ok env \<Longrightarrow> ensures may R (typeOf c env m) (typed ok)"
    and "r \<in> R" "ok \<longrightarrow> env_ok env"
  shows "ensures may R (case args of
      [v] \<Rightarrow> then_check (typeOf c env v) (\<lambda>t. answer (TOptional t))
    | _ \<Rightarrow> then_check (add_finding CEL_INVALID_ARGUMENT r) (\<lambda>_. answer (TOptional TDyn))) (typed ok)"
proof -
  have "ensures may R (then_check (typeOf c env v) (\<lambda>t. answer (TOptional t))) (typed ok)" if "v \<in> set args" for v
    by (rule ensures_then [OF value_ok [OF that assms(3)]]) (simp add: walks)
  then show ?thesis using assms(2)
    by (auto simp del: split_paired_All split: list.split intro!: ensures_then [where Q = "\<lambda>_. True"] walks)
qed

lemma bind_ensures:
  assumes value_ok: "\<And>m env. m \<in> set args \<Longrightarrow> ok \<longrightarrow> env_ok env \<Longrightarrow> ensures may R (typeOf c env m) (typed ok)"
    and "ok \<longrightarrow> env_ok env"
  shows "ensures may R (case args of
      [NIdent variable _ _, value, body] \<Rightarrow>
        then_check (typeOf c env value) (\<lambda>t. typeOf c (with_name env variable t) body)
    | _ \<Rightarrow> answer TDyn) (typed ok)"
  using assms(2)
  by (auto split: list.split node.split intro!: ensures_then [OF value_ok] value_ok walks)

lemma optional_binding_ensures:
  assumes value_ok: "\<And>m env. m \<in> set args \<Longrightarrow> ok \<longrightarrow> env_ok env \<Longrightarrow> ensures may R (typeOf c env m) (typed ok)"
    and "ok \<longrightarrow> env_ok env" "rr \<in> R" "range_of ` set args \<subseteq> R" "typed ok t"
  shows "ensures may R (case args of
      [NIdent variable _ _, body] \<Rightarrow>
        then_check (optional_held t rr) (\<lambda>held.
        then_check (typeOf c (with_name env variable held) body) (\<lambda>result.
          optional_result name result (range_of body)))
    | _ \<Rightarrow> answer TDyn) (typed ok)"
  using assms(2,3,4,5)
  by (auto simp del: split_paired_All split: list.split node.split
      intro!: ensures_then [OF optional_held_ensures] ensures_then [OF value_ok] optional_result_ensures walks)

lemma comprehension_ensures:
  assumes value_ok: "\<And>m env. m \<in> set args \<Longrightarrow> ok \<longrightarrow> env_ok env \<Longrightarrow> ensures may R (typeOf c env m) (typed ok)"
    and "ok \<longrightarrow> env_ok env" "range_of ` set args \<subseteq> R" "typed ok element"
    and b: "receiverMacroBinding name (length args) = Some binding"
  shows "ensures may R (case at_index args (variableArgument binding) of
      Some (NIdent variable _ _) \<Rightarrow>
        then_check (check_each (typeOf c (with_name env variable element)) (scoped_nodes binding args))
          (\<lambda>types. comprehension_result name element (zip (scoped_nodes binding args) types))
    | _ \<Rightarrow> answer TDyn) (typed ok)"
proof -
  have "length args > 1" "set (scopedArguments binding) \<subseteq> {0<..<length args} \<and> scopedArguments binding \<noteq> []"
    using b by (auto simp: receiverMacroBinding_def RECEIVER_MACROS_def split: if_splits)
  then have "scoped_nodes binding args \<noteq> []"
    by (cases "scopedArguments binding") (auto simp: scoped_nodes_def List.map_filter_simps at_index_def)
  moreover have "range_of ` fst ` set (zip (scoped_nodes binding args) types) \<subseteq> R" for types :: "cel_type list"
    using assms(3) scoped_nodes_members set_zip_leftD by fastforce
  ultimately have "ensures may R (then_check (check_each (typeOf c (with_name env variable element)) (scoped_nodes binding args))
      (\<lambda>types. comprehension_result name element (zip (scoped_nodes binding args) types))) (typed ok)" for variable
    using assms(2,4)
    by (auto intro!: ensures_then [OF ensures_each [OF value_ok]] comprehension_result_ensures
        dest: scoped_nodes_members)
  then show ?thesis by (auto split: option.split node.split intro: walks)
qed

lemma receiver_call_ensures:
  assumes sub: "\<And>m env. m \<in> set (receiver # args) \<Longrightarrow> ok \<longrightarrow> env_ok env \<Longrightarrow> ensures may R (typeOf c env m) (typed ok)"
    and env: "ok \<longrightarrow> env_ok env" and R: "r \<in> R" "range_of ` set (receiver # args) \<subseteq> R"
    and may: "call_on_inherited (NReceiverCall receiver name nr args r) \<Longrightarrow> may"
    and ok: "ok \<Longrightarrow> context_ok c"
  shows "ensures may R (typeOf c env (NReceiverCall receiver name nr args r)) (typed ok)"
proof -
  have recv: "ensures may R (typeOf c env receiver) (typed ok)" using sub env by simp
  have arg: "\<And>m env. m \<in> set args \<Longrightarrow> ok \<longrightarrow> env_ok env \<Longrightarrow> ensures may R (typeOf c env m) (typed ok)"
    using sub by simp
  have Rs: "range_of receiver \<in> R" "range_of ` set args \<subseteq> R" using R(2) by auto
  show ?thesis
  proof (cases "isReceiverMacro receiver name (length args)")
    case None
    then show ?thesis using may [OF isReceiverMacro_None] by (simp add: walks)
  next
    case (Some macro)
    show ?thesis
    proof (cases macro)
      case False
      have "ensures may R (then_check (typeOf c env receiver) (\<lambda>t.
          then_check (check_each (typeOf c env) args) (\<lambda>types.
            plainCallType c name ReceiverForm (receiver # args) r (Some t) types))) (typed ok)"
        by (auto simp: typed_each intro!: ensures_then [OF recv] ensures_then [OF ensures_each [OF arg [OF _ env]]]
            plainCallType_ensures R(1) ok)
      then show ?thesis using Some False by simp
    next
      case True
      have macro: "isReceiverMacro receiver name (length args) = Some True" using Some True by simp
      have optional_binding: "ensures may R (then_check (typeOf c env receiver) (\<lambda>t.
              (case args of
                 [NIdent variable _ _, body] \<Rightarrow>
                   then_check (optional_held t (range_of receiver)) (\<lambda>held.
                   then_check (typeOf c (with_name env variable held) body) (\<lambda>result.
                     optional_result name result (range_of body)))
               | _ \<Rightarrow> answer TDyn))) (typed ok)"
        by (rule ensures_then [OF recv]) (rule optional_binding_ensures [OF arg env Rs])
      have comprehension: "ensures may R (then_check (typeOf c env receiver) (\<lambda>t.
              then_check (iterationType t (range_of receiver)) (\<lambda>element.
                case at_index args (variableArgument binding) of
                  Some (NIdent variable _ _) \<Rightarrow>
                    then_check (check_each (typeOf c (with_name env variable element)) (scoped_nodes binding args))
                      (\<lambda>types. comprehension_result name element (zip (scoped_nodes binding args) types))
                | _ \<Rightarrow> answer TDyn))) (typed ok)"
        if "receiverMacroBinding name (length args) = Some binding" for binding
        by (rule ensures_then [OF recv], rule ensures_then [OF iterationType_ensures [OF Rs(1)]])
          (auto intro: comprehension_ensures [OF arg env Rs(2) _ that])
      have plain: "ensures may R (then_check (add_finding cd r) (\<lambda>_. answer TDyn)) (typed ok)" for cd
        by (rule dyn_after_report [OF R(1)])
      have none: "ensures may R (then_check (add_when (args \<noteq> []) CEL_INVALID_ARGUMENT r)
          (\<lambda>_. answer (TOptional (TParameter (js ''T''))))) (typed ok)"
        by (rule element_after_report [OF R(1)]) simp
      note one = optional_entry_ensures [OF arg R(1) env] and bind = bind_ensures [OF arg env]
      show ?thesis
        unfolding typeOf.simps macro option.case bool.case
        by (intro ensures_if ensures_option plain none one bind optional_binding comprehension)
          (simp_all add: walks)
    qed
  qed
qed

lemma typeOf_ensures:
  assumes ok: "ok \<Longrightarrow> context_ok c"
  shows "tree_ranges n \<subseteq> R \<Longrightarrow> may \<or> everywhere (\<lambda>m. \<not> call_on_inherited m) n \<Longrightarrow> ok \<longrightarrow> env_ok env \<Longrightarrow>
    ensures may R (typeOf c env n) (typed ok)"
proof (induction n arbitrary: env rule: measure_induct_rule [of size])
  case (less n)
  note R = less.prems(1) and may = less.prems(2) and env = less.prems(3)
  have sub: "ensures may R (typeOf c env' m) (typed ok)" if "m \<in> set (childNodes n)" "ok \<longrightarrow> env_ok env'" for m env'
  proof (rule less.IH [OF size_childNodes [OF that(1)] _ _ that(2)])
    show "tree_ranges m \<subseteq> R" using child_ranges [OF that(1)] R by blast
    show "may \<or> everywhere (\<lambda>m. \<not> call_on_inherited m) m"
      using may everywhere_rec [of _ n] that(1) by blast
  qed
  have own: "range_of n \<in> R" using range_of_tree R by blast
  have kids: "range_of m \<in> R" if "m \<in> set (childNodes n)" for m
    using child_ranges [OF that] range_of_tree [of m] R by blast
  have held: "ensures may R (then_check (typeOf c env m) (\<lambda>t. if b then heldByOptional t (range_of m) else answer t)) (typed ok)"
    if "m \<in> set (childNodes n)" for m b
    by (rule ensures_then [OF sub [OF that env]])
      (simp add: heldByOptional_ensures kids [OF that] walks)
  show ?case
  proof (cases n)
    case (NUnparsed r)
    then show ?thesis by (simp add: walks)
  next
    case (NLiteral l r)
    then show ?thesis by (cases l) (simp_all add: walks)
  next
    case (NIdent name absolute r)
    then show ?thesis using own ok env by (auto intro!: identType_ensures simp del: split_paired_All)
  next
    case (NList elements r)
    have each: "ensures may R ((\<lambda>(m, optional). then_check (typeOf c env m) (\<lambda>t.
        if optional then heldByOptional t (range_of m) else answer t)) p) (typed ok)" if "p \<in> set elements" for p
      using held [of "fst p" "snd p"] that by (simp add: NList case_prod_unfold)
    have nodes: "range_of ` set (map fst elements) \<subseteq> R" using kids NList by fastforce
    show ?thesis
      unfolding NList typeOf.simps
      by (intro ensures_if ensures_then [OF ensures_each [OF each]] ensures_then [OF reduce_written_ensures [OF nodes]])
        (auto simp: walks)
  next
    case (NMap entries r)
    have members: "fst p \<in> set (childNodes n)" "fst (snd p) \<in> set (childNodes n)" if "p \<in> set entries" for p
      using that unfolding NMap NMap_children by blast+
    have key: "ensures may R ((\<lambda>(key, _, _). typeOf c env key) p) (typed ok)" if "p \<in> set entries" for p
      using sub [OF members(1) [OF that] env] by (simp add: case_prod_unfold)
    have val: "ensures may R ((\<lambda>(_, m, optional). then_check (typeOf c env m) (\<lambda>t.
        if optional then heldByOptional t (range_of m) else answer t)) p) (typed ok)" if "p \<in> set entries" for p
      using held [OF members(2) [OF that]] by (simp add: case_prod_unfold)
    have nodes: "range_of ` set (map fst entries) \<subseteq> R" "range_of ` set (map (fst \<circ> snd) entries) \<subseteq> R"
      using kids members by (force simp del: split_paired_All)+
    show ?thesis
      unfolding NMap typeOf.simps
      by (intro ensures_if ensures_then [OF ensures_each [OF key]] ensures_then [OF ensures_each [OF val]]
          ensures_then [OF reduce_written_ensures [OF nodes(1)]] ensures_then [OF reduce_written_ensures [OF nodes(2)]])
        (auto simp: walks)
  next
    case (NSelect operand field fieldRange optional quoted r)
    have "fieldRange \<in> R" using R by (subst (asm) tree_ranges_rec) (simp add: NSelect)
    moreover have "ensures may R (typeOf c env operand) (typed ok)" using sub env NSelect by simp
    ultimately show ?thesis using selectType_ensures R ok NSelect by simp
  next
    case (NIndex operand index optional r)
    have idx: "range_of index \<in> R" and r: "r \<in> R" using kids own NIndex by simp_all
    have operand: "ensures may R (typeOf c env operand) (typed ok)" "ensures may R (typeOf c env index) (typed ok)"
      using sub env NIndex by simp_all
    have unwrap: "typed ok (unwrapOptional t)" if "typed ok t" for t using that by (induction t) auto
    show ?thesis
      unfolding NIndex typeOf.simps
      by (rule ensures_then [OF operand(1)], rule ensures_then [OF operand(2)],
          rule ensures_then [OF checkNullable_ensures [OF r]], assumption,
          rule ensures_then [OF elementType_ensures [OF r idx]], assumption)
        (use unwrap in \<open>auto intro: walks\<close>)
  next
    case (NUnary symbol operand r)
    have "ensures may R (typeOf c env operand) (typed ok)" "r \<in> R" using sub env own NUnary by simp_all
    then show ?thesis
      unfolding NUnary typeOf.simps
      by (intro ensures_then [where Q = "typed ok"] operatorType_ensures ok) auto
  next
    case (NBinary symbol left right r)
    have r: "r \<in> R" using own NBinary by simp
    have kid: "ensures may R (typeOf c (with_proofs env proofs) m) (typed ok)"
      "ensures may R (typeOf c env m) (typed ok)" if "m \<in> {left, right}" for m proofs
      using sub env that NBinary by auto
    show ?thesis
      unfolding NBinary typeOf.simps
      by (intro ensures_if ensures_then [OF kid(1)] ensures_then [OF kid(2)]
          ensures_then [OF joinsBool_ensures [OF r]] operatorType_ensures ok r walks)
        auto
  next
    case (NConditional condition whenTrue whenFalse r)
    have r: "r \<in> R" "range_of condition \<in> R" using own kids NConditional by simp_all
    have kid: "ensures may R (typeOf c (with_proofs env proofs) m) (typed ok)"
      "ensures may R (typeOf c env m) (typed ok)" if "m \<in> {condition, whenTrue, whenFalse}" for m proofs
      using sub env that NConditional by auto
    show ?thesis
      unfolding NConditional typeOf.simps Let_def
      by (rule ensures_then [OF kid(2)], simp, rule ensures_then [OF joinsBool_ensures [OF r(2)]],
          rule ensures_then [OF kid(1)], simp, rule ensures_then [OF kid(1)], simp,
          rule element_after_report [OF r(1)]) (simp add: unify_ok)
  next
    case (NCall name nr args r)
    have r: "r \<in> R" using own NCall by simp
    have args: "ensures may R (typeOf c env m) (typed ok)" if "m \<in> set args" for m
      using sub env that NCall by simp
    have has: "ensures may R (case args of
           [NSelect operand field fieldRange optional quoted r] \<Rightarrow>
             then_check (selectType c env (NSelect operand field fieldRange optional quoted r) operand field
                 fieldRange optional True (typeOf c env operand)) (\<lambda>_. answer BOOL)
         | _ \<Rightarrow> answer BOOL) (typed ok)"
    proof -
      have "ensures may R (then_check (selectType c env (NSelect operand field fieldRange optional quoted r) operand field
                 fieldRange optional True (typeOf c env operand)) (\<lambda>_. answer BOOL)) (typed ok)"
        if a: "args = [NSelect operand field fieldRange optional quoted r]" for operand field fieldRange optional quoted r
      proof -
        let ?s = "NSelect operand field fieldRange optional quoted r"
        have s: "tree_ranges ?s \<subseteq> R" using child_ranges [of ?s n] R by (simp add: NCall a)
        have "tree_ranges operand \<subseteq> R" using child_ranges [of operand ?s] s by simp
        moreover have "fieldRange \<in> R" using s by (subst (asm) tree_ranges_rec) simp
        moreover have "may \<or> everywhere (\<lambda>m. \<not> call_on_inherited m) operand"
          using may everywhere_rec [of _ n] everywhere_rec [of _ ?s] by (auto simp: NCall a)
        moreover have "size operand < size n" by (simp add: NCall a)
        ultimately have operand: "ensures may R (typeOf c env operand) (typed ok)" and f: "fieldRange \<in> R"
          using less.IH env by blast+
        show ?thesis
          by (rule ensures_then [OF selectType_ensures [OF s f ok operand]]) (simp_all add: walks)
      qed
      then show ?thesis by (auto split: list.split node.split intro: walks)
    qed
    show ?thesis
      unfolding NCall typeOf.simps
      by (rule ensures_if [OF has]) (auto simp: typed_each ok r intro!: ensures_then [OF ensures_each [OF args]] plainCallType_ensures)
  next
    case (NReceiverCall receiver name nr args r)
    show ?thesis
      unfolding NReceiverCall
    proof (rule receiver_call_ensures)
      show "call_on_inherited (NReceiverCall receiver name nr args r) \<Longrightarrow> may"
        using may by (auto simp: NReceiverCall everywhere_rec [of _ "NReceiverCall receiver name nr args r"])
    qed (use sub env own kids ok in \<open>auto simp: NReceiverCall simp del: split_paired_All\<close>)
  next
    case (NQCall namespace nsr name nr args r)
    have r: "r \<in> R" "range_of ` set args \<subseteq> R" using own kids NQCall by (auto simp del: split_paired_All)
    have args: "ensures may R (typeOf c env m) (typed ok)" if "m \<in> set args" for m
      using sub env that NQCall by simp
    show ?thesis
      unfolding NQCall typeOf.simps
      by (rule ensures_then [OF ensures_each [OF args]]) (auto intro!: qualifiedCallType_ensures r ok)
  qed
qed

section \<open>What a check answers\<close>

lemma variable_shape:
  "(case x of NIdent _ _ _ \<Rightarrow> [] | variable \<Rightarrow> [(CEL_INVALID_ARGUMENT, range_of variable)]) \<noteq> [] \<Longrightarrow>
   (case x of NIdent _ _ _ \<Rightarrow> [] | variable \<Rightarrow> [(CEL_INVALID_ARGUMENT, range_of variable)]) =
     [(CEL_INVALID_ARGUMENT, range_of x)]"
  by (cases x) auto

lemma shapeOf_about:
  "shapeOf n = [] \<or> (\<exists>m \<in> set (childNodes n). shapeOf n = [(CEL_INVALID_ARGUMENT, range_of m)])"
proof (cases n)
  case (NCall name nr args r)
  have "shapeOf n = [] \<or> length args = 1 \<and> shapeOf n = [(CEL_INVALID_ARGUMENT, range_of (hd args))]"
    unfolding NCall shapeOf_def by (cases "hd args") auto
  then show ?thesis by (cases args) (auto simp: NCall)
next
  case (NReceiverCall receiver name nr args r)
  have "args ! variableArgument b \<in> set args"
    if "receiverMacroBinding name (length args) = Some b \<or> namespaceMacroBinding ns name (length args) = Some b" for b ns
    using that by (auto simp: receiverMacroBinding_def RECEIVER_MACROS_def namespaceMacroBinding_def NAMESPACE_MACROS_def
        split: if_splits)
  then have member: "args ! variableArgument b \<in> set (childNodes n)"
    if "receiverMacroBinding name (length args) = Some b \<or> namespaceMacroBinding ns name (length args) = Some b" for b ns
    using that NReceiverCall by fastforce
  have "shapeOf n = [] \<or> (\<exists>ns b. (receiverMacroBinding name (length args) = Some b \<or>
      namespaceMacroBinding ns name (length args) = Some b) \<and>
      shapeOf n = [(CEL_INVALID_ARGUMENT, range_of (args ! variableArgument b))])"
    unfolding NReceiverCall shapeOf_def node.case
    by (auto simp del: split_paired_All split: option.split dest: variable_shape)
  then show ?thesis using member by blast
qed (simp_all add: shapeOf_def)

lemma macroShapeFindings_ranges: "snd ` set (macroShapeFindings n) \<subseteq> tree_ranges n"
proof (induction n rule: node_child_induct)
  case (child n)
  then show ?case
    using shapeOf_about [of n] range_of_tree
    by (subst macroShapeFindings.simps, subst tree_ranges_rec) fastforce
qed

lemma withoutParameters_ok: "type_ok t \<Longrightarrow> type_ok (withoutParameters t)"
proof (induction t rule: withoutParameters.induct)
  case (5 members)
  then have "list_all type_ok (map withoutParameters members)" by (simp add: list_all_iff)
  then show ?case by (simp add: unionOf_ok)
next
  case (7 name fields opened)
  then show ?case by (auto simp: list_all_iff comp_def case_prod_unfold)
qed (auto simp: list_all_iff)

lemma check_ensures:
  assumes "ok \<Longrightarrow> context_ok c" "may \<or> everywhere (\<lambda>m. \<not> call_on_inherited m) tree"
  shows "case checkExpression tree problems c of
      Inl _ \<Rightarrow> may
    | Inr result \<Rightarrow> typed ok (check_type result) \<and>
        (\<exists>found. check_diagnostics result = map (\<lambda>rg. (CEL_SYNTAX_ERROR, rg, [])) problems @ found \<and>
           (fst \<circ> snd) ` set found \<subseteq> tree_ranges tree) \<and>
        call_range ` set (check_calls result) \<subseteq> tree_ranges tree"
proof -
  let ?env = "\<lparr>scopes = [], proven = []\<rparr>"
    and ?s = "\<lparr>diagnostics = map (\<lambda>rg. (CEL_SYNTAX_ERROR, rg, NoAlternatives)) problems @
        map (\<lambda>(cd, rg). (cd, rg, NoAlternatives)) (macroShapeFindings tree), calls = []\<rparr>"
  have "ensures may (tree_ranges tree) (typeOf c ?env tree) (typed ok)"
    by (rule typeOf_ensures [OF assms(1)]) (use assms(2) in \<open>auto simp: env_ok_def\<close>)
  then have run: "case typeOf c ?env tree ?s of Inl _ \<Rightarrow> may | Inr (t, s') \<Rightarrow> typed ok t \<and> grown (tree_ranges tree) ?s s'"
    unfolding ensures_def by blast
  show ?thesis
  proof (cases "typeOf c ?env tree ?s")
    case (Inl e)
    then show ?thesis using run by (simp add: checkExpression_def)
  next
    case (Inr p)
    obtain t s' where p: "p = (t, s')" by (cases p)
    from run obtain ds cs where grown: "s' = ?s\<lparr>diagnostics := diagnostics ?s @ ds, calls := calls ?s @ cs\<rparr>"
        "(fst \<circ> snd) ` set ds \<subseteq> tree_ranges tree" "call_range ` set cs \<subseteq> tree_ranges tree" "typed ok t"
      unfolding Inr p sum.case prod.case grown_def by blast
    let ?shape = "map (\<lambda>(cd, rg). (cd, rg, NoAlternatives)) (macroShapeFindings tree)"
    have "map (diagnostic_of c) (diagnostics s') =
        map (\<lambda>rg. (CEL_SYNTAX_ERROR, rg, [])) problems @ map (diagnostic_of c) (?shape @ ds)"
      by (simp add: grown(1) diagnostic_of_def listed_names_def)
    moreover have "(fst \<circ> snd) ` set (map (diagnostic_of c) (?shape @ ds)) \<subseteq> tree_ranges tree"
      using macroShapeFindings_ranges [of tree] grown(2)
      by (simp add: diagnostic_of_def image_Un image_image case_prod_unfold)
    ultimately show ?thesis using grown withoutParameters_ok
      by (auto simp: checkExpression_def Inr p)
  qed
qed

section \<open>What a guard proves\<close>

text \<open>
  The outcome of a condition, over what its parts evaluate to: CEL's equality, its negation, and the two
  operators that absorb an error on one side where the other side decides. \<open>None\<close> is an error.
\<close>

fun outcome :: "(node \<Rightarrow> cel_value) \<Rightarrow> node \<Rightarrow> bool option" where
  "outcome val (NBinary OpEq left right _) =
     (if isCelError (val left) \<or> isCelError (val right) then None else Some (celEqual (val left) (val right)))"
| "outcome val (NBinary OpNe left right _) =
     (if isCelError (val left) \<or> isCelError (val right) then None else Some (\<not> celEqual (val left) (val right)))"
| "outcome val (NBinary OpAnd left right _) =
     (case (outcome val left, outcome val right) of
        (Some True, Some True) \<Rightarrow> Some True
      | (Some False, _) \<Rightarrow> Some False
      | (_, Some False) \<Rightarrow> Some False
      | _ \<Rightarrow> None)"
| "outcome val (NBinary OpOr left right _) =
     (case (outcome val left, outcome val right) of
        (Some False, Some False) \<Rightarrow> Some False
      | (Some True, _) \<Rightarrow> Some True
      | (_, Some True) \<Rightarrow> Some True
      | _ \<Rightarrow> None)"
| "outcome val (NUnary OpNot operand _) = map_option Not (outcome val operand)"
| "outcome val n = (case val n of VBool b \<Rightarrow> Some b | _ \<Rightarrow> None)"

text \<open>Each chain is one the condition reads, and its value is neither null nor an error.\<close>

definition held_chains :: "(node \<Rightarrow> cel_value) \<Rightarrow> node \<Rightarrow> jstring list \<Rightarrow> bool" where
  "held_chains val condition proofs \<longleftrightarrow>
     (\<forall>chain \<in> set proofs. \<exists>m \<in> set (walkTree condition). chainText m = Some chain \<and> val m \<noteq> VNull \<and> \<not> isCelError (val m))"

lemma held_chains_append [simp]: "held_chains val n (xs @ ys) \<longleftrightarrow> held_chains val n xs \<and> held_chains val n ys"
  by (auto simp: held_chains_def)

lemma held_chains_child: "held_chains val m proofs \<Longrightarrow> m \<in> set (childNodes n) \<Longrightarrow> held_chains val n proofs"
  unfolding held_chains_def by (subst walkTree.simps) fastforce

lemma walkTree_self: "n \<in> set (walkTree n)"
  by (subst walkTree.simps) simp

lemma celEqual_null: "celEqual VNull VNull"
  by (simp add: celEqual.simps)

lemma nullTest_held:
  assumes null: "\<And>r. val (NLiteral LNull r) = VNull" and n: "set (childNodes n) = {left, right}"
    and "\<not> celEqual (val left) (val right)" "\<not> isCelError (val left)" "\<not> isCelError (val right)"
  shows "held_chains val n (nullTest left right)"
proof -
  have kid: "m \<in> set (walkTree n)" if "m \<in> {left, right}" for m
    using that n walkTree_self by (subst walkTree.simps) fastforce
  have nulls: "isNullLiteral m \<Longrightarrow> val m = VNull" for m
    using null by (metis isNullLiteral.elims(2))
  show ?thesis
  proof (cases "isNullLiteral right")
    case True
    have "val left \<noteq> VNull" using assms(3) nulls [OF True] celEqual_null by metis
    then show ?thesis using kid [of left] assms(4) True
      by (cases "chainText left") (auto simp: nullTest_def held_chains_def)
  next
    case False
    show ?thesis
    proof (cases "isNullLiteral left")
      case left: True
      have "val right \<noteq> VNull" using assms(3) nulls [OF left] celEqual_null by metis
      then show ?thesis using kid [of right] assms(5) False left
        by (cases "chainText right") (auto simp: nullTest_def held_chains_def)
    qed (simp add: nullTest_def held_chains_def False)
  qed
qed

lemma proven_held:
  assumes null: "\<And>r. val (NLiteral LNull r) = VNull"
  shows "outcome val n = Some True \<Longrightarrow> held_chains val n (provenWhereTrue n)"
    and "outcome val n = Some False \<Longrightarrow> held_chains val n (provenWhereFalse n)"
proof (induction n and n rule: provenWhereTrue_provenWhereFalse.induct)
  case (1 left right r)
  then show ?case using nullTest_held [of val "NBinary OpNe left right r" left right] null
    by (simp split: if_splits del: split_paired_All)
next
  case (2 left right r)
  then have "outcome val left = Some True" "outcome val right = Some True"
    by (auto split: option.splits bool.splits)
  then show ?case using 2 held_chains_child [of val _ _ "NBinary OpAnd left right r"] by simp
next
  case (3 operand r)
  then show ?case using held_chains_child [of val operand _ "NUnary OpNot operand r"] by auto
next
  case (5 left right r)
  then show ?case using nullTest_held [of val "NBinary OpEq left right r" left right] null
    by (simp split: if_splits del: split_paired_All)
next
  case (6 left right r)
  then have "outcome val left = Some False" "outcome val right = Some False"
    by (auto split: option.splits bool.splits)
  then show ?case using 6 held_chains_child [of val _ _ "NBinary OpOr left right r"] by simp
next
  case (7 operand r)
  then show ?case using held_chains_child [of val operand _ "NUnary OpNot operand r"] by auto
qed (simp_all add: held_chains_def)

section \<open>Properties\<close>

text \<open>C30. A check answers, whatever the expression, the host's functions and its declarations are, as long
  as no call is written on a name that every JavaScript object inherits: with that, no verdict is lost to an
  exception.\<close>

theorem check_answers:
  assumes "everywhere (\<lambda>m. \<not> call_on_inherited m) tree"
  shows "\<exists>result. checkExpression tree problems c = Inr result"
  using check_ensures [where ok = False and may = False and c = c and tree = tree and problems = problems]
    assms by (auto split: sum.splits)

text \<open>C11. A check carries every syntax diagnostic through, in order and first, and everything it adds is about
  the expression: each diagnostic, and each call it lists, stands on the range of a node of the tree or of a
  member name written in it. An expression is valid exactly when there is no diagnostic.\<close>

theorem check_reports_on_the_tree:
  assumes "checkExpression tree problems c = Inr result"
  shows "(\<exists>found. check_diagnostics result = map (\<lambda>rg. (CEL_SYNTAX_ERROR, rg, [])) problems @ found \<and>
      (fst \<circ> snd) ` set found \<subseteq> tree_ranges tree) \<and>
    call_range ` set (check_calls result) \<subseteq> tree_ranges tree \<and>
    (check_valid result \<longleftrightarrow> check_diagnostics result = [])"
  using check_ensures [where ok = False and may = True and c = c and tree = tree and problems = problems] assms
  by (auto simp: checkExpression_def split: sum.splits)

text \<open>C12. The reported type is well formed and holds no unresolved parameter, whenever the types the host
  declares are well formed; its name is how that type is written.\<close>

theorem checked_type_is_reportable:
  assumes "context_ok c" "checkExpression tree problems c = Inr result"
  shows "type_ok (check_type result) \<and> parameterless (check_type result) \<and>
    check_typeName result = formatType (check_type result) True"
  using check_ensures [where ok = True and may = True and c = c and tree = tree and problems = problems] assms withoutParameters_parameterless
  by (auto simp: checkExpression_def split: sum.splits)

text \<open>C13. A guard proves what the checker takes it to prove: where a condition evaluates to true, every chain
  of \<open>provenWhereTrue\<close> is one the condition reads and its value is neither null nor an error, and where it
  evaluates to false so is every chain of \<open>provenWhereFalse\<close>, also where an operator absorbed an error.\<close>

theorem guards_prove_not_null:
  assumes "\<And>r. val (NLiteral LNull r) = VNull" "outcome val condition = Some b"
  shows "held_chains val condition (if b then provenWhereTrue condition else provenWhereFalse condition)"
  using proven_held [of val condition] assms by (cases b) auto

text \<open>A dotted chain is split at its longest declared prefix, the root counting as one, and at none when no
  prefix is declared.\<close>

theorem split_at_longest_declared:
  "splitDeclaredChain segments declared =
     (let covered = filter (\<lambda>k. declared (join_with 46 (take k segments))) [1..<Suc (length segments)]
      in if covered = [] then None
         else Some (join_with 46 (take (last covered) segments), drop (last covered) segments))"
proof -
  let ?covered = "\<lambda>n. filter (\<lambda>k. declared (join_with 46 (take k segments))) [Suc 0..<Suc n]"
  have step: "?covered (Suc n) = ?covered n @ (if declared (join_with 46 (take (Suc n) segments)) then [Suc n] else [])" for n
    by simp
  have "split_at_length n segments declared =
     (if ?covered n = [] then None
      else Some (join_with 46 (take (last (?covered n)) segments), drop (last (?covered n)) segments))" for n
    by (induction n) (simp_all add: step Let_def del: upt_Suc)
  then show ?thesis by (simp add: splitDeclaredChain_def Let_def del: upt_Suc)
qed

text \<open>An environment of one variable, which may be null, and expressions over it.\<close>

definition user_type :: cel_type where
  "user_type = TUnion [TRecord None [(js ''name'', TPrimitive PString)] False, TPrimitive PNull]"

definition user_context :: checker_context where
  "user_context = \<lparr>the_registry = [], the_variable = (\<lambda>name. if name = js ''user'' then Some user_type else None),
     declaredVariableNames = [js ''user''],
     the_namespaceFunction = (\<lambda>_ _. None), the_namespaceIsOpen = (\<lambda>_. False), unlistedVariablesAreDyn = False,
     homogeneousAggregateLiterals = True, enableOptionalTypes = True\<rparr>"

text \<open>\<open>user.name\<close>, the guard \<open>user != null\<close>, and \<open>user != null ? user.name : "?"\<close>.\<close>

definition user_name :: node where
  "user_name = NSelect (NIdent (js ''user'') False (0, 4)) (js ''name'') (5, 9) False False (0, 9)"

definition user_guard :: node where
  "user_guard = NBinary OpNe (NIdent (js ''user'') False (0, 4)) (NLiteral LNull (8, 12)) (0, 12)"

definition guarded_name :: node where
  "guarded_name = NConditional user_guard user_name (NLiteral (LString (js ''?'')) (13, 16)) (0, 16)"

definition unguarded_result :: check_result where
  "unguarded_result = \<lparr>check_valid = False, check_type = TPrimitive PString, check_typeName = js ''string'',
     check_diagnostics = [(CEL_NULLABLE_ACCESS, (5, 9), [])], check_calls = []\<rparr>"

definition guarded_result :: check_result where
  "guarded_result = \<lparr>check_valid = True, check_type = TPrimitive PString, check_typeName = js ''string'',
     check_diagnostics = [], check_calls = []\<rparr>"

lemma unguarded_name_is_reported: "checkExpression user_name [] user_context = Inr unguarded_result"
  by code_simp

lemma guarded_name_is_accepted: "checkExpression guarded_name [] user_context = Inr guarded_result"
  by code_simp

lemma user_context_ok: "context_ok user_context"
  by (auto simp: context_ok_def user_context_def user_type_def named_def)

theorem check_answers_witness:
  "everywhere (\<lambda>m. \<not> call_on_inherited m) guarded_name \<and>
   (\<exists>result. checkExpression guarded_name [] user_context = Inr result)"
proof -
  have "everywhere (\<lambda>m. \<not> call_on_inherited m) guarded_name"
    by code_simp
  then show ?thesis using check_answers by blast
qed

theorem check_reports_on_the_tree_witness:
  "(\<exists>found. check_diagnostics unguarded_result = map (\<lambda>rg. (CEL_SYNTAX_ERROR, rg, [])) [] @ found \<and>
      (fst \<circ> snd) ` set found \<subseteq> tree_ranges user_name) \<and>
    call_range ` set (check_calls unguarded_result) \<subseteq> tree_ranges user_name \<and>
    (check_valid unguarded_result \<longleftrightarrow> check_diagnostics unguarded_result = [])"
  by (rule check_reports_on_the_tree [OF unguarded_name_is_reported])

theorem checked_type_is_reportable_witness:
  "type_ok (check_type unguarded_result) \<and> parameterless (check_type unguarded_result) \<and>
    check_typeName unguarded_result = formatType (check_type unguarded_result) True"
  by (rule checked_type_is_reportable [OF user_context_ok unguarded_name_is_reported])

text \<open>An evaluation under which the user is a string.\<close>

fun named_user :: "node \<Rightarrow> cel_value" where
  "named_user (NLiteral l _) = literalValue l"
| "named_user (NIdent _ _ _) = VString (js ''ada'')"
| "named_user _ = VUndefined"

theorem guards_prove_not_null_witness:
  "outcome named_user user_guard = Some True \<and> provenWhereTrue user_guard = [js ''user''] \<and>
     held_chains named_user user_guard (provenWhereTrue user_guard)"
proof -
  have o: "outcome named_user user_guard = Some True" by code_simp
  have p: "provenWhereTrue user_guard = [js ''user'']" by code_simp
  show ?thesis using guards_prove_not_null [OF _ o] o p by simp
qed

text \<open>
  A call written on \<open>constructor\<close> ends the check itself: the table of namespace macros is an object
  literal, what it holds under that name is a function, and a function has no \<open>includes\<close>. A macro
  written on it is taken for one of the optional namespace's.
\<close>

lemma call_on_inherited_name_throws:
  "checkExpression (NReceiverCall (NIdent (js ''constructor'') False (0, 11)) (js ''size'') (12, 16) [] (0, 18)) []
     user_context = Inl NotAFunction"
  by code_simp

lemma macro_on_inherited_name_is_refused:
  "map_sum id check_diagnostics (checkExpression (NReceiverCall (NIdent (js ''constructor'') False (0, 11)) (js ''map'') (12, 15)
       [NIdent (js ''i'') False (16, 17), NIdent (js ''i'') False (19, 20)] (0, 21)) []
     (user_context\<lparr>the_variable := (\<lambda>_. Some (TList (TPrimitive PInt)))\<rparr>)) =
   Inr [(CEL_INVALID_ARGUMENT, (0, 21), [])]"
  by code_simp

end
