(* ===== verification/Cel_Check_Reads.thy ===== *)
theory Cel_Check_Reads
  imports Cel_Check_Sound
begin

text \<open>
  What a check reads of an environment: of the variables, the root references of the expression and the
  dotted names under them (\<open>root-references.ts\<close> against \<open>checker.ts\<close>) and the names of the two
  reserved namespaces, which the references leave out wherever a call is written on one; of the functions, those
  of the names the expression calls and of the operators it uses; of the namespaces, the functions it calls. The
  message of an unknown name reads more: it lists every declared name, or the registered names nearest to it.
\<close>

section \<open>Two environments that agree\<close>

text \<open>The dotted names under the names of a set are declared the same way.\<close>

definition agree_under :: "jstring set \<Rightarrow> (jstring \<Rightarrow> cel_type option) \<Rightarrow> (jstring \<Rightarrow> cel_type option) \<Rightarrow> bool" where
  "agree_under names v v' \<longleftrightarrow> (\<forall>n \<in> names. \<forall>rest. v (join_with 46 (n # rest)) = v' (join_with 46 (n # rest)))"

lemma agree_underD: "agree_under names v v' \<Longrightarrow> n \<in> names \<Longrightarrow> v (join_with 46 (n # rest)) = v' (join_with 46 (n # rest))"
  by (simp add: agree_under_def)

lemma agree_under_name: "agree_under names v v' \<Longrightarrow> n \<in> names \<Longrightarrow> v n = v' n"
  using agree_underD [of names v v' n "[]"] by (simp add: join_with_def)

text \<open>Two environments check under the same options, and answer a node's own call the same way.\<close>

definition same_options :: "checker_context \<Rightarrow> checker_context \<Rightarrow> bool" where
  "same_options c c' \<longleftrightarrow>
     unlistedVariablesAreDyn c' = unlistedVariablesAreDyn c \<and>
     homogeneousAggregateLiterals c' = homogeneousAggregateLiterals c \<and>
     enableOptionalTypes c' = enableOptionalTypes c"

definition same_registered :: "checker_context \<Rightarrow> checker_context \<Rightarrow> jstring \<Rightarrow> bool" where
  "same_registered c c' name \<longleftrightarrow> named (the_registry c') name = named (the_registry c) name"

definition same_functions :: "checker_context \<Rightarrow> checker_context \<Rightarrow> node \<Rightarrow> bool" where
  "same_functions c c' n =
     (case n of
        NUnary symbol _ _ \<Rightarrow> same_registered c c' (unary_symbol symbol)
      | NBinary symbol _ _ _ \<Rightarrow> same_registered c c' (binary_symbol symbol)
      | NCall name _ _ _ \<Rightarrow> same_registered c c' name
      | NReceiverCall _ name _ _ _ \<Rightarrow> same_registered c c' name
      | NQCall namespace _ name _ _ _ \<Rightarrow>
          the_namespaceFunction c' namespace name = the_namespaceFunction c namespace name \<and>
          the_namespaceIsOpen c' namespace = the_namespaceIsOpen c namespace
      | _ \<Rightarrow> True)"

definition bound_names_of :: "check_scope \<Rightarrow> jstring set" where
  "bound_names_of env = \<Union> ((\<lambda>scope. fst ` set scope) ` set (scopes env))"

lemma isBound_names: "isBound env name \<longleftrightarrow> name \<in> bound_names_of env"
  by (auto simp: isBound_def bound_names_of_def list_ex_iff)

lemma bound_names_steps [simp]:
  "bound_names_of (with_proofs env proofs) = bound_names_of env"
  "bound_names_of (with_name env name t) = insert name (bound_names_of env)"
  by (auto simp: bound_names_of_def with_proofs_def with_name_def)

lemma bound_type_None: "bound_type ss name = None \<longleftrightarrow> name \<notin> \<Union> ((\<lambda>scope. fst ` set scope) ` set ss)"
  by (induction ss) (auto split: option.split simp: map_of_eq_None_iff dest: map_of_SomeD intro: rev_image_eqI)

text \<open>What a subexpression reads, given what is bound around it.\<close>

definition reads_in :: "check_scope \<Rightarrow> node \<Rightarrow> jstring set" where
  "reads_in env n = (free_reads n - bound_names_of env) \<union> absolute_reads n \<union> set RESERVED_NAMESPACES"

section \<open>What reads the variables\<close>

lemma identType_agree:
  assumes "agree_under (reads_in env (NIdent name absolute r)) (the_variable c) (the_variable c')" "same_options c c'"
  shows "identType c' env name absolute r = identType c env name absolute r"
proof (cases "absolute \<or> name \<notin> bound_names_of env")
  case True
  then have "the_variable c name = the_variable c' name"
    using agree_under_name [OF assms(1)] by (auto simp: reads_in_def)
  then show ?thesis using assms(2) by (simp add: identType_def same_options_def split: option.split)
next
  case False
  then show ?thesis
    by (auto simp: identType_def bound_names_of_def bound_type_None split: option.split)
qed

lemma plainChain_reads:
  "plainChain n = Some (top_name, absolute, segments) \<Longrightarrow>
     absolute_reads n = (if absolute then {top_name} else {}) \<and> free_reads n = (if absolute then {} else {top_name}) \<and>
     (\<exists>rest. map fst segments = top_name # rest)"
  by (induction n arbitrary: segments rule: plainChain.induct) (auto split: if_splits)

lemma split_at_length_agree:
  "(\<And>rest. declared (join_with 46 (n # rest)) = declared' (join_with 46 (n # rest))) \<Longrightarrow>
     split_at_length k (n # segments) declared = split_at_length k (n # segments) declared'"
  by (induction k) (simp_all add: Let_def)

lemma split_at_length_under:
  "split_at_length k (n # segments) declared = Some (name, rest) \<Longrightarrow> \<exists>more_segments. name = join_with 46 (n # more_segments)"
  by (induction k) (auto simp: Let_def split: if_splits)

lemma qualifiedVariableType_agree:
  assumes "agree_under (reads_in env n) (the_variable c) (the_variable c')"
  shows "qualifiedVariableType c' env n = qualifiedVariableType c env n"
proof (cases "plainChain n")
  case (Some chain)
  then obtain top_name absolute segments where chain: "plainChain n = Some (top_name, absolute, segments)"
    by (cases chain) auto
  note reads = plainChain_reads [OF chain]
  then obtain rest where segments: "map fst segments = top_name # rest" by auto
  show ?thesis
  proof (cases "\<not> absolute \<and> isBound env top_name")
    case True
    then show ?thesis by (simp add: qualifiedVariableType_def chain)
  next
    case False
    then have top: "top_name \<in> reads_in env n" using reads by (auto simp: reads_in_def isBound_names)
    note same = agree_underD [OF assms top]
    have split: "splitDeclaredChain (map fst segments) (\<lambda>name. the_variable c' name \<noteq> None) =
        splitDeclaredChain (map fst segments) (\<lambda>name. the_variable c name \<noteq> None)"
      unfolding splitDeclaredChain_def segments by (rule split_at_length_agree) (simp add: same)
    have "the (the_variable c' name) = the (the_variable c name)"
      if sp: "splitDeclaredChain (map fst segments) (\<lambda>name. the_variable c name \<noteq> None) = Some (name, left)" for name left
    proof -
      obtain more_segments where "name = join_with 46 (top_name # more_segments)"
        using split_at_length_under [OF sp [unfolded splitDeclaredChain_def segments]] by blast
      then show ?thesis using same by simp
    qed
    then show ?thesis using split
      by (auto simp: qualifiedVariableType_def chain False split: option.split)
  qed
qed (simp add: qualifiedVariableType_def)

lemma selectType_agree:
  "agree_under (reads_in env n) (the_variable c) (the_variable c') \<Longrightarrow>
     selectType c' env n operand field fieldRange optional presence m =
     selectType c env n operand field fieldRange optional presence m"
  by (simp add: selectType_def qualifiedVariableType_agree)

section \<open>What reads the functions and the options\<close>

lemma resolve_agree:
  "named r' name = named r name \<Longrightarrow> resolve r' name form args receiver = resolve r name form args receiver"
  by (simp add: resolve_def)

lemma same_call:
  "same_registered c c' symbol \<Longrightarrow> operatorType c' symbol = operatorType c symbol"
  "same_registered c c' name \<Longrightarrow> plainCallType c' name = plainCallType c name"
  by (simp_all add: fun_eq_iff same_registered_def operatorType_def plainCallType_def
      resolve_agree [of "the_registry c'" _ "the_registry c"])

lemma same_namespaced:
  "the_namespaceFunction c' namespace name = the_namespaceFunction c namespace name \<Longrightarrow>
     the_namespaceIsOpen c' namespace = the_namespaceIsOpen c namespace \<Longrightarrow>
     qualifiedCallType c' namespace name = qualifiedCallType c namespace name"
  by (simp add: fun_eq_iff qualifiedCallType_def)

lemma same_reduced: "same_options c c' \<Longrightarrow> reduce_written c' = reduce_written c"
  by (simp add: fun_eq_iff same_options_def reduce_written_def)

section \<open>The arguments of a call\<close>

lemma reads_of_argument:
  assumes "bound_variable receiver name args = None" "m \<in> set args"
  shows "reads_in env m \<subseteq> reads_in env (NReceiverCall receiver name nr args r)"
  using assms by (auto simp: reads_in_def call_reads)

lemma reads_of_receiver: "reads_in env receiver \<subseteq> reads_in env (NReceiverCall receiver name nr args r)"
  by (cases receiver) (auto simp: reads_in_def call_reads onNamespace_def)

lemma reads_of_scoped:
  assumes "bound_variable receiver name args = Some (binding, variable)" "pos \<in> set (scopedArguments binding)"
    "pos < length args" "variableArgument binding \<notin> set (scopedArguments binding)"
  shows "reads_in (with_name env variable t) (args ! pos) \<subseteq> reads_in env (NReceiverCall receiver name nr args r)"
  using assms by (auto simp: reads_in_def call_reads)

lemma reads_of_unscoped:
  assumes "bound_variable receiver name args = Some (binding, variable)" "pos \<notin> set (scopedArguments binding)"
    "pos < length args" "pos \<noteq> variableArgument binding"
  shows "reads_in env (args ! pos) \<subseteq> reads_in env (NReceiverCall receiver name nr args r)"
  using assms by (auto simp: reads_in_def call_reads)

lemma check_each_cong': "(\<And>x. x \<in> set xs \<Longrightarrow> f x = g x) \<Longrightarrow> check_each f xs = check_each g xs"
  by (rule check_each_cong) simp_all

section \<open>The walk\<close>

lemma agree_under_subset: "agree_under names v v' \<Longrightarrow> names' \<subseteq> names \<Longrightarrow> agree_under names' v v'"
  by (auto simp: agree_under_def)

lemma ident_entry_cel: "ident_entry receiver = namespace_entry_of (js ''cel'') \<Longrightarrow> \<exists>absolute r. receiver = NIdent (js ''cel'') absolute r"
  by (cases receiver) (auto simp: ident_entry_def namespace_entry_of_def split: if_splits)

lemma ident_entry_NoEntry: "ident_entry receiver = NoEntry \<Longrightarrow> call_binding receiver name n = receiverMacroBinding name n"
  by (cases receiver)
    (auto simp: ident_entry_def namespace_entry_of_def call_binding_def RESERVED_NAMESPACES_def split: if_splits)

lemma plain_call_binds_nothing:
  "isReceiverMacro receiver name (length args) = Some False \<Longrightarrow> bound_variable receiver name args = None"
  by (cases receiver)
    (auto simp: isReceiverMacro_def ident_entry_def namespace_entry_of_def bound_variable_def call_binding_def
      RESERVED_NAMESPACES_def namespaceMacroBinding_def NAMESPACE_MACROS_def split: if_splits option.splits)

lemma single_argument_binds_nothing: "bound_variable receiver name [m] = None"
  by (cases receiver)
    (auto simp: bound_variable_def call_binding_def namespaceMacroBinding_def NAMESPACE_MACROS_def
      receiverMacroBinding_def RECEIVER_MACROS_def)

lemma receiver_call_agree:
  assumes same: "\<And>env' m. m \<in> set (receiver # args) \<Longrightarrow>
      reads_in env' m \<subseteq> reads_in env (NReceiverCall receiver name nr args r) \<Longrightarrow>
      typeOf c' env' m = typeOf c env' m"
    and registered: "same_registered c c' name" and options: "same_options c c'"
  shows "typeOf c' env (NReceiverCall receiver name nr args r) =
    typeOf c env (NReceiverCall receiver name nr args r)"
proof -
  let ?n = "NReceiverCall receiver name nr args r"
  have recv: "typeOf c' env receiver = typeOf c env receiver" using same reads_of_receiver by simp
  show ?thesis
  proof (cases "isReceiverMacro receiver name (length args)")
    case None
    then show ?thesis by simp
  next
    case (Some macro)
    show ?thesis
    proof (cases macro)
      case False
      then have "bound_variable receiver name args = None" using plain_call_binds_nothing Some by simp
      then have "check_each (typeOf c' env) args = check_each (typeOf c env) args"
        by (intro check_each_cong' same) (auto dest: reads_of_argument)
      then show ?thesis using recv Some False same_call(2) [OF registered] by simp
    next
      case True
      have macro: "isReceiverMacro receiver name (length args) = Some True" using Some True by simp
      have bind: "(case args of
              [NIdent variable _ _, v, body] \<Rightarrow>
                then_check (typeOf c' env v) (\<lambda>t. typeOf c' (with_name env variable t) body)
            | _ \<Rightarrow> answer TDyn) =
          (case args of
              [NIdent variable _ _, v, body] \<Rightarrow>
                then_check (typeOf c env v) (\<lambda>t. typeOf c (with_name env variable t) body)
            | _ \<Rightarrow> answer TDyn)"
        if entry: "ident_entry receiver = namespace_entry_of (js ''cel'')"
          and b: "namespaceMacroBinding (js ''cel'') name (length args) = Some binding" for binding
      proof (cases "\<exists>variable ab vr v body. args = [NIdent variable ab vr, v, body]")
        case args: True
        then obtain variable ab vr v body where args: "args = [NIdent variable ab vr, v, body]" by blast
        have bv: "bound_variable receiver name args = Some (binding, variable)"
          using ident_entry_cel [OF entry] b namespaceMacroBinding_Some [OF b]
          by (auto simp: bound_variable_def call_binding_def RESERVED_NAMESPACES_def args at_index_def)
        note at = namespaceMacroBinding_Some [OF b]
        have "typeOf c' env v = typeOf c env v"
          using same [of v] reads_of_unscoped [OF bv, of 1] at by (simp add: args)
        moreover have "typeOf c' (with_name env variable t) body = typeOf c (with_name env variable t) body" for t
          using same [of body] reads_of_scoped [OF bv, of 2] at by (simp add: args)
        ultimately show ?thesis by (simp add: args)
      qed (auto split: list.split node.split)
      have one: "(case args of
              [v] \<Rightarrow> then_check (typeOf c' env v) (\<lambda>t. answer (TOptional t))
            | _ \<Rightarrow> then_check (add_finding CEL_INVALID_ARGUMENT r) (\<lambda>_. answer (TOptional TDyn))) =
          (case args of
              [v] \<Rightarrow> then_check (typeOf c env v) (\<lambda>t. answer (TOptional t))
            | _ \<Rightarrow> then_check (add_finding CEL_INVALID_ARGUMENT r) (\<lambda>_. answer (TOptional TDyn)))"
      proof -
        have "typeOf c' env v = typeOf c env v" if "args = [v]" for v
          using same [of v] reads_of_argument [OF single_argument_binds_nothing, of v v] by (simp add: that)
        then show ?thesis by (auto split: list.split)
      qed
      have optional_binding: "(case args of
                 [NIdent variable _ _, body] \<Rightarrow>
                   then_check (optional_held t (range_of receiver)) (\<lambda>held.
                   then_check (typeOf c' (with_name env variable held) body) (\<lambda>result.
                     optional_result name result (range_of body)))
               | _ \<Rightarrow> answer TDyn) =
           (case args of
                 [NIdent variable _ _, body] \<Rightarrow>
                   then_check (optional_held t (range_of receiver)) (\<lambda>held.
                   then_check (typeOf c (with_name env variable held) body) (\<lambda>result.
                     optional_result name result (range_of body)))
               | _ \<Rightarrow> answer TDyn)"
        if entry: "ident_entry receiver = NoEntry" and nm: "name \<in> {js ''optMap'', js ''optFlatMap''} \<and> length args = 2" for t
      proof (cases "\<exists>variable ab vr body. args = [NIdent variable ab vr, body]")
        case args: True
        then obtain variable ab vr body where args: "args = [NIdent variable ab vr, body]" by blast
        obtain binding where b: "receiverMacroBinding name (length args) = Some binding"
          using nm by (auto simp: receiverMacroBinding_def RECEIVER_MACROS_def)
        note at = receiverMacroBinding_Some [OF b]
        have bv: "bound_variable receiver name args = Some (binding, variable)"
          using ident_entry_NoEntry [OF entry, of name "length args"] b at
          by (simp add: bound_variable_def args at_index_def)
        have scoped: "1 \<in> set (scopedArguments binding)" "variableArgument binding \<notin> set (scopedArguments binding)"
          using at by (auto simp: args)
        have "typeOf c' (with_name env variable t) body = typeOf c (with_name env variable t) body" for t
          using same [of body "with_name env variable t"]
            reads_of_scoped [OF bv scoped(1) _ scoped(2), of env t nr r] by (simp add: args)
        then show ?thesis by (simp add: args)
      qed (auto split: list.split node.split)
      have comprehension: "(case at_index args (variableArgument binding) of
                      Some (NIdent variable _ _) \<Rightarrow>
                        then_check (check_each (typeOf c' (with_name env variable element)) (scoped_nodes binding args))
                          (\<lambda>types. comprehension_result name element (zip (scoped_nodes binding args) types))
                    | _ \<Rightarrow> answer TDyn) =
           (case at_index args (variableArgument binding) of
                      Some (NIdent variable _ _) \<Rightarrow>
                        then_check (check_each (typeOf c (with_name env variable element)) (scoped_nodes binding args))
                          (\<lambda>types. comprehension_result name element (zip (scoped_nodes binding args) types))
                    | _ \<Rightarrow> answer TDyn)"
        if entry: "ident_entry receiver = NoEntry" and b: "receiverMacroBinding name (length args) = Some binding"
        for element binding
      proof (cases "\<exists>variable ab vr. at_index args (variableArgument binding) = Some (NIdent variable ab vr)")
        case v: True
        then obtain variable ab vr where v: "at_index args (variableArgument binding) = Some (NIdent variable ab vr)" by blast
        note at = receiverMacroBinding_Some [OF b]
        have bv: "bound_variable receiver name args = Some (binding, variable)"
          using ident_entry_NoEntry [OF entry, of name "length args"] b v by (simp add: bound_variable_def)
        have "check_each (typeOf c' (with_name env variable element)) (scoped_nodes binding args) =
            check_each (typeOf c (with_name env variable element)) (scoped_nodes binding args)"
        proof (rule check_each_cong')
          fix m assume "m \<in> set (scoped_nodes binding args)"
          then obtain pos where pos: "pos \<in> set (scopedArguments binding)" "pos < length args" "m = args ! pos"
            by (auto simp: scoped_nodes_def List.map_filter_def at_index_def split: if_splits)
          have "variableArgument binding \<notin> set (scopedArguments binding)" using at by auto
          from reads_of_scoped [OF bv pos(1,2) this, of env element nr r]
          show "typeOf c' (with_name env variable element) m = typeOf c (with_name env variable element) m"
            using same [of m "with_name env variable element"] pos(2,3) by simp
        qed
        then show ?thesis by (simp add: v)
      qed (auto split: option.split node.split)
      have flag: "enableOptionalTypes c' = enableOptionalTypes c" using options by (simp add: same_options_def)
      show ?thesis
      proof (cases "ident_entry receiver = NoEntry")
        case entry: True
        show ?thesis
        proof (cases "name \<in> {js ''optMap'', js ''optFlatMap''} \<and> length args = 2")
          case nm: True
          show ?thesis
            unfolding typeOf.simps macro option.case bool.case flag recv optional_binding [OF entry nm]
            by (simp only: entry nm if_True if_False simp_thms)
        next
          case nm: False
          show ?thesis
            unfolding typeOf.simps macro option.case bool.case flag recv
            using comprehension [OF entry] by (cases "receiverMacroBinding name (length args)")
              (simp_all only: entry nm if_True if_False simp_thms option.case)
        qed
      next
        case entry: False
        show ?thesis
          unfolding typeOf.simps macro option.case bool.case flag one
          using bind by (cases "namespaceMacroBinding (js ''cel'') name (length args)")
            (simp_all only: entry if_True if_False simp_thms option.case cong: if_cong)
      qed
    qed
  qed
qed

lemma reads_in_proofs [simp]: "reads_in (with_proofs env proofs) = reads_in env"
  by (rule ext) (simp add: reads_in_def)

lemma typeOf_agree:
  "agree_under (reads_in env n) (the_variable c) (the_variable c') \<Longrightarrow> same_options c c' \<Longrightarrow>
     everywhere (same_functions c c') n \<Longrightarrow> typeOf c' env n = typeOf c env n"
proof (induction n arbitrary: env rule: measure_induct_rule [of size])
  case (less n)
  note calls_ok = less.prems(3) [unfolded everywhere_rec [of _ n]]
  have same: "typeOf c' env' m = typeOf c env' m"
    if "size m < size n" "reads_in env' m \<subseteq> reads_in env n" "everywhere (same_functions c c') m" for env' m
    using less.IH [OF that(1) agree_under_subset [OF less.prems(1) that(2)] less.prems(2) that(3)] .
  have kid: "typeOf c' env' m = typeOf c env' m"
    if "m \<in> set (childNodes n)" "reads_in env' m \<subseteq> reads_in env n" for env' m
    using same [OF size_childNodes [OF that(1)] that(2)] calls_ok that(1) by blast
  show ?case
  proof (cases n)
    case (NIdent name absolute r)
    then show ?thesis using identType_agree less.prems(1,2) by simp
  next
    case (NList elements r)
    have "typeOf c' env (fst p) = typeOf c env (fst p)" if "p \<in> set elements" for p
      by (rule kid) (use that in \<open>auto simp: NList reads_in_def\<close>)
    then have "check_each (\<lambda>(m, optional). then_check (typeOf c' env m) (\<lambda>t.
          if optional then heldByOptional t (range_of m) else answer t)) elements =
        check_each (\<lambda>(m, optional). then_check (typeOf c env m) (\<lambda>t.
          if optional then heldByOptional t (range_of m) else answer t)) elements"
      by (intro check_each_cong') (auto simp: case_prod_unfold)
    then show ?thesis by (simp add: NList same_reduced [OF less.prems(2)])
  next
    case (NMap entries r)
    have members: "fst p \<in> set (childNodes n)" "fst (snd p) \<in> set (childNodes n)" if "p \<in> set entries" for p
      using that unfolding NMap NMap_children by blast+
    have "typeOf c' env (fst p) = typeOf c env (fst p)" "typeOf c' env (fst (snd p)) = typeOf c env (fst (snd p))"
      if "p \<in> set entries" for p
      by (rule kid [OF members(1) [OF that]], use that in \<open>auto simp: NMap reads_in_def\<close>)
        (rule kid [OF members(2) [OF that]], use that in \<open>auto simp: NMap reads_in_def\<close>)
    then have "check_each (\<lambda>(key, _, _). typeOf c' env key) entries = check_each (\<lambda>(key, _, _). typeOf c env key) entries"
      "check_each (\<lambda>(_, m, optional). then_check (typeOf c' env m) (\<lambda>t.
          if optional then heldByOptional t (range_of m) else answer t)) entries =
        check_each (\<lambda>(_, m, optional). then_check (typeOf c env m) (\<lambda>t.
          if optional then heldByOptional t (range_of m) else answer t)) entries"
      by (auto intro!: check_each_cong' simp: case_prod_unfold)
    then show ?thesis by (simp add: NMap same_reduced [OF less.prems(2)])
  next
    case (NSelect operand field fieldRange optional quoted r)
    have "typeOf c' env operand = typeOf c env operand"
      by (rule kid) (simp_all add: NSelect reads_in_def)
    then show ?thesis using selectType_agree [OF less.prems(1)] by (simp add: NSelect)
  next
    case (NIndex operand index optional r)
    have "typeOf c' env operand = typeOf c env operand" "typeOf c' env index = typeOf c env index"
      by (rule kid; auto simp: NIndex reads_in_def)+
    then show ?thesis by (simp add: NIndex)
  next
    case (NUnary symbol operand r)
    have "typeOf c' env operand = typeOf c env operand" by (rule kid) (simp_all add: NUnary reads_in_def)
    moreover have "same_registered c c' (unary_symbol symbol)" using calls_ok by (simp add: NUnary same_functions_def)
    ultimately show ?thesis by (simp add: NUnary same_call(1))
  next
    case (NBinary symbol left right r)
    have "typeOf c' env' left = typeOf c env' left" "typeOf c' env' right = typeOf c env' right"
      if "reads_in env' = reads_in env" for env'
      by (rule kid; auto simp: NBinary that; auto simp: reads_in_def)+
    moreover have "same_registered c c' (binary_symbol symbol)" using calls_ok by (simp add: NBinary same_functions_def)
    ultimately show ?thesis by (simp add: NBinary same_call(1))
  next
    case (NConditional condition whenTrue whenFalse r)
    have "typeOf c' env' condition = typeOf c env' condition" "typeOf c' env' whenTrue = typeOf c env' whenTrue"
      "typeOf c' env' whenFalse = typeOf c env' whenFalse"
      if "reads_in env' = reads_in env" for env'
      by (rule kid; auto simp: NConditional that; auto simp: reads_in_def)+
    then show ?thesis by (simp add: NConditional)
  next
    case (NCall name nr args r)
    have args: "reads_in env m \<subseteq> reads_in env n" if "m \<in> set args" for m
      using that by (auto simp: NCall reads_in_def)
    have "selectType c' env (NSelect operand field fieldRange optional quoted r) operand field
          fieldRange optional True (typeOf c' env operand) =
        selectType c env (NSelect operand field fieldRange optional quoted r) operand field
          fieldRange optional True (typeOf c env operand)"
      if a: "args = [NSelect operand field fieldRange optional quoted r]" for operand field fieldRange optional quoted r
    proof -
      let ?s = "NSelect operand field fieldRange optional quoted r"
      have "reads_in env operand \<subseteq> reads_in env n" using args [of ?s] by (simp add: a reads_in_def)
      moreover have "everywhere (same_functions c c') operand"
        using calls_ok everywhere_rec [of _ ?s] by (auto simp: NCall a)
      ultimately have "typeOf c' env operand = typeOf c env operand" by (intro same) (simp_all add: NCall a)
      then show ?thesis
        using selectType_agree [OF agree_under_subset [OF less.prems(1) args [of ?s]]] by (simp add: a)
    qed
    moreover have "check_each (typeOf c' env) args = check_each (typeOf c env) args"
      by (intro check_each_cong' kid args) (simp_all add: NCall)
    moreover have "same_registered c c' name" using calls_ok by (simp add: NCall same_functions_def)
    ultimately show ?thesis by (auto simp: NCall same_call(2) split: list.split node.split)
  next
    case (NReceiverCall receiver name nr args r)
    show ?thesis unfolding NReceiverCall
    proof (rule receiver_call_agree)
      show "same_registered c c' name" using calls_ok by (simp add: NReceiverCall same_functions_def)
    qed (rule kid less.prems; simp add: NReceiverCall)+
  next
    case (NQCall namespace nsr name nr args r)
    have "check_each (typeOf c' env) args = check_each (typeOf c env) args"
      by (intro check_each_cong' kid) (auto simp: NQCall reads_in_def)
    moreover have "qualifiedCallType c' namespace name = qualifiedCallType c namespace name"
      using calls_ok by (intro same_namespaced) (simp_all add: NQCall same_functions_def)
    ultimately show ?thesis by (simp add: NQCall)
  qed simp_all
qed

section \<open>Properties\<close>

lemma rootReferences_reads: "set (rootReferences n) = absolute_reads n \<union> free_reads n"
proof -
  have "counts_binders (fst (Map.empty :: bound_names, []))" by (simp add: counts_binders_def)
  from addsD(2) [OF collect_adds [of n] this] show ?thesis by (simp add: rootReferences_def)
qed

text \<open>The answer of a check without what the messages of unknown names list.\<close>

definition unlisted :: "check_result \<Rightarrow> check_result" where
  "unlisted result = result\<lparr>check_diagnostics := map (\<lambda>(cd, rg, names).
     (cd, rg, if cd = CEL_UNKNOWN_IDENTIFIER \<or> cd = CEL_UNKNOWN_FUNCTION then [] else names)) (check_diagnostics result)\<rparr>"

lemma unlisted_diagnostic:
  "(\<lambda>(cd, rg, names). (cd, rg, if cd = CEL_UNKNOWN_IDENTIFIER \<or> cd = CEL_UNKNOWN_FUNCTION then [] else names))
     (diagnostic_of c' finding) =
   (\<lambda>(cd, rg, names). (cd, rg, if cd = CEL_UNKNOWN_IDENTIFIER \<or> cd = CEL_UNKNOWN_FUNCTION then [] else names))
     (diagnostic_of c finding)"
  by (auto simp: diagnostic_of_def listed_names_def case_prod_unfold split: alternatives.split)


text \<open>\<open>frob(user.name, other)\<close>, in the environment of one variable and in one that declares more.\<close>

definition frob_call :: node where
  "frob_call = NCall (js ''frob'') (0, 4) [user_name, NIdent (js ''other'') False (16, 21)] (0, 22)"

definition wider_context :: checker_context where
  "wider_context = user_context\<lparr>the_variable := (the_variable user_context)(js ''z'' \<mapsto> TDyn),
     declaredVariableNames := [js ''z'', js ''user''], the_registry := sample_registry\<rparr>"


text \<open>What the messages of the two checks list.\<close>

lemma unknown_names_list_the_environment:
  "map_sum id check_diagnostics (checkExpression frob_call [] user_context) =
     Inr [(CEL_NULLABLE_ACCESS, (5, 9), []), (CEL_UNKNOWN_IDENTIFIER, (16, 21), [js ''user'']),
       (CEL_UNKNOWN_FUNCTION, (0, 22), [])]"
  "map_sum id check_diagnostics (checkExpression frob_call [] wider_context) =
     Inr [(CEL_NULLABLE_ACCESS, (5, 9), []), (CEL_UNKNOWN_IDENTIFIER, (16, 21), [js ''user'', js ''z'']),
       (CEL_UNKNOWN_FUNCTION, (0, 22), [js ''pick'', js ''same''])]"
  by code_simp+

text \<open>
  A call on a reserved namespace that is no macro is typed as a call on a value, so what the host declares under
  the namespace's name decides the verdict, and \<open>rootReferences\<close> does not name it.
\<close>

lemma reserved_name_is_read_and_not_referenced:
  "rootReferences (NReceiverCall (NIdent (js ''cel'') False (0, 3)) (js ''size'') (4, 8) [] (0, 10)) = [] \<and>
   map_sum id (map fst \<circ> check_diagnostics) (checkExpression
     (NReceiverCall (NIdent (js ''cel'') False (0, 3)) (js ''size'') (4, 8) [] (0, 10)) [] user_context) =
     Inr [CEL_UNKNOWN_IDENTIFIER, CEL_UNKNOWN_FUNCTION] \<and>
   map_sum id (map fst \<circ> check_diagnostics) (checkExpression
     (NReceiverCall (NIdent (js ''cel'') False (0, 3)) (js ''size'') (4, 8) [] (0, 10)) []
     (user_context\<lparr>the_variable := [js ''cel'' \<mapsto> STRING]\<rparr>)) = Inr [CEL_UNKNOWN_FUNCTION]"
  by code_simp

end
