(* ===== verification/Spec2Isabelle.thy ===== *)
theory Spec2Isabelle
  imports Cel_Time Cel_Value Cel_Names Version_Range Cel_Reading Cel_Parse_Total Durable_Workflow Cel_Check_Reads
begin

text \<open>
  A verification library for Telo, a runtime for declarative applications written in YAML.

  A manifest names resources and wires them with expressions of a language of its own, CEL. The engine of
  that language (\<open>cel/nodejs\<close>) scans and parses an expression, resolves the names in it, evaluates it
  over its own value domain and can write a tree back as text. The analyzer (\<open>analyzer/nodejs\<close>) checks a
  manifest before it runs and among other things decides which versions of a module satisfy a requirement.
  The kernel runs the application, and long work runs on a durable runtime (\<open>modules/durable-local\<close>)
  that records every answer in a journal, so that a run interrupted by a crash or by a wait goes on from what
  was recorded. The journal is a contract of twelve operations with one implementation on files and one on
  PostgreSQL.

  Conventions. A JavaScript string is its list of UTF-16 code units (\<open>jstring\<close>), a number is an IEEE
  double built from its sign, mantissa and exponent (\<open>double\<close> of \<open>Js_Number\<close>), a bigint is an
  \<open>int\<close> whose 64-bit range is checked where the code checks it. A function that can throw returns a
  sum whose left side is the error; messages and source positions in messages are left out, error codes and
  reasons are not. State that the code mutates is a record passed and returned. What the host provides and the
  sources do not define, such as the rules of a named time zone, the case conversion of identifiers of other
  scripts or a registry of functions, is an argument of the definitions that use it.

  The theories, in the order the code composes them:

  \<^item> \<open>Telo_Prelude\<close>: strings, slices, sums, truncating division; the lemmas every component shares.
  \<^item> \<open>Js_Number\<close>: IEEE doubles, \<open>Number(text)\<close> and \<open>String(number)\<close>, with the
    proof that the shortest text of a double reads back as that double.
  \<^item> \<open>Cel_Syntax\<close> (\<open>syntax-tree.ts\<close>, \<open>tree-equality.ts\<close>, \<open>reserved-words.ts\<close>): trees,
    their walk and their equality, which is shown to be equality up to source ranges.
  \<^item> \<open>Cel_Lexer\<close> (\<open>lexer.ts\<close>): every token, escape and literal form, each reading shown to move on.
  \<^item> \<open>Cel_Parser\<close> and \<open>Cel_Parse_Total\<close> (\<open>parser.ts\<close>, \<open>parse-limits.ts\<close>): the
    recursive descent, with fuel for its mutual recursion. The fuel spent is bounded by the number of
    tokens, so the parser answers every source, and a tree without diagnostics is within the limits.
  \<^item> \<open>Cel_Serializer\<close> and \<open>Cel_Reading\<close> (\<open>serializer.ts\<close>): the text of a tree, and the proof that
    the scanner reads it as exactly the tokens it was written from.
  \<^item> \<open>Cel_Names\<close> (\<open>namespace-resolution.ts\<close>, \<open>comprehension-bindings.ts\<close>,
    \<open>root-references.ts\<close>): which calls are calls of a namespace, which names an expression reads.
  \<^item> \<open>Cel_Calendar\<close> and \<open>Cel_Time\<close> (\<open>timestamp-value.ts\<close>, \<open>duration-value.ts\<close>): the civil calendar, shown to count days one at a time, instants and spans,
    their ranges and their texts, which read back.
  \<^item> \<open>Cel_Value\<close> (\<open>cel-value.ts\<close>, \<open>integer-arithmetic.ts\<close>, \<open>value-equality.ts\<close>,
    \<open>cel-map-value.ts\<close>): values, checked arithmetic, ordering and equality, maps by the identity of keys.
  \<^item> \<open>Module_Versions\<close> and \<open>Version_Range\<close> (\<open>module-version-order.ts\<close>,
    \<open>version-range.ts\<close>): the order of versions and the intervals of a range.
  \<^item> \<open>Durable_Journal\<close> (\<open>durable-local/journal.ts\<close>): the contract of a journal as the locales
    \<open>durable_journal\<close> and \<open>guarded_journal\<close>, with what follows for every implementation.
  \<^item> \<open>Journal_File\<close> (\<open>durable-journal-file\<close>): the files and their lines, what a crash in the middle of
    a write leaves, and the interpretation of the contract.
  \<^item> \<open>Journal_Postgres\<close> (\<open>durable-journal-postgres\<close>): the tables and the transaction of a step, and the
    interpretation of the contract.
  \<^item> \<open>Durable_Handle\<close> (\<open>sdk/durable-run.ts\<close>, \<open>durable-suspension.ts\<close>,
    \<open>durable-local/run-handle.ts\<close>): the seam a run is recorded through, over any journal. A handle is
    \<open>in_step\<close> with its journal when it holds exactly what the journal would answer, and every operation
    keeps it so.
  \<^item> \<open>Step_Engine\<close> (\<open>step-engine.ts\<close>, \<open>invoke-step.ts\<close>, \<open>step-predicate.ts\<close>,
    \<open>emitted-step.ts\<close>): the step grammar, its control flow, its attempts and waits. What an expression
    evaluates to and what a call answers are fields of the context, as they are in the code.
  \<^item> \<open>Js_Object\<close>, \<open>Json_Text\<close> and \<open>Plain_Encoding\<close>: what the host language gives the encodings. Objects
    whose whole-number names come first and whose \<open>__proto__\<close> is no member, \<open>JSON.stringify\<close> and
    \<open>JSON.parse\<close> with the proof that the text of a value reads back, base64, RFC 3339 instants and durations
    (\<open>sdk/plain-encoding.ts\<close>).
  \<^item> \<open>Typed_Frame\<close> and \<open>Frame_Domain\<close> (\<open>sdk/typed-frame.ts\<close>): values as text that keeps their types. A
    frame reads back as its value, two values never share one, a value has a frame exactly when it is of the
    domain all through, and what is read from any text is of the domain.
  \<^item> \<open>Recorded_Value\<close> (\<open>sdk/recorded-value.ts\<close>): the values a journal holds, as frames.
  \<^item> \<open>Durable_Workflow\<close> (\<open>durable-local/workflow.ts\<close>, \<open>resumer.ts\<close>, \<open>deliver.ts\<close>,
    \<open>cancel.ts\<close>, \<open>resume.ts\<close>, \<open>schedule.ts\<close>, \<open>status.ts\<close>, \<open>result.ts\<close>,
    \<open>run-id.ts\<close>): starting, sweeping, delivering to, cancelling and settling runs over any journal.
  \<^item> \<open>Durable_Replay\<close>: what these give together for a run: nothing recorded is lost, a completed run
    answers the same from its journal alone, and the places where a run is not what was recorded.

  \<^item> \<open>Cel_Type\<close> (\<open>cel-type.ts\<close>): the types, their equality, assignability and union, and
    unification, which is shown to be the least upper bound of an order (the locale \<open>joins\<close>).
  \<^item> \<open>Cel_Type_Text\<close> (\<open>type-expression.ts\<close>, \<open>signature.ts\<close>, \<open>nominal-type.ts\<close>): types and
    signatures read from text and written back, and the named types a host registers.
  \<^item> \<open>Cel_Registry\<close> (\<open>function-registry.ts\<close>): the functions of an environment as a map of calls, the
    resolution of a call with its type parameters, and the nearest names offered for one nothing registers.
  \<^item> \<open>Cel_Checker\<close> (\<open>checker.ts\<close>, \<open>macro-check.ts\<close>, \<open>macro-shape.ts\<close>,
    \<open>declared-chain.ts\<close>, \<open>nullable-access.ts\<close>): the walk that types an expression, reports its
    mistakes and lists its calls. The diagnostics and calls found so far are its state, the names bound and the
    chains proven not null its arguments; that the check itself can throw is the left side of its answer.
    \<open>Cel_Check_Sound\<close> shows what a check ensures: it answers, it only adds and only on ranges of the
    tree, its type is well formed, and a guard proves what it is taken to prove. \<open>Cel_Check_Reads\<close> shows
    that it reads nothing of the environment's variables but the root references of \<open>Cel_Names\<close>.

  Bounds and fuel. The parser's fuel is a bound on the depth of its recursion computed from the number of
  tokens; \<open>parseSyntax_answers\<close> shows it is never used up. The engine's fuel
  counts its steps: \<open>body_without_loops_answers\<close> shows that any fuel past the size of a body without a
  loop gives the one answer, and \<open>run_task_fuel\<close> that more fuel never changes an answer. A caller waiting for
  a result polls until its deadline: \<open>result_loop_answers\<close> shows how many polls are enough. Every other
  recursion is shown to end.

  Not modelled. The wording of diagnostics and the repairs they offer; types read from JSON schemas, the tables
  of the standard library, and the evaluator's backends; the kernel, the analyzer beyond versions, the command line, the editor tooling, the runners and
  the web applications, which are input and output, presentation, or glue over libraries that are not in the
  repository; the Rust ports.
\<close>

end
